(* ===== verification/Go_Prelude.thy ===== *)
theory Go_Prelude
  imports Main "HOL-Library.Word" "HOL-Library.Sublist" "HOL-Library.List_Lexorder"
    "HOL-Library.Char_ord" "HOL-Library.Multiset"
begin

text \<open>
  Shared vocabulary of the development: the machine types of the Go sources, the functions of
  Go's \<^verbatim>\<open>strings\<close>, \<^verbatim>\<open>path\<close>, \<^verbatim>\<open>strconv\<close> and \<^verbatim>\<open>sort\<close> packages the sources call, and Go maps as
  association lists with distinct keys.

  Conventions.
  \<^item> A Go \<^verbatim>\<open>string\<close> is a \<^typ>\<open>string\<close> of bytes; a \<^verbatim>\<open>[]byte\<close> is a list of 8-bit words. White space
    and case conversion are those of the ASCII range.
  \<^item> \<^verbatim>\<open>uint64\<close> is a 64-bit word. \<^verbatim>\<open>int64\<close> and \<^verbatim>\<open>int32\<close> values are \<^typ>\<open>int\<close>s; where the source's
    arithmetic can leave the range, the result goes through \<open>int64\<close>, which wraps.
  \<^item> A Go map is an association list with distinct keys. The order of the list is the iteration
    order of one \<^verbatim>\<open>range\<close> loop, which Go leaves unspecified: a result that does not depend on it
    is invariant under permuting the list.
\<close>

section \<open>Fact collections\<close>

named_theorems go_map_simps \<open>lookups after the updates of a Go map\<close>
named_theorems ix_simps \<open>what an index operation does to the tables\<close>
named_theorems eng_simps \<open>fields an engine operation leaves alone\<close>

section \<open>Machine types\<close>

type_synonym byte = "8 word"
type_synonym uint32 = "32 word"
type_synonym uint64 = "64 word"

definition int64 :: "int \<Rightarrow> int" where
  "int64 x = (x + 2 ^ 63) mod 2 ^ 64 - 2 ^ 63"

section \<open>Results\<close>

datatype go_error =
    Panic                   \<comment> \<open>a run-time panic: assignment to an entry of a nil map\<close>
  | DBError                 \<comment> \<open>an error returned by the database driver\<close>
  | IOError                 \<comment> \<open>an error returned by the filesystem\<close>
  | NotExist                \<comment> \<open>the filesystem's ENOENT\<close>
  | Err string              \<comment> \<open>an error built by the code itself\<close>

fun res_bind :: "go_error + 'a \<Rightarrow> ('a \<Rightarrow> go_error + 'b) \<Rightarrow> go_error + 'b" where
  "res_bind (Inl e) f = Inl e"
| "res_bind (Inr x) f = f x"

section \<open>Go maps\<close>

type_synonym ('k, 'v) gomap = "('k \<times> 'v) list"

definition mkeys :: "('k, 'v) gomap \<Rightarrow> 'k list" where
  "mkeys m = map fst m"

definition mget :: "('k, 'v) gomap \<Rightarrow> 'k \<Rightarrow> 'v option" where
  "mget m k = map_of m k"

fun mset_at :: "('k, 'v) gomap \<Rightarrow> 'k \<Rightarrow> 'v \<Rightarrow> ('k, 'v) gomap" where
  "mset_at [] k v = [(k, v)]"
| "mset_at ((k', v') # m) k v = (if k' = k then (k, v) # m else (k', v') # mset_at m k v)"

definition mdelete :: "('k, 'v) gomap \<Rightarrow> 'k \<Rightarrow> ('k, 'v) gomap" where
  "mdelete m k = filter (\<lambda>(k', _). k' \<noteq> k) m"

definition mwf :: "('k, 'v) gomap \<Rightarrow> bool" where
  "mwf m \<longleftrightarrow> distinct (mkeys m)"

lemma mget_Nil [simp]: "mget [] k = None"
  by (simp add: mget_def)

lemma mget_Cons [simp]: "mget ((k', v) # m) k = (if k' = k then Some v else mget m k)"
  by (simp add: mget_def)

lemma mkeys_Nil [simp]: "mkeys [] = []"
  by (simp add: mkeys_def)

lemma mkeys_Cons [simp]: "mkeys ((k, v) # m) = k # mkeys m"
  by (simp add: mkeys_def)

lemma mget_mset_at [simp, go_map_simps]: "mget (mset_at m k v) k' = (if k' = k then Some v else mget m k')"
  by (induction m k v rule: mset_at.induct) auto

lemma set_mkeys_mset_at [simp]: "set (mkeys (mset_at m k v)) = insert k (set (mkeys m))"
  by (induction m k v rule: mset_at.induct) auto

lemma mwf_Nil [simp]: "mwf []"
  by (simp add: mwf_def)

lemma mwf_Cons [simp]: "mwf ((k, v) # m) \<longleftrightarrow> k \<notin> set (mkeys m) \<and> mwf m"
  by (simp add: mwf_def)

lemma mwf_mset_at [simp, intro]: "mwf m \<Longrightarrow> mwf (mset_at m k v)"
  by (induction m k v rule: mset_at.induct) auto

lemma mget_mdelete [simp, go_map_simps]: "mget (mdelete m k) k' = (if k' = k then None else mget m k')"
  by (induction m) (auto simp: mdelete_def)

lemma set_mkeys_mdelete [simp]: "set (mkeys (mdelete m k)) = set (mkeys m) - {k}"
  by (auto simp: mkeys_def mdelete_def)

lemma mwf_mdelete [simp, intro]: "mwf m \<Longrightarrow> mwf (mdelete m k)"
  by (induction m) (auto simp: mdelete_def mkeys_def mwf_def)

lemma mwf_filter [simp, intro]: "mwf m \<Longrightarrow> mwf (filter P m)"
  by (induction m) (auto simp: mkeys_def mwf_def)

lemma mget_None_iff: "mget m k = None \<longleftrightarrow> k \<notin> set (mkeys m)"
  by (induction m) (auto split: if_splits)

lemma mget_in_keys: "mget m k = Some v \<Longrightarrow> k \<in> set (mkeys m)"
  using mget_None_iff [of m k] by auto

lemma mget_Some_in: "mget m k = Some v \<Longrightarrow> (k, v) \<in> set m"
  by (simp add: mget_def map_of_SomeD)

lemma mget_eq_Some_iff: "mwf m \<Longrightarrow> mget m k = Some v \<longleftrightarrow> (k, v) \<in> set m"
  by (auto simp: mwf_def mkeys_def mget_def)

lemma mget_perm: "mwf m \<Longrightarrow> mset m = mset m' \<Longrightarrow> mget m' = mget m"
proof
  fix k
  assume wf: "mwf m" and eq: "mset m = mset m'"
  from eq have "set m = set m'" by (metis set_mset_mset)
  moreover have "mwf m'"
    using wf eq by (metis mwf_def mkeys_def mset_map distinct_count_atmost_1 set_mset_mset)
  ultimately have "mget m' k = Some v \<longleftrightarrow> mget m k = Some v" for v
    using wf by (simp add: mget_eq_Some_iff)
  then show "mget m' k = mget m k"
    by (metis option.exhaust)
qed

lemma length_mset_at: "length (mset_at m k v) = (if k \<in> set (mkeys m) then length m else Suc (length m))"
  by (induction m k v rule: mset_at.induct) auto

section \<open>Strings\<close>

definition HasPrefix :: "string \<Rightarrow> string \<Rightarrow> bool" where
  "HasPrefix s p \<longleftrightarrow> take (length p) s = p"

definition HasSuffix :: "string \<Rightarrow> string \<Rightarrow> bool" where
  "HasSuffix s p \<longleftrightarrow> length p \<le> length s \<and> drop (length s - length p) s = p"

fun Contains :: "string \<Rightarrow> string \<Rightarrow> bool" where
  "Contains [] p = (p = [])"
| "Contains (c # s) p = (HasPrefix (c # s) p \<or> Contains s p)"

definition TrimPrefix :: "string \<Rightarrow> string \<Rightarrow> string" where
  "TrimPrefix s p = (if HasPrefix s p then drop (length p) s else s)"

definition TrimSuffix :: "string \<Rightarrow> string \<Rightarrow> string" where
  "TrimSuffix s p = (if HasSuffix s p then take (length s - length p) s else s)"

definition is_space :: "char \<Rightarrow> bool" where
  "is_space c \<longleftrightarrow> c \<in> set [CHR '' '', CHR 0x09, CHR 0x0A, CHR 0x0B, CHR 0x0C, CHR 0x0D]"

definition TrimSpace :: "string \<Rightarrow> string" where
  "TrimSpace s = rev (dropWhile is_space (rev (dropWhile is_space s)))"

definition TrimSlash :: "string \<Rightarrow> string" where
  "TrimSlash s = rev (dropWhile (\<lambda>c. c = CHR ''/'') (rev (dropWhile (\<lambda>c. c = CHR ''/'') s)))"

definition to_lower :: "char \<Rightarrow> char" where
  "to_lower c = (let n = of_char c :: nat in if 65 \<le> n \<and> n \<le> 90 then char_of (n + 32) else c)"

definition ToLower :: "string \<Rightarrow> string" where
  "ToLower s = map to_lower s"

fun after_first :: "string \<Rightarrow> string \<Rightarrow> string" where
  "after_first [] p = []"
| "after_first (c # s) p = (if HasPrefix (c # s) p then drop (length p) (c # s) else after_first s p)"

fun LastIndex :: "string \<Rightarrow> string \<Rightarrow> nat option" where
  "LastIndex [] p = (if p = [] then Some 0 else None)"
| "LastIndex (c # s) p =
     (case LastIndex s p of
        Some i \<Rightarrow> Some (Suc i)
      | None \<Rightarrow> if HasPrefix (c # s) p then Some 0 else None)"

fun split_on :: "char \<Rightarrow> string \<Rightarrow> string list" where
  "split_on d [] = [[]]"
| "split_on d (c # s) =
     (if c = d then [] # split_on d s
      else (case split_on d s of [] \<Rightarrow> [[c]] | w # ws \<Rightarrow> (c # w) # ws))"

definition path_Base :: "string \<Rightarrow> string" where
  "path_Base p =
     (if p = [] then ''.''
      else let q = rev (dropWhile (\<lambda>c. c = CHR ''/'') (rev p)) in
        if q = [] then ''/'' else rev (takeWhile (\<lambda>c. c \<noteq> CHR ''/'') (rev q)))"

fun ext_rev :: "string \<Rightarrow> string \<Rightarrow> string" where
  "ext_rev [] acc = []"
| "ext_rev (c # s) acc =
     (if c = CHR ''/'' then [] else if c = CHR ''.'' then c # acc else ext_rev s (c # acc))"

definition path_Ext :: "string \<Rightarrow> string" where
  "path_Ext p = ext_rev (rev p) []"

lemma HasPrefix_iff [simp]: "HasPrefix s p \<longleftrightarrow> prefix p s"
  by (metis HasPrefix_def append_eq_conv_conj prefix_def)

lemma HasSuffix_iff [simp]: "HasSuffix s p \<longleftrightarrow> suffix p s"
  by (auto simp: HasSuffix_def suffix_def) (metis append_take_drop_id)

lemma Contains_iff: "Contains s p \<longleftrightarrow> sublist p s"
  by (induction s) (auto simp: sublist_Cons_right)

lemma TrimPrefix_append [simp]: "TrimPrefix (p @ s) p = s"
  by (simp add: TrimPrefix_def)

lemma TrimSuffix_append [simp]: "TrimSuffix (s @ p) p = s"
  by (simp add: TrimSuffix_def suffix_def)

lemma LastIndex_None_iff: "p \<noteq> [] \<Longrightarrow> LastIndex s p = None \<longleftrightarrow> \<not> sublist p s"
  by (induction s) (auto simp: sublist_Cons_right split: option.splits)

text \<open>A marker with no later occurrence is found where it was put.\<close>

lemma LastIndex_append:
  assumes "p \<noteq> []" and "\<not> sublist p (tl p @ s)"
  shows "LastIndex (b @ p @ s) p = Some (length b)"
proof (induction b)
  case Nil
  obtain c q where p: "p = c # q" using assms(1) by (cases p) auto
  have "LastIndex (q @ s) p = None"
    using assms p by (simp add: LastIndex_None_iff)
  then show ?case by (simp add: p)
next
  case (Cons c b)
  then show ?case by simp
qed

lemma ext_rev_append:
  assumes "CHR ''/'' \<notin> set s" and "CHR ''.'' \<notin> set s"
  shows "ext_rev (s @ t) acc = ext_rev t (rev s @ acc)"
  using assms by (induction s arbitrary: acc) auto

lemma path_Ext_dot:
  assumes "CHR ''/'' \<notin> set e" and "CHR ''.'' \<notin> set e"
  shows "path_Ext (s @ CHR ''.'' # e) = CHR ''.'' # e"
proof -
  have "ext_rev (rev e @ CHR ''.'' # rev s) [] = ext_rev (CHR ''.'' # rev s) (rev (rev e) @ [])"
    using assms by (intro ext_rev_append) simp_all
  then show ?thesis by (simp add: path_Ext_def)
qed

lemma path_Ext_none:
  assumes "CHR ''/'' \<notin> set s" and "CHR ''.'' \<notin> set s"
  shows "path_Ext s = []"
  using ext_rev_append [of "rev s" "[]" "[]"] assms by (simp add: path_Ext_def)

lemma ext_rev_shape:
  "ext_rev s acc = [] \<or> (\<exists>e t. s = e @ CHR ''.'' # t \<and> ext_rev s acc = CHR ''.'' # rev e @ acc
     \<and> CHR ''/'' \<notin> set e \<and> CHR ''.'' \<notin> set e)"
proof (induction s arbitrary: acc)
  case Nil
  then show ?case by simp
next
  case (Cons c s)
  show ?case
  proof (cases "c = CHR ''/'' \<or> c = CHR ''.''")
    case True
    then show ?thesis by fastforce
  next
    case False
    from Cons.IH [of "c # acc"] show ?thesis
    proof
      assume "ext_rev s (c # acc) = []"
      with False show ?thesis by simp
    next
      assume "\<exists>e t. s = e @ CHR ''.'' # t \<and> ext_rev s (c # acc) = CHR ''.'' # rev e @ c # acc
        \<and> CHR ''/'' \<notin> set e \<and> CHR ''.'' \<notin> set e"
      then obtain e t where "s = e @ CHR ''.'' # t" "ext_rev s (c # acc) = CHR ''.'' # rev e @ c # acc"
        "CHR ''/'' \<notin> set e" "CHR ''.'' \<notin> set e" by blast
      with False show ?thesis
        by (intro disjI2 exI [of _ "c # e"] exI [of _ t]) auto
    qed
  qed
qed

text \<open>An extension is empty, or a dot and characters that are neither dots nor slashes at the end.\<close>

lemma path_Ext_cases:
  obtains "path_Ext s = []"
  | b e where "s = b @ CHR ''.'' # e" "path_Ext s = CHR ''.'' # e"
      "CHR ''/'' \<notin> set e" "CHR ''.'' \<notin> set e"
proof -
  from ext_rev_shape [of "rev s" "[]"] show ?thesis
  proof
    assume "ext_rev (rev s) [] = []"
    then show ?thesis by (intro that(1)) (simp add: path_Ext_def)
  next
    assume "\<exists>e t. rev s = e @ CHR ''.'' # t \<and> ext_rev (rev s) [] = CHR ''.'' # rev e @ []
      \<and> CHR ''/'' \<notin> set e \<and> CHR ''.'' \<notin> set e"
    then obtain e t where "rev s = e @ CHR ''.'' # t" "ext_rev (rev s) [] = CHR ''.'' # rev e"
      "CHR ''/'' \<notin> set e" "CHR ''.'' \<notin> set e" by auto
    then show ?thesis
      by (intro that(2) [of "rev t" "rev e"]) (auto simp: path_Ext_def rev_swap)
  qed
qed

end
