(* ===== verification/Event_Store.thy ===== *)
theory Event_Store
  imports Go_Prelude
begin

text \<open>
  The store of events, \<^verbatim>\<open>internal/events/events.go\<close>: a table with one row per event, oldest first, and the statements on it. A
  condition is a folder, a path and a category; the open events of at least warning severity are what needs attention.
  A statement fails when the fault set has its number. Times are seconds and nanoseconds; the time of an
  acknowledgement is an argument.
\<close>

section \<open>Rows\<close>

datatype Category_name = C_Applied | C_Conflict | C_Versioned | C_Skipped | C_Unsynced | C_Error | C_Warning | C_Peer | C_System

definition Sev_Info :: int where "Sev_Info = 0"
definition Sev_Warn :: int where "Sev_Warn = 1"
definition Sev_Error :: int where "Sev_Error = 2"

definition ResOpen :: int where "ResOpen = 0"
definition ResAcknowledged :: int where "ResAcknowledged = 1"
definition ResResolved :: int where "ResResolved = 2"
definition ResAutoResolved :: int where "ResAutoResolved = 3"

lemmas event_codes = Sev_Info_def Sev_Warn_def Sev_Error_def ResOpen_def ResAcknowledged_def ResResolved_def ResAutoResolved_def

record StoredEvent =
  sv_ID :: int
  sv_TS :: int
  sv_TSns :: int
  sv_Folder :: string
  sv_Path :: string
  sv_Category :: Category_name
  sv_Severity :: int
  sv_Reason :: string
  sv_Resolution :: int
  sv_AckBy :: string
  sv_AckTS :: "int option"
  sv_Linked :: string
  sv_PeerID :: uint64

record EventFilter =
  ef_Folder :: string
  ef_Path :: string
  ef_Category :: "Category_name option"
  ef_MinSeverity :: "int option"
  ef_OpenOnly :: bool
  ef_Limit :: int
  ef_AfterID :: int
  ef_Since :: int
  ef_PeerID :: uint64
  ef_PeerName :: string
  ef_Self :: bool

record EventStore =
  es_rows :: "StoredEvent list"
  es_nextID :: int
  es_stmts :: nat
  es_fault :: "nat \<Rightarrow> bool"

definition new_store :: EventStore where
  "new_store = \<lparr>es_rows = [], es_nextID = 1, es_stmts = 0, es_fault = (\<lambda>_. False)\<rparr>"

text \<open>A statement that changes rows.\<close>

definition exec_rows :: "(StoredEvent list \<Rightarrow> StoredEvent list) \<Rightarrow> EventStore \<Rightarrow> EventStore \<times> go_error option" where
  "exec_rows f s =
     (let s1 = s\<lparr>es_stmts := es_stmts s + 1\<rparr> in
        if es_fault s (es_stmts s) then (s1, Some DBError) else (s1\<lparr>es_rows := f (es_rows s)\<rparr>, None))"

definition update_where :: "(StoredEvent \<Rightarrow> bool) \<Rightarrow> (StoredEvent \<Rightarrow> StoredEvent) \<Rightarrow> StoredEvent list \<Rightarrow> StoredEvent list" where
  "update_where P f = map (\<lambda>e. if P e then f e else e)"

definition cond_of :: "StoredEvent \<Rightarrow> string \<times> string \<times> Category_name" where
  "cond_of e = (sv_Folder e, sv_Path e, sv_Category e)"

definition attention :: "StoredEvent \<Rightarrow> bool" where
  "attention e \<longleftrightarrow> sv_Resolution e = ResOpen \<and> sv_Severity e \<ge> Sev_Warn"

definition closed_by :: "int \<Rightarrow> string \<Rightarrow> int \<Rightarrow> StoredEvent \<Rightarrow> StoredEvent" where
  "closed_by res by_who now e = e\<lparr>sv_Resolution := res, sv_AckBy := by_who, sv_AckTS := Some now\<rparr>"

definition reopened :: "StoredEvent \<Rightarrow> StoredEvent" where
  "reopened e = e\<lparr>sv_Resolution := ResOpen, sv_AckBy := [], sv_AckTS := None\<rparr>"

section \<open>Operations\<close>

definition ReopenMatching :: "string \<Rightarrow> string \<Rightarrow> Category_name \<Rightarrow> EventStore \<Rightarrow> EventStore \<times> go_error option" where
  "ReopenMatching folder path cat = exec_rows (update_where (\<lambda>e. cond_of e = (folder, path, cat) \<and> sv_Resolution e = ResAcknowledged) reopened)"

definition Record :: "StoredEvent \<Rightarrow> EventStore \<Rightarrow> EventStore \<times> (go_error + int)" where
  "Record e s =
     (case exec_rows (update_where (\<lambda>r. cond_of r = cond_of e \<and> sv_Resolution r = ResAcknowledged) reopened) s of
        (s1, Some err) \<Rightarrow> (s1, Inl err)
      | (s1, None) \<Rightarrow>
          (case exec_rows (\<lambda>rows. rows @ [e\<lparr>sv_ID := es_nextID s1\<rparr>]) s1 of
             (s2, Some err) \<Rightarrow> (s2, Inl err)
           | (s2, None) \<Rightarrow> (s2\<lparr>es_nextID := es_nextID s2 + 1\<rparr>, Inr (es_nextID s2))))"

definition selects :: "EventFilter \<Rightarrow> StoredEvent \<Rightarrow> bool" where
  "selects f e \<longleftrightarrow>
     (ef_Folder f \<noteq> [] \<longrightarrow> sv_Folder e = ef_Folder f) \<and> (ef_Path f \<noteq> [] \<longrightarrow> sv_Path e = ef_Path f)
   \<and> (case ef_Category f of None \<Rightarrow> True | Some c \<Rightarrow> sv_Category e = c) \<and> (case ef_MinSeverity f of None \<Rightarrow> True | Some s \<Rightarrow> sv_Severity e \<ge> s)
   \<and> (ef_OpenOnly f \<longrightarrow> attention e) \<and> (ef_AfterID f > 0 \<longrightarrow> sv_ID e > ef_AfterID f) \<and> (ef_Since f > 0 \<longrightarrow> sv_TS e \<ge> ef_Since f)
   \<and> (if ef_Self f then sv_PeerID e = 0 \<and> sv_Folder e \<noteq> ''peers''
      else ef_PeerID f > 0 \<longrightarrow> sv_PeerID e = ef_PeerID f \<or> sv_Folder e = ''peers'' \<and> sv_Path e = ef_PeerName f)"

definition events_query :: "EventFilter \<Rightarrow> EventStore \<Rightarrow> EventStore \<times> (go_error + StoredEvent list)" where
  "events_query f s =
     (let s1 = s\<lparr>es_stmts := es_stmts s + 1\<rparr>; rows = rev (filter (selects f) (es_rows s)) in
        if es_fault s (es_stmts s) then (s1, Inl DBError)
        else (s1, Inr (if ef_Limit f > 0 \<and> \<not> ef_OpenOnly f then take (nat (ef_Limit f)) rows else rows)))"

definition Acknowledge :: "int \<Rightarrow> string \<Rightarrow> int \<Rightarrow> EventStore \<Rightarrow> EventStore \<times> go_error option" where
  "Acknowledge i by_who now = exec_rows (update_where (\<lambda>e. sv_ID e = i) (closed_by ResAcknowledged by_who now))"

definition AcknowledgeCondition :: "string \<Rightarrow> string \<Rightarrow> Category_name \<Rightarrow> string \<Rightarrow> int \<Rightarrow> EventStore \<Rightarrow> EventStore \<times> go_error option" where
  "AcknowledgeCondition folder path cat by_who now =
     exec_rows (update_where (\<lambda>e. sv_Resolution e = ResOpen \<and> cond_of e = (folder, path, cat)) (closed_by ResAcknowledged by_who now))"

definition Resolve :: "int \<Rightarrow> string \<Rightarrow> int \<Rightarrow> EventStore \<Rightarrow> EventStore \<times> go_error option" where
  "Resolve i by_who now = exec_rows (update_where (\<lambda>e. sv_ID e = i) (closed_by ResResolved by_who now))"

definition ResolveCondition :: "string \<Rightarrow> string \<Rightarrow> Category_name \<Rightarrow> string \<Rightarrow> int \<Rightarrow> EventStore \<Rightarrow> EventStore \<times> go_error option" where
  "ResolveCondition folder path cat by_who now =
     exec_rows (update_where (\<lambda>e. attention e \<and> cond_of e = (folder, path, cat)) (closed_by ResResolved by_who now))"

definition ResolveAutoCondition :: "string \<Rightarrow> string \<Rightarrow> Category_name \<Rightarrow> string \<Rightarrow> int \<Rightarrow> EventStore \<Rightarrow> EventStore \<times> go_error option" where
  "ResolveAutoCondition folder path cat by_who now =
     exec_rows (update_where (\<lambda>e. attention e \<and> cond_of e = (folder, path, cat)) (closed_by ResAutoResolved by_who now))"

text \<open>SQLite's \<^verbatim>\<open>LIKE\<close>: a percent sign stands for any text, an underscore for one character, letters match without regard to case.\<close>

fun like :: "string \<Rightarrow> string \<Rightarrow> bool" where
  "like [] s = (s = [])"
| "like (c # p) [] = (c = CHR ''%'' \<and> like p [])"
| "like (c # p) (d # s) =
     (if c = CHR ''%'' then like p (d # s) \<or> like (c # p) s
      else (c = CHR ''_'' \<or> ToLower [c] = ToLower [d]) \<and> like p s)"

definition ResolveAutoReasonPrefix :: "string \<Rightarrow> Category_name \<Rightarrow> string \<Rightarrow> string \<Rightarrow> int \<Rightarrow> EventStore \<Rightarrow> EventStore \<times> (go_error + int)" where
  "ResolveAutoReasonPrefix folder cat pre by_who now s =
     (let P = (\<lambda>e. attention e \<and> sv_Folder e = folder \<and> sv_Category e = cat \<and> like (pre @ ''%'') (sv_Reason e)) in
      case exec_rows (update_where P (closed_by ResAutoResolved by_who now)) s of
        (s1, Some err) \<Rightarrow> (s1, Inl err) | (s1, None) \<Rightarrow> (s1, Inr (int (length (filter P (es_rows s))))))"

definition query_rows :: "(StoredEvent list \<Rightarrow> 'a) \<Rightarrow> EventStore \<Rightarrow> EventStore \<times> (go_error + 'a)" where
  "query_rows f s = (s\<lparr>es_stmts := es_stmts s + 1\<rparr>, if es_fault s (es_stmts s) then Inl DBError else Inr (f (es_rows s)))"

definition HasOpenCondition :: "string \<Rightarrow> string \<Rightarrow> Category_name \<Rightarrow> EventStore \<Rightarrow> EventStore \<times> (go_error + bool)" where
  "HasOpenCondition folder path cat = query_rows (list_ex (\<lambda>e. attention e \<and> cond_of e = (folder, path, cat)))"

definition countOpen :: "string \<Rightarrow> EventStore \<Rightarrow> EventStore \<times> (go_error + int)" where
  "countOpen folder = query_rows (\<lambda>rows. int (length (remdups (map cond_of (filter (\<lambda>e. attention e \<and> (folder \<noteq> [] \<longrightarrow> sv_Folder e = folder)) rows)))))"

definition OldestOpenWarn :: "EventStore \<Rightarrow> EventStore \<times> int option" where
  "OldestOpenWarn s =
     (case query_rows (\<lambda>rows. map sv_TS (filter attention rows)) s of
        (s1, Inl _) \<Rightarrow> (s1, None)
      | (s1, Inr []) \<Rightarrow> (s1, None)
      | (s1, Inr (t # ts)) \<Rightarrow> (s1, let m = foldl min t ts in if m = 0 then None else Some m))"

definition CountArchive :: "int \<Rightarrow> EventStore \<Rightarrow> EventStore \<times> (go_error + int \<times> int)" where
  "CountArchive cutoff s =
     (case query_rows (\<lambda>rows. int (length (filter (\<lambda>e. sv_TS e < cutoff) rows))) s of
        (s1, Inl err) \<Rightarrow> (s1, Inl err)
      | (s1, Inr older) \<Rightarrow>
          (case query_rows (\<lambda>rows. int (length (filter (\<lambda>e. sv_TS e < cutoff \<and> attention e) rows))) s1 of
             (s2, Inl err) \<Rightarrow> (s2, Inl err) | (s2, Inr n) \<Rightarrow> (s2, Inr (older, n))))"

text \<open>Deleted events, deleted ones that were open, open ones that were kept.\<close>

definition Archive_events :: "int \<Rightarrow> bool \<Rightarrow> EventStore \<Rightarrow> EventStore \<times> (go_error + int \<times> int \<times> int)" where
  "Archive_events cutoff includeOpen s =
     (case query_rows (\<lambda>rows. int (length (filter (\<lambda>e. sv_TS e < cutoff \<and> attention e) rows))) s of
        (s1, Inl err) \<Rightarrow> (s1, Inl err)
      | (s1, Inr openOlder) \<Rightarrow>
          (let gone = (\<lambda>e. sv_TS e < cutoff \<and> (includeOpen \<or> \<not> attention e));
               n = int (length (filter gone (es_rows s1))) in
           case exec_rows (filter (\<lambda>e. \<not> gone e)) s1 of
             (s2, Some err) \<Rightarrow> (s2, Inl err)
           | (s2, None) \<Rightarrow> (s2, Inr (if includeOpen then (n, openOlder, 0) else (n, 0, openOlder)))))"

section \<open>What needs attention\<close>

definition open_conditions :: "EventStore \<Rightarrow> (string \<times> string \<times> Category_name) set" where
  "open_conditions s = cond_of ` {e \<in> set (es_rows s). attention e}"

lemma exec_rows_cases:
  "exec_rows f s = (s', err) \<Longrightarrow> err \<noteq> None \<and> es_rows s' = es_rows s \<or> err = None \<and> es_rows s' = f (es_rows s)"
  by (auto simp: exec_rows_def Let_def split: if_splits)

lemma exec_rows_fst: "es_rows (fst (exec_rows f s)) = (if es_fault s (es_stmts s) then es_rows s else f (es_rows s))"
    "es_nextID (fst (exec_rows f s)) = es_nextID s"
  by (simp_all add: exec_rows_def Let_def)

lemma closed_by_simps [simp]:
  "cond_of (closed_by res w now e) = cond_of e" "cond_of (reopened e) = cond_of e" "res \<noteq> ResOpen \<Longrightarrow> \<not> attention (closed_by res w now e)"
  "attention (reopened e) \<longleftrightarrow> sv_Severity e \<ge> Sev_Warn"
  by (simp_all add: closed_by_def reopened_def cond_of_def attention_def)

lemma set_update_where: "set (update_where P f rows) = f ` {e \<in> set rows. P e} \<union> {e \<in> set rows. \<not> P e}"
  by (auto simp: update_where_def)

lemma close_conditions:
  assumes "res \<noteq> ResOpen"
  shows "cond_of ` {e \<in> set (update_where (\<lambda>e. attention e \<and> cond_of e = c) (closed_by res by_who now) rows). attention e}
    = cond_of ` {e \<in> set rows. attention e} - {c}"
proof -
  have "{e \<in> set (update_where (\<lambda>e. attention e \<and> cond_of e = c) (closed_by res by_who now) rows). attention e}
      = {e \<in> set rows. attention e \<and> cond_of e \<noteq> c}" using assms by (auto simp: set_update_where)
  then show ?thesis by auto
qed

section \<open>Histories\<close>

datatype StoreOp =
    OpRecord StoredEvent
  | OpReopen string string Category_name
  | OpAck int string int
  | OpAckCondition string string Category_name string int
  | OpResolve int string int
  | OpResolveCondition string string Category_name string int
  | OpResolveAuto string string Category_name string int
  | OpResolvePrefix string Category_name string string int
  | OpArchive int bool
  | OpQuery EventFilter

fun store_step :: "StoreOp \<Rightarrow> EventStore \<Rightarrow> EventStore" where
  "store_step (OpRecord e) s = fst (Record e s)"
| "store_step (OpReopen folder path cat) s = fst (ReopenMatching folder path cat s)"
| "store_step (OpAck i w now) s = fst (Acknowledge i w now s)"
| "store_step (OpAckCondition folder path cat w now) s = fst (AcknowledgeCondition folder path cat w now s)"
| "store_step (OpResolve i w now) s = fst (Resolve i w now s)"
| "store_step (OpResolveCondition folder path cat w now) s = fst (ResolveCondition folder path cat w now s)"
| "store_step (OpResolveAuto folder path cat w now) s = fst (ResolveAutoCondition folder path cat w now s)"
| "store_step (OpResolvePrefix folder cat pre w now) s = fst (ResolveAutoReasonPrefix folder cat pre w now s)"
| "store_step (OpArchive cutoff inclOpen) s = fst (Archive_events cutoff inclOpen s)"
| "store_step (OpQuery f) s = fst (events_query f s)"

text \<open>What of a row no statement rewrites, the operations that may close an open row, and the ones that may delete a row.\<close>

definition record_of :: "StoredEvent \<Rightarrow> StoredEvent" where
  "record_of e = e\<lparr>sv_Resolution := ResOpen, sv_AckBy := [], sv_AckTS := None\<rparr>"

fun closes :: "StoreOp \<Rightarrow> StoredEvent \<Rightarrow> bool" where
  "closes (OpAck i _ _) e = (sv_ID e = i)"
| "closes (OpResolve i _ _) e = (sv_ID e = i)"
| "closes (OpAckCondition folder path cat _ _) e = (cond_of e = (folder, path, cat))"
| "closes (OpResolveCondition folder path cat _ _) e = (cond_of e = (folder, path, cat))"
| "closes (OpResolveAuto folder path cat _ _) e = (cond_of e = (folder, path, cat))"
| "closes (OpResolvePrefix folder cat pre _ _) e = (sv_Folder e = folder \<and> sv_Category e = cat \<and> like (pre @ ''%'') (sv_Reason e))"
| "closes (OpArchive cutoff inclOpen) e = (inclOpen \<and> sv_TS e < cutoff)"
| "closes _ _ = False"

fun deletes :: "StoreOp \<Rightarrow> StoredEvent \<Rightarrow> bool" where
  "deletes (OpArchive cutoff _) e = (sv_TS e < cutoff)"
| "deletes _ _ = False"

definition store_ok :: "EventStore \<Rightarrow> bool" where
  "store_ok s \<longleftrightarrow> sorted_wrt (<) (map sv_ID (es_rows s)) \<and> (\<forall>e\<in>set (es_rows s). 0 < sv_ID e \<and> sv_ID e < es_nextID s) \<and> 0 < es_nextID s"

definition rows_step :: "StoreOp \<Rightarrow> EventStore \<Rightarrow> EventStore \<Rightarrow> bool" where
  "rows_step op s s' \<longleftrightarrow> (\<exists>g k new. es_rows s' = map g (filter k (es_rows s)) @ new
     \<and> (\<forall>e. record_of (g e) = record_of e) \<and> (\<forall>e. \<not> deletes op e \<longrightarrow> k e) \<and> (\<forall>e. attention e \<and> \<not> closes op e \<longrightarrow> k e \<and> attention (g e))
     \<and> (new = [] \<and> es_nextID s' = es_nextID s \<or> (\<exists>e. new = [e\<lparr>sv_ID := es_nextID s\<rparr>] \<and> es_nextID s' = es_nextID s + 1)))"

lemma rows_stepI:
  assumes "es_rows s' = map g (filter k (es_rows s))" "\<And>e. record_of (g e) = record_of e" "\<And>e. \<not> deletes op e \<Longrightarrow> k e"
    "\<And>e. attention e \<Longrightarrow> \<not> closes op e \<Longrightarrow> k e \<and> attention (g e)" "es_nextID s' = es_nextID s"
  shows "rows_step op s s'"
  unfolding rows_step_def using assms by (intro exI [of _ g] exI [of _ k] exI [of _ "[]"]) auto

lemma rows_step_same: "es_rows s' = es_rows s \<Longrightarrow> es_nextID s' = es_nextID s \<Longrightarrow> rows_step op s s'"
  by (rule rows_stepI [where g = id and k = "\<lambda>_. True"]) simp_all

lemma rows_step_update:
  assumes "\<And>e. record_of (f e) = record_of e" "\<And>e. attention e \<Longrightarrow> \<not> closes op e \<Longrightarrow> P e \<Longrightarrow> attention (f e)"
  shows "rows_step op s (fst (exec_rows (update_where P f) s))"
proof (cases "es_fault s (es_stmts s)")
  case True
  then show ?thesis by (intro rows_step_same) (simp_all add: exec_rows_fst)
next
  case False
  then show ?thesis using assms
    by (intro rows_stepI [where g = "\<lambda>e. if P e then f e else e" and k = "\<lambda>_. True"]) (simp_all add: exec_rows_fst update_where_def)
qed

lemma record_of_simps [simp]:
  "record_of (closed_by res w now e) = record_of e" "record_of (reopened e) = record_of e"
  by (simp_all add: closed_by_def reopened_def record_of_def)

lemma attention_reopened: "attention e \<Longrightarrow> attention (reopened e)"
  by (simp add: attention_def reopened_def)

lemma Record_step: "rows_step (OpRecord e) s (fst (Record e s))"
proof -
  let ?P = "\<lambda>r. cond_of r = cond_of e \<and> sv_Resolution r = ResAcknowledged"
  let ?g = "\<lambda>r. if ?P r then reopened r else r"
  have att: "attention (?g r)" if "attention r" for r using that by (auto simp: attention_def event_codes)
  have rec: "record_of (?g r) = record_of r" for r by simp
  obtain s1 e1 where x1: "exec_rows (update_where ?P reopened) s = (s1, e1)" by (cases "exec_rows (update_where ?P reopened) s")
  obtain s2 e2 where x2: "exec_rows (\<lambda>rows. rows @ [e\<lparr>sv_ID := es_nextID s1\<rparr>]) s1 = (s2, e2)"
    by (cases "exec_rows (\<lambda>rows. rows @ [e\<lparr>sv_ID := es_nextID s1\<rparr>]) s1")
  have n1: "es_nextID s1 = es_nextID s" "es_nextID s2 = es_nextID s1"
    using exec_rows_fst(2) [of "update_where ?P reopened" s] exec_rows_fst(2) [of "\<lambda>rows. rows @ [e\<lparr>sv_ID := es_nextID s1\<rparr>]" s1] x1 x2 by simp_all
  have "rows_step (OpRecord e) s (fst (exec_rows (update_where ?P reopened) s))"
    by (rule rows_step_update) (simp_all only: record_of_simps attention_reopened)
  then have step1: "rows_step (OpRecord e) s s1" using x1 by simp
  show ?thesis
  proof (cases "e1 = None \<and> e2 = None")
    case True
    then have rows: "es_rows s2 = map ?g (es_rows s) @ [e\<lparr>sv_ID := es_nextID s\<rparr>]"
      using exec_rows_cases [OF x1] exec_rows_cases [OF x2] n1 by (simp add: update_where_def)
    have "fst (Record e s) = s2\<lparr>es_nextID := es_nextID s2 + 1\<rparr>" using True x1 x2 by (simp add: Record_def)
    then show ?thesis unfolding rows_step_def using rows n1 att
      by (intro exI [of _ ?g] exI [of _ "\<lambda>_. True"] exI [of _ "[e\<lparr>sv_ID := es_nextID s\<rparr>]"]) auto
  next
    case False
    then have "fst (Record e s) = (if e1 = None then s2 else s1)" using x1 x2 by (cases e1; cases e2) (simp_all add: Record_def)
    moreover have "es_rows s2 = es_rows s1" if "e1 = None" using that False exec_rows_cases [OF x2] by auto
    ultimately show ?thesis using step1 n1 by (auto simp: rows_step_def)
  qed
qed

lemma Archive_step: "rows_step (OpArchive cutoff inclOpen) s (fst (Archive_events cutoff inclOpen s))"
proof -
  let ?gone = "\<lambda>e. sv_TS e < cutoff \<and> (inclOpen \<or> \<not> attention e)"
  obtain s1 q where q: "query_rows (\<lambda>rows. int (length (filter (\<lambda>e. sv_TS e < cutoff \<and> attention e) rows))) s = (s1, q)"
    by (cases "query_rows (\<lambda>rows. int (length (filter (\<lambda>e. sv_TS e < cutoff \<and> attention e) rows))) s")
  have s1: "es_rows s1 = es_rows s" "es_nextID s1 = es_nextID s" using q by (auto simp: query_rows_def)
  obtain s2 err where x: "exec_rows (filter (\<lambda>e. \<not> ?gone e)) s1 = (s2, err)" by (cases "exec_rows (filter (\<lambda>e. \<not> ?gone e)) s1")
  have n2: "es_nextID s2 = es_nextID s" using exec_rows_fst(2) [of "filter (\<lambda>e. \<not> ?gone e)" s1] x s1 by simp
  have res: "fst (Archive_events cutoff inclOpen s) = (case q of Inl _ \<Rightarrow> s1 | Inr _ \<Rightarrow> s2)"
    using q x by (cases q; cases err) (simp_all add: Archive_events_def Let_def)
  have del: "rows_step (OpArchive cutoff inclOpen) s s2"
  proof (cases err)
    case None
    then show ?thesis using exec_rows_cases [OF x] s1 n2
      by (intro rows_stepI [where g = id and k = "\<lambda>e. \<not> ?gone e"]) auto
  qed (use exec_rows_cases [OF x] s1 n2 in \<open>auto intro: rows_step_same\<close>)
  show ?thesis using res del s1 by (cases q) (auto intro: rows_step_same)
qed

lemma store_step_rows: "rows_step op s (store_step op s)"
proof (cases op)
  case (OpResolvePrefix folder cat pre w now)
  let ?P = "\<lambda>e. attention e \<and> sv_Folder e = folder \<and> sv_Category e = cat \<and> like (pre @ ''%'') (sv_Reason e)"
  have "fst (ResolveAutoReasonPrefix folder cat pre w now s) = fst (exec_rows (update_where ?P (closed_by ResAutoResolved w now)) s)"
    by (simp add: ResolveAutoReasonPrefix_def Let_def split: prod.split option.split)
  then show ?thesis using OpResolvePrefix rows_step_update [of "closed_by ResAutoResolved w now" op ?P s] by simp
qed (auto simp: Record_step Archive_step ReopenMatching_def Acknowledge_def AcknowledgeCondition_def Resolve_def ResolveCondition_def
    ResolveAutoCondition_def events_query_def Let_def attention_reopened simp del: closed_by_simps
    intro!: rows_step_update intro: rows_step_same)

definition run_store :: "StoreOp list \<Rightarrow> EventStore \<Rightarrow> EventStore" where
  "run_store ops s = fold store_step ops s"

lemma record_of_fields:
  assumes "record_of e' = record_of e"
  shows "cond_of e' = cond_of e" "closes op e' = closes op e" "deletes op e' = deletes op e" "sv_ID e' = sv_ID e" "sv_Severity e' = sv_Severity e"
proof -
  have f: "sv_ID e' = sv_ID e" "sv_TS e' = sv_TS e" "sv_Folder e' = sv_Folder e" "sv_Path e' = sv_Path e" "sv_Category e' = sv_Category e"
    "sv_Severity e' = sv_Severity e" "sv_Reason e' = sv_Reason e"
    using assms by (simp_all add: record_of_def) (cases e; cases e'; simp)+
  then show "cond_of e' = cond_of e" "sv_ID e' = sv_ID e" "sv_Severity e' = sv_Severity e" by (simp_all add: cond_of_def)
  then show "closes op e' = closes op e" "deletes op e' = deletes op e" using f by (cases op; simp)+
qed

lemma step_keeps:
  assumes "e \<in> set (es_rows s)" and "\<not> deletes op e \<or> attention e \<and> \<not> closes op e"
  shows "\<exists>e'\<in>set (es_rows (store_step op s)). record_of e' = record_of e \<and> (attention e \<and> \<not> closes op e \<longrightarrow> attention e')"
proof -
  obtain g k new where rows: "es_rows (store_step op s) = map g (filter k (es_rows s)) @ new" and g: "record_of (g e) = record_of e"
    and k: "\<not> deletes op e \<Longrightarrow> k e" and att: "attention e \<Longrightarrow> \<not> closes op e \<Longrightarrow> k e \<and> attention (g e)"
    using store_step_rows [of op s] unfolding rows_step_def by (elim exE conjE) (rule that, assumption, blast+)
  have "k e" using assms(2) k att by blast
  then have "g e \<in> set (es_rows (store_step op s))" using rows assms(1) by simp
  then show ?thesis using g att by blast
qed

lemma run_store_snoc: "run_store (ops @ [op]) s = store_step op (run_store ops s)"
  by (simp add: run_store_def)

lemma step_store_ok: "store_ok s \<Longrightarrow> store_ok (store_step op s) \<and> es_nextID s \<le> es_nextID (store_step op s)"
proof -
  assume ok: "store_ok s"
  obtain g k new where rows: "es_rows (store_step op s) = map g (filter k (es_rows s)) @ new" and g: "\<And>e. record_of (g e) = record_of e"
    and new: "new = [] \<and> es_nextID (store_step op s) = es_nextID s
      \<or> (\<exists>e. new = [e\<lparr>sv_ID := es_nextID s\<rparr>] \<and> es_nextID (store_step op s) = es_nextID s + 1)"
    using store_step_rows [of op s] unfolding rows_step_def by (elim exE conjE) (rule that, assumption, blast, assumption)
  have gid: "sv_ID (g e) = sv_ID e" for e using record_of_fields(4) [OF g] .
  have "sorted_wrt (<) (map sv_ID (filter k (es_rows s)))" using ok
    unfolding store_ok_def sorted_wrt_map by (simp add: sorted_wrt_filter)
  then have "sorted_wrt (<) (map sv_ID (map g (filter k (es_rows s))))" by (simp add: comp_def gid)
  moreover have "\<forall>e\<in>set (map g (filter k (es_rows s))). 0 < sv_ID e \<and> sv_ID e < es_nextID s" using ok by (auto simp: store_ok_def gid)
  moreover have "0 < es_nextID s" using ok by (simp add: store_ok_def)
  ultimately show ?thesis using new unfolding store_ok_def rows by (fastforce simp: sorted_wrt_append)
qed

lemma run_store_ok: "store_ok s \<Longrightarrow> store_ok (run_store ops s)"
  by (induction ops rule: rev_induct) (simp_all add: run_store_snoc step_store_ok, simp add: run_store_def)

lemma new_store_ok: "store_ok new_store"
  by (simp add: store_ok_def new_store_def)

text \<open>C18. What the store has recorded it keeps, and what needs attention stays visible. Let any sequence of operations run against the
store, any of them failing. A row that no archive of the sequence was old enough to delete is still there, with its record unchanged. A
row that needs attention still needs it, archives or not, unless one of the operations acknowledged or resolved that very row or its
condition, or archived open events on request. Row identities stay distinct and in order.\<close>

theorem attention_never_lost:
  assumes "store_ok s" and "e \<in> set (es_rows s)"
    and "(\<forall>op\<in>set ops. \<not> deletes op e) \<or> attention e \<and> (\<forall>op\<in>set ops. \<not> closes op e)"
  shows "\<exists>e'\<in>set (es_rows (run_store ops s)). record_of e' = record_of e
      \<and> (attention e \<and> (\<forall>op\<in>set ops. \<not> closes op e) \<longrightarrow> attention e')
      \<and> (\<forall>e''\<in>set (es_rows (run_store ops s)). sv_ID e'' = sv_ID e \<longrightarrow> e'' = e')"
proof -
  have "\<exists>e'\<in>set (es_rows (run_store ops s)). record_of e' = record_of e \<and> (attention e \<and> (\<forall>op\<in>set ops. \<not> closes op e) \<longrightarrow> attention e')"
    using assms(3)
  proof (induction ops rule: rev_induct)
    case Nil
    then show ?case using assms(2) by (auto simp: run_store_def)
  next
    case (snoc op ops)
    then obtain e1 where e1: "e1 \<in> set (es_rows (run_store ops s))" "record_of e1 = record_of e"
      "attention e \<Longrightarrow> \<forall>op\<in>set ops. \<not> closes op e \<Longrightarrow> attention e1" by auto
    have "\<not> deletes op e1 \<or> attention e1 \<and> \<not> closes op e1" using snoc.prems e1(3) record_of_fields(2,3) [OF e1(2)] by auto
    then obtain e2 where "e2 \<in> set (es_rows (store_step op (run_store ops s)))" "record_of e2 = record_of e1"
      "attention e1 \<Longrightarrow> \<not> closes op e1 \<Longrightarrow> attention e2" using step_keeps [OF e1(1)] by blast
    then show ?case using e1 record_of_fields(2) [OF e1(2)] by (auto simp: run_store_snoc intro!: bexI [of _ e2])
  qed
  then obtain e' where e': "e' \<in> set (es_rows (run_store ops s))" "record_of e' = record_of e"
    "attention e \<and> (\<forall>op\<in>set ops. \<not> closes op e) \<longrightarrow> attention e'" by blast
  have "distinct (map sv_ID (es_rows (run_store ops s)))" using run_store_ok [OF assms(1), of ops]
    by (simp add: store_ok_def strict_sorted_iff)
  then have "e'' = e'" if "e'' \<in> set (es_rows (run_store ops s))" "sv_ID e'' = sv_ID e" for e''
    using that e'(1) record_of_fields(4) [OF e'(2)] by (simp add: distinct_map inj_on_def)
  then show ?thesis using e' by blast
qed

definition sample_row :: StoredEvent where
  "sample_row = \<lparr>sv_ID = 1, sv_TS = 100, sv_TSns = 0, sv_Folder = ''docs'', sv_Path = ''a.txt'', sv_Category = C_Unsynced, sv_Severity = 1,
     sv_Reason = ''disk full'', sv_Resolution = 0, sv_AckBy = [], sv_AckTS = None, sv_Linked = [], sv_PeerID = 0\<rparr>"

definition sample_store :: EventStore where
  "sample_store = new_store\<lparr>es_rows := [sample_row], es_nextID := 2\<rparr>"

definition sample_ops :: "StoreOp list" where
  "sample_ops = [OpArchive 500 False, OpResolveAuto ''docs'' ''b.txt'' C_Unsynced ''system'' 600, OpRecord (sample_row\<lparr>sv_Path := ''b.txt''\<rparr>)]"

theorem attention_never_lost_witness:
  "\<exists>e'\<in>set (es_rows (run_store sample_ops sample_store)). record_of e' = record_of sample_row \<and> attention e'"
proof -
  have "store_ok sample_store" "sample_row \<in> set (es_rows sample_store)" "attention sample_row" "\<forall>op\<in>set sample_ops. \<not> closes op sample_row"
    by (simp_all add: store_ok_def sample_store_def new_store_def sample_row_def attention_def event_codes sample_ops_def cond_of_def)
  then show ?thesis using attention_never_lost [of sample_store sample_row sample_ops] by blast
qed

text \<open>C19. The attention view is complete and agrees with the badge: a query for open events returns, whatever limit it carries, every row
that needs attention and nothing else, newest first, and the number the badge shows is the number of distinct conditions among them; a
condition is reported open exactly when the view has a row of it.\<close>

theorem attention_view_complete:
  assumes "es_fault s (es_stmts s) = False" and "store_ok s"
    and "f = \<lparr>ef_Folder = folder, ef_Path = [], ef_Category = None, ef_MinSeverity = None, ef_OpenOnly = True, ef_Limit = lim,
       ef_AfterID = 0, ef_Since = 0, ef_PeerID = 0, ef_PeerName = [], ef_Self = False\<rparr>"
  shows "\<exists>rows. snd (events_query f s) = Inr rows \<and> set rows = {e \<in> set (es_rows s). attention e \<and> (folder = [] \<or> sv_Folder e = folder)}
    \<and> sorted_wrt (>) (map sv_ID rows) \<and> snd (countOpen folder s) = Inr (int (card (cond_of ` set rows)))
    \<and> (folder \<noteq> [] \<longrightarrow> snd (HasOpenCondition folder p c s) = Inr ((folder, p, c) \<in> cond_of ` set rows))"
proof -
  let ?rows = "rev (filter (selects f) (es_rows s))"
  have sel: "selects f = (\<lambda>e. attention e \<and> (folder \<noteq> [] \<longrightarrow> sv_Folder e = folder))" by (auto simp: assms(3) selects_def fun_eq_iff)
  have q: "snd (events_query f s) = Inr ?rows" using assms(1) by (simp add: events_query_def assms(3))
  have "sorted_wrt (\<lambda>a b. sv_ID a < sv_ID b) (filter (selects f) (es_rows s))" using assms(2)
    by (simp add: store_ok_def sorted_wrt_map sorted_wrt_filter)
  then have sorted: "sorted_wrt (>) (map sv_ID ?rows)" unfolding rev_map [symmetric] sorted_wrt_rev sorted_wrt_map by simp
  have n: "snd (countOpen folder s) = Inr (int (card (cond_of ` set ?rows)))"
    using assms(1) by (simp add: countOpen_def query_rows_def sel length_remdups_card_conv)
  have "snd (HasOpenCondition folder p c s) = Inr ((folder, p, c) \<in> cond_of ` set ?rows)" if "folder \<noteq> []"
    using assms(1) that by (auto simp: HasOpenCondition_def query_rows_def sel list_ex_iff cond_of_def)
  then show ?thesis using q sorted n by (intro exI [of _ ?rows]) (auto simp: sel)
qed

theorem attention_view_complete_witness:
  "\<exists>rows. snd (events_query \<lparr>ef_Folder = [], ef_Path = [], ef_Category = None, ef_MinSeverity = None, ef_OpenOnly = True, ef_Limit = 1,
       ef_AfterID = 0, ef_Since = 0, ef_PeerID = 0, ef_PeerName = [], ef_Self = False\<rparr> sample_store) = Inr rows \<and> sample_row \<in> set rows"
proof -
  have *: "es_fault sample_store (es_stmts sample_store) = False" "store_ok sample_store"
    by (simp_all add: store_ok_def sample_store_def new_store_def sample_row_def)
  have "sample_row \<in> set (es_rows sample_store)" "attention sample_row" by (simp_all add: sample_store_def sample_row_def attention_def event_codes)
  then show ?thesis using attention_view_complete [OF * refl, of "[]" 1 "[]" C_Error] by blast
qed

text \<open>Archiving never takes away what needs attention: without the explicit choice to include open events it removes exactly the
events older than the cutoff that need none, reports how many that were and how many it kept, and the open conditions are the same
before and after; when a statement fails nothing is removed.\<close>

theorem archive_keeps_attention:
  assumes "Archive_events cutoff False s = (s', r)"
  shows "open_conditions s' = open_conditions s
    \<and> (case r of
         Inl _ \<Rightarrow> es_rows s' = es_rows s
       | Inr (deleted, deletedOpen, keptOpen) \<Rightarrow>
           es_rows s' = filter (\<lambda>e. sv_TS e \<ge> cutoff \<or> attention e) (es_rows s) \<and> deleted = int (length (es_rows s)) - int (length (es_rows s'))
         \<and> deletedOpen = 0 \<and> keptOpen = int (length (filter (\<lambda>e. sv_TS e < cutoff \<and> attention e) (es_rows s'))))"
proof -
  let ?gone = "\<lambda>e. sv_TS e < cutoff \<and> \<not> attention e"
  obtain s1 q where q: "query_rows (\<lambda>rows. int (length (filter (\<lambda>e. sv_TS e < cutoff \<and> attention e) rows))) s = (s1, q)"
    by (cases "query_rows (\<lambda>rows. int (length (filter (\<lambda>e. sv_TS e < cutoff \<and> attention e) rows))) s")
  then have s1: "es_rows s1 = es_rows s" and qr: "\<And>n. q = Inr n \<Longrightarrow> n = int (length (filter (\<lambda>e. sv_TS e < cutoff \<and> attention e) (es_rows s)))"
    by (auto simp: query_rows_def split: if_splits)
  show ?thesis
  proof (cases q)
    case (Inl err)
    then show ?thesis using assms q s1 by (auto simp: Archive_events_def open_conditions_def)
  next
    case (Inr n)
    obtain s2 err where x: "exec_rows (filter (\<lambda>e. \<not> ?gone e)) s1 = (s2, err)" by (cases "exec_rows (filter (\<lambda>e. \<not> ?gone e)) s1")
    have split: "int (length (filter ?gone (es_rows s))) = int (length (es_rows s)) - int (length (filter (\<lambda>e. \<not> ?gone e) (es_rows s)))"
      using sum_length_filter_compl [of ?gone "es_rows s"] by linarith
    have same: "filter (\<lambda>e. \<not> ?gone e) (es_rows s) = filter (\<lambda>e. sv_TS e \<ge> cutoff \<or> attention e) (es_rows s)" by (rule filter_cong) auto
    have keep: "filter (\<lambda>e. sv_TS e < cutoff \<and> attention e) (filter (\<lambda>e. sv_TS e \<ge> cutoff \<or> attention e) (es_rows s))
        = filter (\<lambda>e. sv_TS e < cutoff \<and> attention e) (es_rows s)" by (simp, intro filter_cong) auto
    show ?thesis
    proof (cases err)
      case (Some er)
      then show ?thesis using assms q Inr x s1 exec_rows_cases [OF x] by (auto simp: Archive_events_def open_conditions_def Let_def)
    next
      case None
      then have rows: "es_rows s2 = filter (\<lambda>e. sv_TS e \<ge> cutoff \<or> attention e) (es_rows s)" using exec_rows_cases [OF x] s1 same by simp
      have r: "s' = s2" "r = Inr (int (length (filter ?gone (es_rows s))), 0, n)" using assms q Inr x None s1 by (simp_all add: Archive_events_def Let_def)
      have "open_conditions s2 = open_conditions s" by (auto simp: open_conditions_def rows)
      then show ?thesis using r rows split same keep qr [OF Inr] by simp
    qed
  qed
qed

theorem archive_keeps_attention_witness:
  "open_conditions (fst (Archive_events 500 False sample_store)) = open_conditions sample_store"
  using archive_keeps_attention [OF prod.collapse [symmetric], of 500 sample_store] by blast

end
