(* ===== verification/Go_Strconv.thy ===== *)
theory Go_Strconv
  imports Go_Prelude
begin

text \<open>
  The functions of Go's \<^verbatim>\<open>strconv\<close> package the sources call: \<^verbatim>\<open>FormatUint\<close>, \<^verbatim>\<open>FormatInt\<close> and
  \<^verbatim>\<open>ParseUint\<close>, with the round trip between printing and parsing and the alphabet of what is
  printed.
\<close>

fun digs :: "nat \<Rightarrow> nat \<Rightarrow> nat list" where
  "digs b n = (if b < 2 \<or> n < b then [n] else digs b (n div b) @ [n mod b])"

declare digs.simps [simp del]

definition digit_char :: "nat \<Rightarrow> char" where
  "digit_char d = (if d < 10 then char_of (48 + d) else char_of (87 + d))"

definition FormatUint :: "nat \<Rightarrow> nat \<Rightarrow> string" where
  "FormatUint n b = map digit_char (digs b n)"

definition FormatInt :: "int \<Rightarrow> string" where
  "FormatInt i = (if i < 0 then CHR ''-'' # FormatUint (nat (- i)) 10 else FormatUint (nat i) 10)"

definition is_digit :: "char \<Rightarrow> bool" where
  "is_digit c \<longleftrightarrow> 48 \<le> (of_char c :: nat) \<and> (of_char c :: nat) \<le> 57"

definition digit_val :: "char \<Rightarrow> nat" where
  "digit_val c = of_char c - 48"

definition ParseUint :: "string \<Rightarrow> go_error + uint64" where
  "ParseUint s =
     (if s = [] \<or> \<not> list_all is_digit s then Inl (Err ''invalid syntax'')
      else let n = foldl (\<lambda>a c. 10 * a + digit_val c) 0 s in
        if n < 2 ^ 64 then Inr (of_nat n) else Inl (Err ''value out of range''))"

lemma digs_nonempty [simp]: "digs b n \<noteq> []"
  by (subst digs.simps) simp

lemma digs_less: "2 \<le> b \<Longrightarrow> \<forall>d \<in> set (digs b n). d < b"
proof (induction b n rule: digs.induct)
  case (1 b n)
  then show ?case by (subst digs.simps) (auto simp: not_less)
qed

lemma digs_value: "2 \<le> b \<Longrightarrow> foldl (\<lambda>a d. b * a + d) 0 (digs b n) = n"
proof (induction b n rule: digs.induct)
  case (1 b n)
  then show ?case by (subst digs.simps) (auto simp: not_less)
qed

lemma digs_inject: "2 \<le> b \<Longrightarrow> digs b m = digs b n \<longleftrightarrow> m = n"
  by (metis digs_value)

lemma of_char_digit_char:
  "d < 16 \<Longrightarrow> (of_char (digit_char d) :: nat) = (if d < 10 then 48 + d else 87 + d)"
  by (simp add: digit_char_def of_char_of)

lemma digit_val_digit_char [simp]: "d < 10 \<Longrightarrow> digit_val (digit_char d) = d"
  by (simp add: digit_val_def of_char_digit_char)

lemma inj_on_digit_char: "inj_on digit_char {..<16}"
proof (rule inj_onI)
  fix x y
  assume "x \<in> {..<16}" "y \<in> {..<16}" "digit_char x = digit_char y"
  then have "(of_char (digit_char x) :: nat) = of_char (digit_char y)" "x < 16" "y < 16" by simp_all
  then show "x = y" by (simp add: of_char_digit_char split: if_splits)
qed

lemma FormatUint_nonempty [simp]: "FormatUint n b \<noteq> []"
  by (simp add: FormatUint_def)

lemma FormatUint_digits: "list_all is_digit (FormatUint n 10)"
  using digs_less [of 10 n]
  by (auto simp: FormatUint_def list_all_iff is_digit_def of_char_digit_char)

lemma FormatUint_inject:
  assumes "2 \<le> b" and "b \<le> 16"
  shows "FormatUint m b = FormatUint n b \<longleftrightarrow> m = n"
proof -
  have "inj_on digit_char (set (digs b m) \<union> set (digs b n))"
    using digs_less [of b m] digs_less [of b n] assms
    by (intro inj_on_subset [OF inj_on_digit_char]) force
  then have "FormatUint m b = FormatUint n b \<longleftrightarrow> digs b m = digs b n"
    unfolding FormatUint_def by (rule inj_on_map_eq_map)
  then show ?thesis using assms(1) digs_inject by simp
qed

lemma is_digit_not: "is_digit c \<Longrightarrow> c \<notin> {CHR ''-'', CHR ''.'', CHR ''/'', CHR '','', CHR '':'', CHR 0x22, CHR 0x00}"
  by (auto simp: is_digit_def)

lemma FormatUint_no: "x \<in> {CHR ''-'', CHR ''.'', CHR ''/'', CHR '','', CHR '':'', CHR 0x22, CHR 0x00}
    \<Longrightarrow> x \<notin> set (FormatUint n 10)"
  using FormatUint_digits [of n] is_digit_not by (auto simp: list_all_iff)

lemma foldl_digit_val: "\<forall>d \<in> set ds. d < 10 \<Longrightarrow>
    foldl (\<lambda>a c. 10 * a + digit_val c) x (map digit_char ds) = foldl (\<lambda>a d. 10 * a + d) x ds"
  by (induction ds arbitrary: x) auto

lemma ParseUint_FormatUint: "n < 2 ^ 64 \<Longrightarrow> ParseUint (FormatUint n 10) = Inr (of_nat n)"
proof -
  assume "n < 2 ^ 64"
  moreover have "foldl (\<lambda>a c. 10 * a + digit_val c) 0 (FormatUint n 10) = n"
    using digs_less [of 10 n] digs_value [of 10 n] by (simp add: FormatUint_def foldl_digit_val)
  ultimately show ?thesis using FormatUint_digits by (simp add: ParseUint_def)
qed

lemma ParseUint_word [simp]: "ParseUint (FormatUint (unat (w :: uint64)) 10) = Inr w"
  using ParseUint_FormatUint [of "unat w"] unsigned_less [of w] by simp

lemma FormatInt_inject: "FormatInt i = FormatInt j \<longleftrightarrow> i = j"
proof -
  have minus: "FormatUint n 10 \<noteq> CHR ''-'' # s" for n s
    using FormatUint_no [of "CHR ''-''" n] by (cases "FormatUint n 10") auto
  have "FormatUint (nat k) 10 = FormatUint (nat l) 10 \<longleftrightarrow> nat k = nat l" for k l
    by (rule FormatUint_inject) simp_all
  then show ?thesis
    using minus by (auto simp: FormatInt_def minus [symmetric])
qed

lemma FormatInt_no_zero: "CHR 0x00 \<notin> set (FormatInt i)"
  using FormatUint_no [of "CHR 0x00"] by (auto simp: FormatInt_def)

end
