(* ===== verification/Version.thy ===== *)
theory Version
  imports Go_Strconv
begin

text \<open>
  Version vectors: \<^verbatim>\<open>internal/version/version.go\<close>. A vector is a Go map from device ids to
  counters, which may be nil. A nil map reads as empty and panics when an entry is assigned, so
  \<open>Bump\<close> and \<open>Merge\<close> return a result. \<open>Compare\<close> is shown to decide the pointwise order on
  counters; the locale \<open>causal_order\<close> states what the rest of the program relies on.
\<close>

section \<open>Definitions\<close>

type_synonym Vector = "(uint64, uint64) gomap option"

definition ventries :: "Vector \<Rightarrow> (uint64, uint64) gomap" where
  "ventries v = (case v of None \<Rightarrow> [] | Some m \<Rightarrow> m)"

definition New :: Vector where
  "New = Some []"

definition Clone :: "Vector \<Rightarrow> Vector" where
  "Clone v = (case v of None \<Rightarrow> None | Some m \<Rightarrow> Some m)"

definition Get :: "Vector \<Rightarrow> uint64 \<Rightarrow> uint64" where
  "Get v device = (case mget (ventries v) device of None \<Rightarrow> 0 | Some c \<Rightarrow> c)"

text \<open>\<^verbatim>\<open>m[k] = x\<close> on a map that may be nil.\<close>

definition assign :: "Vector \<Rightarrow> uint64 \<Rightarrow> uint64 \<Rightarrow> go_error + Vector" where
  "assign v k x = (case v of None \<Rightarrow> Inl Panic | Some m \<Rightarrow> Inr (Some (mset_at m k x)))"

definition Bump :: "Vector \<Rightarrow> uint64 \<Rightarrow> go_error + Vector" where
  "Bump v device = assign (Clone v) device (Get v device + 1)"

fun merge_loop :: "Vector \<Rightarrow> (uint64, uint64) gomap \<Rightarrow> go_error + Vector" where
  "merge_loop out [] = Inr out"
| "merge_loop out ((k, val) # rest) =
     (if Get out k < val
      then (case assign out k val of Inl e \<Rightarrow> Inl e | Inr out' \<Rightarrow> merge_loop out' rest)
      else merge_loop out rest)"

definition Merge :: "Vector \<Rightarrow> Vector \<Rightarrow> go_error + Vector" where
  "Merge v ov = merge_loop (Clone v) (ventries ov)"

definition Compare :: "Vector \<Rightarrow> Vector \<Rightarrow> int" where
  "Compare v ov =
     (if ventries v = [] \<and> ventries ov = [] then 0
      else let keys = remdups (mkeys (ventries v) @ mkeys (ventries ov));
               gt = list_ex (\<lambda>k. Get ov k < Get v k) keys;
               lt = list_ex (\<lambda>k. Get v k < Get ov k) keys
           in if gt \<and> \<not> lt then 1
              else if lt \<and> \<not> gt then -1
              else if \<not> gt \<and> \<not> lt then 0
              else 2)"

definition Equal :: "Vector \<Rightarrow> Vector \<Rightarrow> bool" where
  "Equal v ov \<longleftrightarrow> Compare v ov = 0"

fun device_id_loop :: "nat \<Rightarrow> uint64 \<Rightarrow> byte list \<Rightarrow> uint64" where
  "device_id_loop i out [] = out"
| "device_id_loop i out (b # bs) =
     (if i < 8 then device_id_loop (Suc i) (or (push_bit 8 out) (ucast b)) bs else out)"

definition DeviceID :: "byte list \<Rightarrow> uint64" where
  "DeviceID ids = device_id_loop 0 0 ids"

fun join_with :: "string \<Rightarrow> string list \<Rightarrow> string" where
  "join_with sep [] = []"
| "join_with sep [w] = w"
| "join_with sep (w # ws) = w @ sep @ join_with sep ws"

definition marshal_pair :: "Vector \<Rightarrow> uint64 \<Rightarrow> string" where
  "marshal_pair v k =
     [CHR 0x22] @ FormatUint (unat k) 10 @ [CHR 0x22, CHR '':''] @ FormatUint (unat (Get v k)) 10"

definition MarshalJSON :: "Vector \<Rightarrow> string" where
  "MarshalJSON v = ''{'' @ join_with '','' (map (marshal_pair v) (sort (mkeys (ventries v)))) @ ''}''"

text \<open>
  Go's \<^verbatim>\<open>json.Unmarshal\<close> into a \<^verbatim>\<open>map[string]uint64\<close>, for the compact objects \<^verbatim>\<open>MarshalJSON\<close> writes:
  every other text is an error of the model.
\<close>

definition json_pair :: "string \<Rightarrow> go_error + (string \<times> uint64)" where
  "json_pair w =
     (case split_on (CHR '':'') w of
        [k, x] \<Rightarrow>
          if 2 \<le> length k \<and> hd k = CHR 0x22 \<and> last k = CHR 0x22
          then (case ParseUint x of Inl e \<Rightarrow> Inl e | Inr n \<Rightarrow> Inr (butlast (tl k), n))
          else Inl (Err ''json: invalid key'')
      | _ \<Rightarrow> Inl (Err ''json: invalid pair''))"

fun json_pairs :: "string list \<Rightarrow> go_error + (string, uint64) gomap" where
  "json_pairs [] = Inr []"
| "json_pairs (w # ws) =
     (case json_pair w of
        Inl e \<Rightarrow> Inl e
      | Inr (k, x) \<Rightarrow> (case json_pairs ws of Inl e \<Rightarrow> Inl e | Inr m \<Rightarrow> Inr ((k, x) # m)))"

definition json_object :: "string \<Rightarrow> go_error + (string, uint64) gomap" where
  "json_object s =
     (if 2 \<le> length s \<and> hd s = CHR ''{'' \<and> last s = CHR ''}''
      then let inner = butlast (tl s) in
        if inner = [] then Inr [] else json_pairs (split_on (CHR '','') inner)
      else Inl (Err ''json: not an object''))"

fun unmarshal_loop :: "(uint64, uint64) gomap \<Rightarrow> (string, uint64) gomap \<Rightarrow> go_error + Vector" where
  "unmarshal_loop out [] = Inr (Some out)"
| "unmarshal_loop out ((k, val) # raw) =
     (case ParseUint k of Inl e \<Rightarrow> Inl e | Inr i \<Rightarrow> unmarshal_loop (mset_at out i val) raw)"

definition UnmarshalJSON :: "string \<Rightarrow> go_error + Vector" where
  "UnmarshalJSON b = (case json_object b of Inl e \<Rightarrow> Inl e | Inr raw \<Rightarrow> unmarshal_loop [] raw)"

section \<open>The order Compare decides\<close>

definition vwf :: "Vector \<Rightarrow> bool" where
  "vwf v \<longleftrightarrow> mwf (ventries v)"

definition vle :: "Vector \<Rightarrow> Vector \<Rightarrow> bool" where
  "vle v ov \<longleftrightarrow> (\<forall>k. Get v k \<le> Get ov k)"

lemma ventries_simps [simp]: "ventries None = []" "ventries (Some m) = m" "ventries New = []"
  by (simp_all add: ventries_def New_def)

lemma Clone_id [simp]: "Clone v = v"
  by (cases v) (simp_all add: Clone_def)

lemma Get_simps [simp]:
  "Get None k = 0" "Get New k = 0" "Get (Some []) k = 0"
  "Get (Some ((k', c) # m)) k = (if k' = k then c else Get (Some m) k)"
  by (simp_all add: Get_def)

lemma Get_absent: "k \<notin> set (mkeys (ventries v)) \<Longrightarrow> Get v k = 0"
  by (simp add: Get_def mget_None_iff [symmetric])

lemma Get_assign:
  "assign v k x = Inr v' \<Longrightarrow> Get v' k' = (if k' = k then x else Get v k')"
  by (auto simp: assign_def Get_def split: option.splits)

lemma less_key: "Get v k < Get ov k \<Longrightarrow> k \<in> set (mkeys (ventries ov))"
  using Get_absent [of k ov] by fastforce

lemma vle_antisym: "vle u v \<Longrightarrow> vle v u \<Longrightarrow> Get u = Get v"
  by (simp add: vle_def fun_eq_iff order_antisym)

lemma vle_eq: "Get u = Get v \<Longrightarrow> vle u v"
  by (simp add: vle_def)

lemma Compare_vle:
  "Compare v ov = (if vle v ov then if vle ov v then 0 else -1 else if vle ov v then 1 else 2)"
proof -
  let ?keys = "remdups (mkeys (ventries v) @ mkeys (ventries ov))"
  have gt: "list_ex (\<lambda>k. Get ov k < Get v k) ?keys \<longleftrightarrow> \<not> vle v ov"
    using less_key [of ov _ v] by (auto simp: list_ex_iff vle_def not_le)
  have lt: "list_ex (\<lambda>k. Get v k < Get ov k) ?keys \<longleftrightarrow> \<not> vle ov v"
    using less_key [of v _ ov] by (auto simp: list_ex_iff vle_def not_le)
  show ?thesis
  proof (cases "ventries v = [] \<and> ventries ov = []")
    case True
    then have "Get v = Get ov" by (simp add: Get_def fun_eq_iff)
    with True show ?thesis by (simp add: Compare_def vle_def)
  next
    case False
    then show ?thesis by (simp only: Compare_def gt lt Let_def if_False) simp
  qed
qed

lemma Compare_eq_0: "Compare v ov = 0 \<longleftrightarrow> Get v = Get ov"
  using vle_antisym [of v ov] vle_eq [of v ov] vle_eq [of ov v] by (auto simp: Compare_vle)

lemma Compare_eq_1: "Compare v ov = 1 \<longleftrightarrow> vle ov v \<and> Get v \<noteq> Get ov"
  using vle_antisym [of v ov] vle_eq [of v ov] by (auto simp: Compare_vle)

lemma Compare_eq_m1: "Compare v ov = -1 \<longleftrightarrow> vle v ov \<and> Get v \<noteq> Get ov"
  using vle_antisym [of v ov] vle_eq [of ov v] by (auto simp: Compare_vle)

lemma Compare_eq_2: "Compare v ov = 2 \<longleftrightarrow> \<not> vle v ov \<and> \<not> vle ov v"
  by (simp add: Compare_vle)

lemma Compare_range: "Compare v ov \<in> {-1, 0, 1, 2}"
  by (simp add: Compare_vle)

lemma vle_refl [simp]: "vle v v"
  by (simp add: vle_def)

lemma vle_trans: "vle u v \<Longrightarrow> vle v w \<Longrightarrow> vle u w"
  unfolding vle_def by (meson order_trans)

section \<open>Bump and Merge\<close>

lemma Bump_simps [simp]:
  "Bump None d = Inl Panic"
  "Bump (Some m) d = Inr (Some (mset_at m d (Get (Some m) d + 1)))"
  by (simp_all add: Bump_def assign_def)

lemma Bump_not_panic: "v \<noteq> None \<Longrightarrow> \<exists>v'. Bump v d = Inr v'"
  by (cases v) auto

lemma Get_Bump: "Bump v d = Inr v' \<Longrightarrow> Get v' k = (if k = d then Get v d + 1 else Get v k)"
  by (simp add: Bump_def Get_assign)

lemma Bump_Some: "Bump v d = Inr v' \<Longrightarrow> v' \<noteq> None"
  by (cases v) auto

lemma Bump_wf: "Bump v d = Inr v' \<Longrightarrow> vwf v \<Longrightarrow> vwf v'"
  by (cases v) (auto simp: vwf_def)

lemma word_less_Suc: "(x :: uint64) \<noteq> -1 \<Longrightarrow> x < x + 1"
proof -
  assume "x \<noteq> -1"
  then have "1 + x \<noteq> 0" by (metis add.commute max_word_wrap)
  then have "unat (1 + x) = Suc (unat x)" by (rule unatSuc)
  then show ?thesis by (simp add: word_less_nat_alt add.commute)
qed

text \<open>A bump strictly dominates, unless the counter is at its last value.\<close>

lemma Bump_dominates:
  assumes "Bump v d = Inr v'" and "Get v d \<noteq> -1"
  shows "Compare v' v = 1"
proof -
  have lt: "Get v d < Get v' d"
    using assms by (simp add: Get_Bump word_less_Suc)
  have "vle v v'"
    using assms lt by (auto simp: vle_def Get_Bump intro: less_imp_le)
  with lt show ?thesis by (auto simp: Compare_eq_1)
qed

lemma merge_loop_Get:
  assumes "merge_loop out m = Inr v'" and "mwf m"
  shows "Get v' k = max (Get out k) (Get (Some m) k)"
  using assms
proof (induction out m rule: merge_loop.induct)
  case (1 out)
  then show ?case by simp
next
  case (2 out k' val rest)
  have absent: "Get (Some rest) k' = 0" using "2.prems"(2) by (simp add: Get_absent)
  show ?case
  proof (cases "Get out k' < val")
    case less: True
    then obtain out' where out': "assign out k' val = Inr out'" and "merge_loop out' rest = Inr v'"
      using "2.prems"(1) by (auto split: sum.splits)
    then have "Get v' k = max (Get out' k) (Get (Some rest) k)"
      using "2.IH"(1) "2.prems"(2) less by simp
    then have *: "Get v' k = max (if k = k' then val else Get out k) (Get (Some rest) k)"
      by (simp only: Get_assign [OF out'])
    show ?thesis
    proof (cases "k = k'")
      case True
      have "Get v' k = val" unfolding * unfolding True absent by simp
      with less show ?thesis unfolding True by (simp add: max_absorb2 less_imp_le)
    next
      case False
      with * show ?thesis by simp
    qed
  next
    case False
    with 2 have "Get v' k = max (Get out k) (Get (Some rest) k)" by simp
    then show ?thesis using False absent by (cases "k = k'") (simp_all add: max_def)
  qed
qed

lemma merge_loop_Some: "\<exists>m'. merge_loop (Some o1) m = Inr (Some m')"
proof (induction m arbitrary: o1)
  case (Cons kv m)
  then show ?case by (cases kv) (auto simp: assign_def)
qed simp

lemma Get_ventries [simp]: "Get (Some (ventries v)) k = Get v k"
  by (simp add: Get_def)

lemma Merge_Get: "Merge v ov = Inr v' \<Longrightarrow> vwf ov \<Longrightarrow> Get v' k = max (Get v k) (Get ov k)"
  using merge_loop_Get [of v "ventries ov" v' k] by (simp add: Merge_def vwf_def)

lemma Merge_not_panic: "v \<noteq> None \<Longrightarrow> \<exists>m'. Merge v ov = Inr (Some m')"
  using merge_loop_Some by (auto simp: Merge_def)

lemma Merge_upper:
  assumes "Merge v ov = Inr v'" and "vwf ov"
  shows "vle v v'" and "vle ov v'"
  using Merge_Get [OF assms] by (simp_all add: vle_def)

lemma Merge_least: "Merge v ov = Inr v' \<Longrightarrow> vwf ov \<Longrightarrow> vle v w \<Longrightarrow> vle ov w \<Longrightarrow> vle v' w"
  by (simp add: vle_def Merge_Get)

lemma merge_loop_wf: "merge_loop v m = Inr v' \<Longrightarrow> vwf v \<Longrightarrow> vwf v'"
proof (induction v m rule: merge_loop.induct)
  case (2 out k val rest)
  then show ?case by (auto simp: assign_def vwf_def split: if_splits option.splits sum.splits)
qed simp

lemma Merge_wf: "Merge v ov = Inr v' \<Longrightarrow> vwf v \<Longrightarrow> vwf v'"
  using merge_loop_wf by (simp add: Merge_def)

section \<open>The JSON form\<close>

lemma split_on_none: "d \<notin> set w \<Longrightarrow> split_on d w = [w]"
  by (induction w) auto

lemma split_on_append: "d \<notin> set w \<Longrightarrow> split_on d (w @ d # s) = w # split_on d s"
  by (induction w) auto

lemma split_on_join:
  assumes "ws \<noteq> []" and "\<forall>w \<in> set ws. d \<notin> set w"
  shows "split_on d (join_with [d] ws) = ws"
  using assms by (induction "[d]" ws rule: join_with.induct) (simp_all add: split_on_none split_on_append)

lemma marshal_pair_no_comma: "CHR '','' \<notin> set (marshal_pair v k)"
  by (simp add: marshal_pair_def FormatUint_no)

lemma json_pair_marshal: "json_pair (marshal_pair v k) = Inr (FormatUint (unat k) 10, Get v k)"
proof -
  let ?q = "[CHR 0x22] @ FormatUint (unat k) 10 @ [CHR 0x22]"
  have "CHR '':'' \<notin> set ?q" by (simp add: FormatUint_no)
  then have "split_on (CHR '':'') (marshal_pair v k) = [?q, FormatUint (unat (Get v k)) 10]"
    using split_on_append [of "CHR '':''" ?q "FormatUint (unat (Get v k)) 10"]
    by (simp add: marshal_pair_def split_on_none FormatUint_no)
  then show ?thesis by (simp add: json_pair_def butlast_append)
qed

lemma json_pairs_marshal:
  "json_pairs (map (marshal_pair v) ks) = Inr (map (\<lambda>k. (FormatUint (unat k) 10, Get v k)) ks)"
  by (induction ks) (simp_all add: json_pair_marshal)

lemma json_object_marshal:
  "json_object (MarshalJSON v) =
     Inr (map (\<lambda>k. (FormatUint (unat k) 10, Get v k)) (sort (mkeys (ventries v))))"
proof (cases "mkeys (ventries v) = []")
  case True
  then show ?thesis by (simp add: MarshalJSON_def json_object_def)
next
  case False
  let ?ws = "map (marshal_pair v) (sort (mkeys (ventries v)))"
  have ne: "?ws \<noteq> []" using False by (metis length_0_conv length_map length_sort)
  have "split_on (CHR '','') (join_with '','' ?ws) = ?ws"
    using split_on_join [OF ne, of "CHR '',''"] marshal_pair_no_comma by auto
  moreover have "join_with '','' ?ws \<noteq> []"
    using ne by (cases "sort (mkeys (ventries v))"; cases "tl (sort (mkeys (ventries v)))")
      (auto simp: marshal_pair_def)
  ultimately show ?thesis
    by (simp add: MarshalJSON_def json_object_def json_pairs_marshal)
qed

lemma unmarshal_loop_marshal:
  "\<exists>m. unmarshal_loop out (map (\<lambda>k. (FormatUint (unat k) 10, f k)) ks) = Inr (Some m) \<and>
     (mwf out \<longrightarrow> mwf m) \<and> (\<forall>k. mget m k = (if k \<in> set ks then Some (f k) else mget out k))"
proof (induction ks arbitrary: out)
  case (Cons k ks)
  from Cons.IH [of "mset_at out k (f k)"] show ?case by fastforce
qed simp

text \<open>Decoding what was encoded gives the same counters, entry by entry.\<close>

lemma UnmarshalJSON_MarshalJSON:
  "\<exists>m. UnmarshalJSON (MarshalJSON v) = Inr (Some m) \<and> mwf m
     \<and> (\<forall>k. mget m k = (if k \<in> set (mkeys (ventries v)) then Some (Get v k) else None))"
  using unmarshal_loop_marshal [of "[]" "Get v" "sort (mkeys (ventries v))"]
  by (simp add: UnmarshalJSON_def json_object_marshal cong: if_cong)

section \<open>What the program relies on\<close>

text \<open>
  The contract of a causal order: \<open>cmp\<close> decides the pointwise order of the counters \<open>cnt\<close>. Its
  clients pick winners and detect conflicts from \<open>cmp\<close> alone.
\<close>

locale causal_order =
  fixes cnt :: "'v \<Rightarrow> 'd \<Rightarrow> 'c :: linorder"
    and cmp :: "'v \<Rightarrow> 'v \<Rightarrow> int"
  assumes cmp_equal: "cmp a b = 0 \<longleftrightarrow> cnt a = cnt b"
    and cmp_greater: "cmp a b = 1 \<longleftrightarrow> (\<forall>k. cnt b k \<le> cnt a k) \<and> cnt a \<noteq> cnt b"
    and cmp_less: "cmp a b = -1 \<longleftrightarrow> (\<forall>k. cnt a k \<le> cnt b k) \<and> cnt a \<noteq> cnt b"
    and cmp_range: "cmp a b \<in> {-1, 0, 1, 2}"
begin

lemma cmp_self: "cmp a a = 0"
  by (simp add: cmp_equal)

lemma cmp_swap: "cmp b a = (if cmp a b = 2 then 2 else - cmp a b)"
proof -
  consider "cmp a b = 0" | "cmp a b = 1" | "cmp a b = -1" | "cmp a b = 2"
    using cmp_range [of a b] by auto
  then show ?thesis
  proof cases
    case 1
    then show ?thesis using cmp_equal [of a b] cmp_equal [of b a] by simp
  next
    case 2
    then show ?thesis using cmp_greater [of a b] cmp_less [of b a] by auto
  next
    case 3
    then show ?thesis using cmp_less [of a b] cmp_greater [of b a] by auto
  next
    case 4
    then have "cmp b a \<noteq> 0" "cmp b a \<noteq> 1" "cmp b a \<noteq> -1"
      using cmp_equal [of a b] cmp_equal [of b a] cmp_less [of a b] cmp_greater [of b a]
        cmp_greater [of a b] cmp_less [of b a] by auto
    then show ?thesis using 4 cmp_range [of b a] by auto
  qed
qed

lemma conflict_sym: "cmp a b = 2 \<longleftrightarrow> cmp b a = 2"
  using cmp_swap [of a b] cmp_swap [of b a] cmp_range [of a b] cmp_range [of b a] by auto

lemma cmp_trans:
  assumes "cmp a b = 1" and "cmp b c = 1"
  shows "cmp a c = 1"
proof -
  have ab: "\<And>k. cnt b k \<le> cnt a k" and bc: "\<And>k. cnt c k \<le> cnt b k" and ne: "cnt b \<noteq> cnt c"
    using assms by (simp_all add: cmp_greater)
  have "cnt a \<noteq> cnt c"
  proof
    assume "cnt a = cnt c"
    then have "cnt b = cnt c" using ab bc by (intro ext order_antisym) simp_all
    with ne show False by simp
  qed
  then show ?thesis using ab bc by (auto simp: cmp_greater intro: order_trans)
qed

lemma cmp_equal_trans: "cmp a b = 0 \<Longrightarrow> cmp a c = cmp b c"
  using cmp_equal [of a b] cmp_equal [of a c] cmp_equal [of b c] cmp_greater [of a c]
    cmp_greater [of b c] cmp_less [of a c] cmp_less [of b c] cmp_range [of a c] cmp_range [of b c]
  by auto

lemma cmp_equal_cong: "cnt a = cnt a' \<Longrightarrow> cnt b = cnt b' \<Longrightarrow> cmp a b = cmp a' b'"
  using cmp_equal_trans [of a a' b] cmp_equal_trans [of b b' a'] cmp_equal [of a a']
    cmp_equal [of b b'] cmp_swap [of b a'] cmp_swap [of b' a'] cmp_range [of a' b]
    cmp_range [of a' b'] by (auto split: if_splits)

end

interpretation vv: causal_order Get Compare
  by unfold_locales (use Compare_range in \<open>simp_all add: Compare_eq_0 Compare_eq_1 Compare_eq_m1 vle_def\<close>)

section \<open>Properties of version vectors\<close>

lemma vle_strict: "vle u v \<Longrightarrow> (Get v \<noteq> Get u) = (\<exists>k. Get u k < Get v k)" "vle u v \<Longrightarrow> (Get u \<noteq> Get v) = (\<exists>k. Get u k < Get v k)"
  by (auto simp: fun_eq_iff vle_def order_less_le eq_commute)

text \<open>C29. Compare decides the pointwise order of the counters, a missing counter counting as zero: it
answers 0 for equal histories, 1 and -1 when one history contains the other strictly, and 2 exactly
when each side has a change the other has not seen; swapping the arguments swaps the answer.\<close>

theorem compare_decides_causality:
  "(Compare v ov = 0 \<longleftrightarrow> (\<forall>k. Get v k = Get ov k))
   \<and> (Compare v ov = 1 \<longleftrightarrow> (\<forall>k. Get ov k \<le> Get v k) \<and> (\<exists>k. Get ov k < Get v k))
   \<and> (Compare v ov = -1 \<longleftrightarrow> (\<forall>k. Get v k \<le> Get ov k) \<and> (\<exists>k. Get v k < Get ov k))
   \<and> (Compare v ov = 2 \<longleftrightarrow> (\<exists>k. Get v k < Get ov k) \<and> (\<exists>k. Get ov k < Get v k))
   \<and> Compare ov v = (if Compare v ov = 2 then 2 else - Compare v ov)"
proof -
  have "Compare v ov = 1 \<longleftrightarrow> (\<forall>k. Get ov k \<le> Get v k) \<and> (\<exists>k. Get ov k < Get v k)"
    "Compare v ov = -1 \<longleftrightarrow> (\<forall>k. Get v k \<le> Get ov k) \<and> (\<exists>k. Get v k < Get ov k)"
    using vle_strict [of ov v] vle_strict [of v ov]
    by (auto simp only: Compare_eq_1 Compare_eq_m1 vle_def [symmetric])
  moreover have "Compare v ov = 2 \<longleftrightarrow> (\<exists>k. Get v k < Get ov k) \<and> (\<exists>k. Get ov k < Get v k)"
    by (auto simp: Compare_eq_2 vle_def not_le)
  moreover have "Compare v ov = 0 \<longleftrightarrow> (\<forall>k. Get v k = Get ov k)" by (simp add: Compare_eq_0 fun_eq_iff)
  ultimately show ?thesis using vv.cmp_swap [of ov v] by simp
qed

lemma mget_Get: "mget (ventries v) k = (if k \<in> set (mkeys (ventries v)) then Some (Get v k) else None)"
  using mget_None_iff [of "ventries v" k] by (auto simp: Get_def)

lemma merge_bump:
  assumes "v \<noteq> None" and "vwf ov"
  obtains w w' where "Merge v ov = Inr w" "Bump w d = Inr w'" "w \<noteq> None"
    "\<And>k. Get w k = max (Get v k) (Get ov k)"
    "\<And>k. Get w' k = (if k = d then Get w d + 1 else Get w k)"
proof -
  obtain m where m: "Merge v ov = Inr (Some m)" using Merge_not_panic [OF assms(1)] by blast
  obtain w' where w': "Bump (Some m) d = Inr w'" by simp
  show ?thesis using that [OF m w'] Merge_Get [OF m assms(2)] Get_Bump [OF w'] by simp
qed

text \<open>C30. A local change made on top of both sides of a conflict supersedes both: merging a non-nil vector
with another gives their least upper bound, and bumping this device's counter then strictly
dominates each of them (as long as the 64-bit counter is not at its last value); only a nil
receiver panics.\<close>

theorem merge_then_bump_supersedes:
  assumes "v \<noteq> None" and "vwf ov" and "Get v d \<noteq> -1" and "Get ov d \<noteq> -1"
  shows "\<exists>w w'. Merge v ov = Inr w \<and> Bump w d = Inr w' \<and> Compare w' v = 1 \<and> Compare w' ov = 1
    \<and> (\<forall>u. vle w u \<longleftrightarrow> vle v u \<and> vle ov u)"
proof -
  obtain w w' where w: "Merge v ov = Inr w" "Bump w d = Inr w'" "\<And>k. Get w k = max (Get v k) (Get ov k)"
    using merge_bump [OF assms(1,2)] by metis
  have "Get w d \<noteq> -1" using assms(3,4) by (simp add: w(3) max_def)
  then have dom: "Compare w' w = 1" by (rule Bump_dominates [OF w(2)])
  have "vle v w" "vle ov w" using Merge_upper [OF w(1) assms(2)] .
  then have "Compare w v \<in> {0, 1}" "Compare w ov \<in> {0, 1}" by (simp_all add: Compare_vle)
  then have "Compare w' v = 1" "Compare w' ov = 1"
    using vv.cmp_trans [OF dom] vv.cmp_equal_cong [of w v w' w'] vv.cmp_equal_cong [of w' w' w ov]
      vv.cmp_equal_cong [of w' w' w v] dom
    by (auto simp: Compare_eq_0)
  moreover have "vle w u \<longleftrightarrow> vle v u \<and> vle ov u" for u by (auto simp: vle_def w(3))
  ultimately show ?thesis using w(1,2) by blast
qed

theorem merge_then_bump_supersedes_witness:
  "\<exists>w w'. Merge (Some [(1, 2)]) (Some [(2, 5)]) = Inr w \<and> Bump w 1 = Inr w'
     \<and> Compare w' (Some [(1, 2)]) = 1 \<and> Compare w' (Some [(2, 5)]) = 1"
  using merge_then_bump_supersedes [of "Some [(1, 2)]" "Some [(2, 5)]" 1] by (auto simp: vwf_def)

text \<open>The JSON form loses nothing: decoding what MarshalJSON wrote gives a non-nil map with the same
device and counter entries, and so a vector that Compare cannot tell from the original.\<close>

theorem vector_json_roundtrip:
  "\<exists>m. UnmarshalJSON (MarshalJSON v) = Inr (Some m) \<and> mwf m \<and> (\<forall>k. mget m k = mget (ventries v) k)
     \<and> Compare (Some m) v = 0"
  using UnmarshalJSON_MarshalJSON [of v] by (auto simp: mget_Get Compare_eq_0 fun_eq_iff Get_def [of "Some _"] Get_absent)

end
