(* ===== verification/Sha256.thy ===== *)
theory Sha256
  imports Go_Prelude
begin

text \<open>
  SHA-256 (FIPS 180-4), the function behind Go's \<^verbatim>\<open>crypto/sha256\<close> that the sources use for block
  hashes, so that block verification is stated over the real digest. Nothing about collisions is
  assumed anywhere in the development.
\<close>

definition sha_K :: "uint32 list" where
  "sha_K =
    [1116352408, 1899447441, 3049323471, 3921009573, 961987163, 1508970993,
     2453635748, 2870763221, 3624381080, 310598401, 607225278, 1426881987,
     1925078388, 2162078206, 2614888103, 3248222580, 3835390401, 4022224774,
     264347078, 604807628, 770255983, 1249150122, 1555081692, 1996064986,
     2554220882, 2821834349, 2952996808, 3210313671, 3336571891, 3584528711,
     113926993, 338241895, 666307205, 773529912, 1294757372, 1396182291,
     1695183700, 1986661051, 2177026350, 2456956037, 2730485921, 2820302411,
     3259730800, 3345764771, 3516065817, 3600352804, 4094571909, 275423344,
     430227734, 506948616, 659060556, 883997877, 958139571, 1322822218,
     1537002063, 1747873779, 1955562222, 2024104815, 2227730452, 2361852424,
     2428436474, 2756734187, 3204031479, 3329325298]"

definition sha_H0 :: "uint32 list" where
  "sha_H0 =
    [1779033703, 3144134277, 1013904242, 2773480762, 1359893119, 2600822924,
     528734635, 1541459225]"

definition sha_rotr :: "nat \<Rightarrow> uint32 \<Rightarrow> uint32" where
  "sha_rotr n w = or (drop_bit n w) (push_bit (32 - n) w)"

definition small_sigma0 :: "uint32 \<Rightarrow> uint32" where
  "small_sigma0 w = xor (xor (sha_rotr 7 w) (sha_rotr 18 w)) (drop_bit 3 w)"

definition small_sigma1 :: "uint32 \<Rightarrow> uint32" where
  "small_sigma1 w = xor (xor (sha_rotr 17 w) (sha_rotr 19 w)) (drop_bit 10 w)"

fun sha_schedule :: "nat \<Rightarrow> uint32 list \<Rightarrow> uint32 list" where
  "sha_schedule 0 ws = ws"
| "sha_schedule (Suc n) ws =
     (let t = length ws in
        sha_schedule n (ws @ [small_sigma1 (ws ! (t - 2)) + ws ! (t - 7)
          + small_sigma0 (ws ! (t - 15)) + ws ! (t - 16)]))"

fun sha_round :: "uint32 list \<Rightarrow> uint32 \<times> uint32 \<Rightarrow> uint32 list" where
  "sha_round [a, b, c, d, e, f, g, h] (k, w) =
     (let s1 = xor (xor (sha_rotr 6 e) (sha_rotr 11 e)) (sha_rotr 25 e);
          ch = xor (and e f) (and (not e) g);
          t1 = h + s1 + ch + k + w;
          s0 = xor (xor (sha_rotr 2 a) (sha_rotr 13 a)) (sha_rotr 22 a);
          maj = xor (xor (and a b) (and a c)) (and b c);
          t2 = s0 + maj
      in [t1 + t2, a, b, c, d + t1, e, f, g])"
| "sha_round st kw = st"

fun be32 :: "byte list \<Rightarrow> uint32 list" where
  "be32 (a # b # c # d # bs) =
     (or (or (push_bit 24 (ucast a)) (push_bit 16 (ucast b))) (or (push_bit 8 (ucast c)) (ucast d))) # be32 bs"
| "be32 bs = []"

definition bytes_be32 :: "uint32 \<Rightarrow> byte list" where
  "bytes_be32 w = [ucast (drop_bit 24 w), ucast (drop_bit 16 w), ucast (drop_bit 8 w), ucast w]"

definition sha_compress :: "uint32 list \<Rightarrow> byte list \<Rightarrow> uint32 list" where
  "sha_compress st blk = map2 (+) st (foldl sha_round st (zip sha_K (sha_schedule 48 (be32 blk))))"

definition sha_pad :: "byte list \<Rightarrow> byte list" where
  "sha_pad msg =
     (let l = length msg; z = (119 - l mod 64) mod 64;
          bits = (of_nat (8 * l) :: uint64)
      in msg @ [0x80] @ replicate z 0 @
         bytes_be32 (ucast (drop_bit 32 bits)) @ bytes_be32 (ucast bits))"

function sha_blocks :: "uint32 list \<Rightarrow> byte list \<Rightarrow> uint32 list" where
  "sha_blocks st msg =
     (if length msg < 64 then st else sha_blocks (sha_compress st (take 64 msg)) (drop 64 msg))"
  by pat_completeness auto
termination
  by (relation "measure (\<lambda>(st, msg). length msg)") auto

declare sha_blocks.simps [simp del]

definition sha256 :: "byte list \<Rightarrow> byte list" where
  "sha256 msg = concat (map bytes_be32 (sha_blocks sha_H0 (sha_pad msg)))"

lemma length_sha_round [simp]: "length (sha_round st kw) = length st"
  by (induction st kw rule: sha_round.induct) (simp_all add: Let_def)

lemma length_foldl_sha_round [simp]: "length (foldl sha_round st ks) = length st"
  by (induction ks arbitrary: st) simp_all

lemma length_sha_blocks: "length (sha_blocks st msg) = length st"
proof (induction st msg rule: sha_blocks.induct)
  case (1 st msg)
  then show ?case
    by (cases "length msg < 64") (simp_all add: sha_blocks.simps [of st msg] sha_compress_def)
qed

lemma length_concat_be32 [simp]: "length (concat (map bytes_be32 ws)) = 4 * length ws"
  by (induction ws) (simp_all add: bytes_be32_def)

lemma length_sha256 [simp]: "length (sha256 msg) = 32"
  by (simp add: sha256_def length_sha_blocks sha_H0_def)

end
