(* ===== verification/Block_Hash.thy ===== *)
theory Block_Hash
  imports Sha256
begin

text \<open>
  Block hashing: \<^verbatim>\<open>internal/hash/hash.go\<close>. A reader is the list of the chunks its \<^verbatim>\<open>Read\<close> calls
  return, followed by end-of-file or an error; \<open>BlockHashes\<close> is shown to hash exactly the
  fixed-size blocks of the concatenated chunks, whatever the sizes of the reads.
\<close>

section \<open>Definitions\<close>

definition MinBlockSize :: int where
  "MinBlockSize = 128 * 1024"

definition MaxBlockSize :: int where
  "MaxBlockSize = 16 * 1024 * 1024"

text \<open>Go's integer division truncates towards zero.\<close>

definition go_div :: "int \<Rightarrow> int \<Rightarrow> int" where
  "go_div a b = sgn a * sgn b * (\<bar>a\<bar> div \<bar>b\<bar>)"

function block_size_loop :: "int \<Rightarrow> int \<Rightarrow> int" where
  "block_size_loop sz bs =
     (if 0 < bs \<and> bs < MaxBlockSize then
        (if go_div (int64 (sz + bs - 1)) bs \<le> 2000 then bs
         else block_size_loop sz (bs * 2))
      else bs)"
  by pat_completeness auto
termination
  by (relation "measure (\<lambda>(sz, bs). nat (MaxBlockSize - bs))") (auto simp: MaxBlockSize_def)

declare block_size_loop.simps [simp del]

definition BlockSizeForSize :: "int \<Rightarrow> int" where
  "BlockSizeForSize sz = (if sz \<le> 0 then MinBlockSize else block_size_loop sz MinBlockSize)"

definition HashBytes :: "byte list \<Rightarrow> byte list" where
  "HashBytes b = sha256 b"

datatype read_end = EOF | ReadErr go_error

type_synonym reader = "byte list list \<times> read_end"

text \<open>
  The state of the loop: the bytes written to the hasher since its last reset, the bytes
  remaining in the block, and the hashes so far.
\<close>

type_synonym hasher = "byte list \<times> nat \<times> byte list list"

function slice_buf :: "nat \<Rightarrow> byte list \<Rightarrow> hasher \<Rightarrow> hasher" where
  "slice_buf blockSize buf (h, remaining, hashes) =
     (if buf = [] \<or> remaining = 0 then (h, remaining, hashes)
      else let n = min (length buf) remaining;
               h' = h @ take n buf;
               r' = remaining - n
           in if r' = 0 then slice_buf blockSize (drop n buf) ([], blockSize, hashes @ [sha256 h'])
              else slice_buf blockSize (drop n buf) (h', r', hashes))"
  by pat_completeness auto
termination
  by (relation "measure (\<lambda>(blockSize, buf, st). length buf)") auto

declare slice_buf.simps [simp del]

fun read_loop :: "nat \<Rightarrow> byte list list \<Rightarrow> read_end \<Rightarrow> hasher \<Rightarrow> go_error + hasher" where
  "read_loop blockSize [] EOF st = Inr st"
| "read_loop blockSize [] (ReadErr e) st = Inl e"
| "read_loop blockSize (buf # bufs) fin st = read_loop blockSize bufs fin (slice_buf blockSize buf st)"

definition BlockHashes :: "reader \<Rightarrow> int \<Rightarrow> go_error + byte list list" where
  "BlockHashes r blockSize =
     (let bs = nat (if blockSize \<le> 0 then MinBlockSize else blockSize) in
        case read_loop bs (fst r) (snd r) ([], bs, []) of
          Inl e \<Rightarrow> Inl e
        | Inr (h, remaining, hashes) \<Rightarrow>
            Inr (if remaining \<noteq> bs then hashes @ [sha256 h] else hashes))"

text \<open>
  \<^verbatim>\<open>os.Open\<close>, \<^verbatim>\<open>Stat\<close> and the reads of a file whose bytes are \<open>content\<close>; \<open>None\<close> is a file that cannot
  be opened.
\<close>

definition FileHashes :: "byte list option \<Rightarrow> int \<Rightarrow> go_error + (int \<times> byte list list)" where
  "FileHashes file blockSize =
     (case file of
        None \<Rightarrow> Inl NotExist
      | Some content \<Rightarrow>
          let bs = (if blockSize \<le> 0 then BlockSizeForSize (int (length content)) else blockSize) in
          (case BlockHashes ([content], EOF) bs of Inl e \<Rightarrow> Inl e | Inr hs \<Rightarrow> Inr (bs, hs)))"

fun EqualHashes :: "byte list list \<Rightarrow> byte list list \<Rightarrow> bool" where
  "EqualHashes [] [] = True"
| "EqualHashes (a # as) (b # bs) = (length as = length bs \<and> a = b \<and> EqualHashes as bs)"
| "EqualHashes _ _ = False"

definition Flatten :: "byte list list \<Rightarrow> byte list" where
  "Flatten hashes = (if hashes = [] then [] else concat hashes)"

function Unflatten :: "byte list \<Rightarrow> byte list list" where
  "Unflatten b = (if length b < 32 then [] else take 32 b # Unflatten (drop 32 b))"
  by pat_completeness auto
termination
  by (relation "measure length") auto

declare Unflatten.simps [simp del]

section \<open>Blocks of a byte string\<close>

function blocks_of :: "nat \<Rightarrow> byte list \<Rightarrow> byte list list" where
  "blocks_of bs xs = (if xs = [] \<or> bs = 0 then [] else take bs xs # blocks_of bs (drop bs xs))"
  by pat_completeness auto
termination
  by (relation "measure (\<lambda>(bs, xs). length xs)") auto

declare blocks_of.simps [simp del]

lemma blocks_of_Nil [simp]: "blocks_of bs [] = []"
  by (simp add: blocks_of.simps)

lemma blocks_of_full:
  "length xs = bs \<Longrightarrow> 0 < bs \<Longrightarrow> blocks_of bs (xs @ ys) = xs # blocks_of bs ys"
  by (subst blocks_of.simps) auto

lemma blocks_of_short: "length xs < bs \<Longrightarrow> blocks_of bs xs = (if xs = [] then [] else [xs])"
  by (subst blocks_of.simps) simp

lemma concat_blocks_of: "0 < bs \<Longrightarrow> concat (blocks_of bs xs) = xs"
proof (induction bs xs rule: blocks_of.induct)
  case (1 bs xs)
  then show ?case by (cases "xs = []") (simp_all add: blocks_of.simps [of bs xs])
qed

text \<open>Slicing one buffer advances the block boundary exactly: an invariant of the loop.\<close>

definition slice_inv :: "nat \<Rightarrow> byte list \<Rightarrow> hasher \<Rightarrow> bool" where
  "slice_inv bs xs st =
     (case st of (h, remaining, hashes) \<Rightarrow>
        length h + remaining = bs \<and> 0 < remaining
        \<and> (\<forall>ys. map sha256 (blocks_of bs (xs @ ys)) = hashes @ map sha256 (blocks_of bs (h @ ys))))"

lemma slice_inv_full:
  assumes "slice_inv bs xs (h, r, hs)" and "length b = r"
  shows "slice_inv bs (xs @ b) ([], bs, hs @ [sha256 (h @ b)])"
proof -
  have inv: "length h + r = bs" "0 < r"
    "\<And>ys. map sha256 (blocks_of bs (xs @ ys)) = hs @ map sha256 (blocks_of bs (h @ ys))"
    using assms(1) by (auto simp: slice_inv_def)
  have "map sha256 (blocks_of bs (xs @ b @ ys)) = hs @ [sha256 (h @ b)] @ map sha256 (blocks_of bs ys)"
    for ys
    using inv(3) [of "b @ ys"] blocks_of_full [of "h @ b" bs ys] inv(1,2) assms(2) by simp
  then show ?thesis using inv(1,2) by (simp add: slice_inv_def)
qed

lemma slice_inv_part:
  assumes "slice_inv bs xs (h, r, hs)" and "length b < r"
  shows "slice_inv bs (xs @ b) (h @ b, r - length b, hs)"
  using assms by (simp add: slice_inv_def)

lemma slice_inv_buf:
  "slice_inv bs xs st \<Longrightarrow> slice_inv bs (xs @ buf) (slice_buf bs buf st)"
proof (induction bs buf st arbitrary: xs rule: slice_buf.induct)
  case (1 bs buf h r hs)
  have pos: "0 < r" using "1.prems" by (simp add: slice_inv_def)
  show ?case
  proof (cases "length buf < r")
    case True
    then have "slice_buf bs buf (h, r, hs) = (if buf = [] then (h, r, hs) else (h @ buf, r - length buf, hs))"
      using pos by (auto simp: slice_buf.simps [of bs buf] slice_buf.simps [of bs "[]"] Let_def)
    then show ?thesis using slice_inv_part [OF "1.prems" True] "1.prems" by simp
  next
    case False
    with pos have ne: "\<not> (buf = [] \<or> r = 0)" and n: "min (length buf) r = r" by auto
    have "slice_inv bs (xs @ take r buf) ([], bs, hs @ [sha256 (h @ take r buf)])"
      using slice_inv_full [OF "1.prems", of "take r buf"] False by simp
    from "1.IH"(1) [OF ne, of r "h @ take r buf" 0, OF _ _ _ _ this]
    have "slice_inv bs ((xs @ take r buf) @ drop r buf)
        (slice_buf bs (drop r buf) ([], bs, hs @ [sha256 (h @ take r buf)]))" using n by simp
    moreover have "slice_buf bs buf (h, r, hs)
        = slice_buf bs (drop r buf) ([], bs, hs @ [sha256 (h @ take r buf)])"
      using ne by (subst slice_buf.simps) (simp only: n Let_def if_False, simp)
    ultimately show ?thesis by simp
  qed
qed

lemma read_loop_EOF:
  "slice_inv bs xs st \<Longrightarrow>
     \<exists>st'. read_loop bs bufs EOF st = Inr st' \<and> slice_inv bs (xs @ concat bufs) st'"
proof (induction bufs arbitrary: xs st)
  case (Cons buf bufs)
  from Cons.IH [OF slice_inv_buf [OF Cons.prems]] show ?case by simp
qed simp

lemma read_loop_Err: "read_loop bs bufs (ReadErr e) st = Inl e"
  by (induction bufs arbitrary: st) simp_all

lemma BlockHashes_EOF:
  assumes "0 < blockSize"
  shows "BlockHashes (bufs, EOF) blockSize = Inr (map sha256 (blocks_of (nat blockSize) (concat bufs)))"
proof -
  let ?bs = "nat blockSize"
  have pos: "0 < ?bs" using assms by simp
  have "slice_inv ?bs [] ([], ?bs, [])" using pos by (simp add: slice_inv_def)
  from read_loop_EOF [OF this] obtain h remaining hashes
    where r: "read_loop ?bs bufs EOF ([], ?bs, []) = Inr (h, remaining, hashes)"
      and inv: "slice_inv ?bs (concat bufs) (h, remaining, hashes)"
    by (metis append_Nil prod_cases3)
  have sh: "length h < ?bs" "remaining \<noteq> ?bs \<longleftrightarrow> h \<noteq> []" using inv by (auto simp: slice_inv_def)
  have "map sha256 (blocks_of ?bs (concat bufs @ [])) = hashes @ map sha256 (blocks_of ?bs (h @ []))"
    using inv unfolding slice_inv_def by blast
  then have "map sha256 (blocks_of ?bs (concat bufs)) = hashes @ (if h = [] then [] else [sha256 h])"
    using sh(1) by (simp add: blocks_of_short)
  then show ?thesis using assms r sh(2) by (simp add: BlockHashes_def Let_def)
qed

text \<open>
  C33. Block boundaries are exact: however a reader splits the file into reads, \<open>BlockHashes\<close>
  returns the SHA-256 of each consecutive \<open>blockSize\<close>-byte block and of the shorter last one, and
  those blocks concatenated are the file. A read error is returned as the error.
\<close>

theorem block_hashes_exact:
  assumes "0 < blockSize"
  shows "BlockHashes (bufs, EOF) blockSize = Inr (map HashBytes (blocks_of (nat blockSize) (concat bufs)))
    \<and> concat (blocks_of (nat blockSize) (concat bufs)) = concat bufs
    \<and> BlockHashes (bufs, ReadErr e) blockSize = Inl e"
proof -
  have "HashBytes = sha256" by (simp add: HashBytes_def fun_eq_iff)
  then show ?thesis
    using BlockHashes_EOF [OF assms] concat_blocks_of [of "nat blockSize"] assms
    by (simp add: BlockHashes_def Let_def read_loop_Err)
qed

theorem block_hashes_exact_witness:
  "BlockHashes ([[1, 2, 3], [4], [5]], EOF) 2 = Inr [HashBytes [1, 2], HashBytes [3, 4], HashBytes [5]]"
proof -
  have "blocks_of 2 [1, 2, 3, 4, 5] = [[1, 2], [3, 4], [5]]"
    by (simp add: blocks_of.simps)
  then show ?thesis
    using block_hashes_exact [of 2 "[[1, 2, 3], [4], [5]]"] by simp
qed

section \<open>Packing hashes for storage\<close>

lemma Unflatten_append: "length h = 32 \<Longrightarrow> Unflatten (h @ b) = h # Unflatten b"
  by (subst Unflatten.simps) simp

lemma Unflatten_short: "length b < 32 \<Longrightarrow> Unflatten b = []"
  by (subst Unflatten.simps) simp

lemma Unflatten_concat: "\<forall>h \<in> set hs. length h = 32 \<Longrightarrow> Unflatten (concat hs) = hs"
  by (induction hs) (simp_all add: Unflatten_append Unflatten_short)

lemma Unflatten_Flatten: "\<forall>h \<in> set hs. length h = 32 \<Longrightarrow> Unflatten (Flatten hs) = hs"
  using Unflatten_concat [of hs] by (simp add: Flatten_def Unflatten_short)

text \<open>
  Hashes survive storage: any list of 32-byte hashes, and in particular everything
  \<open>BlockHashes\<close> returns, is read back from the packed column unchanged.
\<close>

theorem unflatten_flatten:
  "(list_all (\<lambda>h. length h = 32) hs \<longrightarrow> Unflatten (Flatten hs) = hs)
   \<and> (0 < bs \<longrightarrow> (\<exists>hs'. BlockHashes (bufs, EOF) bs = Inr hs' \<and> Unflatten (Flatten hs') = hs'))"
  using Unflatten_concat [of hs] BlockHashes_EOF [of bs bufs]
    Unflatten_concat [of "map sha256 (blocks_of (nat bs) (concat bufs))"]
  by (auto simp: Flatten_def list_all_iff Unflatten_short)

theorem unflatten_flatten_witness:
  "Unflatten (Flatten [HashBytes [1], HashBytes [2, 3]]) = [HashBytes [1], HashBytes [2, 3]]"
  using unflatten_flatten [of "[HashBytes [1], HashBytes [2, 3]]" 1 "[]"]
  by (simp add: HashBytes_def)

lemma EqualHashes_iff [simp]: "EqualHashes a b \<longleftrightarrow> a = b"
  by (induction a b rule: EqualHashes.induct) auto

section \<open>The block-size rule\<close>

lemma int64_id: "- (2 ^ 63) \<le> x \<Longrightarrow> x < 2 ^ 63 \<Longrightarrow> int64 x = x"
  by (simp add: int64_def)

lemma go_div_pos: "0 \<le> a \<Longrightarrow> 0 < b \<Longrightarrow> go_div a b = a div b"
  by (cases "a = 0") (simp_all add: go_div_def sgn_if)

definition blocks_at :: "int \<Rightarrow> int \<Rightarrow> int" where
  "blocks_at sz bs = (sz + bs - 1) div bs"

lemma block_size_loop_step:
  assumes "0 < sz" and "sz < 2 ^ 62" and "0 < bs" and "bs < MaxBlockSize"
  shows "block_size_loop sz bs = (if blocks_at sz bs \<le> 2000 then bs else block_size_loop sz (bs * 2))"
proof -
  have "int64 (sz + bs - 1) = sz + bs - 1"
    using assms by (intro int64_id) (auto simp: MaxBlockSize_def)
  then show ?thesis
    using assms by (simp add: block_size_loop.simps [of sz bs] go_div_pos blocks_at_def)
qed

text \<open>Started at a power of two below the maximum, the loop stops at the first that is enough.\<close>

lemma block_size_loop_spec:
  assumes "0 < sz" and "sz < 2 ^ 62"
  shows "n \<le> 7 \<Longrightarrow> \<exists>k. 7 - n \<le> k \<and> k \<le> 7 \<and> block_size_loop sz (MinBlockSize * 2 ^ (7 - n)) = MinBlockSize * 2 ^ k
     \<and> (k < 7 \<longrightarrow> blocks_at sz (MinBlockSize * 2 ^ k) \<le> 2000)
     \<and> (\<forall>j. 7 - n \<le> j \<and> j < k \<longrightarrow> 2000 < blocks_at sz (MinBlockSize * 2 ^ j))"
proof (induction n)
  case 0
  have "block_size_loop sz (MinBlockSize * 2 ^ 7) = MinBlockSize * 2 ^ 7"
    by (simp add: block_size_loop.simps MinBlockSize_def MaxBlockSize_def)
  then show ?case by (intro exI [of _ 7]) auto
next
  case (Suc n)
  let ?i = "7 - Suc n"
  have i: "Suc ?i = 7 - n" "?i < 7" using Suc.prems by auto
  have "(2 :: int) ^ ?i \<le> 2 ^ 6" using i by (intro power_increasing) auto
  then have bnd: "MinBlockSize * 2 ^ ?i < MaxBlockSize" "0 < MinBlockSize * 2 ^ ?i"
    by (auto simp: MinBlockSize_def MaxBlockSize_def)
  have next_bs: "MinBlockSize * 2 ^ ?i * 2 = MinBlockSize * 2 ^ (7 - n)"
    using i(1) by (metis mult.assoc power_Suc2)
  show ?case
  proof (cases "blocks_at sz (MinBlockSize * 2 ^ ?i) \<le> 2000")
    case True
    then show ?thesis
      using block_size_loop_step [OF assms bnd(2,1)] i by (intro exI [of _ ?i]) auto
  next
    case False
    obtain k where k: "7 - n \<le> k" "k \<le> 7"
        "block_size_loop sz (MinBlockSize * 2 ^ (7 - n)) = MinBlockSize * 2 ^ k"
        "k < 7 \<longrightarrow> blocks_at sz (MinBlockSize * 2 ^ k) \<le> 2000"
        "\<forall>j. 7 - n \<le> j \<and> j < k \<longrightarrow> 2000 < blocks_at sz (MinBlockSize * 2 ^ j)"
      using Suc by auto
    have "2000 < blocks_at sz (MinBlockSize * 2 ^ j)" if "?i \<le> j" "j < k" for j
      using that k(5) False i by (cases "j = ?i") auto
    moreover have "block_size_loop sz (MinBlockSize * 2 ^ ?i) = MinBlockSize * 2 ^ k"
      using block_size_loop_step [OF assms bnd(2,1)] False k(3) unfolding next_bs by simp
    ultimately show ?thesis using k i by (intro exI [of _ k]) auto
  qed
qed

text \<open>
  C33. The block-size rule: for a size below \<open>2 ^ 62\<close> the result is the smallest of the eight
  powers of two from 128 KiB to 16 MiB that keeps the file at or under 2000 blocks, and the
  largest of them when none does.
\<close>

theorem block_size_for_size_minimal:
  assumes "0 < sz" and "sz < 2 ^ 62"
  shows "\<exists>k \<le> 7. BlockSizeForSize sz = MinBlockSize * 2 ^ k
    \<and> (k < 7 \<longrightarrow> blocks_at sz (BlockSizeForSize sz) \<le> 2000)
    \<and> (\<forall>j < k. 2000 < blocks_at sz (MinBlockSize * 2 ^ j))"
  using block_size_loop_spec [OF assms, of 7] assms(1) by (auto simp: BlockSizeForSize_def)

theorem block_size_for_size_minimal_witness:
  "\<exists>k \<le> 7. BlockSizeForSize (2 ^ 30) = MinBlockSize * 2 ^ k
    \<and> (k < 7 \<longrightarrow> blocks_at (2 ^ 30) (BlockSizeForSize (2 ^ 30)) \<le> 2000)
    \<and> (\<forall>j < k. 2000 < blocks_at (2 ^ 30) (MinBlockSize * 2 ^ j))"
  using block_size_for_size_minimal [of "2 ^ 30"] by simp

lemma BlockSizeForSize_pos: "0 < BlockSizeForSize sz"
proof -
  have "0 < bs \<Longrightarrow> 0 < block_size_loop sz bs" for bs
  proof (induction sz bs rule: block_size_loop.induct)
    case (1 sz bs)
    then show ?case by (subst block_size_loop.simps) simp
  qed
  then show ?thesis by (simp add: BlockSizeForSize_def MinBlockSize_def)
qed

end
