(* ===== verification/Index_Store.thy ===== *)
theory Index_Store
  imports Version Block_Hash
begin

text \<open>
  The per-folder index: \<^verbatim>\<open>internal/index/index.go\<close>. The SQLite tables are Go maps keyed by their
  primary keys, in table order; a row keeps what the code binds to its columns (the version vector
  as JSON text, the block hashes packed), and \<open>scanRow\<close> decodes it. Meta values that hold a JSON
  object are kept as the value they encode. The driver's failures are fields of the state: a
  predicate per statement kind says which names fail, so every error branch is a branch here.

  \<open>entry\<close> is the abstract view of the files table, a partial function from names to decoded
  entries; the locale \<open>file_table\<close> states the laws its clients use.
\<close>

section \<open>Entries\<close>

datatype FType = TypeFile | TypeDirectory | TypeSymlink | TypeOther int

fun type_int :: "FType \<Rightarrow> int" where
  "type_int TypeFile = 0"
| "type_int TypeDirectory = 1"
| "type_int TypeSymlink = 2"
| "type_int (TypeOther n) = n"

definition int_type :: "int \<Rightarrow> FType" where
  "int_type n = (if n = 0 then TypeFile else if n = 1 then TypeDirectory
     else if n = 2 then TypeSymlink else TypeOther n)"

record FileInfo =
  Name :: string
  Size :: int
  ModifiedS :: int
  ModifiedNs :: int
  Mode :: uint32
  Type :: FType
  Deleted :: bool
  Invalid :: bool
  Version :: Vector
  Sequence :: int
  BlockSize :: int
  Blocks :: "byte list list"

definition zero_info :: FileInfo where
  "zero_info = \<lparr>Name = [], Size = 0, ModifiedS = 0, ModifiedNs = 0, Mode = 0, Type = TypeFile,
     Deleted = False, Invalid = False, Version = None, Sequence = 0, BlockSize = 0, Blocks = []\<rparr>"

text \<open>\<^verbatim>\<open>FileInfo.Clone\<close> copies the vector and every block; the copies have the same values.\<close>

definition CloneInfo :: "FileInfo \<Rightarrow> FileInfo" where
  "CloneInfo fi = fi\<lparr>Version := Version.Clone (Version fi), Blocks := map (\<lambda>b. b) (Blocks fi)\<rparr>"

section \<open>Tables\<close>

record Row =
  r_name :: string
  r_size :: int
  r_modified_s :: int
  r_modified_ns :: int
  r_mode :: uint32
  r_type :: int
  r_deleted :: int
  r_invalid :: int
  r_version :: string
  r_sequence :: int
  r_block_size :: int
  r_blocks :: "byte list"

record SettleState =
  st_Size :: int
  st_ModS :: int
  st_ModNs :: int
  st_Count :: int
  st_First :: int

record MissingState =
  ms_Count :: int
  ms_First :: int

record peerIndexState =
  pi_IndexID :: string
  pi_MaxSeq :: int
  pi_SessionID :: string

record pendingRelease =
  rel_From :: string
  rel_To :: string
  rel_Size :: int
  rel_Blocks :: "byte list list"
  rel_Peers :: "uint64 list"

text \<open>A meta value: plain text, or the JSON text of one of the code's structs.\<close>

datatype meta_value = MText string | MPeer peerIndexState | MReleases "pendingRelease list"

record Index =
  files :: "(string, Row) gomap"
  meta :: "(string, meta_value) gomap"
  settling :: "(string, SettleState) gomap"
  missing :: "(string, MissingState) gomap"
  user_version :: int
  nextSeq :: int
  writes :: int
  indexID :: string
  fault_read :: "string \<Rightarrow> bool"
  fault_write :: "string \<Rightarrow> bool"
  fault_scan :: bool
  fault_meta :: bool
  fault_meta_put :: bool
  fault_settle :: bool
  fault_settle_put :: bool
  fault_missing :: bool
  fault_missing_put :: bool

definition boolInt :: "bool \<Rightarrow> int" where
  "boolInt b = (if b then 1 else 0)"

definition row_of :: "FileInfo \<Rightarrow> Row" where
  "row_of fi = \<lparr>r_name = Name fi, r_size = Size fi, r_modified_s = ModifiedS fi,
     r_modified_ns = ModifiedNs fi, r_mode = Mode fi, r_type = type_int (Type fi),
     r_deleted = boolInt (Deleted fi), r_invalid = boolInt (Invalid fi),
     r_version = MarshalJSON (Version fi), r_sequence = Sequence fi,
     r_block_size = BlockSize fi, r_blocks = Flatten (Blocks fi)\<rparr>"

definition scanRow :: "Row \<Rightarrow> go_error + FileInfo" where
  "scanRow row =
     (case UnmarshalJSON (r_version row) of
        Inl e \<Rightarrow> Inl e
      | Inr v \<Rightarrow> Inr \<lparr>Name = r_name row, Size = r_size row, ModifiedS = r_modified_s row,
          ModifiedNs = r_modified_ns row, Mode = r_mode row, Type = int_type (r_type row),
          Deleted = (r_deleted row \<noteq> 0), Invalid = (r_invalid row \<noteq> 0), Version = v,
          Sequence = r_sequence row, BlockSize = r_block_size row, Blocks = Unflatten (r_blocks row)\<rparr>)"

fun scan_rows :: "Row list \<Rightarrow> go_error + FileInfo list" where
  "scan_rows [] = Inr []"
| "scan_rows (r # rs) =
     (case scanRow r of
        Inl e \<Rightarrow> Inl e
      | Inr fi \<Rightarrow> (case scan_rows rs of Inl e \<Rightarrow> Inl e | Inr fis \<Rightarrow> Inr (fi # fis)))"

section \<open>Opening\<close>

definition schemaVersion :: int where
  "schemaVersion = 1"

text \<open>
  The registry of migrations is empty, so an older file only has its tables created. \<open>None\<close> is
  success.
\<close>

definition migrate :: "Index \<Rightarrow> Index \<times> go_error option" where
  "migrate ix =
     (if fault_meta ix then (ix, Some DBError)
      else if user_version ix > schemaVersion then (ix, Some (Err ''index: written by a newer build''))
      else if user_version ix = schemaVersion then (ix, None)
      else if fault_meta_put ix then (ix, Some DBError)
      else (ix\<lparr>user_version := schemaVersion\<rparr>, None))"

definition max_sequence :: "Index \<Rightarrow> int" where
  "max_sequence ix =
     (case files ix of [] \<Rightarrow> 0
      | (_, r) # rest \<Rightarrow> foldl (\<lambda>m (_, r). max m (r_sequence r)) (r_sequence r) rest)"

definition Ix_init :: "Index \<Rightarrow> Index \<times> go_error option" where
  "Ix_init ix =
     (case migrate ix of
        (ix', Some e) \<Rightarrow> (ix', Some e)
      | (ix', None) \<Rightarrow>
          if fault_scan ix' then (ix', Some DBError)
          else (ix'\<lparr>nextSeq := max_sequence ix' + 1\<rparr>, None))"

section \<open>Sequences\<close>

definition allocSequence :: "Index \<Rightarrow> Index \<times> int" where
  "allocSequence ix = (ix\<lparr>nextSeq := nextSeq ix + 1\<rparr>, nextSeq ix)"

definition NextSequence :: "Index \<Rightarrow> Index \<times> int" where
  "NextSequence ix = allocSequence ix"

definition WriteSeq :: "Index \<Rightarrow> int" where
  "WriteSeq ix = writes ix"

definition MaxSeq :: "Index \<Rightarrow> int" where
  "MaxSeq ix = nextSeq ix - 1"

text \<open>\<open>fresh\<close> are the hex digits of the sixteen random bytes the code draws.\<close>

definition IndexID :: "string \<Rightarrow> Index \<Rightarrow> Index \<times> (go_error + string)" where
  "IndexID fresh ix =
     (if indexID ix \<noteq> [] then (ix, Inr (indexID ix))
      else if fault_meta ix then (ix, Inl DBError)
      else (case mget (meta ix) ''index_id'' of
          Some (MText i) \<Rightarrow>
            if i \<noteq> [] then (ix\<lparr>indexID := i\<rparr>, Inr i)
            else (ix, Inl DBError) \<comment> \<open>the INSERT violates the primary key\<close>
        | Some _ \<Rightarrow> (ix, Inl DBError)
        | None \<Rightarrow>
            if fault_meta_put ix then (ix, Inl DBError)
            else (ix\<lparr>meta := mset_at (meta ix) ''index_id'' (MText fresh), indexID := fresh\<rparr>, Inr fresh)))"

section \<open>Writing\<close>

text \<open>The names the write hook is called with.\<close>

definition touched :: "string list \<Rightarrow> string list" where
  "touched names = filter (\<lambda>n. n \<noteq> []) names"

definition bump_writes :: "Index \<Rightarrow> Index" where
  "bump_writes ix = ix\<lparr>writes := writes ix + 1\<rparr>"

definition with_sequence :: "Index \<Rightarrow> FileInfo \<Rightarrow> Index \<times> FileInfo" where
  "with_sequence ix fi =
     (if Sequence fi = 0
      then let (ix', seq) = allocSequence ix in (ix', fi\<lparr>Sequence := seq\<rparr>)
      else (ix, fi))"

text \<open>
  \<^verbatim>\<open>Put\<close> returns the index, the entry with the sequence it now has, and the error if any.
\<close>

definition Put :: "Index \<Rightarrow> FileInfo \<Rightarrow> Index \<times> FileInfo \<times> go_error option" where
  "Put ix fi =
     (let (ix1, fi1) = with_sequence ix fi in
        if fault_write ix (Name fi) then (bump_writes ix1, fi1, Some DBError)
        else (bump_writes (ix1\<lparr>files := mset_at (files ix1) (Name fi) (row_of fi1)\<rparr>), fi1, None))"

fun put_loop :: "Index \<Rightarrow> FileInfo list \<Rightarrow> Index \<times> FileInfo list \<times> go_error option" where
  "put_loop ix [] = (ix, [], None)"
| "put_loop ix (fi # fis) =
     (let (ix1, fi1) = with_sequence ix fi in
        if fault_write ix (Name fi) then (ix1, fi1 # fis, Some DBError)
        else let (ix2, fis', err) =
               put_loop (ix1\<lparr>files := mset_at (files ix1) (Name fi) (row_of fi1)\<rparr>) fis
             in (ix2, fi1 # fis', err))"

text \<open>A transaction: on an error the tables are rolled back, the sequences stay spent.\<close>

definition PutBatch :: "Index \<Rightarrow> FileInfo list \<Rightarrow> Index \<times> FileInfo list \<times> go_error option" where
  "PutBatch ix fis =
     (if fis = [] then (bump_writes ix, [], None)
      else case put_loop ix fis of
          (ix', fis', None) \<Rightarrow> (bump_writes ix', fis', None)
        | (ix', fis', Some e) \<Rightarrow> (bump_writes (ix'\<lparr>files := files ix\<rparr>), fis', Some e))"

definition Delete :: "Index \<Rightarrow> string \<Rightarrow> Index \<times> go_error option" where
  "Delete ix name =
     (if fault_write ix name then (bump_writes ix, Some DBError)
      else (bump_writes (ix\<lparr>files := mdelete (files ix) name\<rparr>), None))"

fun seed_loop :: "Index \<Rightarrow> FileInfo list \<Rightarrow> Index \<times> FileInfo list \<times> go_error option" where
  "seed_loop ix [] = (ix, [], None)"
| "seed_loop ix (fi # fis) =
     (let (ix1, seq) = allocSequence ix; fi1 = fi\<lparr>Sequence := seq\<rparr> in
        if fault_write ix (Name fi) \<or> mget (files ix1) (Name fi) \<noteq> None
        then (ix1, fi1 # fis, Some DBError)
        else let (ix2, fis', err) =
               seed_loop (ix1\<lparr>files := mset_at (files ix1) (Name fi) (row_of fi1)\<rparr>) fis
             in (ix2, fi1 # fis', err))"

definition SeedBulk :: "Index \<Rightarrow> FileInfo list \<Rightarrow> Index \<times> FileInfo list \<times> go_error option" where
  "SeedBulk ix fis =
     (if fis = [] then (ix, [], None)
      else case seed_loop ix fis of
          (ix', fis', None) \<Rightarrow> (ix', fis', None)
        | (ix', fis', Some e) \<Rightarrow> (ix'\<lparr>files := files ix\<rparr>, fis', Some e))"

definition PruneTombstones :: "Index \<Rightarrow> int \<Rightarrow> Index \<times> (go_error + int)" where
  "PruneTombstones ix floorSeq =
     (if floorSeq \<le> 0 then (bump_writes ix, Inr 0)
      else if fault_scan ix then (bump_writes ix, Inl DBError)
      else let gone = filter (\<lambda>(_, r). r_deleted r = 1 \<and> r_sequence r \<le> floorSeq) (files ix);
               kept = filter (\<lambda>(_, r). \<not> (r_deleted r = 1 \<and> r_sequence r \<le> floorSeq)) (files ix)
           in (bump_writes (ix\<lparr>files := kept\<rparr>), Inr (int (length gone))))"

section \<open>Reading\<close>

definition Ix_Get :: "Index \<Rightarrow> string \<Rightarrow> go_error + FileInfo option" where
  "Ix_Get ix name =
     (if fault_read ix name then Inl DBError
      else case mget (files ix) name of
          None \<Rightarrow> Inr None
        | Some row \<Rightarrow> (case scanRow row of Inl e \<Rightarrow> Inl e | Inr fi \<Rightarrow> Inr (Some fi)))"

definition select_rows :: "Index \<Rightarrow> (Row \<Rightarrow> bool) \<Rightarrow> go_error + FileInfo list" where
  "select_rows ix P =
     (if fault_scan ix then Inl DBError else scan_rows (filter P (map snd (files ix))))"

text \<open>
  The iterating queries return the entries in the order the callback sees them.
\<close>

definition Ix_List :: "Index \<Rightarrow> go_error + FileInfo list" where
  "Ix_List ix = select_rows ix (\<lambda>r. r_deleted r = 0)"

definition Ix_ListAll :: "Index \<Rightarrow> go_error + FileInfo list" where
  "Ix_ListAll ix = select_rows ix (\<lambda>r. True)"

definition Ix_ListAfter :: "Index \<Rightarrow> int \<Rightarrow> go_error + FileInfo list" where
  "Ix_ListAfter ix seq = select_rows ix (\<lambda>r. r_sequence r > seq)"

definition prefix_upper :: "string \<Rightarrow> string" where
  "prefix_upper p = butlast p @ [char_of ((of_char (last p) :: nat) + 1)]"

definition Ix_ListPrefix :: "Index \<Rightarrow> string \<Rightarrow> go_error + FileInfo list" where
  "Ix_ListPrefix ix p =
     (if p = [] \<or> \<not> HasSuffix p ''/'' then Inl (Err ''index: ListPrefix needs a trailing slash'')
      else if fault_scan ix then Inl DBError
      else scan_rows (rev (sort_key r_name
        (filter (\<lambda>r. r_deleted r = 0 \<and> p \<le> r_name r \<and> r_name r < prefix_upper p) (map snd (files ix))))))"

text \<open>\<open>chunk\<close> is the bound on the names of one query; the code uses 400.\<close>

function get_many_loop :: "Index \<Rightarrow> nat \<Rightarrow> string list \<Rightarrow> (string, FileInfo) gomap
    \<Rightarrow> go_error + (string, FileInfo) gomap" where
  "get_many_loop ix chunk names out =
     (if names = [] \<or> chunk = 0 then Inr out
      else case select_rows ix (\<lambda>r. r_deleted r = 0 \<and> r_name r \<in> set (take chunk names)) of
          Inl e \<Rightarrow> Inl e
        | Inr fis \<Rightarrow> get_many_loop ix chunk (drop chunk names)
            (foldl (\<lambda>m fi. mset_at m (Name fi) fi) out fis))"
  by pat_completeness auto
termination
  by (relation "measure (\<lambda>(ix, chunk, names, out). length names)") auto

declare get_many_loop.simps [simp del]

definition GetMany :: "Index \<Rightarrow> string list \<Rightarrow> go_error + (string, FileInfo) gomap" where
  "GetMany ix names = get_many_loop ix 400 names []"

section \<open>Meta, settling and missing tables\<close>

definition SetMeta :: "Index \<Rightarrow> string \<Rightarrow> meta_value \<Rightarrow> Index \<times> go_error option" where
  "SetMeta ix key val =
     (if fault_meta_put ix then (ix, Some DBError) else (ix\<lparr>meta := mset_at (meta ix) key val\<rparr>, None))"

definition GetMeta :: "Index \<Rightarrow> string \<Rightarrow> go_error + meta_value option" where
  "GetMeta ix key = (if fault_meta ix then Inl DBError else Inr (mget (meta ix) key))"

definition peerIndexKey :: "uint64 \<Rightarrow> string" where
  "peerIndexKey peerID = ''peer_index:'' @ FormatUint (unat peerID) 10"

definition GetPeerIndex :: "Index \<Rightarrow> uint64 \<Rightarrow> go_error + peerIndexState option" where
  "GetPeerIndex ix peerID =
     (case GetMeta ix (peerIndexKey peerID) of
        Inl e \<Rightarrow> Inl e
      | Inr None \<Rightarrow> Inr None
      | Inr (Some (MPeer st)) \<Rightarrow> Inr (Some st)
      | Inr (Some _) \<Rightarrow> Inl (Err ''json: cannot unmarshal''))"

definition Ix_SetPeerIndex :: "Index \<Rightarrow> uint64 \<Rightarrow> string \<Rightarrow> int \<Rightarrow> string \<Rightarrow> Index \<times> go_error option" where
  "Ix_SetPeerIndex ix peerID ixID maxSeq sessionID =
     SetMeta ix (peerIndexKey peerID)
       (MPeer \<lparr>pi_IndexID = ixID, pi_MaxSeq = maxSeq, pi_SessionID = sessionID\<rparr>)"

definition RemovePeerIndex :: "Index \<Rightarrow> uint64 \<Rightarrow> Index \<times> go_error option" where
  "RemovePeerIndex ix peerID =
     (if fault_meta_put ix then (ix, Some DBError)
      else (ix\<lparr>meta := mdelete (meta ix) (peerIndexKey peerID)\<rparr>, None))"

definition SettleList :: "Index \<Rightarrow> go_error + (string, SettleState) gomap" where
  "SettleList ix = (if fault_settle ix then Inl DBError else Inr (settling ix))"

definition SettleReplace :: "Index \<Rightarrow> (string, SettleState) gomap \<Rightarrow> Index \<times> go_error option" where
  "SettleReplace ix states =
     (if fault_settle_put ix then (ix, Some DBError) else (ix\<lparr>settling := states\<rparr>, None))"

definition MissingList :: "Index \<Rightarrow> go_error + (string, MissingState) gomap" where
  "MissingList ix = (if fault_missing ix then Inl DBError else Inr (missing ix))"

definition MissingReplace :: "Index \<Rightarrow> (string, MissingState) gomap \<Rightarrow> Index \<times> go_error option" where
  "MissingReplace ix states =
     (if fault_missing_put ix then (ix, Some DBError) else (ix\<lparr>missing := states\<rparr>, None))"

section \<open>Decoding what was encoded\<close>

definition vnorm :: "Vector \<Rightarrow> Vector" where
  "vnorm v = Some (map (\<lambda>k. (k, Version.Get v k)) (sort (mkeys (ventries v))))"

definition stored :: "FileInfo \<Rightarrow> FileInfo" where
  "stored fi = fi\<lparr>Type := int_type (type_int (Type fi)), Version := vnorm (Version fi),
     Blocks := Unflatten (Flatten (Blocks fi))\<rparr>"

lemma mset_at_new: "k \<notin> set (mkeys m) \<Longrightarrow> mset_at m k v = m @ [(k, v)]"
  by (induction m k v rule: mset_at.induct) auto

lemma mkeys_append [simp]: "mkeys (m @ m') = mkeys m @ mkeys m'"
  by (simp add: mkeys_def)

lemma unmarshal_loop_distinct:
  "distinct ks \<Longrightarrow> set ks \<inter> set (mkeys out) = {} \<Longrightarrow>
     unmarshal_loop out (map (\<lambda>k. (FormatUint (unat k) 10, f k)) ks)
       = Inr (Some (out @ map (\<lambda>k. (k, f k)) ks))"
proof (induction ks arbitrary: out)
  case (Cons k ks)
  then show ?case using Cons.IH [of "mset_at out k (f k)"] by (simp add: mset_at_new)
qed simp

lemma UnmarshalJSON_vnorm: "vwf v \<Longrightarrow> UnmarshalJSON (MarshalJSON v) = Inr (vnorm v)"
  using unmarshal_loop_distinct [of "sort (mkeys (ventries v))" "[]" "Version.Get v"]
  by (simp add: UnmarshalJSON_def json_object_marshal vnorm_def vwf_def mwf_def)

lemma mkeys_map [simp]: "mkeys (map (\<lambda>k. (k, f k)) ks) = ks"
  by (induction ks) simp_all

lemma mget_map: "mget (map (\<lambda>k. (k, f k)) ks) k = (if k \<in> set ks then Some (f k) else None)"
  by (induction ks) auto

lemma Get_vnorm [simp]: "Version.Get (vnorm v) = Version.Get v"
proof
  fix k
  show "Version.Get (vnorm v) k = Version.Get v k"
    using Get_absent [of k v] by (auto simp: vnorm_def Version.Get_def mget_map)
qed

lemma vnorm_not_None [simp]: "vnorm v \<noteq> None"
  by (simp add: vnorm_def)

lemma vwf_vnorm [simp]: "vwf v \<Longrightarrow> vwf (vnorm v)"
  by (simp add: vnorm_def vwf_def mwf_def)

lemma Compare_vnorm [simp]:
  "Compare (vnorm v) w = Compare v w" "Compare w (vnorm v) = Compare w v"
  by (rule vv.cmp_equal_cong; simp)+

lemma scanRow_row_of: "vwf (Version fi) \<Longrightarrow> scanRow (row_of fi) = Inr (stored fi)"
  by (simp add: scanRow_def row_of_def UnmarshalJSON_vnorm stored_def boolInt_def)

lemma stored_simps [simp]:
  "Name (stored fi) = Name fi" "Size (stored fi) = Size fi" "ModifiedS (stored fi) = ModifiedS fi"
  "ModifiedNs (stored fi) = ModifiedNs fi" "Mode (stored fi) = Mode fi"
  "Deleted (stored fi) = Deleted fi" "Invalid (stored fi) = Invalid fi"
  "Sequence (stored fi) = Sequence fi" "BlockSize (stored fi) = BlockSize fi"
  "Version (stored fi) = vnorm (Version fi)" "Type (stored fi) = int_type (type_int (Type fi))"
  "Blocks (stored fi) = Unflatten (Flatten (Blocks fi))"
  by (simp_all add: stored_def)

lemma int_type_type_int [simp]: "t \<in> {TypeFile, TypeDirectory, TypeSymlink} \<Longrightarrow> int_type (type_int t) = t"
  by (auto simp: int_type_def)

lemma CloneInfo_id [simp]: "CloneInfo fi = fi"
  by (simp add: CloneInfo_def)

section \<open>Well-formedness and the abstract table\<close>

definition row_ok :: "string \<times> Row \<Rightarrow> bool" where
  "row_ok nr \<longleftrightarrow> r_name (snd nr) = fst nr \<and> r_deleted (snd nr) \<in> {0, 1}
     \<and> (\<exists>fi. scanRow (snd nr) = Inr fi \<and> vwf (Version fi) \<and> Version fi \<noteq> None)"

definition ix_wf :: "Index \<Rightarrow> bool" where
  "ix_wf ix \<longleftrightarrow> mwf (files ix) \<and> (\<forall>nr \<in> set (files ix). row_ok nr)
     \<and> (\<forall>nr \<in> set (files ix). r_sequence (snd nr) < nextSeq ix) \<and> 0 < nextSeq ix"

definition healthy :: "Index \<Rightarrow> bool" where
  "healthy ix \<longleftrightarrow> (\<forall>n. \<not> fault_read ix n) \<and> (\<forall>n. \<not> fault_write ix n) \<and> \<not> fault_scan ix \<and> \<not> fault_meta ix \<and> \<not> fault_meta_put ix
     \<and> \<not> fault_settle ix \<and> \<not> fault_settle_put ix \<and> \<not> fault_missing ix \<and> \<not> fault_missing_put ix"

definition dec :: "Row \<Rightarrow> FileInfo" where
  "dec r = (case scanRow r of Inl _ \<Rightarrow> zero_info | Inr fi \<Rightarrow> fi)"

definition entry :: "Index \<Rightarrow> string \<Rightarrow> FileInfo option" where
  "entry ix name = map_option dec (mget (files ix) name)"

definition entries :: "Index \<Rightarrow> FileInfo list" where
  "entries ix = map (dec \<circ> snd) (files ix)"

lemma scanRow_fields:
  "scanRow r = Inr fi \<Longrightarrow> Name fi = r_name r \<and> Sequence fi = r_sequence r \<and> Deleted fi = (r_deleted r \<noteq> 0)"
  by (auto simp: scanRow_def split: sum.splits)

lemma row_ok_dec:
  assumes "row_ok (n, r)"
  shows "scanRow r = Inr (dec r)" and "Name (dec r) = n" and "Sequence (dec r) = r_sequence r"
    and "Deleted (dec r) \<longleftrightarrow> r_deleted r \<noteq> 0" and "vwf (Version (dec r))" and "Version (dec r) \<noteq> None"
  using assms scanRow_fields [of r] by (auto simp: row_ok_def dec_def)

lemma row_ok_name: "row_ok (n, r) \<Longrightarrow> r_name r = n"
  by (simp add: row_ok_def)

lemma ix_wf_row: "ix_wf ix \<Longrightarrow> (n, r) \<in> set (files ix) \<Longrightarrow> row_ok (n, r)"
  by (auto simp: ix_wf_def)

lemma entry_Some_row:
  assumes "ix_wf ix" and "entry ix n = Some fi"
  obtains r where "(n, r) \<in> set (files ix)" "mget (files ix) n = Some r" "fi = dec r" "row_ok (n, r)"
  using assms by (auto simp: entry_def dest: mget_Some_in ix_wf_row)

lemma entry_wf:
  assumes "ix_wf ix" and "entry ix n = Some fi"
  shows "Name fi = n" and "vwf (Version fi)" and "Version fi \<noteq> None" and "Sequence fi < nextSeq ix"
proof -
  obtain r where r: "(n, r) \<in> set (files ix)" "fi = dec r" "row_ok (n, r)"
    using assms by (rule entry_Some_row)
  show "Name fi = n" "vwf (Version fi)" "Version fi \<noteq> None" "Sequence fi < nextSeq ix"
    using r assms(1) row_ok_dec [OF r(3)] by (auto simp: ix_wf_def)
qed

lemma Ix_Get_entry: "ix_wf ix \<Longrightarrow> \<not> fault_read ix n \<Longrightarrow> Ix_Get ix n = Inr (entry ix n)"
  using row_ok_dec(1) [of n] ix_wf_row [of ix n] mget_Some_in [of "files ix" n]
  by (auto simp: Ix_Get_def entry_def split: option.splits)

lemma scan_rows_dec:
  "\<forall>r \<in> set rs. scanRow r = Inr (dec r) \<Longrightarrow> scan_rows rs = Inr (map dec rs)"
  by (induction rs) simp_all

lemma select_rows_dec:
  assumes "ix_wf ix" and "\<not> fault_scan ix"
  shows "select_rows ix P = Inr (map dec (filter P (map snd (files ix))))"
proof -
  have "\<forall>r \<in> set (filter P (map snd (files ix))). scanRow r = Inr (dec r)"
    using ix_wf_row [OF assms(1)] row_ok_dec(1) by fastforce
  then show ?thesis using assms(2) scan_rows_dec by (simp add: select_rows_def)
qed

lemma Ix_ListAll_entries: "ix_wf ix \<Longrightarrow> \<not> fault_scan ix \<Longrightarrow> Ix_ListAll ix = Inr (entries ix)"
  by (simp add: Ix_ListAll_def select_rows_dec entries_def filter_True)

lemma filter_entries:
  assumes "ix_wf ix" and "\<And>n r. row_ok (n, r) \<Longrightarrow> P r \<longleftrightarrow> Q (dec r)"
  shows "map dec (filter P (map snd (files ix))) = filter Q (entries ix)"
proof -
  have "filter P (map snd (files ix)) = filter (Q \<circ> dec) (map snd (files ix))"
    using assms ix_wf_row [OF assms(1)] by (intro filter_cong) fastforce+
  then show ?thesis by (simp add: entries_def filter_map comp_def)
qed

lemma Ix_List_entries:
  "ix_wf ix \<Longrightarrow> \<not> fault_scan ix \<Longrightarrow> Ix_List ix = Inr (filter (\<lambda>fi. \<not> Deleted fi) (entries ix))"
  using filter_entries [of ix "\<lambda>r. r_deleted r = 0" "\<lambda>fi. \<not> Deleted fi"] row_ok_dec(4)
  by (simp add: Ix_List_def select_rows_dec)

lemma Ix_ListAfter_entries:
  "ix_wf ix \<Longrightarrow> \<not> fault_scan ix \<Longrightarrow> Ix_ListAfter ix s = Inr (filter (\<lambda>fi. s < Sequence fi) (entries ix))"
  using filter_entries [of ix "\<lambda>r. r_sequence r > s" "\<lambda>fi. s < Sequence fi"] row_ok_dec(3)
  by (simp add: Ix_ListAfter_def select_rows_dec)

lemma map_Name_entries: "ix_wf ix \<Longrightarrow> map Name (entries ix) = mkeys (files ix)"
  using ix_wf_row [of ix] row_ok_dec(2) by (auto simp: entries_def mkeys_def)

lemma in_entries_iff: "ix_wf ix \<Longrightarrow> fi \<in> set (entries ix) \<longleftrightarrow> entry ix (Name fi) = Some fi"
proof
  assume wf: "ix_wf ix" and "fi \<in> set (entries ix)"
  then obtain n r where r: "(n, r) \<in> set (files ix)" "fi = dec r" by (auto simp: entries_def)
  have "Name fi = n" using row_ok_dec(2) [OF ix_wf_row [OF wf r(1)]] r(2) by simp
  moreover have "mget (files ix) n = Some r" using wf r(1) by (simp add: mget_eq_Some_iff ix_wf_def)
  ultimately show "entry ix (Name fi) = Some fi" using r(2) by (simp add: entry_def)
next
  assume "ix_wf ix" and "entry ix (Name fi) = Some fi"
  then show "fi \<in> set (entries ix)"
  proof (rule entry_Some_row)
    fix r
    assume "(Name fi, r) \<in> set (files ix)" and "fi = dec r"
    then have "fi \<in> (dec \<circ> snd) ` set (files ix)"
      using rev_image_eqI [of "(Name fi, r)" "set (files ix)" fi "dec \<circ> snd"] by simp
    then show ?thesis by (simp only: entries_def list.set_map)
  qed
qed

lemma distinct_entries: "ix_wf ix \<Longrightarrow> distinct (map Name (entries ix))"
  by (simp add: map_Name_entries) (simp add: ix_wf_def mwf_def)

section \<open>What the writes do\<close>

definition sequenced :: "Index \<Rightarrow> FileInfo \<Rightarrow> FileInfo" where
  "sequenced ix fi = (if Sequence fi = 0 then fi\<lparr>Sequence := nextSeq ix\<rparr> else fi)"

definition seq_ok :: "Index \<Rightarrow> FileInfo \<Rightarrow> bool" where
  "seq_ok ix fi \<longleftrightarrow> Sequence fi < nextSeq ix"

lemma sequenced_simps [simp]:
  "Name (sequenced ix fi) = Name fi" "Deleted (sequenced ix fi) = Deleted fi"
  "Version (sequenced ix fi) = Version fi" "Size (sequenced ix fi) = Size fi"
  "Blocks (sequenced ix fi) = Blocks fi" "Type (sequenced ix fi) = Type fi"
  "Invalid (sequenced ix fi) = Invalid fi" "ModifiedS (sequenced ix fi) = ModifiedS fi"
  "ModifiedNs (sequenced ix fi) = ModifiedNs fi" "BlockSize (sequenced ix fi) = BlockSize fi"
  "Mode (sequenced ix fi) = Mode fi"
  by (simp_all add: sequenced_def)

lemma Sequence_sequenced: "Sequence (sequenced ix fi) = (if Sequence fi = 0 then nextSeq ix else Sequence fi)"
  by (simp add: sequenced_def)

lemma with_sequence_eq:
  "with_sequence ix fi =
     (ix\<lparr>nextSeq := (if Sequence fi = 0 then nextSeq ix + 1 else nextSeq ix)\<rparr>, sequenced ix fi)"
  by (simp add: with_sequence_def allocSequence_def sequenced_def)

definition put_ok :: "Index \<Rightarrow> FileInfo \<Rightarrow> Index" where
  "put_ok ix fi = ix\<lparr>nextSeq := (if Sequence fi = 0 then nextSeq ix + 1 else nextSeq ix),
     files := mset_at (files ix) (Name fi) (row_of (sequenced ix fi))\<rparr>"

lemma Put_ok: "\<not> fault_write ix (Name fi) \<Longrightarrow> Put ix fi = (bump_writes (put_ok ix fi), sequenced ix fi, None)"
  by (simp add: Put_def with_sequence_eq put_ok_def Let_def)

lemma put_ok_faults [simp]:
  "fault_read (put_ok ix fi) = fault_read ix" "fault_write (put_ok ix fi) = fault_write ix"
  "fault_scan (put_ok ix fi) = fault_scan ix" "fault_meta (put_ok ix fi) = fault_meta ix"
  "fault_meta_put (put_ok ix fi) = fault_meta_put ix"
  "fault_settle (put_ok ix fi) = fault_settle ix"
  "fault_settle_put (put_ok ix fi) = fault_settle_put ix"
  "fault_missing (put_ok ix fi) = fault_missing ix"
  "fault_missing_put (put_ok ix fi) = fault_missing_put ix"
  "meta (put_ok ix fi) = meta ix" "settling (put_ok ix fi) = settling ix"
  "missing (put_ok ix fi) = missing ix"
  "healthy (put_ok ix fi) = healthy ix"
  by (simp_all add: put_ok_def healthy_def)

lemma bump_writes_simps [simp]:
  "files (bump_writes ix) = files ix" "nextSeq (bump_writes ix) = nextSeq ix"
  "fault_read (bump_writes ix) = fault_read ix" "fault_write (bump_writes ix) = fault_write ix"
  "fault_scan (bump_writes ix) = fault_scan ix" "fault_meta (bump_writes ix) = fault_meta ix"
  "fault_meta_put (bump_writes ix) = fault_meta_put ix"
  "fault_settle (bump_writes ix) = fault_settle ix"
  "fault_settle_put (bump_writes ix) = fault_settle_put ix"
  "fault_missing (bump_writes ix) = fault_missing ix"
  "fault_missing_put (bump_writes ix) = fault_missing_put ix"
  "meta (bump_writes ix) = meta ix" "settling (bump_writes ix) = settling ix"
  "missing (bump_writes ix) = missing ix"
  "healthy (bump_writes ix) = healthy ix" "ix_wf (bump_writes ix) = ix_wf ix"
  "entry (bump_writes ix) = entry ix" "entries (bump_writes ix) = entries ix"
  by (simp_all add: bump_writes_def healthy_def ix_wf_def entry_def [abs_def] entries_def)

lemma healthy_simps [ix_simps]:
  "healthy ix \<Longrightarrow> \<not> fault_read ix n" "healthy ix \<Longrightarrow> \<not> fault_write ix n"
  "healthy ix \<Longrightarrow> \<not> fault_scan ix" "healthy ix \<Longrightarrow> \<not> fault_meta ix"
  "healthy ix \<Longrightarrow> \<not> fault_meta_put ix"
  "healthy ix \<Longrightarrow> \<not> fault_settle ix"
  "healthy ix \<Longrightarrow> \<not> fault_settle_put ix"
  "healthy ix \<Longrightarrow> \<not> fault_missing ix"
  "healthy ix \<Longrightarrow> \<not> fault_missing_put ix"
  by (simp_all add: healthy_def)

lemma entry_put_ok [simp, ix_simps]:
  "vwf (Version fi) \<Longrightarrow>
     entry (put_ok ix fi) n = (if n = Name fi then Some (stored (sequenced ix fi)) else entry ix n)"
  by (simp add: put_ok_def entry_def dec_def scanRow_row_of)

lemma in_set_mset_at: "x \<in> set (mset_at m k v) \<Longrightarrow> x \<in> set m \<or> x = (k, v)"
  by (induction m k v rule: mset_at.induct) (auto split: if_splits)

lemma row_ok_row_of: "vwf (Version fi) \<Longrightarrow> row_ok (Name fi, row_of fi)"
  by (simp add: row_ok_def scanRow_row_of vwf_vnorm) (simp add: row_of_def boolInt_def vnorm_def)

lemma ix_wf_put_ok [simp, intro]:
  assumes "ix_wf ix" and "vwf (Version fi)" and "seq_ok ix fi"
  shows "ix_wf (put_ok ix fi)"
proof -
  let ?f = "mset_at (files ix) (Name fi) (row_of (sequenced ix fi))"
  have "row_ok nr" if "nr \<in> set ?f" for nr
    using in_set_mset_at [OF that] assms(1) row_ok_row_of [of "sequenced ix fi"] assms(2)
    by (auto simp: ix_wf_def)
  moreover have "r_sequence (snd nr) < (if Sequence fi = 0 then nextSeq ix + 1 else nextSeq ix)"
    if "nr \<in> set ?f" for nr
    using in_set_mset_at [OF that] assms by (auto simp: ix_wf_def seq_ok_def row_of_def sequenced_def)
  ultimately show ?thesis using assms(1) by (auto simp: ix_wf_def put_ok_def)
qed

lemma nextSeq_put_ok: "nextSeq (put_ok ix fi) = (if Sequence fi = 0 then nextSeq ix + 1 else nextSeq ix)"
  by (simp add: put_ok_def)

text \<open>A batch of writes that all succeed is the writes one after the other.\<close>

lemma put_loop_Cons_ok:
  "\<not> fault_write ix (Name fi) \<Longrightarrow> put_loop ix (fi # fis) =
     (let (ix2, fis', err) = put_loop (put_ok ix fi) fis in (ix2, sequenced ix fi # fis', err))"
  by (simp add: with_sequence_eq put_ok_def Let_def)

lemma put_loop_ok:
  assumes "\<forall>fi \<in> set fis. \<not> fault_write ix (Name fi)"
  shows "\<exists>fis'. put_loop ix fis = (foldl put_ok ix fis, fis', None) \<and> map Name fis' = map Name fis"
  using assms
proof (induction fis arbitrary: ix)
  case (Cons fi fis)
  then obtain fis' where "put_loop (put_ok ix fi) fis = (foldl put_ok (put_ok ix fi) fis, fis', None)"
    "map Name fis' = map Name fis" by (metis put_ok_faults(2) list.set_intros(2))
  with Cons.prems show ?case by (simp add: put_loop_Cons_ok del: put_loop.simps)
qed simp

lemma PutBatch_ok:
  assumes "\<forall>fi \<in> set fis. \<not> fault_write ix (Name fi)"
  shows "\<exists>fis'. PutBatch ix fis = (bump_writes (foldl put_ok ix fis), fis', None)"
  using put_loop_ok [OF assms] by (cases "fis = []") (auto simp: PutBatch_def)

lemma put_loop_err:
  assumes "put_loop ix fis = (ix', fis', Some e)"
  shows "meta ix' = meta ix \<and> settling ix' = settling ix \<and> missing ix' = missing ix
    \<and> nextSeq ix \<le> nextSeq ix'"
  using assms
proof (induction fis arbitrary: ix fis')
  case (Cons fi fis)
  then show ?case
    by (fastforce simp: with_sequence_eq Let_def split: if_splits prod.splits)
qed simp

text \<open>
  The contract of a file table: what a lookup returns after a write or a deletion, and that both
  keep the invariant. \<open>ok\<close> says an entry may be written, \<open>enc\<close> what is kept of it.
\<close>

locale file_table =
  fixes lookup :: "'ix \<Rightarrow> string \<Rightarrow> 'e option"
    and put :: "'ix \<Rightarrow> 'e \<Rightarrow> 'ix"
    and del :: "'ix \<Rightarrow> string \<Rightarrow> 'ix"
    and enc :: "'ix \<Rightarrow> 'e \<Rightarrow> 'e"
    and nm :: "'e \<Rightarrow> string"
    and ok :: "'ix \<Rightarrow> 'e \<Rightarrow> bool"
    and inv :: "'ix \<Rightarrow> bool"
  assumes lookup_put: "inv ix \<Longrightarrow> ok ix e \<Longrightarrow>
      lookup (put ix e) n = (if n = nm e then Some (enc ix e) else lookup ix n)"
    and lookup_del: "inv ix \<Longrightarrow> lookup (del ix n') n = (if n = n' then None else lookup ix n)"
    and inv_put: "inv ix \<Longrightarrow> ok ix e \<Longrightarrow> inv (put ix e)"
    and inv_del: "inv ix \<Longrightarrow> inv (del ix n)"
    and ok_put: "inv ix \<Longrightarrow> ok ix e \<Longrightarrow> ok ix e' \<Longrightarrow> ok (put ix e) e'"
    and ok_del: "inv ix \<Longrightarrow> ok ix e \<Longrightarrow> ok (del ix n) e"
begin

lemma inv_puts: "inv ix \<Longrightarrow> \<forall>e \<in> set es. ok ix e \<Longrightarrow> inv (foldl put ix es)"
proof (induction es arbitrary: ix)
  case (Cons e es)
  then show ?case using Cons.IH [of "put ix e"] by (simp add: inv_put ok_put)
qed simp

lemma ok_puts: "inv ix \<Longrightarrow> \<forall>e \<in> set es. ok ix e \<Longrightarrow> ok ix e' \<Longrightarrow> ok (foldl put ix es) e'"
proof (induction es arbitrary: ix)
  case (Cons e es)
  then show ?case using Cons.IH [of "put ix e"] by (simp add: inv_put ok_put)
qed simp

text \<open>A batch changes only the names it writes.\<close>

lemma lookup_puts_other:
  "inv ix \<Longrightarrow> \<forall>e \<in> set es. ok ix e \<Longrightarrow> n \<notin> nm ` set es \<Longrightarrow> lookup (foldl put ix es) n = lookup ix n"
proof (induction es arbitrary: ix)
  case (Cons e es)
  then show ?case using Cons.IH [of "put ix e"] by (simp add: inv_put ok_put lookup_put)
qed simp

text \<open>Every name a batch writes ends with the last entry written under it.\<close>

lemma lookup_puts_last:
  assumes "inv ix" and "\<forall>e \<in> set (es @ e # es'). ok ix e" and "nm e \<notin> nm ` set es'"
  shows "lookup (foldl put ix (es @ e # es')) (nm e) = Some (enc (foldl put ix es) e)"
proof -
  let ?ix = "foldl put ix es"
  have "inv ?ix" "ok ?ix e" "\<forall>x \<in> set es'. ok ?ix x"
    using assms by (simp_all add: inv_puts ok_puts)
  then show ?thesis
    using assms(3) lookup_puts_other [of "put ?ix e" es' "nm e"] by (simp add: inv_put ok_put lookup_put)
qed

end

definition del_ok :: "Index \<Rightarrow> string \<Rightarrow> Index" where
  "del_ok ix n = ix\<lparr>files := mdelete (files ix) n\<rparr>"

lemma ix_wf_del_ok [simp, intro]: "ix_wf ix \<Longrightarrow> ix_wf (del_ok ix n)"
  by (auto simp: ix_wf_def del_ok_def mdelete_def)

lemma entry_del_ok [simp, ix_simps]: "entry (del_ok ix n) n' = (if n' = n then None else entry ix n')"
  by (simp add: del_ok_def entry_def)

lemma del_ok_faults [simp]:
  "healthy (del_ok ix n) = healthy ix" "fault_write (del_ok ix n) = fault_write ix"
  "nextSeq (del_ok ix n) = nextSeq ix" "meta (del_ok ix n) = meta ix"
  by (simp_all add: del_ok_def healthy_def)

lemma Delete_ok: "\<not> fault_write ix n \<Longrightarrow> Delete ix n = (bump_writes (del_ok ix n), None)"
  by (simp add: Delete_def del_ok_def)

interpretation ft: file_table entry put_ok del_ok "\<lambda>ix fi. stored (sequenced ix fi)" Name
  "\<lambda>ix fi. vwf (Version fi) \<and> seq_ok ix fi" ix_wf
proof
  fix ix fi n assume "ix_wf ix" "vwf (Version fi) \<and> seq_ok ix fi"
  then show "entry (put_ok ix fi) n = (if n = Name fi then Some (stored (sequenced ix fi)) else entry ix n)"
    by (simp add: entry_put_ok)
next
  fix ix fi assume "ix_wf ix" "vwf (Version fi) \<and> seq_ok ix fi"
  then show "ix_wf (put_ok ix fi)" by (simp add: ix_wf_put_ok)
next
  fix ix fi fi' assume "vwf (Version fi') \<and> seq_ok ix fi'"
  then show "vwf (Version fi') \<and> seq_ok (put_ok ix fi) fi'" by (simp add: seq_ok_def nextSeq_put_ok)
qed (simp_all add: seq_ok_def)


section \<open>Prefix queries\<close>

lemma char_less_succ:
  assumes "of_char c < (255 :: nat)"
  shows "d < char_of (of_char c + 1 :: nat) \<longleftrightarrow> d \<le> c" and "c < char_of (of_char c + 1 :: nat)"
  using assms by (simp_all add: less_char_def less_eq_char_def less_Suc_eq_le)

lemma prefix_range:
  assumes "of_char c < (255 :: nat)"
  shows "q @ [c] \<le> n \<and> n < q @ [char_of (of_char c + 1 :: nat)] \<longleftrightarrow> prefix (q @ [c]) n"
proof (induction q arbitrary: n)
  case Nil
  then show ?case
  proof (cases n)
    case (Cons d ds)
    then show ?thesis using char_less_succ(1) [OF assms, of d] char_less_succ(2) [OF assms] by auto
  qed simp
next
  case (Cons x q)
  show ?case using Cons.IH [of "tl n"] by (cases n) auto
qed

lemma prefix_upper_range:
  assumes "HasSuffix p ''/''"
  shows "p \<le> n \<and> n < prefix_upper p \<longleftrightarrow> prefix p n"
proof -
  obtain q where "p = q @ ''/''" using assms by (auto simp: suffix_def)
  then show ?thesis using prefix_range [of "CHR ''/''" q n] by (simp add: prefix_upper_def)
qed

lemma scan_rows_sort:
  assumes "\<forall>r \<in> set rs. scanRow r = Inr (dec r)"
  shows "scan_rows (rev (sort_key r_name rs)) = Inr (map dec (rev (sort_key r_name rs)))"
  using assms by (intro scan_rows_dec) simp

lemma Ix_ListPrefix_rows:
  assumes "ix_wf ix" and "\<not> fault_scan ix" and "HasSuffix p ''/''"
  shows "Ix_ListPrefix ix p = Inr (map dec (rev (sort_key r_name
    (filter (\<lambda>r. r_deleted r = 0 \<and> prefix p (r_name r)) (map snd (files ix))))))"
proof -
  have "\<forall>r \<in> snd ` set (files ix). scanRow r = Inr (dec r)"
    using ix_wf_row [OF assms(1)] row_ok_dec(1) by fastforce
  then have "scan_rows (rev (sort_key r_name (filter P (map snd (files ix))))) =
    Inr (map dec (rev (sort_key r_name (filter P (map snd (files ix))))))" for P
    by (intro scan_rows_sort) auto
  moreover have "p \<noteq> []" using assms(3) by auto
  ultimately show ?thesis
    using assms prefix_upper_range [OF assms(3)] by (simp add: Ix_ListPrefix_def)
qed

section \<open>Chunked lookups\<close>

lemma mget_foldl_entries:
  "distinct (map Name fis) \<Longrightarrow> mget (foldl (\<lambda>m fi. mset_at m (Name fi) fi) out fis) n =
     (case find (\<lambda>fi. Name fi = n) fis of Some fi \<Rightarrow> Some fi | None \<Rightarrow> mget out n)"
proof (induction fis arbitrary: out)
  case (Cons fi fis)
  from Cons.prems have "Name fi = n \<Longrightarrow> find (\<lambda>fi. Name fi = n) fis = None"
    by (auto simp: find_None_iff image_iff Ball_def)
  with Cons show ?case by (auto split: option.splits)
qed simp

definition live_entry :: "Index \<Rightarrow> string \<Rightarrow> FileInfo option" where
  "live_entry ix n = (case entry ix n of Some fi \<Rightarrow> if Deleted fi then None else Some fi | None \<Rightarrow> None)"

lemma find_filter_entries:
  assumes "ix_wf ix"
  shows "find (\<lambda>fi. Name fi = n) (filter (\<lambda>fi. \<not> Deleted fi \<and> Name fi \<in> N) (entries ix)) =
    (if n \<in> N then live_entry ix n else None)"
proof (cases "find (\<lambda>fi. Name fi = n) (filter (\<lambda>fi. \<not> Deleted fi \<and> Name fi \<in> N) (entries ix))")
  case None
  then have "entry ix n = Some fi \<Longrightarrow> n \<in> N \<Longrightarrow> Deleted fi" for fi
    using in_entries_iff [OF assms, of fi] entry_wf(1) [OF assms] by (auto simp: find_None_iff)
  with None show ?thesis by (auto simp: live_entry_def split: option.splits)
next
  case (Some fi)
  then have "fi \<in> set (entries ix)" "Name fi = n" "\<not> Deleted fi" "n \<in> N"
    by (auto simp: find_Some_iff dest!: nth_mem)
  with Some show ?thesis using in_entries_iff [OF assms, of fi] by (simp add: live_entry_def)
qed

lemma get_many_loop_spec:
  assumes "ix_wf ix" and "\<not> fault_scan ix" and "0 < chunk"
  shows "\<exists>m. get_many_loop ix chunk names out = Inr m \<and>
    (\<forall>n. mget m n = (if n \<in> set names \<and> live_entry ix n \<noteq> None then live_entry ix n else mget out n))"
  using assms(3)
proof (induction "length names" arbitrary: names out rule: less_induct)
  case less
  show ?case
  proof (cases "names = []")
    case False
    let ?N = "set (take chunk names)"
    let ?fis = "filter (\<lambda>fi. \<not> Deleted fi \<and> Name fi \<in> ?N) (entries ix)"
    let ?out = "foldl (\<lambda>m fi. mset_at m (Name fi) fi) out ?fis"
    have "(r_deleted r = 0 \<and> r_name r \<in> ?N) \<longleftrightarrow> (\<not> Deleted (dec r) \<and> Name (dec r) \<in> ?N)"
      if "row_ok (n, r)" for n r using row_ok_dec(2,4) [OF that] row_ok_name [OF that] by simp
    then have "select_rows ix (\<lambda>r. r_deleted r = 0 \<and> r_name r \<in> ?N) = Inr ?fis"
      using filter_entries [OF assms(1), of "\<lambda>r. r_deleted r = 0 \<and> r_name r \<in> ?N"
        "\<lambda>fi. \<not> Deleted fi \<and> Name fi \<in> ?N"]
      by (simp add: select_rows_dec [OF assms(1,2)])
    then have step: "get_many_loop ix chunk names out = get_many_loop ix chunk (drop chunk names) ?out"
      using False less.prems by (subst get_many_loop.simps) simp
    have "distinct (map Name ?fis)"
      using distinct_entries [OF assms(1)] by (simp add: distinct_map_filter)
    then have out: "mget ?out n = (if n \<in> ?N \<and> live_entry ix n \<noteq> None then live_entry ix n else mget out n)" for n
      by (simp add: mget_foldl_entries find_filter_entries [OF assms(1)] split: option.splits)
    have "length (drop chunk names) < length names" using False less.prems by simp
    from less.hyps [OF this less.prems, of ?out] obtain m where
      m: "get_many_loop ix chunk (drop chunk names) ?out = Inr m"
      "\<And>n. mget m n = (if n \<in> set (drop chunk names) \<and> live_entry ix n \<noteq> None then live_entry ix n else mget ?out n)"
      by blast
    have "set names = ?N \<union> set (drop chunk names)" by (metis append_take_drop_id set_append)
    then have "mget m n = (if n \<in> set names \<and> live_entry ix n \<noteq> None then live_entry ix n else mget out n)" for n
      by (simp only: m(2) out) auto
    then show ?thesis using step m(1) by simp
  qed (simp add: get_many_loop.simps)
qed


section \<open>Deltas\<close>

lemma entry_puts_fresh:
  assumes "ix_wf ix" and "\<forall>fi \<in> set fis. vwf (Version fi) \<and> Sequence fi = 0"
  shows "ix_wf (foldl put_ok ix fis) \<and> nextSeq (foldl put_ok ix fis) = nextSeq ix + int (length fis) \<and>
    (\<forall>n. if n \<in> Name ` set fis
         then \<exists>e. entry (foldl put_ok ix fis) n = Some e \<and> nextSeq ix \<le> Sequence e
         else entry (foldl put_ok ix fis) n = entry ix n)"
  using assms
proof (induction fis arbitrary: ix)
  case (Cons fi fis)
  have fi: "vwf (Version fi)" "Sequence fi = 0" using Cons.prems by simp_all
  have "0 < nextSeq ix" using Cons.prems(1) by (simp add: ix_wf_def)
  then have "ix_wf (put_ok ix fi)" using Cons.prems(1) fi by (simp add: seq_ok_def)
  have nx: "nextSeq (put_ok ix fi) = nextSeq ix + 1" using fi(2) by (simp add: nextSeq_put_ok)
  note IH = Cons.IH [OF \<open>ix_wf (put_ok ix fi)\<close>, unfolded nx]
  have fis: "\<forall>fi \<in> set fis. vwf (Version fi) \<and> Sequence fi = 0" using Cons.prems(2) by simp
  have "\<forall>n. if n \<in> Name ` set (fi # fis)
       then \<exists>e. entry (foldl put_ok ix (fi # fis)) n = Some e \<and> nextSeq ix \<le> Sequence e
       else entry (foldl put_ok ix (fi # fis)) n = entry ix n"
  proof
    fix n
    show "if n \<in> Name ` set (fi # fis)
       then \<exists>e. entry (foldl put_ok ix (fi # fis)) n = Some e \<and> nextSeq ix \<le> Sequence e
       else entry (foldl put_ok ix (fi # fis)) n = entry ix n"
      using conjunct2 [OF conjunct2 [OF IH [OF fis]], rule_format, of n] fi
      by (auto simp: sequenced_def split: if_splits)
  qed
  then show ?case using IH [OF fis] by (simp only: foldl_Cons list.size of_nat_Suc) simp
qed simp

section \<open>Example states\<close>

text \<open>A freshly created database, and a one-counter file entry, for the concrete instances below.\<close>

definition empty_index :: Index where
  "empty_index = \<lparr>files = [], meta = [], settling = [], missing = [], user_version = 1, nextSeq = 1,
     writes = 0, indexID = [], fault_read = (\<lambda>_. False), fault_write = (\<lambda>_. False),
     fault_scan = False, fault_meta = False, fault_meta_put = False,
     fault_settle = False, fault_settle_put = False, fault_missing = False, fault_missing_put = False\<rparr>"

definition sample :: "string \<Rightarrow> FileInfo" where
  "sample n = zero_info\<lparr>Name := n, Version := Some [(7, 1)]\<rparr>"

lemma empty_index_wf [simp]: "ix_wf empty_index" "healthy empty_index" "nextSeq empty_index = 1"
  by (simp_all add: ix_wf_def healthy_def empty_index_def)

lemma sample_simps [simp]:
  "Name (sample n) = n" "vwf (Version (sample n))" "Sequence (sample n) = 0" "Blocks (sample n) = []"
  "Type (sample n) = TypeFile" "Deleted (sample n) = False" "vnorm (Version (sample n)) = Version (sample n)"
  by (simp_all add: sample_def zero_info_def vwf_def vnorm_def Version.Get_def)

lemma stored_sample [simp]: "stored (sequenced ix (sample n)) = (sample n)\<lparr>Sequence := nextSeq ix\<rparr>"
  by (intro FileInfo.equality) (simp_all add: sequenced_def Unflatten_Flatten int_type_def)

lemma seq_ok_sample [simp]: "ix_wf ix \<Longrightarrow> seq_ok ix (sample n)"
  by (simp add: seq_ok_def ix_wf_def)

section \<open>Properties of the index\<close>

text \<open>Writing an entry and reading it back: the lookup returns exactly the entry written, with the
sequence the write gave it (the vector as the same counters in key order, the blocks cut back into
hashes), every other name reads as before, and the table stays well formed.\<close>

theorem put_then_get:
  assumes "ix_wf ix" and "healthy ix" and "vwf (Version fi)" and "seq_ok ix fi"
    and "Type fi \<in> {TypeFile, TypeDirectory, TypeSymlink}" and "\<forall>b \<in> set (Blocks fi). length b = 32"
    and "Put ix fi = (ix', fi', err)"
  shows "err = None \<and> ix_wf ix' \<and> Sequence fi' = (if Sequence fi = 0 then nextSeq ix else Sequence fi)
    \<and> Ix_Get ix' n = (if n = Name fi then Inr (Some (fi'\<lparr>Version := vnorm (Version fi)\<rparr>)) else Ix_Get ix n)"
proof -
  have put: "ix' = bump_writes (put_ok ix fi)" "fi' = sequenced ix fi" "err = None"
    using assms(7) Put_ok [of ix fi] healthy_simps(2) [OF assms(2)] by auto
  have "ix_wf ix'" using put(1) assms by simp
  moreover have "Ix_Get ix' n = Inr (entry ix' n)" "Ix_Get ix n = Inr (entry ix n)"
    using Ix_Get_entry [of ix' n] Ix_Get_entry [of ix n] \<open>ix_wf ix'\<close> assms(1) healthy_simps(1) [OF assms(2)] put(1)
    by simp_all
  moreover have "stored (sequenced ix fi) = (sequenced ix fi)\<lparr>Version := vnorm (Version fi)\<rparr>"
    using assms(5,6) by (intro FileInfo.equality) (simp_all add: Unflatten_Flatten)
  ultimately show ?thesis using put ft.lookup_put [OF assms(1), of fi n] assms(3,4)
    by (simp add: sequenced_def)
qed

theorem put_then_get_witness:
  "Ix_Get (fst (Put empty_index (sample ''f''))) ''f'' = Inr (Some ((sample ''f'')\<lparr>Sequence := 1\<rparr>))"
  using put_then_get [of empty_index "sample ''f''" "fst (Put empty_index (sample ''f''))"
    "sequenced empty_index (sample ''f'')" None "''f''"]
    Put_ok [of empty_index "sample ''f''"]
  by (simp add: healthy_simps sequenced_def)

text \<open>A peer that asks for what changed after the last sequence it knows gets everything: after a
batch of fresh entries, the entries with a sequence above the previous maximum are exactly the
current entries of the names the batch wrote.\<close>

theorem delta_complete:
  assumes "ix_wf ix" and "healthy ix" and "\<forall>fi \<in> set fis. vwf (Version fi) \<and> Sequence fi = 0"
  shows "\<exists>ix' fis' es. PutBatch ix fis = (ix', fis', None) \<and> ix_wf ix' \<and> Ix_ListAfter ix' (MaxSeq ix) = Inr es
    \<and> (\<forall>e. e \<in> set es \<longleftrightarrow> Name e \<in> Name ` set fis \<and> Ix_Get ix' (Name e) = Inr (Some e))"
proof -
  let ?ix = "foldl put_ok ix fis"
  obtain fis' where put: "PutBatch ix fis = (bump_writes ?ix, fis', None)"
    using PutBatch_ok [of fis ix] healthy_simps(2) [OF assms(2)] by auto
  have wf: "ix_wf ?ix" and names: "\<And>n. if n \<in> Name ` set fis
      then \<exists>e. entry ?ix n = Some e \<and> nextSeq ix \<le> Sequence e else entry ?ix n = entry ix n"
    using entry_puts_fresh [OF assms(1,3)] by blast+
  have "healthy ?ix" using assms(2) by (induction fis arbitrary: ix) simp_all
  then have h: "\<not> fault_scan ?ix" "\<And>n. \<not> fault_read ?ix n" by (simp_all add: healthy_simps)
  let ?es = "filter (\<lambda>fi. MaxSeq ix < Sequence fi) (entries ?ix)"
  have "e \<in> set ?es \<longleftrightarrow> Name e \<in> Name ` set fis \<and> entry ?ix (Name e) = Some e" for e
    using names [of "Name e"] entry_wf(4) [OF assms(1), of "Name e" e] in_entries_iff [OF wf, of e]
    by (auto simp: MaxSeq_def split: if_splits)
  moreover have "Ix_ListAfter (bump_writes ?ix) (MaxSeq ix) = Inr ?es"
    using Ix_ListAfter_entries [of "bump_writes ?ix"] wf h by simp
  moreover have "Ix_Get (bump_writes ?ix) n = Inr (entry ?ix n)" for n
    using Ix_Get_entry [of "bump_writes ?ix" n] wf h by simp
  ultimately show ?thesis using put wf by auto
qed

theorem delta_complete_witness:
  "\<exists>ix' fis' es. PutBatch empty_index [sample ''a'', sample ''b''] = (ix', fis', None)
     \<and> Ix_ListAfter ix' 0 = Inr es
     \<and> (\<forall>e. e \<in> set es \<longleftrightarrow> Name e \<in> {''a'', ''b''} \<and> Ix_Get ix' (Name e) = Inr (Some e))"
  using delta_complete [of empty_index "[sample ''a'', sample ''b'']"] by (auto simp: MaxSeq_def)

text \<open>A directory listing by the half-open name range returns exactly the live entries below the
directory, deepest first: sorted by descending name, so children come before their parent.\<close>

theorem list_prefix_exact:
  assumes "ix_wf ix" and "healthy ix" and "HasSuffix p ''/''"
  shows "\<exists>es. Ix_ListPrefix ix p = Inr es \<and> sorted (rev (map Name es))
    \<and> (\<forall>e. e \<in> set es \<longleftrightarrow> Ix_Get ix (Name e) = Inr (Some e) \<and> \<not> Deleted e \<and> prefix p (Name e))"
proof -
  let ?rs = "sort_key r_name (filter (\<lambda>r. r_deleted r = 0 \<and> prefix p (r_name r)) (map snd (files ix)))"
  have list: "Ix_ListPrefix ix p = Inr (map dec (rev ?rs))"
    using Ix_ListPrefix_rows [OF assms(1) _ assms(3)] healthy_simps(3) [OF assms(2)] by simp
  have rows: "Name (dec r) = r_name r" "Deleted (dec r) \<longleftrightarrow> r_deleted r \<noteq> 0" if "(n, r) \<in> set (files ix)" for n r
    using row_ok_dec(2,4) [OF ix_wf_row [OF assms(1) that]] row_ok_name [OF ix_wf_row [OF assms(1) that]] by simp_all
  have "map (Name \<circ> dec) ?rs = map r_name ?rs" using rows(1) by fastforce
  then have "rev (map Name (map dec (rev ?rs))) = map r_name ?rs" by (simp only: rev_map map_map rev_rev_ident)
  then have "sorted (rev (map Name (map dec (rev ?rs))))" by (simp only: sorted_sort_key)
  moreover have "e \<in> set (map dec (rev ?rs)) \<longleftrightarrow> e \<in> set (entries ix) \<and> \<not> Deleted e \<and> prefix p (Name e)" for e
    using rows by (force simp: entries_def)
  moreover have "e \<in> set (entries ix) \<longleftrightarrow> Ix_Get ix (Name e) = Inr (Some e)" for e
    using in_entries_iff [OF assms(1)] Ix_Get_entry [OF assms(1)] healthy_simps(1) [OF assms(2)] by simp
  ultimately show ?thesis using list by (intro exI [of _ "map dec (rev ?rs)"]) simp
qed

theorem list_prefix_exact_witness:
  "\<exists>es. Ix_ListPrefix (put_ok (put_ok empty_index (sample ''d/x'')) (sample ''dx'')) ''d/'' = Inr es
     \<and> set es = {(sample ''d/x'')\<lparr>Sequence := 1\<rparr>}"
proof -
  let ?ix = "put_ok (put_ok empty_index (sample ''d/x'')) (sample ''dx'')"
  have suf: "HasSuffix ''d/'' ''/''" by (simp add: suffix_def)
  obtain es where es: "Ix_ListPrefix ?ix ''d/'' = Inr es"
    "\<And>e. e \<in> set es \<longleftrightarrow> Ix_Get ?ix (Name e) = Inr (Some e) \<and> \<not> Deleted e \<and> prefix ''d/'' (Name e)"
    using list_prefix_exact [OF _ _ suf, of ?ix] by auto
  have "Ix_Get ?ix n = Inr (if n = ''dx'' then Some ((sample ''dx'')\<lparr>Sequence := 2\<rparr>)
      else if n = ''d/x'' then Some ((sample ''d/x'')\<lparr>Sequence := 1\<rparr>) else None)" for n
    by (simp add: Ix_Get_entry healthy_simps nextSeq_put_ok) (simp add: entry_def empty_index_def)
  then have "e \<in> set es \<longleftrightarrow> e = (sample ''d/x'')\<lparr>Sequence := 1\<rparr>" for e
    using es(2) [of e] by (auto split: if_splits)
  then show ?thesis using es(1) by blast
qed

text \<open>The chunked lookup returns the same as looking each name up: the live entry of every name asked
for, and nothing else, whatever the number of chunks.\<close>

theorem get_many_exact:
  assumes "ix_wf ix" and "healthy ix"
  shows "\<exists>m. GetMany ix names = Inr m \<and> (\<forall>n fi. mget m n = Some fi \<longleftrightarrow>
    n \<in> set names \<and> Ix_Get ix n = Inr (Some fi) \<and> \<not> Deleted fi)"
proof -
  obtain m where m: "GetMany ix names = Inr m"
    "\<And>n. mget m n = (if n \<in> set names \<and> live_entry ix n \<noteq> None then live_entry ix n else None)"
    using get_many_loop_spec [OF assms(1), of 400 names "[]"] healthy_simps(3) [OF assms(2)]
    by (auto simp: GetMany_def)
  have "Ix_Get ix n = Inr (entry ix n)" for n
    using Ix_Get_entry [OF assms(1)] healthy_simps(1) [OF assms(2)] by simp
  then have "mget m n = Some fi \<longleftrightarrow> n \<in> set names \<and> Ix_Get ix n = Inr (Some fi) \<and> \<not> Deleted fi" for n fi
    by (auto simp: m(2) live_entry_def split: option.splits if_splits)
  then show ?thesis using m(1) by blast
qed

theorem get_many_exact_witness:
  "\<exists>m. GetMany (put_ok empty_index (sample ''a'')) [''a'', ''b''] = Inr m
     \<and> mget m ''a'' = Some ((sample ''a'')\<lparr>Sequence := 1\<rparr>) \<and> mget m ''b'' = None"
proof -
  let ?ix = "put_ok empty_index (sample ''a'')"
  obtain m where m: "GetMany ?ix [''a'', ''b''] = Inr m"
    "\<And>n fi. mget m n = Some fi \<longleftrightarrow> n \<in> set [''a'', ''b''] \<and> Ix_Get ?ix n = Inr (Some fi) \<and> \<not> Deleted fi"
    using get_many_exact [of ?ix "[''a'', ''b'']"] by auto
  have "Ix_Get ?ix ''a'' = Inr (Some ((sample ''a'')\<lparr>Sequence := 1\<rparr>))" "Ix_Get ?ix ''b'' = Inr None"
    by (simp_all add: Ix_Get_entry healthy_simps) (simp add: entry_def empty_index_def)
  then have "mget m ''a'' = Some ((sample ''a'')\<lparr>Sequence := 1\<rparr>)" "\<And>fi. mget m ''b'' \<noteq> Some fi"
    by (simp_all add: m(2))
  then show ?thesis using m(1) by (simp add: not_Some_eq [symmetric] del: not_Some_eq)
qed

text \<open>A batch is all or nothing: when a write of it fails the files table, and the gate and meta
tables, are the ones before the batch; the sequences handed out meanwhile are never reused.\<close>

theorem put_batch_atomic:
  assumes "PutBatch ix fis = (ix', fis', Some e)"
  shows "files ix' = files ix \<and> meta ix' = meta ix \<and> settling ix' = settling ix \<and> missing ix' = missing ix
    \<and> nextSeq ix \<le> nextSeq ix'"
proof -
  obtain ix1 where "put_loop ix fis = (ix1, fis', Some e)" "ix' = bump_writes (ix1\<lparr>files := files ix\<rparr>)"
    using assms by (auto simp: PutBatch_def split: if_splits prod.splits option.splits)
  then show ?thesis using put_loop_err [of ix fis ix1 fis' e] by simp
qed

theorem put_batch_atomic_witness:
  "files (fst (PutBatch (empty_index\<lparr>fault_write := (\<lambda>n. n = ''b'')\<rparr>) [sample ''a'', sample ''b''])) = []"
  using put_batch_atomic [of "empty_index\<lparr>fault_write := (\<lambda>n. n = ''b'')\<rparr>" "[sample ''a'', sample ''b'']"
    "fst (PutBatch (empty_index\<lparr>fault_write := (\<lambda>n. n = ''b'')\<rparr>) [sample ''a'', sample ''b''])"
    "[(sample ''a'')\<lparr>Sequence := 1\<rparr>, (sample ''b'')\<lparr>Sequence := 2\<rparr>]" DBError]
  by (simp add: PutBatch_def with_sequence_eq sequenced_def Let_def) (simp add: empty_index_def)

text \<open>Pruning removes the tombstones every peer has received and nothing else: an entry goes exactly
when it is deleted and its sequence is at most the floor, a floor of zero removes nothing, and the
count returned is the number of entries removed.\<close>

theorem prune_exact:
  assumes "ix_wf ix" and "healthy ix" and "PruneTombstones ix floor = (ix', r)"
  shows "ix_wf ix' \<and> (\<exists>k. r = Inr k \<and> int (length (files ix')) + k = int (length (files ix)))
    \<and> (\<forall>n fi. Ix_Get ix' n = Inr (Some fi) \<longleftrightarrow>
         Ix_Get ix n = Inr (Some fi) \<and> \<not> (0 < floor \<and> Deleted fi \<and> Sequence fi \<le> floor))"
proof -
  let ?gone = "\<lambda>(n :: string, r :: Row). r_deleted r = 1 \<and> r_sequence r \<le> floor"
  let ?ix = "if floor \<le> 0 then ix else ix\<lparr>files := filter (\<lambda>x. \<not> ?gone x) (files ix)\<rparr>"
  let ?k = "if floor \<le> 0 then 0 else int (length (filter ?gone (files ix)))"
  have r: "ix' = bump_writes ?ix \<and> r = Inr ?k"
    using assms(3) healthy_simps(3) [OF assms(2)] by (auto simp: PruneTombstones_def Let_def split_def split: if_splits)
  have wf: "ix_wf ?ix" using assms(1) by (auto simp: ix_wf_def)
  have count: "int (length (files ?ix)) + ?k = int (length (files ix))"
    using sum_length_filter_compl [of ?gone "files ix"] by (simp add: split_def)
  have "entry ?ix n = Some fi \<longleftrightarrow> entry ix n = Some fi \<and> \<not> (0 < floor \<and> Deleted fi \<and> Sequence fi \<le> floor)" for n fi
  proof -
    have gone: "?gone (n, row) \<longleftrightarrow> Deleted (dec row) \<and> Sequence (dec row) \<le> floor" if "(n, row) \<in> set (files ix)" for row
      using ix_wf_row [OF assms(1) that] row_ok_dec(3,4) [of n row] by (auto simp: row_ok_def)
    have "mget (files ?ix) n = Some row \<longleftrightarrow> mget (files ix) n = Some row \<and> (floor \<le> 0 \<or> \<not> ?gone (n, row))" for row
      using wf assms(1) mget_eq_Some_iff [of "files ?ix" n row] mget_eq_Some_iff [of "files ix" n row]
      by (auto simp: ix_wf_def split: if_splits)
    then show ?thesis using gone mget_Some_in [of "files ix" n] by (fastforce simp: entry_def not_le)
  qed
  moreover have "Ix_Get (bump_writes ?ix) n = Inr (entry ?ix n)" "Ix_Get ix n = Inr (entry ix n)" for n
    using Ix_Get_entry [of "bump_writes ?ix" n] Ix_Get_entry [OF assms(1), of n] wf assms(2)
    by (simp_all add: healthy_simps)
  ultimately show ?thesis using r wf count by simp
qed

theorem prune_exact_witness:
  "Ix_Get (fst (PruneTombstones (put_ok (put_ok empty_index ((sample ''a'')\<lparr>Deleted := True\<rparr>)) (sample ''b'')) 5)) ''a'' = Inr None
   \<and> Ix_Get (fst (PruneTombstones (put_ok (put_ok empty_index ((sample ''a'')\<lparr>Deleted := True\<rparr>)) (sample ''b'')) 5)) ''b''
       = Inr (Some ((sample ''b'')\<lparr>Sequence := 2\<rparr>))"
proof -
  let ?ix = "put_ok (put_ok empty_index ((sample ''a'')\<lparr>Deleted := True\<rparr>)) (sample ''b'')"
  have "ix_wf (put_ok empty_index ((sample ''a'')\<lparr>Deleted := True\<rparr>))"
    by (intro ix_wf_put_ok) (simp_all add: seq_ok_def)
  then have wf: "ix_wf ?ix" by simp
  have get: "Ix_Get ?ix ''b'' = Inr (Some ((sample ''b'')\<lparr>Sequence := 2\<rparr>))"
    "\<And>fi. Ix_Get ?ix ''a'' = Inr (Some fi) \<Longrightarrow> Deleted fi \<and> Sequence fi = 1"
    using wf by (auto simp: Ix_Get_entry healthy_simps nextSeq_put_ok Sequence_sequenced)
  note prune = prune_exact [OF wf, of 5 "fst (PruneTombstones ?ix 5)" "snd (PruneTombstones ?ix 5)"]
  have "Ix_Get (fst (PruneTombstones ?ix 5)) ''b'' = Inr (Some ((sample ''b'')\<lparr>Sequence := 2\<rparr>))"
    using prune get(1) by simp
  moreover have "Ix_Get (fst (PruneTombstones ?ix 5)) ''a'' \<noteq> Inr (Some fi)" for fi
    using prune get(2) [of fi] by auto
  moreover have "Ix_Get (fst (PruneTombstones ?ix 5)) n = Inr (entry (fst (PruneTombstones ?ix 5)) n)" for n
    using prune by (intro Ix_Get_entry) (simp_all add: PruneTombstones_def healthy_simps Let_def)
  ultimately show ?thesis by (cases "entry (fst (PruneTombstones ?ix 5)) ''a''") (simp_all, blast)
qed

end
