(* ===== verification/Engine_Content.thy ===== *)
theory Engine_Content
  imports Index_Store
begin

text \<open>
  The pure rules of the sync engine, at the end of \<^verbatim>\<open>internal/sync/engine.go\<close>: when two entries
  have the same content, which of two concurrent versions wins, the identity of a content, the
  size of a block and the names of conflict copies. A content key is the byte string the code
  builds; times are Unix seconds with nanoseconds and are formatted in UTC.
\<close>

section \<open>Content\<close>

definition sameContent :: "FileInfo \<Rightarrow> FileInfo \<Rightarrow> bool" where
  "sameContent a b \<longleftrightarrow> \<not> (Type a \<noteq> Type b \<or> Size a \<noteq> Size b)
     \<and> length (Blocks a) = length (Blocks b)
     \<and> list_all (\<lambda>i. Blocks a ! i = Blocks b ! i) [0..<length (Blocks a)]"

definition identicalContent :: "FileInfo \<Rightarrow> FileInfo \<Rightarrow> bool" where
  "identicalContent a b \<longleftrightarrow>
     (if \<not> sameContent a b then False else if Size a = 0 then True else 0 < length (Blocks a))"

definition equalBlocks :: "byte list list \<Rightarrow> byte list list \<Rightarrow> bool" where
  "equalBlocks a b \<longleftrightarrow> length a = length b \<and> list_all (\<lambda>i. a ! i = b ! i) [0..<length a]"

definition bytes_of :: "string \<Rightarrow> byte list" where
  "bytes_of s = map (\<lambda>c. of_nat (of_char c)) s"

definition contentKey :: "FileInfo \<Rightarrow> byte list" where
  "contentKey fi = bytes_of (FormatInt (Size fi)) @ [0] @ concat (Blocks fi)"

section \<open>Winners\<close>

definition canonicalVersion :: "Vector \<Rightarrow> string" where
  "canonicalVersion v = concat (map (\<lambda>k. FormatUint (unat k) 16 @ '':'' @ FormatUint (unat (Version.Get v k)) 16 @ ''|'')
     (sort (mkeys (ventries v))))"

definition totalGreater :: "FileInfo \<Rightarrow> FileInfo \<Rightarrow> bool" where
  "totalGreater a b \<longleftrightarrow> canonicalVersion (Version b) < canonicalVersion (Version a)"

text \<open>The 64-bit nanosecond time stamp; the multiplication wraps as Go's does.\<close>

definition mtime_ns :: "FileInfo \<Rightarrow> int" where
  "mtime_ns a = int64 (ModifiedS a * 1000000000 + ModifiedNs a)"

definition newerOrGreater :: "FileInfo \<Rightarrow> FileInfo \<Rightarrow> bool" where
  "newerOrGreater a b \<longleftrightarrow>
     (let at = mtime_ns a; bt = mtime_ns b in if at \<noteq> bt then at > bt else totalGreater a b)"

section \<open>Block geometry\<close>

definition block_unit :: "FileInfo \<Rightarrow> int" where
  "block_unit fi = (if BlockSize fi \<le> 0 then MinBlockSize else BlockSize fi)"

definition blockSizeAt :: "FileInfo \<Rightarrow> nat \<Rightarrow> int" where
  "blockSizeAt fi idx =
     (let bs = block_unit fi; off = int64 (int idx * bs); remain = int64 (Size fi - off) in
        if remain \<le> 0 then 0 else if remain < bs then remain else bs)"

section \<open>Conflict copies\<close>

datatype ConflictPolicy = ConflictCopy | ConflictVersioning

definition ParseConflictPolicy :: "string \<Rightarrow> ConflictPolicy" where
  "ParseConflictPolicy s = (if s = ''versioning'' then ConflictVersioning else ConflictCopy)"

definition ConflictSuffix :: string where
  "ConflictSuffix = ''.sync-conflict''"

text \<open>Go's proleptic Gregorian calendar in UTC: year, month and day of a day number since 1970.\<close>

definition civil :: "int \<Rightarrow> int \<times> int \<times> int" where
  "civil days =
     (let z = days + 719468; era = z div 146097; doe = z mod 146097;
          yoe = (doe - doe div 1460 + doe div 36524 - doe div 146096) div 365;
          doy = doe - (365 * yoe + yoe div 4 - yoe div 100);
          mp = (5 * doy + 2) div 153; d = doy - (153 * mp + 2) div 5 + 1;
          m = (if mp < 10 then mp + 3 else mp - 9)
      in (yoe + era * 400 + (if m \<le> 2 then 1 else 0), m, d))"

definition pad_int :: "nat \<Rightarrow> int \<Rightarrow> string" where
  "pad_int w i = (let ds = FormatUint (nat \<bar>i\<bar>) 10 in
     (if i < 0 then ''-'' else []) @ replicate (w - length ds) CHR ''0'' @ ds)"

text \<open>\<^verbatim>\<open>Format("20060102-150405")\<close> and \<^verbatim>\<open>Format("2006-01-02")\<close>.\<close>

definition format_stamp :: "int \<Rightarrow> string" where
  "format_stamp s =
     (let (y, m, d) = civil (s div 86400); t = s mod 86400 in
        pad_int 4 y @ pad_int 2 m @ pad_int 2 d @ ''-''
        @ pad_int 2 (t div 3600) @ pad_int 2 (t mod 3600 div 60) @ pad_int 2 (t mod 60))"

definition format_day :: "int \<Rightarrow> string" where
  "format_day s = (let (y, m, d) = civil (s div 86400) in pad_int 4 y @ ''-'' @ pad_int 2 m @ ''-'' @ pad_int 2 d)"

text \<open>The nanoseconds normalise into the seconds, as \<^verbatim>\<open>time.Unix\<close> does.\<close>

definition unix_seconds :: "int \<Rightarrow> int \<Rightarrow> int" where
  "unix_seconds s ns = s + ns div 1000000000"

definition conflictName :: "string \<Rightarrow> int \<Rightarrow> int \<Rightarrow> uint64 \<Rightarrow> string" where
  "conflictName name modS modNs device =
     (let ext = path_Ext name; base = TrimSuffix name ext; ts = format_stamp (unix_seconds modS modNs) in
        base @ ConflictSuffix @ ''-'' @ ts @ ''-'' @ FormatUint (unat device) 10 @ ext)"

definition ConflictOrigin :: "string \<Rightarrow> string option" where
  "ConflictOrigin copy =
     (case LastIndex copy ConflictSuffix of
        None \<Rightarrow> None
      | Some idx \<Rightarrow> if idx = 0 then None
          else let rest = drop (idx + length ConflictSuffix) copy in Some (take idx copy @ path_Ext rest))"

section \<open>Content lemmas\<close>

lemma list_all_nth_eq: "length xs = length ys \<Longrightarrow> list_all (\<lambda>i. xs ! i = ys ! i) [0..<length xs] \<longleftrightarrow> xs = ys"
  by (auto simp: list_all_iff intro: nth_equalityI)

lemma sameContent_iff: "sameContent a b \<longleftrightarrow> Type a = Type b \<and> Size a = Size b \<and> Blocks a = Blocks b"
  using list_all_nth_eq [of "Blocks a" "Blocks b"] by (auto simp: sameContent_def)

lemma identicalContent_iff:
  "identicalContent a b \<longleftrightarrow> Type a = Type b \<and> Size a = Size b \<and> Blocks a = Blocks b \<and> (Size a = 0 \<or> Blocks a \<noteq> [])"
  by (auto simp: identicalContent_def sameContent_iff)

lemma equalBlocks_iff: "equalBlocks a b \<longleftrightarrow> a = b"
  using list_all_nth_eq [of a b] by (auto simp: equalBlocks_def)

lemma identicalContent_same: "identicalContent a b \<Longrightarrow> sameContent a b"
  by (simp add: identicalContent_def split: if_splits)

lemma append_sep_inject:
  "c \<notin> set a \<Longrightarrow> c \<notin> set b \<Longrightarrow> a @ c # x = b @ c # y \<longleftrightarrow> a = b \<and> x = y"
proof (induction a arbitrary: b)
  case Nil
  then show ?case by (cases b) auto
next
  case (Cons d a)
  then show ?case by (cases b) auto
qed

lemma unat_char: "unat (of_nat (of_char c) :: byte) = of_char c"
  by (simp add: unsigned_of_nat take_bit_eq_mod of_char_mod_256)

lemma of_char_byte_inject: "(of_nat (of_char c) :: byte) = of_nat (of_char d) \<longleftrightarrow> c = d"
  using unat_char [of c] unat_char [of d] by (metis of_char_eq_iff)

lemma bytes_of_inject: "bytes_of s = bytes_of t \<longleftrightarrow> s = t"
  unfolding bytes_of_def by (rule inj_map_eq_map) (simp add: inj_def of_char_byte_inject)

lemma bytes_of_no_zero: "CHR 0x00 \<notin> set s \<Longrightarrow> 0 \<notin> set (bytes_of s)"
proof
  assume nz: "CHR 0x00 \<notin> set s" and "0 \<in> set (bytes_of s)"
  then obtain c where c: "c \<in> set s" "(of_nat (of_char c) :: byte) = 0" by (force simp: bytes_of_def)
  have "(of_nat (of_char c) :: byte) = of_nat (of_char CHR 0x00)" unfolding c(2) by simp
  then have "c = CHR 0x00" by (simp only: of_char_byte_inject)
  with c(1) nz show False by simp
qed

lemma concat_inject_32:
  fixes hs ks :: "byte list list"
  assumes "\<forall>h \<in> set hs. length h = 32" and "\<forall>h \<in> set ks. length h = 32"
  shows "concat hs = concat ks \<longleftrightarrow> hs = ks"
proof
  assume eq: "concat hs = concat ks"
  have "hs = Unflatten (concat hs)" by (rule Unflatten_concat [OF assms(1), symmetric])
  then show "hs = ks" unfolding eq Unflatten_concat [OF assms(2)] .
qed simp

lemma contentKey_iff:
  assumes "\<forall>h \<in> set (Blocks a). length h = 32" and "\<forall>h \<in> set (Blocks b). length h = 32"
  shows "contentKey a = contentKey b \<longleftrightarrow> Size a = Size b \<and> Blocks a = Blocks b"
proof -
  have "0 \<notin> set (bytes_of (FormatInt i))" for i by (intro bytes_of_no_zero FormatInt_no_zero)
  then have "contentKey a = contentKey b \<longleftrightarrow>
      bytes_of (FormatInt (Size a)) = bytes_of (FormatInt (Size b)) \<and> concat (Blocks a) = concat (Blocks b)"
    using append_sep_inject [of 0 "bytes_of (FormatInt (Size a))" "bytes_of (FormatInt (Size b))"]
    by (simp add: contentKey_def)
  then show ?thesis using concat_inject_32 [OF assms] by (simp add: bytes_of_inject FormatInt_inject)
qed


section \<open>The winner rule\<close>

definition hex_pair :: "uint64 \<times> uint64 \<Rightarrow> string" where
  "hex_pair kc = FormatUint (unat (fst kc)) 16 @ CHR '':'' # FormatUint (unat (snd kc)) 16 @ ''|''"

lemma FormatUint_hex_no: "c \<in> {CHR '':'', CHR ''|''} \<Longrightarrow> c \<notin> set (FormatUint n 16)"
proof
  assume c: "c \<in> {CHR '':'', CHR ''|''}" "c \<in> set (FormatUint n 16)"
  then obtain d where d: "d < 16" "c = digit_char d"
    using digs_less [of 16 n] by (auto simp: FormatUint_def)
  then have "(of_char c :: nat) = (if d < 10 then 48 + d else 87 + d)" by (simp add: of_char_digit_char)
  then show False using c(1) d(1) by (auto split: if_splits)
qed

lemma unat_hex_inject: "FormatUint (unat (a :: uint64)) 16 = FormatUint (unat b) 16 \<longleftrightarrow> a = b"
  using FormatUint_inject [of 16 "unat a" "unat b"] by (simp add: word_unat_eq_iff)

lemma hex_pairs_inject: "concat (map hex_pair ps) = concat (map hex_pair qs) \<longleftrightarrow> ps = qs"
proof (induction ps arbitrary: qs)
  case Nil
  then show ?case by (cases qs) (auto simp: hex_pair_def)
next
  case (Cons p ps)
  show ?case
  proof (cases qs)
    case Nil
    then show ?thesis by (simp add: hex_pair_def)
  next
    case (Cons q qs')
    have "hex_pair p @ x = hex_pair q @ y \<longleftrightarrow> p = q \<and> x = y" for x y
      by (simp add: hex_pair_def append_sep_inject FormatUint_hex_no unat_hex_inject prod_eq_iff)
    then show ?thesis using Cons Cons.IH by simp
  qed
qed

lemma canonicalVersion_pairs:
  "canonicalVersion v = concat (map hex_pair (map (\<lambda>k. (k, Version.Get v k)) (sort (mkeys (ventries v)))))"
  by (simp add: canonicalVersion_def hex_pair_def comp_def)

lemma canonicalVersion_Get:
  assumes "canonicalVersion v = canonicalVersion w"
  shows "Version.Get v = Version.Get w"
proof
  fix k
  let ?ps = "\<lambda>v. map (\<lambda>k. (k, Version.Get v k)) (sort (mkeys (ventries v)))"
  have eq: "?ps v = ?ps w" using assms unfolding canonicalVersion_pairs hex_pairs_inject .
  have get: "case_option 0 (\<lambda>c. c) (mget (?ps u) k) = Version.Get u k" for u
    by (simp add: mget_map Get_absent)
  have "case_option 0 (\<lambda>c. c) (mget (?ps v) k) = case_option 0 (\<lambda>c. c) (mget (?ps w) k)" by (simp only: eq)
  then show "Version.Get v k = Version.Get w k" unfolding get .
qed

lemma newerOrGreater_irrefl: "\<not> newerOrGreater a a"
  by (simp add: newerOrGreater_def totalGreater_def)

lemma newerOrGreater_trans: "newerOrGreater a b \<Longrightarrow> newerOrGreater b c \<Longrightarrow> newerOrGreater a c"
  by (auto simp: newerOrGreater_def totalGreater_def Let_def split: if_splits)

lemma newerOrGreater_linear:
  "Version.Get (Version a) \<noteq> Version.Get (Version b) \<Longrightarrow> newerOrGreater a b \<or> newerOrGreater b a"
proof -
  assume "Version.Get (Version a) \<noteq> Version.Get (Version b)"
  then have "canonicalVersion (Version a) \<noteq> canonicalVersion (Version b)" using canonicalVersion_Get by blast
  then have "totalGreater a b \<or> totalGreater b a" unfolding totalGreater_def by (metis linorder_neqE)
  then show ?thesis by (cases "mtime_ns a" "mtime_ns b" rule: linorder_cases) (simp_all add: newerOrGreater_def)
qed

text \<open>C32. The conflict winner is a deterministic choice both devices make alike: the rule is a strict order
(nothing beats itself, it is transitive), and of two concurrent versions exactly one beats the
other, so swapping which side is local never changes the winner.\<close>

theorem conflict_winner_total:
  "\<not> newerOrGreater a a \<and> (newerOrGreater a b \<and> newerOrGreater b c \<longrightarrow> newerOrGreater a c)
   \<and> (Compare (Version a) (Version b) = 2 \<longrightarrow> (newerOrGreater a b \<longleftrightarrow> \<not> newerOrGreater b a))"
proof -
  have "newerOrGreater a b \<longleftrightarrow> \<not> newerOrGreater b a" if "Compare (Version a) (Version b) = 2"
    using that newerOrGreater_linear [of a b] newerOrGreater_irrefl [of a] newerOrGreater_trans [of a b a]
      vle_eq [of "Version a" "Version b"] by (auto simp: Compare_eq_2)
  then show ?thesis using newerOrGreater_irrefl newerOrGreater_trans by blast
qed

theorem conflict_winner_total_witness:
  "newerOrGreater ((sample ''f'')\<lparr>Version := Some [(2, 1)]\<rparr>) ((sample ''f'')\<lparr>Version := Some [(1, 9)]\<rparr>)
   \<longleftrightarrow> \<not> newerOrGreater ((sample ''f'')\<lparr>Version := Some [(1, 9)]\<rparr>) ((sample ''f'')\<lparr>Version := Some [(2, 1)]\<rparr>)"
  using conflict_winner_total [of "(sample ''f'')\<lparr>Version := Some [(2, 1)]\<rparr>" "(sample ''f'')\<lparr>Version := Some [(1, 9)]\<rparr>"]
  by (auto simp: Compare_def)

text \<open>A content key identifies a content: for entries whose blocks are 32-byte hashes, equal keys mean
equal size and equal block lists, so grouping by key never pairs different contents.\<close>

theorem content_key_identifies:
  assumes "\<forall>h \<in> set (Blocks a). length h = 32" and "\<forall>h \<in> set (Blocks b). length h = 32" and "Type a = Type b"
  shows "contentKey a = contentKey b \<longleftrightarrow> sameContent a b"
  using contentKey_iff [OF assms(1,2)] assms(3) by (simp add: sameContent_iff)

theorem content_key_identifies_witness:
  "contentKey ((sample ''f'')\<lparr>Size := 1, Blocks := [HashBytes [1]]\<rparr>) = contentKey ((sample ''g'')\<lparr>Size := 1, Blocks := [HashBytes [1]]\<rparr>)"
  using content_key_identifies [of "(sample ''f'')\<lparr>Size := 1, Blocks := [HashBytes [1]]\<rparr>" "(sample ''g'')\<lparr>Size := 1, Blocks := [HashBytes [1]]\<rparr>"]
  by (simp add: HashBytes_def sameContent_iff)

section \<open>Conflict names\<close>

lemma pad_int_no: "x \<in> {CHR ''.'', CHR ''/''} \<Longrightarrow> x \<notin> set (pad_int w i)"
  using FormatUint_no [of x "nat \<bar>i\<bar>"] by (auto simp: pad_int_def Let_def split: if_splits)

lemma format_stamp_no: "x \<in> {CHR ''.'', CHR ''/''} \<Longrightarrow> x \<notin> set (format_stamp s)"
  using pad_int_no [of x] by (auto simp: format_stamp_def Let_def split: prod.splits)

lemma sublist_dot_inner:
  assumes "CHR ''.'' \<notin> set m" and "sublist (CHR ''.'' # p) (m @ e)"
  shows "sublist (CHR ''.'' # p) e"
proof -
  obtain a b where eq: "m @ e = a @ CHR ''.'' # p @ b" using assms(2) by (auto simp: sublist_def)
  from eq consider us where "a = m @ us" "e = us @ CHR ''.'' # p @ b"
    | us where "m = a @ us" "us @ e = CHR ''.'' # p @ b"
    by (auto simp: append_eq_append_conv2)
  then show ?thesis
  proof cases
    case 1
    then show ?thesis by (auto simp: sublist_def)
  next
    case 2
    then show ?thesis using assms(1) by (cases us) (auto simp: sublist_def intro: exI [of _ "[]"])
  qed
qed

lemma ext_no_marker:
  assumes "e = [] \<or> (\<exists>x. e = CHR ''.'' # x \<and> CHR ''.'' \<notin> set x)" and "\<not> prefix (CHR ''.'' # p) e"
  shows "\<not> sublist (CHR ''.'' # p) e"
proof
  assume "sublist (CHR ''.'' # p) e"
  then obtain a b where "e = a @ CHR ''.'' # p @ b" by (auto simp: sublist_def)
  with assms show False by (cases a) auto
qed

lemma path_Ext_suffix:
  obtains b where "s = b @ path_Ext s"
    "path_Ext s = [] \<or> (\<exists>x. path_Ext s = CHR ''.'' # x \<and> CHR ''.'' \<notin> set x \<and> CHR ''/'' \<notin> set x)"
  by (rule path_Ext_cases [of s]) auto

lemma path_Ext_again:
  assumes "e = [] \<or> (\<exists>x. e = CHR ''.'' # x \<and> CHR ''.'' \<notin> set x \<and> CHR ''/'' \<notin> set x)"
    and "CHR ''.'' \<notin> set m" and "CHR ''/'' \<notin> set m"
  shows "path_Ext (m @ e) = e"
  using assms path_Ext_none [of m] path_Ext_dot [of _ m] by auto

text \<open>The origin of a conflict copy is the file it was made from: undoing the name the engine gave it
returns the original path, directory and extension included. The one exception is a dot file at the
folder root (its whole name is its extension), for which no origin is reported.\<close>

theorem conflict_origin_roundtrip:
  assumes "\<not> prefix ConflictSuffix (path_Ext name)"
  shows "ConflictOrigin (conflictName name modS modNs device) = (if name = path_Ext name then None else Some name)"
proof -
  obtain b where b: "name = b @ path_Ext name"
    and e: "path_Ext name = [] \<or> (\<exists>x. path_Ext name = CHR ''.'' # x \<and> CHR ''.'' \<notin> set x \<and> CHR ''/'' \<notin> set x)"
    by (rule path_Ext_suffix)
  let ?m = "''-'' @ format_stamp (unix_seconds modS modNs) @ ''-'' @ FormatUint (unat device) 10"
  have m: "CHR ''.'' \<notin> set ?m" "CHR ''/'' \<notin> set ?m" by (simp_all add: format_stamp_no FormatUint_no)
  have "TrimSuffix name (path_Ext name) = b" by (subst (1) b) (rule TrimSuffix_append)
  then have nm: "conflictName name modS modNs device = b @ ConflictSuffix @ ?m @ path_Ext name"
    by (simp add: conflictName_def Let_def)
  have "\<not> sublist ConflictSuffix (path_Ext name)"
    using ext_no_marker [of "path_Ext name" "''sync-conflict''"] e assms by (auto simp: ConflictSuffix_def)
  then have "\<not> sublist ConflictSuffix (tl ConflictSuffix @ ?m @ path_Ext name)"
    using sublist_dot_inner [of "tl ConflictSuffix @ ?m" "''sync-conflict''" "path_Ext name"] m(1)
    by (auto simp: ConflictSuffix_def)
  then have "LastIndex (b @ ConflictSuffix @ ?m @ path_Ext name) ConflictSuffix = Some (length b)"
    by (rule LastIndex_append [rotated]) (simp add: ConflictSuffix_def)
  then have "ConflictOrigin (conflictName name modS modNs device) =
      (if b = [] then None else Some (b @ path_Ext (?m @ path_Ext name)))"
    unfolding nm by (simp add: ConflictOrigin_def)
  moreover have "path_Ext (?m @ path_Ext name) = path_Ext name" by (rule path_Ext_again [OF e m])
  moreover have "b = [] \<longleftrightarrow> name = path_Ext name" by (metis b append_self_conv2)
  ultimately show ?thesis using b by metis
qed

theorem conflict_origin_roundtrip_witness:
  "ConflictOrigin (conflictName ''dir/a.dng'' 1793009700 0 123) = Some ''dir/a.dng''
   \<and> conflictName ''dir/a.dng'' 1793009700 0 123 = ''dir/a.sync-conflict-20261026-101500-123.dng''
   \<and> ConflictOrigin (conflictName ''.bashrc'' 0 0 7) = None"
proof -
  have "path_Ext ''dir/a.dng'' = ''.dng''" "path_Ext ''.bashrc'' = ''.bashrc''" by code_simp+
  moreover have "conflictName ''dir/a.dng'' 1793009700 0 123 = ''dir/a.sync-conflict-20261026-101500-123.dng''"
    by code_simp
  ultimately show ?thesis
    using conflict_origin_roundtrip [of "''dir/a.dng''" 1793009700 0 123] conflict_origin_roundtrip [of "''.bashrc''" 0 0 7]
    by (simp add: ConflictSuffix_def)
qed

section \<open>Blocks of a file\<close>

lemma MinBlockSize_pos: "0 < MinBlockSize"
  by (simp add: MinBlockSize_def)

lemma block_unit_pos: "0 < block_unit fi"
  using MinBlockSize_pos by (simp add: block_unit_def)

end
