(* ===== verification/Ignore_Rules.thy ===== *)
theory Ignore_Rules
  imports Go_Prelude
begin

text \<open>
  Ignore and include rules: \<^verbatim>\<open>internal/ignore/ignore.go\<close>. \<open>Parse\<close> compiles pattern lines into
  rules, \<open>Match\<close> decides a path. A nil \<^verbatim>\<open>*Matcher\<close> is \<^term>\<open>None\<close>. The lemmas say which rule decides
  (the last one that matches) and what a directory rule covers.
\<close>

section \<open>Definitions\<close>

record Rule =
  Raw :: string
  Negate :: bool
  Ext :: string
  Exact :: string
  DirPath :: string
  IsDir :: bool
  Deep :: bool

type_synonym Matcher = "Rule list option"

definition new_rule :: "string \<Rightarrow> Rule" where
  "new_rule line = \<lparr>Raw = line, Negate = False, Ext = [], Exact = [], DirPath = [], IsDir = False, Deep = False\<rparr>"

definition classify_dir :: "string \<Rightarrow> Rule \<Rightarrow> Rule" where
  "classify_dir line r =
     (let d = TrimSlash line in
        if HasPrefix d ''*/'' then r\<lparr>IsDir := True, Deep := True, DirPath := TrimPrefix d ''*/''\<rparr>
        else r\<lparr>IsDir := True, DirPath := d\<rparr>)"

definition classify_plain :: "string \<Rightarrow> Rule \<Rightarrow> Rule" where
  "classify_plain line r =
     (if HasPrefix line ''/'' then r\<lparr>DirPath := TrimPrefix line ''/''\<rparr>
      else if Contains line ''*.'' \<and> \<not> Contains line ''/''
        then r\<lparr>Ext := ToLower (after_first line ''*.'')\<rparr>
      else if HasPrefix line ''*'' then r\<lparr>Exact := line\<rparr>
      else if Contains line ''/'' then r\<lparr>DirPath := TrimSlash line\<rparr>
      else r\<lparr>Exact := line\<rparr>)"

definition compile_line :: "string \<Rightarrow> Rule" where
  "compile_line l =
     (let r = new_rule l;
          r' = (if HasPrefix l ''!'' then r\<lparr>Negate := True\<rparr> else r);
          line = TrimSpace (if HasPrefix l ''!'' then TrimPrefix l ''!'' else l)
      in if HasSuffix line ''/'' then classify_dir line r' else classify_plain line r')"

fun parse_lines :: "string list \<Rightarrow> Rule list" where
  "parse_lines [] = []"
| "parse_lines (l # ls) =
     (let line = TrimSpace l in
        if line = [] \<or> HasPrefix line ''#'' then parse_lines ls
        else compile_line line # parse_lines ls)"

definition Parse :: "string list \<Rightarrow> Matcher" where
  "Parse ls = Some (parse_lines ls)"

definition rule_matches :: "Rule \<Rightarrow> string \<Rightarrow> bool \<Rightarrow> bool" where
  "rule_matches r rel isDir =
     (let base = path_Base rel; lower = ToLower base in
        if DirPath r \<noteq> [] then
          (rel = DirPath r \<or> HasPrefix rel (DirPath r @ ''/'')) \<or>
          (Deep r \<and> (HasSuffix rel (''/'' @ DirPath r) \<or> Contains rel (''/'' @ DirPath r @ ''/'')))
        else if Ext r \<noteq> [] then \<not> isDir \<and> HasSuffix lower (''.'' @ Ext r)
        else if HasPrefix (Exact r) ''*'' then \<not> isDir \<and> HasSuffix base (TrimPrefix (Exact r) ''*'')
        else if Exact r \<noteq> [] then base = Exact r
        else False)"

fun match_loop :: "Rule list \<Rightarrow> string \<Rightarrow> bool \<Rightarrow> bool \<times> Rule option \<Rightarrow> bool \<times> Rule option" where
  "match_loop [] rel isDir (ignored, decided) = (ignored, decided)"
| "match_loop (r # rs) rel isDir (ignored, decided) =
     match_loop rs rel isDir
       (if rule_matches r rel isDir then (\<not> Negate r, Some r) else (ignored, decided))"

definition Match :: "Matcher \<Rightarrow> string \<Rightarrow> bool \<Rightarrow> bool \<times> Rule option" where
  "Match m rel isDir =
     (case m of None \<Rightarrow> (False, None)
      | Some rules \<Rightarrow>
          (let (ignored, decided) = match_loop rules rel isDir (False, None)
           in if decided = None then (False, None) else (ignored, decided)))"

text \<open>Whether an include gate lets a path through: a nil gate lets everything through.\<close>

definition in_gate :: "Matcher \<Rightarrow> string \<Rightarrow> bool \<Rightarrow> bool" where
  "in_gate m rel isDir \<longleftrightarrow> m = None \<or> fst (Match m rel isDir)"

section \<open>The rule that decides\<close>

lemma match_loop_filter:
  "match_loop rs rel isDir acc =
     (case rev (filter (\<lambda>r. rule_matches r rel isDir) rs) of
        [] \<Rightarrow> acc | r # _ \<Rightarrow> (\<not> Negate r, Some r))"
  by (induction rs rel isDir acc rule: match_loop.induct)
    (auto split: list.splits simp: append_eq_Cons_conv)

lemma Match_some:
  "Match (Some rs) rel isDir =
     (case rev (filter (\<lambda>r. rule_matches r rel isDir) rs) of
        [] \<Rightarrow> (False, None) | r # _ \<Rightarrow> (\<not> Negate r, Some r))"
  by (auto simp: Match_def match_loop_filter split: list.splits)

lemma Match_append_none:
  "list_all (\<lambda>r. \<not> rule_matches r rel isDir) rs' \<Longrightarrow>
     Match (Some (rs @ rs')) rel isDir = Match (Some rs) rel isDir"
proof -
  assume "list_all (\<lambda>r. \<not> rule_matches r rel isDir) rs'"
  then have "filter (\<lambda>r. rule_matches r rel isDir) rs' = []"
    by (simp add: list_all_iff filter_empty_conv)
  then show ?thesis by (simp add: Match_some)
qed

text \<open>
  C22. The last matching rule wins: for every rule list split at a rule that matches with no match
  after it, the answer is that rule's polarity and that rule; when nothing matches, nothing is
  ignored and no rule is reported.
\<close>

theorem match_last_rule_wins:
  "(rule_matches r rel isDir \<and> list_all (\<lambda>r'. \<not> rule_matches r' rel isDir) rs' \<longrightarrow>
      Match (Some (rs @ r # rs')) rel isDir = (\<not> Negate r, Some r)) \<and>
   (list_all (\<lambda>r'. \<not> rule_matches r' rel isDir) rs \<longrightarrow> Match (Some rs) rel isDir = (False, None))"
proof (intro conjI impI)
  assume "rule_matches r rel isDir \<and> list_all (\<lambda>r'. \<not> rule_matches r' rel isDir) rs'"
  then show "Match (Some (rs @ r # rs')) rel isDir = (\<not> Negate r, Some r)"
    using Match_append_none [of rel isDir rs' "rs @ [r]"] by (simp add: Match_some)
next
  assume "list_all (\<lambda>r'. \<not> rule_matches r' rel isDir) rs"
  then show "Match (Some rs) rel isDir = (False, None)"
    using Match_append_none [of rel isDir rs "[]"] by (simp add: Match_some)
qed

theorem match_last_rule_wins_witness:
  "Match (Some ([compile_line ''*.tmp''] @ compile_line ''!keep.tmp'' # [compile_line ''*.log'']))
     ''a/keep.tmp'' False = (False, Some (compile_line ''!keep.tmp''))"
proof -
  have "rule_matches (compile_line ''!keep.tmp'') ''a/keep.tmp'' False"
    and "list_all (\<lambda>r'. \<not> rule_matches r' ''a/keep.tmp'' False) [compile_line ''*.log'']"
    and "Negate (compile_line ''!keep.tmp'')"
    by code_simp+
  then show ?thesis
    using match_last_rule_wins [of "compile_line ''!keep.tmp''" "''a/keep.tmp''" False
      "[compile_line ''*.log'']" "[compile_line ''*.tmp'']"] by simp
qed

section \<open>Directory rules\<close>

lemma dir_rule_subtree:
  assumes "DirPath r \<noteq> []" and "rule_matches r rel isDir"
  shows "rule_matches r (rel @ ''/'' @ sub) isDir'"
proof -
  have "sublist (''/'' @ DirPath r @ ''/'') (rel @ ''/'' @ sub)"
    if "suffix (''/'' @ DirPath r) rel"
    using that by (auto simp: suffix_def sublist_def) blast
  moreover have "sublist (''/'' @ DirPath r @ ''/'') (rel @ ''/'' @ sub)"
    if "sublist (''/'' @ DirPath r @ ''/'') rel"
    using that by (meson sublist_order.order_trans sublist_append_rightI)
  moreover have "prefix (DirPath r @ ''/'') (rel @ ''/'' @ sub)"
    if "rel = DirPath r \<or> prefix (DirPath r @ ''/'') rel"
    using that by (auto simp: prefix_def)
  ultimately show ?thesis
    using assms by (auto simp: rule_matches_def Let_def Contains_iff)
qed

text \<open>
  C32. A directory rule covers the whole subtree: if every rule after it is silent on the paths
  below, then whenever the rule decides a directory it decides everything beneath it the same
  way, so the scanner loses nothing by pruning an ignored directory.
\<close>

theorem dir_rule_covers_subtree:
  assumes "DirPath r \<noteq> []" and "rule_matches r rel isDir"
    and "list_all (\<lambda>r'. \<not> rule_matches r' (rel @ ''/'' @ sub) isDir') rs'"
  shows "Match (Some (rs @ r # rs')) (rel @ ''/'' @ sub) isDir' = (\<not> Negate r, Some r)"
  using Match_append_none [OF assms(3), of "rs @ [r]"] dir_rule_subtree [OF assms(1,2)]
  by (simp add: Match_some)

theorem dir_rule_covers_subtree_witness:
  "Match (Some ([compile_line ''*.txt''] @ compile_line ''*/proxy/'' # []))
     (''p/proxy'' @ ''/'' @ ''x/y.mov'') False = (True, Some (compile_line ''*/proxy/''))"
proof -
  have "DirPath (compile_line ''*/proxy/'') \<noteq> []"
    and "rule_matches (compile_line ''*/proxy/'') ''p/proxy'' True"
    and "\<not> Negate (compile_line ''*/proxy/'')"
    by code_simp+
  then show ?thesis
    using dir_rule_covers_subtree [of "compile_line ''*/proxy/''" "''p/proxy''" True "''x/y.mov''"
      False "[]" "[compile_line ''*.txt'']"] by simp
qed

text \<open>
  C27. The text before \<^verbatim>\<open>*.\<close> in a pattern is dropped: a pattern such as \<^verbatim>\<open>backup*.zip\<close>
  compiles to the bare extension rule \<^verbatim>\<open>zip\<close> and so ignores every zip file, whatever its name.
\<close>

theorem extension_pattern_drops_stem:
  "Ext (compile_line ''backup*.zip'') = ''zip''
   \<and> fst (Match (Parse [''backup*.zip'']) ''photos/holiday.zip'' False)"
  by code_simp

end
