(* ===== verification/Go_FS.thy ===== *)
theory Go_FS
  imports Go_Prelude
begin

text \<open>
  The folder's tree as the engine and the scanner see it through \<^verbatim>\<open>os\<close>: a map from the slash-separated
  path below the folder root to a regular file (bytes, modification time, permissions) or a
  directory. Each call has the results the package documents, a missing path is \<open>NotExist\<close>, and
  the state says for which paths a call fails otherwise, so error branches can be exercised.
  The device a path lives on is a field, so a rename across devices fails as it does in the kernel,
  and \<open>flaky\<close> counts the directory creations that will still fail transiently. An open file is its
  path. Symbolic links and file ownership are not part of this tree, and the parent of a written
  path need not be recorded.
\<close>

datatype fs_node = NFile (node_data: "byte list") (node_s: int) (node_ns: int) (node_perm: uint32) | NDir

record FS =
  nodes :: "(string, fs_node) gomap"
  stat_fault :: "string \<Rightarrow> bool"
  open_fault :: "string \<Rightarrow> bool"
  remove_fault :: "string \<Rightarrow> bool"
  rename_fault :: "string \<Rightarrow> bool"
  write_fault :: "string \<Rightarrow> bool"
  device :: "string \<Rightarrow> nat"
  flaky :: nat
  dir_mode :: "string \<Rightarrow> uint32"

definition fs_below :: "FS \<Rightarrow> string \<Rightarrow> string list" where
  "fs_below fs p = filter (\<lambda>q. HasPrefix q (p @ ''/'')) (mkeys (nodes fs))"

definition os_Stat :: "FS \<Rightarrow> string \<Rightarrow> go_error + fs_node" where
  "os_Stat fs p =
     (if stat_fault fs p then Inl IOError
      else case mget (nodes fs) p of None \<Rightarrow> Inl NotExist | Some n \<Rightarrow> Inr n)"

definition os_Open :: "FS \<Rightarrow> string \<Rightarrow> go_error + byte list" where
  "os_Open fs p =
     (if open_fault fs p then Inl IOError
      else case mget (nodes fs) p of
          None \<Rightarrow> Inl NotExist | Some (NFile d _ _ _) \<Rightarrow> Inr d | Some NDir \<Rightarrow> Inl (Err ''is a directory''))"

definition os_Remove :: "FS \<Rightarrow> string \<Rightarrow> FS \<times> go_error option" where
  "os_Remove fs p =
     (case mget (nodes fs) p of
        None \<Rightarrow> (fs, Some NotExist)
      | Some n \<Rightarrow>
          if remove_fault fs p then (fs, Some IOError)
          else if n = NDir \<and> fs_below fs p \<noteq> [] then (fs, Some (Err ''directory not empty''))
          else (fs\<lparr>nodes := mdelete (nodes fs) p\<rparr>, None))"

text \<open>A directory takes its subtree along; renaming over a directory is refused.\<close>

definition os_Rename :: "FS \<Rightarrow> string \<Rightarrow> string \<Rightarrow> FS \<times> go_error option" where
  "os_Rename fs p q =
     (case mget (nodes fs) p of
        None \<Rightarrow> (fs, Some NotExist)
      | Some n \<Rightarrow>
          if rename_fault fs p then (fs, Some IOError)
          else if device fs p \<noteq> device fs q then (fs, Some (Err ''invalid cross-device link''))
          else if mget (nodes fs) q = Some NDir then (fs, Some (Err ''file exists''))
          else if n = NDir
            then (fs\<lparr>nodes := map (\<lambda>(r, m). (if r = p \<or> HasPrefix r (p @ ''/'') then q @ drop (length p) r else r, m)) (nodes fs)\<rparr>, None)
          else (fs\<lparr>nodes := mset_at (mdelete (nodes fs) p) q n\<rparr>, None))"

definition os_WriteFile :: "FS \<Rightarrow> string \<Rightarrow> fs_node \<Rightarrow> FS \<times> go_error option" where
  "os_WriteFile fs p n =
     (if write_fault fs p then (fs, Some IOError) else (fs\<lparr>nodes := mset_at (nodes fs) p n\<rparr>, None))"

text \<open>A path with its ancestors, outermost first.\<close>

definition ancestors :: "string \<Rightarrow> string list" where
  "ancestors p = map (\<lambda>i. take i p) (filter (\<lambda>i. p ! i = CHR ''/'') [1..<length p]) @ [p]"

definition os_MkdirAll :: "FS \<Rightarrow> string \<Rightarrow> FS \<times> go_error option" where
  "os_MkdirAll fs p =
     (if mget (nodes fs) p = Some NDir then (fs, None)
      else if flaky fs > 0 then (fs\<lparr>flaky := flaky fs - 1\<rparr>, Some IOError)
      else if write_fault fs p then (fs, Some IOError)
      else if list_ex (\<lambda>q. mget (nodes fs) q \<noteq> None \<and> mget (nodes fs) q \<noteq> Some NDir) (ancestors p)
        then (fs, Some (Err ''not a directory''))
      else (fs\<lparr>nodes := foldl (\<lambda>m q. if mget m q = None then mset_at m q NDir else m) (nodes fs) (ancestors p)\<rparr>, None))"

definition os_RemoveAll :: "FS \<Rightarrow> string \<Rightarrow> FS \<times> go_error option" where
  "os_RemoveAll fs p =
     (if remove_fault fs p then (fs, Some IOError)
      else (fs\<lparr>nodes := filter (\<lambda>(q, _). q \<noteq> p \<and> \<not> HasPrefix q (p @ ''/'')) (nodes fs)\<rparr>, None))"

text \<open>The entries of a directory in name order.\<close>

definition os_ReadDir :: "FS \<Rightarrow> string \<Rightarrow> go_error + string list" where
  "os_ReadDir fs p =
     (if mget (nodes fs) p \<noteq> Some NDir \<or> open_fault fs p then Inl IOError
      else Inr (sort (filter (\<lambda>n. CHR ''/'' \<notin> set n) (map (\<lambda>q. drop (length p + 1) q) (fs_below fs p)))))"

definition path_Join :: "string \<Rightarrow> string \<Rightarrow> string" where
  "path_Join d n = (if d = ''.'' \<or> d = [] then n else d @ ''/'' @ n)"

definition os_Chtimes :: "FS \<Rightarrow> string \<Rightarrow> int \<Rightarrow> int \<Rightarrow> FS \<times> go_error option" where
  "os_Chtimes fs p s ns =
     (case mget (nodes fs) p of
        None \<Rightarrow> (fs, Some NotExist)
      | Some n \<Rightarrow>
          if write_fault fs p then (fs, Some IOError)
          else case n of NFile d _ _ pm \<Rightarrow> (fs\<lparr>nodes := mset_at (nodes fs) p (NFile d s ns pm)\<rparr>, None) | NDir \<Rightarrow> (fs, None))"

definition os_Chmod :: "FS \<Rightarrow> string \<Rightarrow> uint32 \<Rightarrow> FS \<times> go_error option" where
  "os_Chmod fs p m =
     (case mget (nodes fs) p of
        None \<Rightarrow> (fs, Some NotExist)
      | Some (NFile d s ns _) \<Rightarrow> (fs\<lparr>nodes := mset_at (nodes fs) p (NFile d s ns m)\<rparr>, None)
      | Some NDir \<Rightarrow> (fs\<lparr>dir_mode := (dir_mode fs)(p := m)\<rparr>, None))"

text \<open>Open files: \<^verbatim>\<open>O_CREATE\<close> without truncation, \<^verbatim>\<open>Truncate\<close>, \<^verbatim>\<open>WriteAt\<close> and \<^verbatim>\<open>ReadAt\<close> (a short read is an error).\<close>

definition os_OpenCreate :: "FS \<Rightarrow> string \<Rightarrow> uint32 \<Rightarrow> FS \<times> go_error option" where
  "os_OpenCreate fs p pm =
     (if write_fault fs p then (fs, Some IOError)
      else case mget (nodes fs) p of
          None \<Rightarrow> (fs\<lparr>nodes := mset_at (nodes fs) p (NFile [] 0 0 pm)\<rparr>, None)
        | Some (NFile _ _ _ _) \<Rightarrow> (fs, None)
        | Some NDir \<Rightarrow> (fs, Some (Err ''is a directory'')))"

definition os_modify :: "FS \<Rightarrow> string \<Rightarrow> (byte list \<Rightarrow> byte list) \<Rightarrow> FS \<times> go_error option" where
  "os_modify fs p g =
     (case mget (nodes fs) p of
        Some (NFile d s ns pm) \<Rightarrow>
          if write_fault fs p then (fs, Some IOError)
          else (fs\<lparr>nodes := mset_at (nodes fs) p (NFile (g d) s ns pm)\<rparr>, None)
      | _ \<Rightarrow> (fs, Some IOError))"

definition truncated :: "nat \<Rightarrow> byte list \<Rightarrow> byte list" where
  "truncated n d = take n d @ replicate (n - length d) 0"

definition written_at :: "byte list \<Rightarrow> nat \<Rightarrow> byte list \<Rightarrow> byte list" where
  "written_at new off d = (if new = [] then d else take off (truncated (max off (length d)) d) @ new @ drop (off + length new) d)"

definition os_ReadAt :: "FS \<Rightarrow> string \<Rightarrow> nat \<Rightarrow> nat \<Rightarrow> go_error + byte list" where
  "os_ReadAt fs p n off =
     (case os_Open fs p of
        Inl err \<Rightarrow> Inl err
      | Inr d \<Rightarrow> if n = 0 \<or> off + n \<le> length d then Inr (take n (drop off d)) else Inl (Err ''EOF''))"

definition path_Dir :: "string \<Rightarrow> string" where
  "path_Dir p = (case LastIndex p ''/'' of None \<Rightarrow> ''.'' | Some i \<Rightarrow> take i p)"

definition empty_fs :: FS where
  "empty_fs = \<lparr>nodes = [], stat_fault = (\<lambda>_. False), open_fault = (\<lambda>_. False), remove_fault = (\<lambda>_. False),
     rename_fault = (\<lambda>_. False), write_fault = (\<lambda>_. False), device = (\<lambda>_. 0), flaky = 0, dir_mode = (\<lambda>_. 493)\<rparr>"

definition is_file :: "FS \<Rightarrow> string \<Rightarrow> bool" where
  "is_file fs p \<longleftrightarrow> (case mget (nodes fs) p of Some (NFile _ _ _ _) \<Rightarrow> True | _ \<Rightarrow> False)"

section \<open>Frames\<close>

lemma os_Remove_other: "os_Remove fs p = (fs', err) \<Longrightarrow> q \<noteq> p \<Longrightarrow> mget (nodes fs') q = mget (nodes fs) q"
  by (auto simp: os_Remove_def split: option.splits if_splits)

lemma os_Remove_faults:
  "os_Remove fs p = (fs', err) \<Longrightarrow> stat_fault fs' = stat_fault fs \<and> open_fault fs' = open_fault fs
     \<and> remove_fault fs' = remove_fault fs \<and> rename_fault fs' = rename_fault fs \<and> write_fault fs' = write_fault fs \<and> device fs' = device fs"
  by (auto simp: os_Remove_def split: option.splits if_splits)

lemma os_Remove_gone: "os_Remove fs p = (fs', None) \<Longrightarrow> mget (nodes fs') p = None"
  by (auto simp: os_Remove_def split: option.splits if_splits)

lemma os_Remove_err: "os_Remove fs p = (fs', Some e) \<Longrightarrow> fs' = fs"
  by (auto simp: os_Remove_def split: option.splits if_splits)

lemma os_Rename_file:
  "os_Rename fs p q = (fs', None) \<Longrightarrow> is_file fs p \<Longrightarrow>
     mget (nodes fs') r = (if r = q then mget (nodes fs) p else if r = p then None else mget (nodes fs) r)"
  by (auto simp: os_Rename_def is_file_def split: option.splits if_splits fs_node.splits)

lemma os_Rename_err: "os_Rename fs p q = (fs', Some e) \<Longrightarrow> fs' = fs"
  by (auto simp: os_Rename_def split: option.splits if_splits)

lemma os_MkdirAll_file:
  assumes "os_MkdirAll f d = (f', err)" and "is_file f p"
  shows "mget (nodes f') p = mget (nodes f) p"
proof -
  have "mget m p = Some x \<Longrightarrow> mget (foldl (\<lambda>m q. if mget m q = None then mset_at m q NDir else m) m qs) p = Some x" for m qs x
  proof (induction qs arbitrary: m)
    case (Cons q qs)
    then have "mget (if mget m q = None then mset_at m q NDir else m) p = Some x" by auto
    from Cons.IH [OF this] show ?case by simp
  qed simp
  then show ?thesis using assms by (auto simp: os_MkdirAll_def is_file_def split: if_splits option.splits)
qed

lemma os_MkdirAll_faults:
  "os_MkdirAll f d = (f', err) \<Longrightarrow> stat_fault f' = stat_fault f \<and> open_fault f' = open_fault f
     \<and> remove_fault f' = remove_fault f \<and> rename_fault f' = rename_fault f \<and> write_fault f' = write_fault f \<and> device f' = device f"
  by (auto simp: os_MkdirAll_def split: if_splits)

lemma is_file_keep: "mget (nodes f') p = mget (nodes f) p \<Longrightarrow> is_file f' p = is_file f p"
  by (simp add: is_file_def)

lemma written_at_length: "off + length new \<le> length d \<Longrightarrow> length (written_at new off d) = length d"
  by (simp add: written_at_def truncated_def)

lemma written_at_read:
  "off + length new \<le> length d \<Longrightarrow> take (length new) (drop off (written_at new off d)) = new"
  by (simp add: written_at_def truncated_def)

lemma written_at_other:
  assumes "off + length new \<le> length d" and "a + n \<le> off \<or> off + length new \<le> a"
  shows "take n (drop a (written_at new off d)) = take n (drop a d)"
proof (cases "new = []")
  case False
  have w: "written_at new off d = take off d @ new @ drop (off + length new) d"
    using assms(1) False by (simp add: written_at_def truncated_def max_def)
  have "written_at new off d ! i = d ! i" if "i < length d" "i < off \<or> off + length new \<le> i" for i
    using that assms(1) by (auto simp: w nth_append)
  then show ?thesis using assms written_at_length [OF assms(1)]
    by (intro nth_equalityI) auto
qed (simp add: written_at_def)

end
