(* ===== verification/Staging.thy ===== *)
theory Staging
  imports Go_FS Block_Hash
begin

text \<open>
  Staging of in-flight files, \<^verbatim>\<open>internal/staging/staging.go\<close> and \<^verbatim>\<open>device_unix.go\<close>: where a temporary file
  goes, how it becomes the target (one rename, or a copy beside the target when the devices differ),
  and which names belong to the program. Paths are relative to the folder root, so the central
  temporary directory is \<^verbatim>\<open>.sfx-tmp\<close> and the root is ".". Ownership is not part of the tree, so the
  \<^verbatim>\<open>Chown\<close> calls have no effect here; pauses between attempts are not modelled.
\<close>

section \<open>Names\<close>

definition ReservedDir :: string where
  "ReservedDir = ''.sfx-tmp''"

definition HoldDir :: string where
  "HoldDir = ''.sfx-hold''"

definition TempPrefix :: string where
  "TempPrefix = ''.sfx-''"

definition transientPrefixes :: "string list" where
  "transientPrefixes = [''.fuse_hidden'', ''.smbdelete'', ''.nfs'']"

definition IsReserved :: "string \<Rightarrow> bool" where
  "IsReserved rel =
     (if rel = [] \<or> rel = ''.'' then False
      else list_ex (\<lambda>comp. HasPrefix comp TempPrefix) (split_on CHR ''/'' rel))"

definition IsTransient :: "string \<Rightarrow> bool" where
  "IsTransient rel =
     (if rel = [] \<or> rel = ''.'' then False
      else list_ex (\<lambda>comp. list_ex (HasPrefix comp) transientPrefixes) (split_on CHR ''/'' rel))"

definition hex_digit :: "nat \<Rightarrow> char" where
  "hex_digit d = (if d < 10 then char_of (48 + d) else char_of (87 + d))"

definition hex_of :: "byte list \<Rightarrow> string" where
  "hex_of bs = concat (map (\<lambda>b. [hex_digit (unat b div 16), hex_digit (unat b mod 16)]) bs)"

definition tempName :: "string \<Rightarrow> string" where
  "tempName rel = TempPrefix @ hex_of (take 8 (HashBytes (map of_char rel))) @ ''.part''"

section \<open>The stager\<close>

record Stager =
  ForceSameDir :: bool
  FileMode :: uint32
  DirMode :: uint32

definition isEXDEV :: "go_error \<Rightarrow> bool" where
  "isEXDEV err =
     (case err of Err m \<Rightarrow> Contains m ''invalid cross-device link'' \<or> Contains m ''not same device'' | _ \<Rightarrow> False)"

fun EnsureDir_loop :: "nat \<Rightarrow> FS \<Rightarrow> string \<Rightarrow> FS \<times> go_error option" where
  "EnsureDir_loop 0 f dir = os_MkdirAll f dir"
| "EnsureDir_loop (Suc k) f dir =
     (case os_MkdirAll f dir of
        (f1, None) \<Rightarrow> (f1, None)
      | (f1, Some err) \<Rightarrow> if os_Stat f1 dir = Inr NDir then (f1, None) else EnsureDir_loop k f1 dir)"

definition EnsureDir :: "FS \<Rightarrow> string \<Rightarrow> FS \<times> go_error option" where
  "EnsureDir f dir = (if dir = [] \<or> dir = ''.'' then (f, None) else EnsureDir_loop 8 f dir)"

definition default_stager :: Stager where
  "default_stager = \<lparr>ForceSameDir = False, FileMode = 0, DirMode = 0\<rparr>"

definition New_Stager :: "FS \<Rightarrow> FS \<times> (go_error + Stager)" where
  "New_Stager f =
     (case os_MkdirAll f ReservedDir of
        (f1, Some err) \<Rightarrow> (f1, Inl err)
      | (f1, None) \<Rightarrow> (f1, Inr default_stager))"

definition existingStat :: "FS \<Rightarrow> string \<Rightarrow> string" where
  "existingStat f p = (case find (\<lambda>q. case os_Stat f q of Inr _ \<Rightarrow> True | Inl _ \<Rightarrow> False) (rev (ancestors p)) of Some q \<Rightarrow> q | None \<Rightarrow> ''.'')"

definition sameDevice :: "FS \<Rightarrow> string \<Rightarrow> string \<Rightarrow> bool" where
  "sameDevice f a b \<longleftrightarrow> device f (existingStat f a) = device f (existingStat f b)"

definition TempPathFor :: "Stager \<Rightarrow> FS \<Rightarrow> string \<Rightarrow> FS \<times> (go_error + string)" where
  "TempPathFor st f rel =
     (let dir = path_Dir rel; name = tempName rel in
        if \<not> ForceSameDir st \<and> sameDevice f dir ReservedDir then (f, Inr (path_Join ReservedDir name))
        else case EnsureDir f dir of
            (f1, Some err) \<Rightarrow> (f1, Inl err)
          | (f1, None) \<Rightarrow> (f1, Inr (path_Join dir name)))"

definition TempRel :: "Stager \<Rightarrow> FS \<Rightarrow> string \<Rightarrow> FS \<times> (go_error + string)" where
  "TempRel st f rel = TempPathFor st f rel"

definition shareable :: "uint32 \<Rightarrow> uint32" where
  "shareable peer =
     (let m = and peer 511; m1 = (if m = 0 then 420 else m)
      in if and m1 32 \<noteq> 0 then or m1 16 else m1)"

definition applyAttrs :: "Stager \<Rightarrow> FS \<Rightarrow> string \<Rightarrow> uint32 \<Rightarrow> FS" where
  "applyAttrs st f p peerMode =
     (let mode = (if FileMode st = 0 then shareable peerMode else FileMode st)
      in if mode \<noteq> 0 then fst (os_Chmod f p mode) else f)"

definition ensureDir :: "Stager \<Rightarrow> FS \<Rightarrow> string \<Rightarrow> FS \<times> go_error option" where
  "ensureDir st f dir =
     (case EnsureDir f dir of
        (f1, Some err) \<Rightarrow> (f1, Some err)
      | (f1, None) \<Rightarrow> (fst (os_Chmod f1 dir (if DirMode st = 0 then 509 else DirMode st)), None))"

definition copyFile :: "FS \<Rightarrow> string \<Rightarrow> string \<Rightarrow> FS \<times> go_error option" where
  "copyFile f src dst =
     (case os_Open f src of
        Inl err \<Rightarrow> (f, Some err)
      | Inr d \<Rightarrow>
          (case os_OpenCreate f dst 420 of
             (f1, Some err) \<Rightarrow> (f1, Some err)
           | (f1, None) \<Rightarrow> os_modify f1 dst (\<lambda>_. d)))"

definition commitCopyFallback :: "FS \<Rightarrow> string \<Rightarrow> string \<Rightarrow> int \<Rightarrow> int \<Rightarrow> FS \<times> go_error option" where
  "commitCopyFallback f tmp rel s ns =
     (let dir = path_Dir rel; stageCopy = path_Join dir (tempName rel @ ''.copy'') in
      case EnsureDir f dir of
        (f1, Some err) \<Rightarrow> (f1, Some err)
      | (f1, None) \<Rightarrow>
      (case copyFile f1 tmp stageCopy of
         (f2, Some err) \<Rightarrow> (f2, Some err)
       | (f2, None) \<Rightarrow>
      (case os_Chtimes f2 stageCopy s ns of
         (f3, Some err) \<Rightarrow> (fst (os_Remove f3 stageCopy), Some err)
       | (f3, None) \<Rightarrow>
      (case os_Rename f3 stageCopy rel of
         (f4, Some err) \<Rightarrow> (fst (os_Remove f4 stageCopy), Some err)
       | (f4, None) \<Rightarrow> (fst (os_Remove f4 tmp), None)))))"

definition Commit :: "Stager \<Rightarrow> FS \<Rightarrow> string \<Rightarrow> string \<Rightarrow> int \<Rightarrow> int \<Rightarrow> uint32 \<Rightarrow> FS \<times> go_error option" where
  "Commit st f tmp rel s ns peerMode =
     (case ensureDir st f (path_Dir rel) of
        (f1, Some err) \<Rightarrow> (f1, Some err)
      | (f1, None) \<Rightarrow>
      (case os_Chtimes (applyAttrs st f1 tmp peerMode) tmp s ns of
         (f2, Some err) \<Rightarrow> (f2, Some err)
       | (f2, None) \<Rightarrow>
      (case os_Rename f2 tmp rel of
         (f3, None) \<Rightarrow> (applyAttrs st f3 rel peerMode, None)
       | (f3, Some err) \<Rightarrow>
          if \<not> isEXDEV err then (f3, Some err)
          else
      (case os_Chtimes f3 tmp s ns of
         (f4, Some err) \<Rightarrow> (f4, Some err)
       | (f4, None) \<Rightarrow>
      (case os_Rename f4 tmp rel of
         (f5, None) \<Rightarrow> (f5, None)
       | (f5, Some err) \<Rightarrow>
          if \<not> isEXDEV err then (f5, Some err)
          else commitCopyFallback f5 tmp rel s ns)))))"

definition Stager_Remove :: "FS \<Rightarrow> string \<Rightarrow> FS" where
  "Stager_Remove f rel =
     fst (os_Remove (fst (os_Remove f (path_Join ReservedDir (tempName rel)))) (path_Join (path_Dir rel) (tempName rel)))"

definition moveCopyFallback :: "FS \<Rightarrow> string \<Rightarrow> string \<Rightarrow> int \<Rightarrow> int \<Rightarrow> FS \<times> go_error option" where
  "moveCopyFallback f src rel s ns =
     (let dir = path_Dir rel; stageCopy = path_Join dir (tempName rel @ ''.move'') in
      case EnsureDir f dir of
        (f1, Some err) \<Rightarrow> (f1, Some err)
      | (f1, None) \<Rightarrow>
      (case copyFile f1 src stageCopy of
         (f2, Some err) \<Rightarrow> (f2, Some err)
       | (f2, None) \<Rightarrow>
      (case os_Chtimes f2 stageCopy s ns of
         (f3, Some err) \<Rightarrow> (fst (os_Remove f3 stageCopy), Some err)
       | (f3, None) \<Rightarrow>
      (case os_Rename f3 stageCopy rel of
         (f4, Some err) \<Rightarrow> (fst (os_Remove f4 stageCopy), Some err)
       | (f4, None) \<Rightarrow> os_Remove f4 src))))"

definition MoveRelocates :: "FS \<Rightarrow> string \<Rightarrow> string \<Rightarrow> int \<Rightarrow> int \<Rightarrow> FS \<times> go_error option" where
  "MoveRelocates f src rel s ns =
     (case EnsureDir f (path_Dir rel) of
        (f1, Some err) \<Rightarrow> (f1, Some err)
      | (f1, None) \<Rightarrow>
      (case os_Rename f1 src rel of
         (f2, None) \<Rightarrow> os_Chtimes f2 rel s ns
       | (f2, Some err) \<Rightarrow> if \<not> isEXDEV err then (f2, Some err) else moveCopyFallback f2 src rel s ns))"

text \<open>\<^verbatim>\<open>WalkDir\<close> visits a directory before its entries and the entries by name, so paths come in the order
of their components.\<close>

definition walk_order :: "string list \<Rightarrow> string list" where
  "walk_order ps = sort_key (split_on CHR ''/'') ps"

definition CleanupOrphans :: "FS \<Rightarrow> FS \<times> nat" where
  "CleanupOrphans f =
     foldl (\<lambda>(f, n) p.
         if mget (nodes f) p = Some NDir \<or> \<not> HasPrefix (path_Base p) TempPrefix then (f, n)
         else case os_Remove f p of (f', None) \<Rightarrow> (f', Suc n) | (f', Some _) \<Rightarrow> (f', n))
       (f, 0) (walk_order (mkeys (nodes f)))"

definition CleanupCentral :: "int \<Rightarrow> FS \<Rightarrow> int \<Rightarrow> FS \<times> go_error option" where
  "CleanupCentral now f maxAge =
     (if mget (nodes f) ReservedDir = None then (f, None)
      else case os_ReadDir f ReservedDir of
          Inl err \<Rightarrow> (f, Some err)
        | Inr es \<Rightarrow>
            (foldl (\<lambda>f n. let p = path_Join ReservedDir n in
                case mget (nodes f) p of
                  Some (NFile _ s ns _) \<Rightarrow> if s * 1000000000 + ns < now - maxAge then fst (os_Remove f p) else f
                | _ \<Rightarrow> f) f es, None))"

end
