(* ===== verification/Hold_Area.thy ===== *)
theory Hold_Area
  imports Staging
begin

text \<open>
  The hold area of soft deletions, \<^verbatim>\<open>internal/hold/hold.go\<close>: a deleted copy is moved below \<^verbatim>\<open>.sfx-hold\<close> and
  a manifest records when. The manifest file is kept as the record list it encodes (\<open>manifest\<close>, the
  JSON text itself is not modelled), so it is not a node of the tree. The clock is an argument, in
  seconds. The store's mutex makes each operation one step on the store and the tree.
\<close>

section \<open>State\<close>

definition MaxAge :: int where
  "MaxAge = 7 * 24 * 3600"

record heldRecord =
  hr_Path :: string
  hr_Size :: int
  hr_HeldAt :: int
  hr_Dir :: bool

record Entry =
  en_Path :: string
  en_Size :: int
  en_HeldAt :: int

record Store =
  loaded :: bool
  hentries :: "(string, heldRecord) gomap"
  batch :: nat
  dirty :: bool
  manifest :: "heldRecord list option"

definition New_Store :: Store where
  "New_Store = \<lparr>loaded = False, hentries = [], batch = 0, dirty = False, manifest = None\<rparr>"

definition ExpiresAt :: "Entry \<Rightarrow> int" where
  "ExpiresAt e = en_HeldAt e + MaxAge"

text \<open>\<^verbatim>\<open>filepath.Join\<close> of the area and a relative path; joining the empty path gives the area itself.\<close>

definition hold_path :: "string \<Rightarrow> string" where
  "hold_path rel = (if rel = [] then HoldDir else HoldDir @ ''/'' @ rel)"

definition manifestPath :: string where
  "manifestPath = hold_path ''.manifest.json''"

text \<open>Paths that could leave the folder are cleaned to the empty path.\<close>

definition clean :: "string \<Rightarrow> string" where
  "clean rel =
     (let r = TrimPrefix (TrimSpace rel) ''./'' in
        if r = [] \<or> r = ''.'' then []
        else if HasPrefix r ''../'' \<or> r = ''..'' \<or> HasPrefix r ''/'' then []
        else r)"

section \<open>The manifest\<close>

definition loadLocked :: "FS \<Rightarrow> Store \<Rightarrow> Store" where
  "loadLocked f s =
     (if loaded s then s
      else case (if open_fault f manifestPath then None else manifest s) of
          None \<Rightarrow> s\<lparr>loaded := True\<rparr>
        | Some recs \<Rightarrow> s\<lparr>loaded := True,
            hentries := foldl (\<lambda>m r. if hr_Path r = [] then m else mset_at m (hr_Path r) r) (hentries s) recs\<rparr>)"

definition saveLocked :: "FS \<Rightarrow> Store \<Rightarrow> FS \<times> Store \<times> go_error option" where
  "saveLocked f s =
     (if batch s > 0 then (f, s\<lparr>dirty := True\<rparr>, None)
      else if hentries s = [] then (f, if remove_fault f manifestPath then s else s\<lparr>manifest := None\<rparr>, None)
      else case EnsureDir f HoldDir of
          (f1, Some err) \<Rightarrow> (f1, s, Some err)
        | (f1, None) \<Rightarrow>
            if write_fault f1 (manifestPath @ ''.tmp'') \<or> rename_fault f1 (manifestPath @ ''.tmp'') then (f1, s, Some IOError)
            else (f1, s\<lparr>manifest := Some (sort_key hr_Path (map snd (hentries s)))\<rparr>, None))"

section \<open>Moving between the tree and the hold area\<close>

definition hold_copyFile :: "FS \<Rightarrow> string \<Rightarrow> string \<Rightarrow> FS \<times> go_error option" where
  "hold_copyFile f src dst = copyFile f src dst"

text \<open>A directory is copied entry by entry, stopping at the first error.\<close>

fun copy_entries :: "FS \<Rightarrow> string \<Rightarrow> string \<Rightarrow> string list \<Rightarrow> FS \<times> go_error option" where
  "copy_entries f src dst [] = (f, None)"
| "copy_entries f src dst (p # ps) =
     (let target = dst @ drop (length src) p in
      case (if mget (nodes f) p = Some NDir then EnsureDir f target
            else case EnsureDir f (path_Dir target) of
                (f1, Some err) \<Rightarrow> (f1, Some err)
              | (f1, None) \<Rightarrow> hold_copyFile f1 p target) of
        (f2, Some err) \<Rightarrow> (f2, Some err)
      | (f2, None) \<Rightarrow> copy_entries f2 src dst ps)"

definition copyDir :: "FS \<Rightarrow> string \<Rightarrow> string \<Rightarrow> FS \<times> go_error option" where
  "copyDir f src dst = copy_entries f src dst (walk_order (src # fs_below f src))"

definition movePath :: "FS \<Rightarrow> string \<Rightarrow> string \<Rightarrow> FS \<times> go_error option" where
  "movePath f src dst =
     (case os_Rename f src dst of
        (f1, None) \<Rightarrow> (f1, None)
      | (f1, Some _) \<Rightarrow>
          (case os_Stat f1 src of
             Inl err \<Rightarrow> (f1, Some err)
           | Inr NDir \<Rightarrow> copyDir f1 src dst
           | Inr (NFile _ _ _ _) \<Rightarrow>
               (case hold_copyFile f1 src dst of
                  (f2, Some err) \<Rightarrow> (f2, Some err)
                | (f2, None) \<Rightarrow> os_Remove f2 src)))"

definition node_size :: "fs_node \<Rightarrow> int" where
  "node_size n = (case n of NFile d _ _ _ \<Rightarrow> int (length d) | NDir \<Rightarrow> 0)"

definition Hold_Move :: "int \<Rightarrow> FS \<Rightarrow> Store \<Rightarrow> string \<Rightarrow> FS \<times> Store \<times> go_error option" where
  "Hold_Move now f s rel0 =
     (let rel = clean rel0 in
        if rel = [] then (f, s, Some (Err ''hold: empty path''))
        else if IsReserved rel then (f, s, Some (Err ''hold: refusing to hold reserved path''))
        else case os_Stat f rel of
            Inl err \<Rightarrow> (f, s, Some err)
          | Inr st \<Rightarrow>
          (case EnsureDir f (path_Dir (hold_path rel)) of
             (f1, Some err) \<Rightarrow> (f1, s, Some err)
           | (f1, None) \<Rightarrow>
          (case movePath f1 rel (hold_path rel) of
             (f2, Some err) \<Rightarrow> (f2, s, Some err)
           | (f2, None) \<Rightarrow>
               (let s1 = loadLocked f2 s;
                    s2 = s1\<lparr>hentries := mset_at (hentries s1) rel
                       \<lparr>hr_Path = rel, hr_Size = node_size st, hr_HeldAt = now, hr_Dir = (st = NDir)\<rparr>\<rparr>
                in saveLocked f2 s2))))"

section \<open>Listing\<close>

definition hold_files :: "FS \<Rightarrow> (string \<times> fs_node) list" where
  "hold_files f = filter (\<lambda>(p, n). HasPrefix p (HoldDir @ ''/'') \<and> n \<noteq> NDir \<and> p \<noteq> manifestPath) (nodes f)"

definition listLocked :: "FS \<Rightarrow> Store \<Rightarrow> Entry list" where
  "listLocked f s =
     sort_key en_Path (map (\<lambda>(p, n). let name = drop (length HoldDir + 1) p in
         \<lparr>en_Path = name, en_Size = node_size n,
          en_HeldAt = (case mget (hentries s) name of Some r \<Rightarrow> hr_HeldAt r | None \<Rightarrow> node_s n)\<rparr>) (hold_files f))"

definition Hold_List :: "FS \<Rightarrow> Store \<Rightarrow> Store \<times> Entry list" where
  "Hold_List f s = (let s1 = loadLocked f s in (s1, listLocked f s1))"

section \<open>Restoring and purging\<close>

function pruneEmpty :: "FS \<Rightarrow> string \<Rightarrow> FS" where
  "pruneEmpty f dir =
     (if dir = HoldDir \<or> dir = ''.'' \<or> dir = ''/'' \<or> length dir < length HoldDir then f
      else if os_ReadDir f dir \<noteq> Inr [] then f
      else case os_Remove f dir of
          (f', Some _) \<Rightarrow> f'
        | (f', None) \<Rightarrow> if length (path_Dir dir) < length dir then pruneEmpty f' (path_Dir dir) else f')"
  by pat_completeness auto

termination
  by (relation "measure (\<lambda>(f, dir). length dir)") auto

definition Hold_Restore :: "FS \<Rightarrow> Store \<Rightarrow> string \<Rightarrow> FS \<times> Store \<times> go_error option" where
  "Hold_Restore f s0 rel0 =
     (let rel = clean rel0; s = loadLocked f s0 in
      case os_Stat f (hold_path rel) of
        Inl err \<Rightarrow> (f, s, Some err)
      | Inr _ \<Rightarrow>
      (case os_Stat f rel of
         Inr _ \<Rightarrow> (f, s, Some (Err ''hold: already exists at its original location''))
       | Inl _ \<Rightarrow>
      (case EnsureDir f (path_Dir rel) of
         (f1, Some err) \<Rightarrow> (f1, s, Some err)
       | (f1, None) \<Rightarrow>
      (case movePath f1 (hold_path rel) rel of
         (f2, Some err) \<Rightarrow> (f2, s, Some err)
       | (f2, None) \<Rightarrow>
           saveLocked (pruneEmpty f2 (path_Dir (hold_path rel))) (s\<lparr>hentries := mdelete (hentries s) rel\<rparr>)))))"

definition deleteLocked :: "FS \<Rightarrow> Store \<Rightarrow> string \<Rightarrow> FS \<times> Store \<times> go_error option" where
  "deleteLocked f s rel =
     (case os_RemoveAll f (hold_path rel) of
        (f1, Some err) \<Rightarrow> (f1, s, Some err)
      | (f1, None) \<Rightarrow> (f1, s\<lparr>hentries := mdelete (hentries s) rel\<rparr>, None))"

definition Hold_Delete :: "FS \<Rightarrow> Store \<Rightarrow> string \<Rightarrow> FS \<times> Store \<times> go_error option" where
  "Hold_Delete f s0 rel0 =
     (let rel = clean rel0; s = loadLocked f s0 in
      case deleteLocked f s rel of
        (f1, s1, Some err) \<Rightarrow> (f1, s1, Some err)
      | (f1, s1, None) \<Rightarrow> saveLocked (pruneEmpty f1 (path_Dir (hold_path rel))) s1)"

fun delete_all_loop :: "FS \<Rightarrow> Store \<Rightarrow> nat \<Rightarrow> Entry list \<Rightarrow> FS \<times> Store \<times> nat" where
  "delete_all_loop f s n [] = (f, s, n)"
| "delete_all_loop f s n (e # es) =
     (case deleteLocked f s (en_Path e) of
        (f1, s1, None) \<Rightarrow> delete_all_loop f1 s1 (Suc n) es
      | (f1, s1, Some _) \<Rightarrow> delete_all_loop f1 s1 n es)"

definition DeleteAll :: "FS \<Rightarrow> Store \<Rightarrow> FS \<times> Store \<times> nat \<times> go_error option" where
  "DeleteAll f s0 =
     (let s = loadLocked f s0; (f1, s1, n) = delete_all_loop f s 0 (listLocked f s); s2 = s1\<lparr>hentries := []\<rparr> in
      case os_RemoveAll f1 HoldDir of
        (f2, Some err) \<Rightarrow> (f2, s2, n, Some err)
      | (f2, None) \<Rightarrow> (f2, s2\<lparr>manifest := None\<rparr>, n, None))"

fun purge_loop :: "int \<Rightarrow> FS \<Rightarrow> Store \<Rightarrow> string list \<Rightarrow> Entry list \<Rightarrow> FS \<times> Store \<times> string list" where
  "purge_loop cutoff f s purged [] = (f, s, purged)"
| "purge_loop cutoff f s purged (e # es) =
     (if en_HeldAt e > cutoff then purge_loop cutoff f s purged es
      else case deleteLocked f s (en_Path e) of
          (f1, s1, Some _) \<Rightarrow> purge_loop cutoff f1 s1 purged es
        | (f1, s1, None) \<Rightarrow>
            purge_loop cutoff (pruneEmpty f1 (path_Dir (hold_path (en_Path e)))) s1 (purged @ [en_Path e]) es)"

definition Purge :: "int \<Rightarrow> FS \<Rightarrow> Store \<Rightarrow> int \<Rightarrow> FS \<times> Store \<times> string list \<times> go_error option" where
  "Purge now f s0 maxAge =
     (let s = loadLocked f s0; (f1, s1, purged) = purge_loop (now - maxAge) f s [] (listLocked f s) in
        if purged \<noteq> [] then
          (case saveLocked f1 s1 of
             (f2, s2, Some err) \<Rightarrow> (f2, s2, purged, Some err)
           | (f2, s2, None) \<Rightarrow> (f2, s2, sort purged, None))
        else (f1, s1, [], None))"

section \<open>Batches\<close>

definition BeginBatch :: "Store \<Rightarrow> Store" where
  "BeginBatch s = s\<lparr>batch := batch s + 1\<rparr>"

definition EndBatch :: "FS \<Rightarrow> Store \<Rightarrow> FS \<times> Store \<times> go_error option" where
  "EndBatch f s =
     (let s1 = (if batch s > 0 then s\<lparr>batch := batch s - 1\<rparr> else s) in
        if batch s1 > 0 then (f, s1, None)
        else if \<not> dirty s1 then (f, s1, None)
        else saveLocked f (s1\<lparr>dirty := False\<rparr>))"

definition Flush :: "FS \<Rightarrow> Store \<Rightarrow> FS \<times> Store \<times> go_error option" where
  "Flush f s =
     (let s1 = s\<lparr>batch := 0\<rparr> in
        if \<not> dirty s1 then (f, s1, None) else saveLocked f (s1\<lparr>dirty := False\<rparr>))"

end
