(* ===== verification/Engine_State.thy ===== *)
theory Engine_State
  imports Engine_Content Ignore_Rules Hold_Area
begin

text \<open>
  The state of the per-folder engine (\<^verbatim>\<open>type Engine struct\<close> of \<^verbatim>\<open>internal/sync/engine.go\<close>), the
  stability gate's published set, the dirty set of \<^verbatim>\<open>pending_incremental.go\<close> and the index writes as
  the engine sees them, with the write hook that marks names dirty. Locks are not part of the state:
  every operation runs under the engine lock, so an operation is a function on the state. Log lines
  are not modelled, durable events are appended to \<open>log\<close>. A Go map is iterated in the order of its
  association list.
\<close>

section \<open>State\<close>

datatype Category = CatApplied | CatConflict | CatVersioned | CatSkipped | CatSystem
datatype Severity = SevInfo | SevWarn | SevError

record Event =
  ev_Path :: string
  ev_Category :: Category
  ev_Severity :: Severity
  ev_Reason :: string
  ev_Linked :: string
  ev_PeerID :: uint64

type_synonym peer_view = "(string, FileInfo) gomap"

record VersioningCfg =
  v_Type :: string
  v_Keep :: int
  v_MaxAge :: int
  v_CleanDays :: int

text \<open>The cached counters the control plane reads.\<close>

record EngineStats =
  BytesUp :: int
  BytesDown :: int
  FilesDown :: int
  PendingPullCount :: int
  PendingPullBytes :: int
  PendingUpCount :: int
  PendingUpBytes :: int
  PendingDeleteCount :: int
  lastPendingRefresh :: int
  cachedPulls :: "string list option"
  cachedUps :: "string list option"
  FilesLocalCopy :: int
  BytesLocalCopy :: int
  BlocksReused :: int
  BytesReused :: int

text \<open>Where a block's bytes live locally, for block reuse.\<close>

record donorLoc =
  dl_name :: string
  dl_index :: nat
  dl_size :: int

record Engine =
  NodeID :: uint64
  Policy :: ConflictPolicy
  Versioning :: "VersioningCfg option"
  Ix :: Index
  Ignore :: Matcher
  Include :: Matcher
  Direction :: string
  Stats :: EngineStats
  inflight :: "(string, int) gomap option"
  peers :: "(uint64, peer_view) gomap"
  map_ord :: "string \<Rightarrow> uint64 \<Rightarrow> nat"
  viewPending :: "(uint64, bool) gomap"
  viewAt :: "(uint64, int) gomap"
  pc_pulls :: "string list"
  pc_ups :: "string list"
  pc_pullSet :: "string set option"
  pc_upSet :: "string set option"
  pc_indexed :: int
  pc_builtAt :: "int option"
  pc_valid :: bool
  pend_names :: "string list"
  pend_all :: bool
  incrementalPending :: bool
  viewRev :: int
  inflightRev :: int
  keptDirs :: "string list"
  releases :: "pendingRelease list"
  releasesLoaded :: bool
  reuseByKey :: "(byte list, string list) gomap option"
  donor_dirs :: "(string, (byte list, donorLoc list) gomap) gomap"
  donor_order :: "string list"
  fs :: FS
  stager :: Stager
  hold :: "Store option"
  log :: "Event list"

text \<open>
  Go visits a map in an order it chooses anew for every loop. \<open>map_ord\<close> is that choice for the loops over \<^verbatim>\<open>e.peers\<close> made for one path,
  as a rank of each peer; it is not a field of the code, no operation sets it, and the theorems let it change freely between operations.
\<close>

definition ranged :: "Engine \<Rightarrow> string \<Rightarrow> peer_view list" where
  "ranged e name = map snd (sort_key (\<lambda>pv. map_ord e name (fst pv)) (peers e))"

lemma set_ranged [simp]: "set (ranged e name) = snd ` set (peers e)"
  by (simp add: ranged_def)

lemma ranged_const:
  assumes "map_ord e name = (\<lambda>_. k)"
  shows "ranged e name = map snd (peers e)"
proof -
  have "insort_key (\<lambda>_. k) x ys = x # ys" for x and ys :: "(uint64 \<times> peer_view) list" by (cases ys) simp_all
  then have "sort_key (\<lambda>_. k) xs = xs" for xs :: "(uint64 \<times> peer_view) list" by (induction xs) simp_all
  then show ?thesis by (simp add: ranged_def assms)
qed

lemma ranged_one [simp]: "peers e = [] \<Longrightarrow> ranged e name = []" "peers e = [(p, v)] \<Longrightarrow> ranged e name = [v]"
  by (simp_all add: ranged_def)

definition zero_stats :: EngineStats where
  "zero_stats = \<lparr>BytesUp = 0, BytesDown = 0, FilesDown = 0, PendingPullCount = 0, PendingPullBytes = 0,
     PendingUpCount = 0, PendingUpBytes = 0, PendingDeleteCount = 0, lastPendingRefresh = 0,
     cachedPulls = None, cachedUps = None, FilesLocalCopy = 0, BytesLocalCopy = 0,
     BlocksReused = 0, BytesReused = 0\<rparr>"

text \<open>\<^verbatim>\<open>New\<close>; the node sets the include gate, the direction and the hold area (\<^verbatim>\<open>HoldLocal\<close>) afterwards.\<close>

definition New_Engine :: "uint64 \<Rightarrow> ConflictPolicy \<Rightarrow> VersioningCfg option \<Rightarrow> Index \<Rightarrow> Stager \<Rightarrow> Matcher \<Rightarrow> FS \<Rightarrow> Engine" where
  "New_Engine nodeID policy v ix st ig f =
     \<lparr>NodeID = nodeID, Policy = policy, Versioning = v, Ix = ix, Ignore = ig, Include = None,
      Direction = [], Stats = zero_stats, inflight = None, peers = [], map_ord = (\<lambda>_ _. 0), viewPending = [], viewAt = [],
      pc_pulls = [], pc_ups = [], pc_pullSet = None, pc_upSet = None, pc_indexed = 0,
      pc_builtAt = None, pc_valid = False, pend_names = [], pend_all = False,
      incrementalPending = True, viewRev = 0, inflightRev = 0, keptDirs = [], releases = [],
      releasesLoaded = False, reuseByKey = None, donor_dirs = [], donor_order = [],
      fs = f, stager = st, hold = None, log = []\<rparr>"

definition emit :: "Category \<Rightarrow> Severity \<Rightarrow> string \<Rightarrow> string \<Rightarrow> string \<Rightarrow> uint64 \<Rightarrow> Engine \<Rightarrow> Engine" where
  "emit cat sev path reason linked peerID e =
     e\<lparr>log := log e @ [\<lparr>ev_Path = path, ev_Category = cat, ev_Severity = sev, ev_Reason = reason,
        ev_Linked = linked, ev_PeerID = peerID\<rparr>]\<rparr>"

section \<open>The dirty set\<close>

definition markPendingDirty :: "string \<Rightarrow> Engine \<Rightarrow> Engine" where
  "markPendingDirty name e = (if name = [] then e else e\<lparr>pend_names := List.insert name (pend_names e)\<rparr>)"

fun markPendingNames :: "string list \<Rightarrow> Engine \<Rightarrow> Engine" where
  "markPendingNames [] e = e"
| "markPendingNames (n # ns) e = markPendingNames ns (markPendingDirty n e)"

definition markPendingAll :: "Engine \<Rightarrow> Engine" where
  "markPendingAll e = e\<lparr>pend_all := True\<rparr>"

definition takePendingDirty :: "Engine \<Rightarrow> Engine \<times> string list \<times> bool" where
  "takePendingDirty e =
     (let all = pend_all e; e1 = e\<lparr>pend_all := False\<rparr> in
        if length (pend_names e) = 0 then (e1, [], all)
        else (e1\<lparr>pend_names := []\<rparr>, pend_names e, all))"

definition SetIncrementalPending :: "bool \<Rightarrow> Engine \<Rightarrow> Engine" where
  "SetIncrementalPending on e = e\<lparr>incrementalPending := on, pc_valid := False\<rparr>"

section \<open>Index writes with the hook\<close>

definition IxPut :: "Engine \<Rightarrow> FileInfo \<Rightarrow> Engine \<times> FileInfo \<times> go_error option" where
  "IxPut e fi =
     (let (ix', fi', err) = Put (Ix e) fi; e' = e\<lparr>Ix := ix'\<rparr> in
        (if err = None then markPendingNames (touched [Name fi]) e' else e', fi', err))"

definition IxPutBatch :: "Engine \<Rightarrow> FileInfo list \<Rightarrow> Engine \<times> FileInfo list \<times> go_error option" where
  "IxPutBatch e fis =
     (let (ix', fis', err) = PutBatch (Ix e) fis; e' = e\<lparr>Ix := ix'\<rparr> in
        (if err = None then markPendingNames (touched (map Name fis)) e' else e', fis', err))"

definition IxDelete :: "Engine \<Rightarrow> string \<Rightarrow> Engine \<times> go_error option" where
  "IxDelete e name =
     (let (ix', err) = Delete (Ix e) name; e' = e\<lparr>Ix := ix'\<rparr> in
        (if err = None then markPendingNames (touched [name]) e' else e', err))"

section \<open>The stability gate\<close>

definition inflight_map :: "(string \<times> int) list \<Rightarrow> (string, int) gomap" where
  "inflight_map lst = foldl (\<lambda>m (n, s). mset_at m n s) [] lst"

definition SetInFlight :: "(string \<times> int) list \<Rightarrow> Engine \<Rightarrow> Engine" where
  "SetInFlight lst e =
     (let m = inflight_map lst; prev = inflight e; e1 = e\<lparr>inflight := Some m\<rparr>;
          e2 = (case prev of None \<Rightarrow> e1
                | Some p \<Rightarrow> markPendingNames (filter (\<lambda>n. mget m n = None) (mkeys p)) e1);
          e3 = markPendingNames (filter (\<lambda>n. case prev of None \<Rightarrow> True | Some p \<Rightarrow> mget p n = None) (mkeys m)) e2
      in e3\<lparr>inflightRev := inflightRev e3 + 1\<rparr>)"

definition InFlight :: "Engine \<Rightarrow> string \<Rightarrow> bool" where
  "InFlight e name = (case inflight e of None \<Rightarrow> False | Some m \<Rightarrow> mget m name \<noteq> None)"

definition InFlightStats :: "Engine \<Rightarrow> int \<times> int" where
  "InFlightStats e =
     (case inflight e of None \<Rightarrow> (0, 0)
      | Some m \<Rightarrow> (int (length m), foldl (\<lambda>a (_, s). a + s) 0 m))"

section \<open>Peer views\<close>

definition PeerCount :: "Engine \<Rightarrow> uint64 \<Rightarrow> int" where
  "PeerCount e peerID = (case mget (peers e) peerID of None \<Rightarrow> 0 | Some v \<Rightarrow> int (length v))"

definition set_view :: "uint64 \<Rightarrow> peer_view \<Rightarrow> Engine \<Rightarrow> Engine" where
  "set_view peerID view e = e\<lparr>peers := mset_at (peers e) peerID view\<rparr>"

definition open_view :: "uint64 \<Rightarrow> Engine \<Rightarrow> Engine \<times> peer_view" where
  "open_view peerID e =
     (case mget (peers e) peerID of
        Some view \<Rightarrow> (e, view)
      | None \<Rightarrow> (markPendingAll (set_view peerID [] e), []))"

definition merge_view :: "peer_view \<Rightarrow> FileInfo list \<Rightarrow> peer_view" where
  "merge_view view fis = foldl (\<lambda>v f. mset_at v (Name f) (CloneInfo f)) view fis"

definition SetPeerIndex :: "uint64 \<Rightarrow> FileInfo list \<Rightarrow> bool \<Rightarrow> Engine \<Rightarrow> Engine" where
  "SetPeerIndex peerID fis update e =
     (let (e1, view) = open_view peerID (e\<lparr>viewRev := viewRev e + 1\<rparr>);
          stale = (if update then [] else filter (\<lambda>n. n \<notin> set (map Name fis)) (mkeys view));
          kept = filter (\<lambda>(n, _). n \<notin> set stale) view
      in markPendingNames (stale @ map Name fis) (set_view peerID (merge_view kept fis) e1))"

definition SetPeerIndexAppend :: "uint64 \<Rightarrow> FileInfo list \<Rightarrow> Engine \<Rightarrow> Engine" where
  "SetPeerIndexAppend peerID fis e =
     (let (e1, view) = open_view peerID e
      in set_view peerID (merge_view view fis) (markPendingNames (map Name fis) e1))"

definition BeginPeerViewExchange :: "uint64 \<Rightarrow> Engine \<Rightarrow> Engine" where
  "BeginPeerViewExchange peerID e = markPendingAll (e\<lparr>viewPending := mset_at (viewPending e) peerID True\<rparr>)"

definition EndPeerViewExchange :: "int \<Rightarrow> uint64 \<Rightarrow> Engine \<Rightarrow> Engine" where
  "EndPeerViewExchange now peerID e =
     (markPendingAll (e\<lparr>viewPending := mdelete (viewPending e) peerID\<rparr>))\<lparr>viewAt := mset_at (viewAt e) peerID now\<rparr>"

definition PeerViewsPending :: "Engine \<Rightarrow> bool" where
  "PeerViewsPending e \<longleftrightarrow> 0 < length (viewPending e)"

definition view_is_pending :: "Engine \<Rightarrow> uint64 \<Rightarrow> bool" where
  "view_is_pending e peerID = (case mget (viewPending e) peerID of Some b \<Rightarrow> b | None \<Rightarrow> False)"

text \<open>
  The node's reconfiguration of a live folder: \<^verbatim>\<open>UpdateFolder\<close> assigns the stager, the gate, the ignore
  rules and the direction of the running engine and opens the hold area again, from its manifest.
\<close>

definition UpdateFolder_engine :: "Stager \<Rightarrow> Matcher \<Rightarrow> Matcher \<Rightarrow> string \<Rightarrow> Engine \<Rightarrow> Engine" where
  "UpdateFolder_engine st ig inc dir e = e\<lparr>stager := st, Ignore := ig, Include := inc, Direction := dir,
     hold := Some (New_Store\<lparr>manifest := (case hold e of None \<Rightarrow> None | Some s \<Rightarrow> manifest s)\<rparr>)\<rparr>"

section \<open>Frame lemmas\<close>

lemma markPendingDirty_simps [simp, eng_simps]:
  "Ix (markPendingDirty n e) = Ix e" "map_ord (markPendingDirty n e) = map_ord e" "peers (markPendingDirty n e) = peers e"
  "inflight (markPendingDirty n e) = inflight e" "Direction (markPendingDirty n e) = Direction e"
  "Include (markPendingDirty n e) = Include e" "viewPending (markPendingDirty n e) = viewPending e"
  "pc_valid (markPendingDirty n e) = pc_valid e" "pc_pullSet (markPendingDirty n e) = pc_pullSet e"
  "pc_upSet (markPendingDirty n e) = pc_upSet e" "pc_pulls (markPendingDirty n e) = pc_pulls e"
  "pc_ups (markPendingDirty n e) = pc_ups e" "pend_all (markPendingDirty n e) = pend_all e"
  "fs (markPendingDirty n e) = fs e" "NodeID (markPendingDirty n e) = NodeID e"
  "pc_builtAt (markPendingDirty n e) = pc_builtAt e" "Versioning (markPendingDirty n e) = Versioning e"
  "Policy (markPendingDirty n e) = Policy e" "hold (markPendingDirty n e) = hold e" "stager (markPendingDirty n e) = stager e" "keptDirs (markPendingDirty n e) = keptDirs e" "log (markPendingDirty n e) = log e"
  "donor_dirs (markPendingDirty n e) = donor_dirs e" "donor_order (markPendingDirty n e) = donor_order e" "reuseByKey (markPendingDirty n e) = reuseByKey e"
  "inflightRev (markPendingDirty n e) = inflightRev e" "incrementalPending (markPendingDirty n e) = incrementalPending e"
  "Stats (markPendingDirty n e) = Stats e" "pc_indexed (markPendingDirty n e) = pc_indexed e"
  "set (pend_names (markPendingDirty n e)) = (if n = [] then set (pend_names e) else insert n (set (pend_names e)))"
  by (simp_all add: markPendingDirty_def)

lemma markPendingNames_simps [simp, eng_simps]:
  "Ix (markPendingNames ns e) = Ix e" "map_ord (markPendingNames ns e) = map_ord e" "peers (markPendingNames ns e) = peers e"
  "inflight (markPendingNames ns e) = inflight e" "Direction (markPendingNames ns e) = Direction e"
  "Include (markPendingNames ns e) = Include e" "viewPending (markPendingNames ns e) = viewPending e"
  "pc_valid (markPendingNames ns e) = pc_valid e" "pc_pullSet (markPendingNames ns e) = pc_pullSet e"
  "pc_upSet (markPendingNames ns e) = pc_upSet e" "pc_pulls (markPendingNames ns e) = pc_pulls e"
  "pc_ups (markPendingNames ns e) = pc_ups e" "pend_all (markPendingNames ns e) = pend_all e"
  "fs (markPendingNames ns e) = fs e" "NodeID (markPendingNames ns e) = NodeID e"
  "pc_builtAt (markPendingNames ns e) = pc_builtAt e" "Versioning (markPendingNames ns e) = Versioning e"
  "Policy (markPendingNames ns e) = Policy e" "hold (markPendingNames ns e) = hold e" "stager (markPendingNames ns e) = stager e" "keptDirs (markPendingNames ns e) = keptDirs e" "log (markPendingNames ns e) = log e"
  "donor_dirs (markPendingNames ns e) = donor_dirs e" "donor_order (markPendingNames ns e) = donor_order e" "reuseByKey (markPendingNames ns e) = reuseByKey e"
  "inflightRev (markPendingNames ns e) = inflightRev e" "incrementalPending (markPendingNames ns e) = incrementalPending e"
  "Stats (markPendingNames ns e) = Stats e" "pc_indexed (markPendingNames ns e) = pc_indexed e"
  "set (pend_names (markPendingNames ns e)) = set (pend_names e) \<union> (set ns - {[]})"
  by (induction ns arbitrary: e) auto

lemma markPendingAll_simps [simp, eng_simps]:
  "Ix (markPendingAll e) = Ix e" "map_ord (markPendingAll e) = map_ord e" "peers (markPendingAll e) = peers e"
  "inflight (markPendingAll e) = inflight e" "Direction (markPendingAll e) = Direction e"
  "Include (markPendingAll e) = Include e" "viewPending (markPendingAll e) = viewPending e"
  "pc_valid (markPendingAll e) = pc_valid e" "pc_pullSet (markPendingAll e) = pc_pullSet e"
  "pc_upSet (markPendingAll e) = pc_upSet e" "pc_pulls (markPendingAll e) = pc_pulls e"
  "pc_ups (markPendingAll e) = pc_ups e" "pend_all (markPendingAll e) = True"
  "pend_names (markPendingAll e) = pend_names e" "fs (markPendingAll e) = fs e"
  by (simp_all add: markPendingAll_def)

lemma mget_merge_view:
  "mget (merge_view v fis) n = (case find (\<lambda>f. Name f = n) (rev fis) of Some f \<Rightarrow> Some f | None \<Rightarrow> mget v n)"
proof (induction fis arbitrary: v rule: rev_induct)
  case (snoc f fis)
  then show ?case by (auto simp: merge_view_def)
qed (simp add: merge_view_def)

lemma mget_merge_view_other: "n \<notin> Name ` set fis \<Longrightarrow> mget (merge_view v fis) n = mget v n"
  unfolding mget_merge_view by (auto simp: find_None_iff split: option.splits dest!: find_Some_iff [THEN iffD1] nth_mem)

lemma mget_filter_key: "mget (filter (\<lambda>(n, _). P n) m) k = (if P k then mget m k else None)"
  by (induction m) auto

lemma InFlight_cong: "inflight e' = inflight e \<Longrightarrow> InFlight e' = InFlight e"
  by (simp add: InFlight_def fun_eq_iff)

lemma set_view_simps [simp, eng_simps]:
  "Ix (set_view p v e) = Ix e" "map_ord (set_view p v e) = map_ord e" "peers (set_view p v e) = mset_at (peers e) p v"
  "inflight (set_view p v e) = inflight e" "Direction (set_view p v e) = Direction e"
  "Include (set_view p v e) = Include e" "viewPending (set_view p v e) = viewPending e"
  "pc_valid (set_view p v e) = pc_valid e" "pc_pullSet (set_view p v e) = pc_pullSet e"
  "pc_upSet (set_view p v e) = pc_upSet e" "pc_pulls (set_view p v e) = pc_pulls e"
  "pc_ups (set_view p v e) = pc_ups e" "pend_all (set_view p v e) = pend_all e"
  "pend_names (set_view p v e) = pend_names e"
  by (simp_all add: set_view_def)

end
