(* ===== verification/Pending.thy ===== *)
theory Pending
  imports Engine_State
begin

text \<open>
  The global model and the pending lists: \<^verbatim>\<open>globalFrom\<close>, \<^verbatim>\<open>pullWanted\<close>, \<^verbatim>\<open>uploadWanted\<close>, the full walks
  and the incremental computation (\<^verbatim>\<open>engine.go\<close>, \<^verbatim>\<open>pending_incremental.go\<close>, \<^verbatim>\<open>pending_basis.go\<close>). Times are
  nanoseconds and the clock is an argument. The main result is that the incremental lists are the
  lists of the full walk, for every state the operations can reach, as long as the index answers.
\<close>

section \<open>The winning version\<close>

definition beats :: "FileInfo \<Rightarrow> FileInfo \<Rightarrow> bool" where
  "beats p best =
     (let c = Compare (Version p) (Version best) in
        if c = 0 then
          (if Deleted p \<noteq> Deleted best then Deleted p
           else Size p \<noteq> Size best \<and> Size p > Size best)
        else if c = 1 then True
        else if c = 2 then newerOrGreater p best
        else False)"

fun global_loop :: "peer_view list \<Rightarrow> string \<Rightarrow> FileInfo option \<times> bool \<Rightarrow> FileInfo option \<times> bool" where
  "global_loop [] name (best, bestLocal) = (best, bestLocal)"
| "global_loop (view # views) name (best, bestLocal) =
     global_loop views name
       (case mget view name of
          None \<Rightarrow> (best, bestLocal)
        | Some p \<Rightarrow>
            (case best of
               None \<Rightarrow> (Some p, False)
             | Some b \<Rightarrow> if beats p b then (Some p, False) else (best, bestLocal)))"

definition globalFrom :: "Engine \<Rightarrow> FileInfo option \<Rightarrow> string \<Rightarrow> FileInfo option \<times> bool" where
  "globalFrom e local name =
     (case global_loop (ranged e name) name (local, local \<noteq> None) of
        (None, _) \<Rightarrow> (None, False)
      | (Some best, bestLocal) \<Rightarrow> (Some best, bestLocal))"

definition globalForLocked :: "Engine \<Rightarrow> string \<Rightarrow> go_error + FileInfo option \<times> bool" where
  "globalForLocked e name =
     (case Ix_Get (Ix e) name of Inl err \<Rightarrow> Inl err | Inr local \<Rightarrow> Inr (globalFrom e local name))"

definition GlobalFor :: "Engine \<Rightarrow> string \<Rightarrow> go_error + FileInfo option \<times> bool" where
  "GlobalFor e name = globalForLocked e name"

section \<open>What is wanted\<close>

fun include_is_dir :: "peer_view list \<Rightarrow> string \<Rightarrow> bool" where
  "include_is_dir [] name = False"
| "include_is_dir (view # views) name =
     (case mget view name of Some g \<Rightarrow> Type g = TypeDirectory | None \<Rightarrow> include_is_dir views name)"

definition pullWanted :: "Engine \<Rightarrow> string \<Rightarrow> FileInfo option \<Rightarrow> bool" where
  "pullWanted e name local =
     (if Direction e = ''send-only'' then False
      else if InFlight e name then False
      else case fst (globalFrom e local name) of
          None \<Rightarrow> False
        | Some global \<Rightarrow>
            (case local of
               None \<Rightarrow>
                 if \<not> Deleted global then
                   (if Include e \<noteq> None then fst (Match (Include e) name (include_is_dir (ranged e name) name))
                    else True)
                 else False
             | Some l \<Rightarrow>
                 if \<not> Deleted l \<and> Deleted global then True
                 else if \<not> Deleted l \<and> \<not> Deleted global then
                   (let c = Compare (Version global) (Version l) in
                      if c = 1 then \<not> identicalContent l global
                      else if c = 2 then \<not> sameContent l global
                      else False)
                 else if Deleted l \<and> \<not> Deleted global then True
                 else False))"

definition authoritativeViewsLocked :: "Engine \<Rightarrow> peer_view list" where
  "authoritativeViewsLocked e = map snd (filter (\<lambda>(pid, _). \<not> view_is_pending e pid) (peers e))"

fun upload_loop :: "peer_view list \<Rightarrow> string \<Rightarrow> FileInfo \<Rightarrow> bool" where
  "upload_loop [] name local = False"
| "upload_loop (view # views) name local =
     (case mget view name of
        None \<Rightarrow> True
      | Some pf \<Rightarrow>
          if Deleted pf then
            (if Compare (Version local) (Version pf) = 1 then True else upload_loop views name local)
          else if Compare (Version local) (Version pf) = 1 \<and> \<not> identicalContent local pf then True
          else upload_loop views name local)"

definition uploadWanted :: "Engine \<Rightarrow> string \<Rightarrow> FileInfo option \<Rightarrow> peer_view list \<Rightarrow> bool" where
  "uploadWanted e name local views =
     (case local of
        None \<Rightarrow> False
      | Some l \<Rightarrow> if Deleted l then False else if InFlight e name then False else upload_loop views name l)"

section \<open>Full walks\<close>

definition local_map :: "FileInfo list \<Rightarrow> (string, FileInfo) gomap" where
  "local_map fis = foldl (\<lambda>m fi. mset_at m (Name fi) fi) [] fis"

definition computeNeedPullsLocked :: "Engine \<Rightarrow> Engine \<times> (go_error + string list)" where
  "computeNeedPullsLocked e =
     (if Direction e = ''send-only'' then (e, Inr [])
      else case Ix_ListAll (Ix e) of
          Inl err \<Rightarrow> (e, Inl err)
        | Inr fis \<Rightarrow>
            (let localMap = local_map fis;
                 names = remdups (map Name fis @ concat (map (\<lambda>(_, view). mkeys view) (peers e)))
             in (e\<lparr>pc_indexed := int (length localMap)\<rparr>,
                 Inr (sort (filter (\<lambda>n. pullWanted e n (mget localMap n)) names)))))"

definition computePendingUploadsLocked :: "Engine \<Rightarrow> go_error + string list" where
  "computePendingUploadsLocked e =
     (if length (peers e) = 0 then Inr []
      else let views = authoritativeViewsLocked e in
        if length views = 0 then Inr []
        else case Ix_ListAll (Ix e) of
            Inl err \<Rightarrow> Inl err
          | Inr fis \<Rightarrow> Inr (sort (map Name (filter (\<lambda>fi. uploadWanted e (Name fi) (Some fi) views) fis))))"

section \<open>The incremental lists\<close>

definition setMember :: "string set option \<Rightarrow> string \<Rightarrow> bool \<Rightarrow> string set option" where
  "setMember st name want =
     (case st of None \<Rightarrow> None | Some s \<Rightarrow> Some (if want then insert name s else s - {name}))"

definition sortedSet :: "string set option \<Rightarrow> string list" where
  "sortedSet st = (case st of None \<Rightarrow> [] | Some s \<Rightarrow> sorted_list_of_set s)"

definition pendingRebuildAfter :: int where
  "pendingRebuildAfter = 15 * 60 * 1000000000"

definition pendingDirtyShare :: int where
  "pendingDirtyShare = 4"

definition rebuildPendingLocked :: "int \<Rightarrow> Engine \<Rightarrow> Engine \<times> go_error option" where
  "rebuildPendingLocked now e =
     (case computeNeedPullsLocked e of
        (e1, Inl err) \<Rightarrow> (e1, Some err)
      | (e1, Inr pulls) \<Rightarrow>
          (case computePendingUploadsLocked e1 of
             Inl err \<Rightarrow> (e1, Some err)
           | Inr ups \<Rightarrow>
               (let e2 = e1\<lparr>pc_pulls := pulls, pc_ups := ups, pc_pullSet := Some (set pulls),
                          pc_upSet := Some (set ups), pc_builtAt := Some now, pc_valid := True\<rparr>
                in (fst (takePendingDirty e2), None))))"

fun update_names :: "Engine \<Rightarrow> peer_view list \<Rightarrow> string list \<Rightarrow> Engine \<times> go_error option" where
  "update_names e views [] = (e, None)"
| "update_names e views (name # names) =
     (case Ix_Get (Ix e) name of
        Inl err \<Rightarrow> (e, Some err)
      | Inr local \<Rightarrow>
          update_names
            (e\<lparr>pc_pullSet := setMember (pc_pullSet e) name (pullWanted e name local),
               pc_upSet := setMember (pc_upSet e) name
                 (if 0 < length views then uploadWanted e name local views else False)\<rparr>)
            views names)"

definition ensurePendingLocked :: "int \<Rightarrow> Engine \<Rightarrow> Engine \<times> go_error option" where
  "ensurePendingLocked now e =
     (if \<not> incrementalPending e then rebuildPendingLocked now e
      else let (e1, names, all) = takePendingDirty e in
        if \<not> pc_valid e1 \<or> all then rebuildPendingLocked now e1
        else if (case pc_builtAt e1 of None \<Rightarrow> True
                 | Some t \<Rightarrow> 0 < length names \<and> now - t > pendingRebuildAfter)
          then rebuildPendingLocked now e1
        else if length names = 0 then (e1, None)
        else if pc_indexed e1 > 0 \<and> int (length names) \<ge> pc_indexed e1 div pendingDirtyShare + 1
          then rebuildPendingLocked now e1
        else case update_names e1 (authoritativeViewsLocked e1) names of
            (e2, Some err) \<Rightarrow> (e2, Some err)
          | (e2, None) \<Rightarrow> (e2\<lparr>pc_pulls := sortedSet (pc_pullSet e2), pc_ups := sortedSet (pc_upSet e2)\<rparr>, None))"

definition NeedPulls :: "int \<Rightarrow> Engine \<Rightarrow> Engine \<times> (go_error + string list)" where
  "NeedPulls now e =
     (case ensurePendingLocked now e of (e', Some err) \<Rightarrow> (e', Inl err) | (e', None) \<Rightarrow> (e', Inr (pc_pulls e')))"

definition PendingUploads :: "int \<Rightarrow> Engine \<Rightarrow> Engine \<times> (go_error + string list)" where
  "PendingUploads now e =
     (case ensurePendingLocked now e of (e', Some err) \<Rightarrow> (e', Inl err) | (e', None) \<Rightarrow> (e', Inr (pc_ups e')))"

section \<open>Deletions, deltas and counters\<close>

definition PendingDeletions :: "Engine \<Rightarrow> go_error + string list" where
  "PendingDeletions e =
     (if Direction e = ''send-only'' then Inr []
      else case Ix_List (Ix e) of
          Inl err \<Rightarrow> Inl err
        | Inr fis \<Rightarrow>
            (let live = filter (\<lambda>fi. \<not> Deleted fi) fis; localMap = local_map live in
               Inr (sort (filter (\<lambda>name. \<not> InFlight e name \<and>
                 (case fst (globalFrom e (mget localMap name) name) of
                    None \<Rightarrow> False | Some global \<Rightarrow> Deleted global)) (map Name live)))))"

definition DiffForPeer :: "Engine \<Rightarrow> uint64 \<Rightarrow> go_error + FileInfo list" where
  "DiffForPeer e peerID =
     (let view = (case mget (peers e) peerID of None \<Rightarrow> [] | Some v \<Rightarrow> v) in
        case Ix_ListAll (Ix e) of
          Inl err \<Rightarrow> Inl err
        | Inr fis \<Rightarrow> Inr (map CloneInfo (filter (\<lambda>fi. case mget view (Name fi) of
            Some pf \<Rightarrow> \<not> Equal (Version pf) (Version fi) | None \<Rightarrow> True) fis)))"

definition sizesFor :: "Engine \<Rightarrow> string list \<Rightarrow> int" where
  "sizesFor e names =
     (if length names = 0 then 0
      else case GetMany (Ix e) names of
          Inl _ \<Rightarrow> 0 | Inr fis \<Rightarrow> foldl (\<lambda>t (_, fi). t + Size fi) 0 fis)"

definition pendingRefreshFloor :: int where
  "pendingRefreshFloor = 500 * 1000000"

definition RefreshPendingStats :: "int \<Rightarrow> Engine \<Rightarrow> Engine" where
  "RefreshPendingStats now e =
     (let last = lastPendingRefresh (Stats e) in
      if last \<noteq> 0 \<and> now - last < pendingRefreshFloor then e
      else let
        e0 = e\<lparr>Stats := (Stats e)\<lparr>lastPendingRefresh := now\<rparr>\<rparr>;
        dels = PendingDeletions e0;
        delSet = (case dels of Inl _ \<Rightarrow> [] | Inr ds \<Rightarrow> ds);
        e1 = (case dels of Inl _ \<Rightarrow> e0
              | Inr ds \<Rightarrow> e0\<lparr>Stats := (Stats e0)\<lparr>PendingDeleteCount := int (length ds)\<rparr>\<rparr>);
        (e2, pull) = NeedPulls now e1;
        e3 = (case pull of Inl _ \<Rightarrow> e2
              | Inr pl \<Rightarrow>
                  (let kept = (if 0 < length delSet then filter (\<lambda>n. n \<notin> set delSet) pl else pl) in
                     e2\<lparr>Stats := (Stats e2)\<lparr>PendingPullCount := int (length kept), cachedPulls := Some kept,
                        PendingPullBytes := sizesFor e2 kept\<rparr>\<rparr>));
        (e4, up) = PendingUploads now e3
      in (case up of Inl _ \<Rightarrow> e4
          | Inr u \<Rightarrow> e4\<lparr>Stats := (Stats e4)\<lparr>PendingUpCount := int (length u), cachedUps := Some u,
              PendingUpBytes := sizesFor e4 u\<rparr>\<rparr>))"

definition CachedPendingPulls :: "Engine \<Rightarrow> string list option" where
  "CachedPendingPulls e = cachedPulls (Stats e)"

definition CachedPendingUploads :: "Engine \<Rightarrow> string list option" where
  "CachedPendingUploads e = cachedUps (Stats e)"

section \<open>Whether the counters describe the current pair\<close>

definition pendingViewMaxAge :: int where
  "pendingViewMaxAge = 90 * 1000000000"

fun basis_views :: "int \<Rightarrow> Engine \<Rightarrow> uint64 list \<Rightarrow> string option" where
  "basis_views now e [] = None"
| "basis_views now e (pid # pids) =
     (case mget (viewAt e) pid of
        None \<Rightarrow> Some ''no completed index exchange with a peer yet''
      | Some t \<Rightarrow> if now - t > pendingViewMaxAge then Some ''peer view is old (no recent exchange)''
          else basis_views now e pids)"

fun basis_sent :: "Engine \<Rightarrow> int \<Rightarrow> uint64 list \<Rightarrow> string option" where
  "basis_sent e ownSeq [] = None"
| "basis_sent e ownSeq (pid # pids) =
     (case GetPeerIndex (Ix e) pid of
        Inl _ \<Rightarrow> Some ''peer index state unavailable''
      | Inr None \<Rightarrow> Some ''this index has not been sent to the peer yet''
      | Inr (Some st) \<Rightarrow> if pi_MaxSeq st < ownSeq then Some ''index has change(s) the peer has not been sent''
          else basis_sent e ownSeq pids)"

text \<open>The reason a counter cannot be trusted; \<open>None\<close> is a verified basis.\<close>

definition PendingBasis :: "int \<Rightarrow> Engine \<Rightarrow> string option" where
  "PendingBasis now e =
     (if length (peers e) = 0 then Some ''no peer has exchanged an index for this folder yet''
      else if list_ex (view_is_pending e) (mkeys (peers e)) then Some ''a peer index exchange is in progress''
      else case basis_views now e (mkeys (peers e)) of
          Some r \<Rightarrow> Some r
        | None \<Rightarrow> basis_sent e (MaxSeq (Ix e)) (mkeys (peers e)))"

definition PendingUnverifiedReason :: "int \<Rightarrow> Engine \<Rightarrow> string" where
  "PendingUnverifiedReason now e = (case PendingBasis now e of Some r \<Rightarrow> r | None \<Rightarrow> [])"

section \<open>What the answers depend on\<close>

definition view_at :: "string \<Rightarrow> (uint64, peer_view) gomap \<Rightarrow> (uint64 \<times> FileInfo option) list" where
  "view_at n ps = map (\<lambda>(pid, v). (pid, mget v n)) ps"

definition want_pull :: "Engine \<Rightarrow> string \<Rightarrow> bool" where
  "want_pull e n = pullWanted e n (entry (Ix e) n)"

definition want_up :: "Engine \<Rightarrow> string \<Rightarrow> bool" where
  "want_up e n = uploadWanted e n (entry (Ix e) n) (authoritativeViewsLocked e)"

lemma global_loop_map:
  "map (\<lambda>v. mget v n) vs = map (\<lambda>v. mget v n) vs' \<Longrightarrow> global_loop vs n b = global_loop vs' n b"
proof (induction vs arbitrary: vs' b)
  case (Cons v vs)
  then obtain v' vs'' where "vs' = v' # vs''" by (cases vs') auto
  with Cons show ?case by (cases b) auto
qed auto

lemma include_is_dir_map:
  "map (\<lambda>v. mget v n) vs = map (\<lambda>v. mget v n) vs' \<Longrightarrow> include_is_dir vs n = include_is_dir vs' n"
proof (induction vs arbitrary: vs')
  case (Cons v vs)
  then obtain v' vs'' where "vs' = v' # vs''" by (cases vs') auto
  with Cons show ?case by (auto split: option.splits)
qed simp

lemma upload_loop_map:
  "map (\<lambda>v. mget v n) vs = map (\<lambda>v. mget v n) vs' \<Longrightarrow> upload_loop vs n l = upload_loop vs' n l"
proof (induction vs arbitrary: vs')
  case (Cons v vs)
  then obtain v' vs'' where "vs' = v' # vs''" by (cases vs') auto
  with Cons show ?case by (auto split: option.splits)
qed simp

lemma view_at_views: "view_at n ps = view_at n ps' \<Longrightarrow>
    map (\<lambda>v. mget v n) (map snd ps) = map (\<lambda>v. mget v n) (map snd ps')"
proof (induction ps arbitrary: ps')
  case (Cons p ps)
  then obtain p' ps'' where "ps' = p' # ps''" by (cases ps') (auto simp: view_at_def)
  with Cons show ?case by (auto simp: view_at_def split: prod.splits)
qed (simp add: view_at_def)

lemma map_insort_key: "map g (insort_key (\<lambda>x. k (g x)) x xs) = insort_key k (g x) (map g xs)"
  by (induction xs) simp_all

lemma map_sort_key: "map g (sort_key (\<lambda>x. k (g x)) xs) = sort_key k (map g xs)"
  by (induction xs) (simp_all add: map_insort_key)

text \<open>What the loop over the peers meets for one path is a function of the entries at that path and of the order chosen for it.\<close>

lemma ranged_view_at:
  assumes "view_at n (peers e') = view_at n (peers e)" and "map_ord e' n = map_ord e n"
  shows "map (\<lambda>v. mget v n) (ranged e' n) = map (\<lambda>v. mget v n) (ranged e n)"
proof -
  have met: "map (\<lambda>v. mget v n) (ranged e n) = map snd (sort_key (\<lambda>pv. map_ord e n (fst pv)) (view_at n (peers e)))" for e
    unfolding view_at_def map_sort_key [symmetric] by (simp add: ranged_def split_def)
  show ?thesis unfolding met assms by (rule refl)
qed

lemma view_at_authoritative: "view_at n ps = view_at n ps' \<Longrightarrow>
    map (\<lambda>v. mget v n) (map snd (filter (\<lambda>(pid, _). P pid) ps)) = map (\<lambda>v. mget v n) (map snd (filter (\<lambda>(pid, _). P pid) ps'))"
proof (induction ps arbitrary: ps')
  case (Cons p ps)
  then obtain p' ps'' where "ps' = p' # ps''" by (cases ps') (auto simp: view_at_def)
  with Cons show ?case by (auto simp: view_at_def split: prod.splits)
qed (simp add: view_at_def)

lemma globalFrom_view_at:
  "view_at n (peers e') = view_at n (peers e) \<Longrightarrow> map_ord e' n = map_ord e n \<Longrightarrow> globalFrom e' l n = globalFrom e l n"
  unfolding globalFrom_def by (subst global_loop_map [OF ranged_view_at]) simp_all

text \<open>Both answers for a name are a function of these parts of the state.\<close>

lemma want_cong:
  assumes "Direction e' = Direction e" and "Include e' = Include e" and "viewPending e' = viewPending e"
    and "InFlight e' n = InFlight e n" and "entry (Ix e') n = entry (Ix e) n"
    and "view_at n (peers e') = view_at n (peers e)"
  shows "map_ord e' n = map_ord e n \<Longrightarrow> want_pull e' n = want_pull e n" and "want_up e' n = want_up e n"
proof -
  show "want_pull e' n = want_pull e n" if ord: "map_ord e' n = map_ord e n"
    unfolding want_pull_def pullWanted_def assms(1,2,4,5) globalFrom_view_at [OF assms(6) ord]
      include_is_dir_map [OF ranged_view_at [OF assms(6) ord]] by (rule refl)
  have "view_is_pending e' = view_is_pending e" using assms(3) by (simp add: view_is_pending_def fun_eq_iff)
  then have "upload_loop (authoritativeViewsLocked e') n l = upload_loop (authoritativeViewsLocked e) n l" for l
    using upload_loop_map [OF view_at_authoritative [OF assms(6), of "\<lambda>pid. \<not> view_is_pending e pid"]]
    by (simp add: authoritativeViewsLocked_def)
  then show "want_up e' n = want_up e n" unfolding want_up_def uploadWanted_def assms(4,5)
    by (cases "entry (Ix e) n") simp_all
qed

text \<open>The answer for a name when the loops go through the peers in the order \<open>r\<close>; an upload never depends on the order.\<close>

definition want_in :: "(string \<Rightarrow> uint64 \<Rightarrow> nat) \<Rightarrow> Engine \<Rightarrow> string \<Rightarrow> bool" where
  "want_in r e n = want_pull (e\<lparr>map_ord := r\<rparr>) n"

lemma want_in_own: "want_in (map_ord e) e = want_pull e"
  by (simp add: want_in_def fun_eq_iff)

lemma want_in_cong:
  assumes "Direction e' = Direction e" and "Include e' = Include e" and "viewPending e' = viewPending e"
    and "InFlight e' n = InFlight e n" and "entry (Ix e') n = entry (Ix e) n"
    and "view_at n (peers e') = view_at n (peers e)" and "r' n = r n"
  shows "want_in r' e' n = want_in r e n"
  unfolding want_in_def using assms by (intro want_cong(1)) (simp_all add: InFlight_def)

lemma want_up_ord [simp]: "want_up (e\<lparr>map_ord := r\<rparr>) = want_up e"
  by (rule ext, rule want_cong(2)) (simp_all add: InFlight_def)

definition read_ok :: "Engine \<Rightarrow> bool" where
  "read_ok e \<longleftrightarrow> ix_wf (Ix e) \<and> \<not> fault_scan (Ix e) \<and> (\<forall>n. \<not> fault_read (Ix e) n)
     \<and> entry (Ix e) [] = None \<and> (\<forall>(pid, v) \<in> set (peers e). mget v [] = None)"

lemma read_ok_Get: "read_ok e \<Longrightarrow> Ix_Get (Ix e) n = Inr (entry (Ix e) n)"
  by (simp add: read_ok_def Ix_Get_entry)

lemma read_ok_ListAll: "read_ok e \<Longrightarrow> Ix_ListAll (Ix e) = Inr (entries (Ix e))"
  by (simp add: read_ok_def Ix_ListAll_entries)

section \<open>The walks are complete\<close>

lemma mget_local_map:
  "distinct (map Name fis) \<Longrightarrow> mget (local_map fis) n = find (\<lambda>fi. Name fi = n) fis"
  unfolding local_map_def by (simp add: mget_foldl_entries split: option.splits)

lemma find_entries: "ix_wf ix \<Longrightarrow> find (\<lambda>fi. Name fi = n) (entries ix) = entry ix n"
proof (cases "find (\<lambda>fi. Name fi = n) (entries ix)")
  case None
  assume wf: "ix_wf ix"
  have "entry ix n \<noteq> Some fi" for fi
    using None in_entries_iff [OF wf, of fi] entry_wf(1) [OF wf, of n fi] by (auto simp: find_None_iff)
  then have "entry ix n = None" by (cases "entry ix n") (simp_all, blast)
  then show ?thesis using None by simp
next
  case (Some fi)
  assume wf: "ix_wf ix"
  have "fi \<in> set (entries ix)" "Name fi = n" using Some by (auto simp: find_Some_iff dest!: nth_mem)
  then show ?thesis using Some in_entries_iff [OF wf, of fi] by simp
qed

lemma mget_local_entries: "ix_wf ix \<Longrightarrow> mget (local_map (entries ix)) n = entry ix n"
  by (simp add: mget_local_map distinct_entries find_entries)

lemma entries_mem: "ix_wf ix \<Longrightarrow> fi \<in> set (entries ix) \<and> Name fi = n \<longleftrightarrow> entry ix n = Some fi"
  using in_entries_iff [of ix fi] entry_wf(1) [of ix n fi] by auto

lemma global_loop_none:
  "\<forall>v \<in> set vs. mget v n = None \<Longrightarrow> global_loop vs n b = b"
  by (induction vs arbitrary: b) (auto split: prod.splits)

lemma want_pull_known:
  assumes "want_pull e n" and "ix_wf (Ix e)"
  shows "n \<in> set (map Name (entries (Ix e)) @ concat (map (\<lambda>(_, view). mkeys view) (peers e)))"
proof (rule ccontr)
  assume no: "\<not> ?thesis"
  have "entry (Ix e) n = None"
    using no in_entries_iff [OF assms(2)] entry_wf(1) [OF assms(2), of n] by (cases "entry (Ix e) n") force+
  moreover have "\<forall>v \<in> set (ranged e n). mget v n = None" using no by (force simp: mget_None_iff)
  ultimately have "globalFrom e (entry (Ix e) n) n = (None, False)" by (simp add: globalFrom_def global_loop_none)
  then show False using assms(1) by (simp add: want_pull_def pullWanted_def split: if_splits)
qed

definition walk_pulls :: "Engine \<Rightarrow> string list" where
  "walk_pulls e = (case snd (computeNeedPullsLocked e) of Inl _ \<Rightarrow> [] | Inr l \<Rightarrow> l)"

definition walk_ups :: "Engine \<Rightarrow> string list" where
  "walk_ups e = (case computePendingUploadsLocked e of Inl _ \<Rightarrow> [] | Inr l \<Rightarrow> l)"

lemma compute_pulls:
  assumes "read_ok e"
  shows "snd (computeNeedPullsLocked e) = Inr (walk_pulls e)" and "set (walk_pulls e) = {n. want_pull e n}"
    and "sorted (walk_pulls e)" and "distinct (walk_pulls e)"
proof -
  let ?names = "map Name (entries (Ix e)) @ concat (map (\<lambda>(_, view). mkeys view) (peers e))"
  have wf: "ix_wf (Ix e)" using assms by (simp add: read_ok_def)
  have walk: "snd (computeNeedPullsLocked e) =
      Inr (if Direction e = ''send-only'' then [] else sort (filter (want_pull e) (remdups ?names)))"
    using read_ok_ListAll [OF assms] mget_local_entries [OF wf]
    by (simp add: computeNeedPullsLocked_def want_pull_def [abs_def] Let_def)
  then show "snd (computeNeedPullsLocked e) = Inr (walk_pulls e)" by (simp add: walk_pulls_def)
  have none: "Direction e = ''send-only'' \<Longrightarrow> \<not> want_pull e n" for n by (simp add: want_pull_def pullWanted_def)
  have "{n. want_pull e n} = set (filter (want_pull e) (remdups ?names))"
    using want_pull_known [OF _ wf] by (simp del: set_append set_concat set_map) blast
  then show "set (walk_pulls e) = {n. want_pull e n}"
    using none by (simp add: walk_pulls_def walk)
  show "sorted (walk_pulls e)" "distinct (walk_pulls e)" by (simp_all add: walk_pulls_def walk)
qed

lemma compute_ups:
  assumes "read_ok e"
  shows "computePendingUploadsLocked e = Inr (walk_ups e)" and "set (walk_ups e) = {n. want_up e n}"
    and "sorted (walk_ups e)" and "distinct (walk_ups e)"
proof -
  let ?l = "map Name (filter (\<lambda>fi. uploadWanted e (Name fi) (Some fi) (authoritativeViewsLocked e)) (entries (Ix e)))"
  have wf: "ix_wf (Ix e)" using assms by (simp add: read_ok_def)
  have walk: "computePendingUploadsLocked e = Inr (if authoritativeViewsLocked e = [] then [] else sort ?l)"
    using read_ok_ListAll [OF assms] by (auto simp: computePendingUploadsLocked_def authoritativeViewsLocked_def)
  then show "computePendingUploadsLocked e = Inr (walk_ups e)" by (simp add: walk_ups_def)
  have no_views: "authoritativeViewsLocked e = [] \<Longrightarrow> \<not> want_up e n" for n
    by (simp add: want_up_def uploadWanted_def split: option.splits)
  have "n \<in> set ?l \<longleftrightarrow> (\<exists>fi. (fi \<in> set (entries (Ix e)) \<and> Name fi = n) \<and> uploadWanted e n (Some fi) (authoritativeViewsLocked e))" for n
    by auto
  then have "n \<in> set ?l \<longleftrightarrow> want_up e n" for n
    unfolding entries_mem [OF wf] by (cases "entry (Ix e) n") (simp_all add: want_up_def uploadWanted_def)
  then show "set (walk_ups e) = {n. want_up e n}" using no_views by (auto simp: walk_ups_def walk)
  have "distinct ?l" using distinct_entries [OF wf] by (simp add: distinct_map_filter)
  then show "sorted (walk_ups e)" "distinct (walk_ups e)" by (simp_all add: walk_ups_def walk)
qed

section \<open>Incremental lists\<close>

text \<open>
  The contract of a list kept incrementally: a full walk of the state lists, in order and without
  repetition, exactly the names that are wanted. A cached set that is right outside a dirty set
  becomes the walk's list once the dirty names are decided again.
\<close>

locale incremental_list =
  fixes ok :: "'s \<Rightarrow> bool"
    and want :: "'s \<Rightarrow> string \<Rightarrow> bool"
    and walk :: "'s \<Rightarrow> string list"
  assumes walk_set: "ok s \<Longrightarrow> set (walk s) = {n. want s n}"
    and walk_sorted: "ok s \<Longrightarrow> sorted (walk s)"
    and walk_distinct: "ok s \<Longrightarrow> distinct (walk s)"
begin

lemma exact: "ok s \<Longrightarrow> sorted_list_of_set {n. want s n} = walk s"
  using walk_sorted walk_distinct
  by (simp add: walk_set [symmetric] sorted_list_of_set.idem_if_sorted_distinct)

lemma set_exact: "ok s \<Longrightarrow> \<forall>n. n \<in> C \<longleftrightarrow> want s n \<Longrightarrow> sorted_list_of_set C = walk s"
  by (subst exact [symmetric], assumption) (rule arg_cong [of _ _ sorted_list_of_set], blast)

lemma refreshed_set:
  assumes "\<forall>n. n \<notin> set D \<longrightarrow> (n \<in> C \<longleftrightarrow> want s' n)" and "\<forall>n \<in> set D. want s n = want s' n"
  shows "{n \<in> C. n \<notin> set D} \<union> {n \<in> set D. want s n} = {n. want s' n}"
  using assms by blast

lemma carried:
  assumes "\<forall>n. n \<notin> D \<longrightarrow> (n \<in> C \<longleftrightarrow> want s n)" and "\<forall>n. n \<notin> N \<longrightarrow> want s' n = want s n"
  shows "\<forall>n. n \<notin> D \<union> N \<longrightarrow> (n \<in> C \<longleftrightarrow> want s' n)"
  using assms by blast

end

interpretation pl: incremental_list read_ok want_pull walk_pulls
  by unfold_locales (rule compute_pulls; assumption)+

interpretation up: incremental_list read_ok want_up walk_ups
  by unfold_locales (rule compute_ups; assumption)+

text \<open>The cached sets are right, for some order of the peers at each path, for every name that is not queued for a new decision.\<close>

definition cache_ok :: "Engine \<Rightarrow> string set \<Rightarrow> bool" where
  "cache_ok e D \<longleftrightarrow> (\<exists>P U r. pc_pullSet e = Some P \<and> pc_upSet e = Some U
     \<and> pc_pulls e = sorted_list_of_set P \<and> pc_ups e = sorted_list_of_set U
     \<and> (\<forall>n. n \<notin> D \<longrightarrow> (n \<in> P \<longleftrightarrow> want_in r e n)) \<and> (\<forall>n. n \<notin> D \<longrightarrow> (n \<in> U \<longleftrightarrow> want_up e n)))"

definition pending_inv :: "Engine \<Rightarrow> bool" where
  "pending_inv e \<longleftrightarrow> (pc_valid e \<and> \<not> pend_all e \<longrightarrow> cache_ok e (set (pend_names e)))"

lemma want_pc [simp]:
  "want_pull (e\<lparr>pc_pullSet := a\<rparr>) = want_pull e" "want_in r (e\<lparr>pc_pullSet := a\<rparr>) = want_in r e" "want_up (e\<lparr>pc_pullSet := a\<rparr>) = want_up e"
  "want_pull (e\<lparr>pc_upSet := a\<rparr>) = want_pull e" "want_in r (e\<lparr>pc_upSet := a\<rparr>) = want_in r e" "want_up (e\<lparr>pc_upSet := a\<rparr>) = want_up e"
  "want_pull (e\<lparr>pc_pulls := l\<rparr>) = want_pull e" "want_in r (e\<lparr>pc_pulls := l\<rparr>) = want_in r e" "want_up (e\<lparr>pc_pulls := l\<rparr>) = want_up e"
  "want_pull (e\<lparr>pc_ups := l\<rparr>) = want_pull e" "want_in r (e\<lparr>pc_ups := l\<rparr>) = want_in r e" "want_up (e\<lparr>pc_ups := l\<rparr>) = want_up e"
  "want_pull (e\<lparr>pc_indexed := i\<rparr>) = want_pull e" "want_in r (e\<lparr>pc_indexed := i\<rparr>) = want_in r e" "want_up (e\<lparr>pc_indexed := i\<rparr>) = want_up e"
  "want_pull (e\<lparr>pc_builtAt := t\<rparr>) = want_pull e" "want_in r (e\<lparr>pc_builtAt := t\<rparr>) = want_in r e" "want_up (e\<lparr>pc_builtAt := t\<rparr>) = want_up e"
  "want_pull (e\<lparr>pc_valid := b\<rparr>) = want_pull e" "want_in r (e\<lparr>pc_valid := b\<rparr>) = want_in r e" "want_up (e\<lparr>pc_valid := b\<rparr>) = want_up e"
  "want_pull (e\<lparr>pend_names := ns\<rparr>) = want_pull e" "want_in r (e\<lparr>pend_names := ns\<rparr>) = want_in r e" "want_up (e\<lparr>pend_names := ns\<rparr>) = want_up e"
  "want_pull (e\<lparr>pend_all := b\<rparr>) = want_pull e" "want_in r (e\<lparr>pend_all := b\<rparr>) = want_in r e" "want_up (e\<lparr>pend_all := b\<rparr>) = want_up e"
  by (rule ext, (rule want_cong | rule want_in_cong); simp add: InFlight_def)+

lemma takePendingDirty_eq:
  "takePendingDirty e = (e\<lparr>pend_names := [], pend_all := False\<rparr>, pend_names e, pend_all e)"
  by (simp add: takePendingDirty_def Let_def)

lemma read_ok_pc [simp]:
  "read_ok (e\<lparr>pend_names := ns, pend_all := b\<rparr>) = read_ok e" "read_ok (e\<lparr>pc_indexed := i\<rparr>) = read_ok e" "read_ok (e\<lparr>map_ord := r\<rparr>) = read_ok e"
  by (simp_all add: read_ok_def)

lemma computeNeedPulls_state:
  "\<exists>i. fst (computeNeedPullsLocked e) = e\<lparr>pc_indexed := i\<rparr>"
  by (cases "Ix_ListAll (Ix e)"; cases "Direction e = ''send-only''")
    (auto simp: computeNeedPullsLocked_def Let_def intro: exI [of _ "pc_indexed e"])

lemma rebuild_ok:
  assumes "read_ok e"
  shows "\<exists>i. rebuildPendingLocked now e = (e\<lparr>pc_indexed := i, pc_pulls := walk_pulls e, pc_ups := walk_ups e,
    pc_pullSet := Some {n. want_pull e n}, pc_upSet := Some {n. want_up e n}, pc_builtAt := Some now,
    pc_valid := True, pend_names := [], pend_all := False\<rparr>, None)"
proof -
  obtain i where i: "computeNeedPullsLocked e = (e\<lparr>pc_indexed := i\<rparr>, Inr (walk_pulls e))"
    using computeNeedPulls_state [of e] compute_pulls(1) [OF assms] by (cases "computeNeedPullsLocked e") auto
  have "computePendingUploadsLocked (e\<lparr>pc_indexed := i\<rparr>) = Inr (walk_ups e)"
    using compute_ups(1) [of "e\<lparr>pc_indexed := i\<rparr>"] up.exact [of "e\<lparr>pc_indexed := i\<rparr>"] up.exact [OF assms] assms
    by simp
  then show ?thesis
    using i compute_pulls(2) [OF assms] compute_ups(2) [OF assms]
    by (intro exI [of _ i]) (simp add: rebuildPendingLocked_def takePendingDirty_eq)
qed

lemma update_names_ok:
  assumes "read_ok e" and "pc_pullSet e = Some P" and "pc_upSet e = Some U" and "vs = authoritativeViewsLocked e"
  shows "update_names e vs names = (e\<lparr>pc_pullSet := Some ({n \<in> P. n \<notin> set names} \<union> {n \<in> set names. want_pull e n}),
    pc_upSet := Some ({n \<in> U. n \<notin> set names} \<union> {n \<in> set names. want_up e n})\<rparr>, None)"
  using assms
proof (induction names arbitrary: e P U)
  case Nil
  then show ?case by simp
next
  case (Cons n names)
  let ?P = "if want_pull e n then insert n P else P - {n}"
  let ?U = "if want_up e n then insert n U else U - {n}"
  let ?e = "e\<lparr>pc_pullSet := Some ?P, pc_upSet := Some ?U\<rparr>"
  have up: "(if 0 < length vs then uploadWanted e n (entry (Ix e) n) vs else False) = want_up e n"
    using Cons.prems(4) by (auto simp: want_up_def uploadWanted_def split: option.splits)
  have "update_names e vs (n # names) = update_names ?e vs names"
    unfolding update_names.simps read_ok_Get [OF Cons.prems(1)] sum.case up
    using Cons.prems(2,3) by (simp add: setMember_def want_pull_def)
  also have "\<dots> = (?e\<lparr>pc_pullSet := Some ({n \<in> ?P. n \<notin> set names} \<union> {n \<in> set names. want_pull ?e n}),
    pc_upSet := Some ({n \<in> ?U. n \<notin> set names} \<union> {n \<in> set names. want_up ?e n})\<rparr>, None)"
    using Cons.prems by (intro Cons.IH) (simp_all add: read_ok_def authoritativeViewsLocked_def view_is_pending_def)
  also have "{m \<in> ?P. m \<notin> set names} \<union> {m \<in> set names. want_pull ?e m} =
      {m \<in> P. m \<notin> set (n # names)} \<union> {m \<in> set (n # names). want_pull e m}" by auto
  also have "{m \<in> ?U. m \<notin> set names} \<union> {m \<in> set names. want_up ?e m} =
      {m \<in> U. m \<notin> set (n # names)} \<union> {m \<in> set (n # names). want_up e m}" by auto
  finally show ?case by simp
qed

lemma if3_cases:
  assumes "x = (if a then r else if b then s else if c then r else u)"
  obtains "x = r" | "b" "x = s" | "x = u"
  using assms by (auto split: if_splits)

text \<open>Whatever path it takes, bringing the lists up to date gives the lists of a full walk, with some order of the peers at each path.\<close>

lemma ensure_exact:
  assumes "read_ok e" and "pending_inv e"
  shows "\<exists>e' r. ensurePendingLocked now e = (e', None) \<and> pc_pulls e' = walk_pulls (e\<lparr>map_ord := r\<rparr>) \<and> pc_ups e' = walk_ups e
    \<and> pending_inv e' \<and> (\<forall>r. want_in r e' = want_in r e) \<and> want_up e' = want_up e \<and> Ix e' = Ix e \<and> peers e' = peers e
    \<and> inflight e' = inflight e \<and> Stats e' = Stats e \<and> Direction e' = Direction e"
proof -
  let ?e = "e\<lparr>pend_names := [], pend_all := False\<rparr>"
  have walks: "walk_pulls ?e = walk_pulls e" "walk_ups ?e = walk_ups e"
    using pl.exact [of ?e] pl.exact [of e] up.exact [of ?e] up.exact [of e] assms(1) by simp_all
  have listed: "sorted_list_of_set {n. want_in r e n} = walk_pulls (e\<lparr>map_ord := r\<rparr>)" for r
    using pl.exact [of "e\<lparr>map_ord := r\<rparr>"] assms(1) by (simp add: want_in_def)
  have reb: ?thesis if "ensurePendingLocked now e = rebuildPendingLocked now e0" and "e0 = e \<or> e0 = ?e" for e0
  proof -
    have "read_ok e0" using that(2) assms(1) by auto
    from rebuild_ok [OF this, of now] obtain i where
      i: "rebuildPendingLocked now e0 = (e0\<lparr>pc_indexed := i, pc_pulls := walk_pulls e0, pc_ups := walk_ups e0,
        pc_pullSet := Some {n. want_pull e0 n}, pc_upSet := Some {n. want_up e0 n}, pc_builtAt := Some now,
        pc_valid := True, pend_names := [], pend_all := False\<rparr>, None)" by blast
    show ?thesis unfolding that(1) i
      by (rule exI, rule exI [of _ "map_ord e"])
        (use that(2) walks pl.exact [OF \<open>read_ok e0\<close>] up.exact [OF \<open>read_ok e0\<close>] in
          \<open>auto simp: pending_inv_def cache_ok_def want_in_own intro!: exI [of _ "map_ord e"]\<close>)
  qed
  show ?thesis
  proof (cases "incrementalPending e \<and> pc_valid e \<and> \<not> pend_all e")
    case False
    then show ?thesis using reb [of e] reb [of ?e]
      by (auto simp: ensurePendingLocked_def takePendingDirty_eq)
  next
    case True
    then obtain P U r where PU: "pc_pullSet e = Some P" "pc_upSet e = Some U" "pc_pulls e = sorted_list_of_set P"
      "pc_ups e = sorted_list_of_set U" "\<forall>n. n \<notin> set (pend_names e) \<longrightarrow> (n \<in> P \<longleftrightarrow> want_in r e n)"
      "\<forall>n. n \<notin> set (pend_names e) \<longrightarrow> (n \<in> U \<longleftrightarrow> want_up e n)"
      using assms(2) by (auto simp: pending_inv_def cache_ok_def)
    let ?old = "case pc_builtAt e of None \<Rightarrow> True
      | Some t \<Rightarrow> 0 < length (pend_names e) \<and> now - t > pendingRebuildAfter"
    let ?many = "pc_indexed e > 0 \<and> int (length (pend_names e)) \<ge> pc_indexed e div pendingDirtyShare + 1"
    have ens: "ensurePendingLocked now e = (if ?old then rebuildPendingLocked now ?e
        else if length (pend_names e) = 0 then (?e, None)
        else if ?many then rebuildPendingLocked now ?e
        else case update_names ?e (authoritativeViewsLocked ?e) (pend_names e) of
            (e2, Some err) \<Rightarrow> (e2, Some err)
          | (e2, None) \<Rightarrow> (e2\<lparr>pc_pulls := sortedSet (pc_pullSet e2), pc_ups := sortedSet (pc_upSet e2)\<rparr>, None))"
      using True by (simp add: ensurePendingLocked_def takePendingDirty_eq)
    consider (rebuild) "ensurePendingLocked now e = rebuildPendingLocked now ?e"
      | (stand) "length (pend_names e) = 0" "ensurePendingLocked now e = (?e, None)"
      | (update) "ensurePendingLocked now e = (case update_names ?e (authoritativeViewsLocked ?e) (pend_names e) of
            (e2, Some err) \<Rightarrow> (e2, Some err)
          | (e2, None) \<Rightarrow> (e2\<lparr>pc_pulls := sortedSet (pc_pullSet e2), pc_ups := sortedSet (pc_upSet e2)\<rparr>, None))"
      by (rule if3_cases [OF ens]) iprover+
    then show ?thesis
    proof cases
      case rebuild
      then show ?thesis by (rule reb) simp
    next
      case stand
      then have "P = {n. want_in r e n}" "U = {n. want_up e n}" using PU(5,6) by auto
      then show ?thesis using stand PU(1-4) listed [of r] up.exact [OF assms(1)] walks
        by (intro exI [of _ ?e] exI [of _ r]) (auto simp: pending_inv_def cache_ok_def intro!: exI [of _ r])
    next
      case update
      define r' where "r' n = (if n \<in> set (pend_names e) then map_ord e n else r n)" for n
      have "want_in r e n = want_in r' e n" if "n \<notin> set (pend_names e)" for n using that by (intro want_in_cong) (simp_all add: r'_def)
      then have old: "\<forall>n. n \<notin> set (pend_names e) \<longrightarrow> (n \<in> P \<longleftrightarrow> want_pull (e\<lparr>map_ord := r'\<rparr>) n)" using PU(5) by (simp add: want_in_def)
      have "want_in (map_ord e) e n = want_in r' e n" if "n \<in> set (pend_names e)" for n using that by (intro want_in_cong) (simp_all add: r'_def)
      then have decided: "\<forall>n \<in> set (pend_names e). want_pull e n = want_pull (e\<lparr>map_ord := r'\<rparr>) n" by (simp add: want_in_own) (simp add: want_in_def)
      have "update_names ?e (authoritativeViewsLocked ?e) (pend_names e) =
          (?e\<lparr>pc_pullSet := Some {n. want_in r' e n}, pc_upSet := Some {n. want_up e n}\<rparr>, None)"
        using update_names_ok [of ?e P U] assms(1) PU(1,2) pl.refreshed_set [OF old decided] up.refreshed_set [OF PU(6)]
        by (simp add: want_in_def)
      then show ?thesis using update listed [of r'] up.exact [OF assms(1)]
        by (auto simp: sortedSet_def pending_inv_def cache_ok_def intro!: exI [of _ r'])
    qed
  qed
qed

section \<open>Every operation keeps the lists honest\<close>

text \<open>The part of the state the pending lists are computed from, and the caches.\<close>

definition same_table :: "Index \<Rightarrow> Index \<Rightarrow> bool" where
  "same_table ix ix' \<longleftrightarrow> files ix' = files ix \<and> nextSeq ix' = nextSeq ix
     \<and> fault_scan ix' = fault_scan ix \<and> fault_read ix' = fault_read ix"

lemma same_tableD:
  assumes "same_table ix ix'"
  shows "entry ix' = entry ix" and "ix_wf ix' = ix_wf ix" and "fault_scan ix' = fault_scan ix" and "fault_read ix' = fault_read ix"
  using assms by (simp_all add: same_table_def entry_def [abs_def] ix_wf_def)

lemma same_table_refl [simp]: "same_table ix ix"
  by (simp add: same_table_def)

definition same_core :: "Engine \<Rightarrow> Engine \<Rightarrow> bool" where
  "same_core e e' \<longleftrightarrow> same_table (Ix e) (Ix e') \<and> peers e' = peers e \<and> inflight e' = inflight e
     \<and> Direction e' = Direction e \<and> Include e' = Include e \<and> viewPending e' = viewPending e
     \<and> pc_valid e' = pc_valid e \<and> pc_pullSet e' = pc_pullSet e \<and> pc_upSet e' = pc_upSet e
     \<and> pc_pulls e' = pc_pulls e \<and> pc_ups e' = pc_ups e \<and> pend_names e' = pend_names e \<and> pend_all e' = pend_all e"

inductive eng_step :: "Engine \<Rightarrow> Engine \<Rightarrow> bool" where
  step_put: "vwf (Version fi) \<Longrightarrow> seq_ok (Ix e) fi \<Longrightarrow> Name fi \<noteq> [] \<Longrightarrow> IxPut e fi = (e', fi', err) \<Longrightarrow> eng_step e e'"
| step_batch: "\<forall>fi \<in> set fis. vwf (Version fi) \<and> seq_ok (Ix e) fi \<and> Name fi \<noteq> [] \<Longrightarrow>
    IxPutBatch e fis = (e', fis', err) \<Longrightarrow> eng_step e e'"
| step_delete: "n \<noteq> [] \<Longrightarrow> IxDelete e n = (e', err) \<Longrightarrow> eng_step e e'"
| step_gate: "\<forall>(n, _) \<in> set lst. n \<noteq> [] \<Longrightarrow> eng_step e (SetInFlight lst e)"
| step_view: "\<forall>fi \<in> set fis. Name fi \<noteq> [] \<Longrightarrow> eng_step e (SetPeerIndex p fis upd e)"
| step_append: "\<forall>fi \<in> set fis. Name fi \<noteq> [] \<Longrightarrow> eng_step e (SetPeerIndexAppend p fis e)"
| step_begin: "eng_step e (BeginPeerViewExchange p e)"
| step_end: "eng_step e (EndPeerViewExchange now p e)"
| step_drop: "eng_step e (markPendingAll (e\<lparr>peers := mdelete (peers e) p\<rparr>))"
| step_ensure: "ensurePendingLocked now e = (e', None) \<Longrightarrow> eng_step e e'"
| step_switch: "eng_step e (SetIncrementalPending b e)"
| step_other: "same_core e e' \<Longrightarrow> eng_step e e'"

lemma pending_inv_all: "pend_all e \<Longrightarrow> pending_inv e"
  by (simp add: pending_inv_def)

lemma pending_inv_frame:
  assumes "pending_inv e" and "pc_valid e' = pc_valid e" and "pc_pullSet e' = pc_pullSet e"
    and "pc_upSet e' = pc_upSet e" and "pc_pulls e' = pc_pulls e" and "pc_ups e' = pc_ups e"
    and "pend_all e' = pend_all e" and "set (pend_names e) \<union> N \<subseteq> set (pend_names e')"
    and "\<And>n r. n \<notin> N \<Longrightarrow> want_in r e' n = want_in r e n" and "\<And>n. n \<notin> N \<Longrightarrow> want_up e' n = want_up e n"
  shows "pending_inv e'"
proof -
  have "cache_ok e' (set (pend_names e'))" if "cache_ok e (set (pend_names e))"
  proof -
    from that obtain P U r where PU: "pc_pullSet e = Some P" "pc_upSet e = Some U" "pc_pulls e = sorted_list_of_set P"
      "pc_ups e = sorted_list_of_set U" "\<forall>n. n \<notin> set (pend_names e) \<longrightarrow> (n \<in> P \<longleftrightarrow> want_in r e n)"
      "\<forall>n. n \<notin> set (pend_names e) \<longrightarrow> (n \<in> U \<longleftrightarrow> want_up e n)"
      by (auto simp: cache_ok_def)
    have "\<forall>n. n \<notin> set (pend_names e') \<longrightarrow> (n \<in> P \<longleftrightarrow> want_in r e' n)"
      "\<forall>n. n \<notin> set (pend_names e') \<longrightarrow> (n \<in> U \<longleftrightarrow> want_up e' n)"
      using pl.carried [OF PU(5) [unfolded want_in_def], of N "e'\<lparr>map_ord := r\<rparr>", folded want_in_def] up.carried [OF PU(6), of N e'] assms(8,9,10) by blast+
    then show ?thesis using PU(1-4) assms(3-6) by (auto simp: cache_ok_def)
  qed
  then show ?thesis using assms(1,2,7) by (simp add: pending_inv_def)
qed

lemma want_ix:
  assumes "entry ix n = entry (Ix e) n"
  shows "want_in r (e\<lparr>Ix := ix\<rparr>) n = want_in r e n" and "want_up (e\<lparr>Ix := ix\<rparr>) n = want_up e n"
  using assms by (intro want_cong want_in_cong; simp add: InFlight_def)+

lemma want_mark [simp]:
  "want_in r (markPendingNames ns e) n = want_in r e n" "want_up (markPendingNames ns e) n = want_up e n"
  by (rule want_cong want_in_cong; simp add: InFlight_def)+

lemma want_mark_all [simp]:
  "want_in r (markPendingAll e) n = want_in r e n" "want_up (markPendingAll e) n = want_up e n"
  by (rule want_cong want_in_cong; simp add: InFlight_def)+

text \<open>Writes to the index.\<close>

lemma write_step:
  assumes "pending_inv e" and "e' = (if err = None then markPendingNames (touched ns) (e\<lparr>Ix := ix\<rparr>) else e\<lparr>Ix := ix\<rparr>)"
    and "\<forall>n \<in> set ns. n \<noteq> []" and "\<And>n. n \<notin> (if err = None then set ns else {}) \<Longrightarrow> entry ix n = entry (Ix e) n"
  shows "pending_inv e'"
proof (rule pending_inv_frame [OF assms(1), of _ "if err = None then set ns else {}"])
  fix n assume "n \<notin> (if err = None then set ns else {})"
  then have "entry ix n = entry (Ix e) n" by (rule assms(4))
  then show "want_in r e' n = want_in r e n" "want_up e' n = want_up e n" for r
    using want_ix [of ix n e] by (simp_all add: assms(2))
qed (use assms(2,3) in \<open>auto simp: touched_def\<close>)

lemma Put_entry:
  assumes "vwf (Version fi)" and "Put ix fi = (ix', fi', err)"
  shows "n \<notin> (if err = None then {Name fi} else {}) \<Longrightarrow> entry ix' n = entry ix n"
proof (cases "fault_write ix (Name fi)")
  case True
  then show ?thesis using assms(2) by (auto simp: Put_def with_sequence_eq Let_def entry_def)
next
  case False
  then show "n \<notin> (if err = None then {Name fi} else {}) \<Longrightarrow> ?thesis"
    using assms Put_ok [OF False] by auto
qed

lemma foldl_put_entry:
  "\<forall>fi \<in> set fis. vwf (Version fi) \<Longrightarrow> n \<notin> Name ` set fis \<Longrightarrow> entry (foldl put_ok ix fis) n = entry ix n"
  by (induction fis arbitrary: ix) simp_all

lemma put_loop_success:
  "put_loop ix fis = (ix', fis', None) \<Longrightarrow> ix' = foldl put_ok ix fis"
proof (induction fis arbitrary: ix fis')
  case (Cons fi fis)
  have ok: "\<not> fault_write ix (Name fi)" using Cons.prems by (auto simp: Let_def split: prod.splits if_splits)
  show ?case using Cons.prems Cons.IH [of "put_ok ix fi"]
    unfolding put_loop_Cons_ok [OF ok] by (auto simp: Let_def split: prod.splits)
qed simp

lemma PutBatch_entry:
  assumes "\<forall>fi \<in> set fis. vwf (Version fi)" and "PutBatch ix fis = (ix', fis', err)"
  shows "n \<notin> (if err = None then Name ` set fis else {}) \<Longrightarrow> entry ix' n = entry ix n"
proof (cases err)
  case None
  assume "n \<notin> (if err = None then Name ` set fis else {})"
  moreover have "entry ix' n = entry (foldl put_ok ix fis) n"
    using assms(2) None put_loop_success [of ix fis]
    by (auto simp: PutBatch_def split: if_splits prod.splits option.splits)
  ultimately show ?thesis using None foldl_put_entry [OF assms(1)] by simp
next
  case (Some x)
  then show ?thesis using assms(2)
    by (auto simp: PutBatch_def entry_def split: if_splits prod.splits option.splits)
qed

lemma Delete_entry: "Delete ix m = (ix', err) \<Longrightarrow> n \<notin> (if err = None then {m} else {}) \<Longrightarrow> entry ix' n = entry ix n"
  by (auto simp: Delete_def entry_def split: if_splits)

lemma step_put_inv: "pending_inv e \<Longrightarrow> vwf (Version fi) \<Longrightarrow> Name fi \<noteq> [] \<Longrightarrow> IxPut e fi = (e', fi', err) \<Longrightarrow> pending_inv e'"
  using Put_entry [of fi "Ix e"]
  by (cases "Put (Ix e) fi") (force simp: IxPut_def Let_def intro!: write_step [of e _ err "[Name fi]"] split: if_splits)

lemma step_batch_inv:
  assumes "pending_inv e" and "\<forall>fi \<in> set fis. vwf (Version fi) \<and> Name fi \<noteq> []" and "IxPutBatch e fis = (e', fis', err)"
  shows "pending_inv e'"
proof -
  obtain ix where ix: "PutBatch (Ix e) fis = (ix, fis', err)"
    and e': "e' = (if err = None then markPendingNames (touched (map Name fis)) (e\<lparr>Ix := ix\<rparr>) else e\<lparr>Ix := ix\<rparr>)"
    using assms(3) by (cases "PutBatch (Ix e) fis") (auto simp: IxPutBatch_def Let_def)
  show ?thesis
    using PutBatch_entry [OF _ ix] assms(2) by (intro write_step [OF assms(1) e']) (simp_all split: if_splits)
qed

lemma step_delete_inv:
  assumes "pending_inv e" and "n \<noteq> []" and "IxDelete e n = (e', err)"
  shows "pending_inv e'"
proof -
  obtain ix where ix: "Delete (Ix e) n = (ix, err)"
    and e': "e' = (if err = None then markPendingNames (touched [n]) (e\<lparr>Ix := ix\<rparr>) else e\<lparr>Ix := ix\<rparr>)"
    using assms(3) by (cases "Delete (Ix e) n") (auto simp: IxDelete_def Let_def)
  show ?thesis using Delete_entry [OF ix] assms(2) by (intro write_step [OF assms(1) e']) (simp_all split: if_splits)
qed

text \<open>The stability gate and the peer views.\<close>

lemma step_gate_inv:
  assumes "pending_inv e" and "\<forall>(n, _) \<in> set lst. n \<noteq> []" and "InFlight e [] = False"
  shows "pending_inv (SetInFlight lst e)"
proof -
  let ?m = "inflight_map lst"
  let ?old = "case inflight e of None \<Rightarrow> [] | Some p \<Rightarrow> filter (\<lambda>n. mget ?m n = None) (mkeys p)"
  let ?new = "filter (\<lambda>n. case inflight e of None \<Rightarrow> True | Some p \<Rightarrow> mget p n = None) (mkeys ?m)"
  let ?N = "set ?old \<union> set ?new - {[]}"
  have e': "SetInFlight lst e = (markPendingNames ?new (markPendingNames ?old (e\<lparr>inflight := Some ?m\<rparr>)))
      \<lparr>inflightRev := inflightRev e + 1\<rparr>" (is "_ = ?e")
    by (simp add: SetInFlight_def Let_def split: option.splits)
  have keys: "[] \<notin> set (mkeys ?m)"
  proof -
    have "set (mkeys (foldl (\<lambda>m (n, s). mset_at m n s) m0 l)) = set (mkeys m0) \<union> fst ` set l" for l and m0 :: "(string, int) gomap"
      by (induction l arbitrary: m0) auto
    then show ?thesis using assms(2) by (auto simp: inflight_map_def)
  qed
  have fl: "InFlight ?e n = InFlight e n" if "n \<notin> ?N" for n
    using that keys assms(3) by (cases "n = []"; cases "inflight e") (auto simp: InFlight_def mget_None_iff)
  have "want_in r ?e n = want_in r e n" "want_up ?e n = want_up e n" if "n \<notin> ?N" for n r
    by (rule want_cong want_in_cong; use fl [OF that] in simp)+
  then show ?thesis unfolding e'
    by (intro pending_inv_frame [OF assms(1), of _ ?N]) auto
qed

lemma view_at_set_view:
  assumes "mget ps p = Some v" and "mwf ps" and "mget v' n = mget v n"
  shows "view_at n (mset_at ps p v') = view_at n ps"
  using assms
proof (induction ps p v' rule: mset_at.induct)
  case (2 k' w m k v')
  then show ?case by (auto simp: view_at_def split: if_splits)
qed simp

lemma want_set_view:
  assumes "mget (peers e) p = Some v" and "mwf (peers e)" and "mget v' n = mget v n"
  shows "want_in r (set_view p v' e) n = want_in r e n" and "want_up (set_view p v' e) n = want_up e n"
  using view_at_set_view [OF assms] by (intro want_cong want_in_cong; simp add: InFlight_def)+

lemma step_view_inv:
  assumes "pending_inv e" and "\<forall>fi \<in> set fis. Name fi \<noteq> []" and "read_ok e" and "mwf (peers e)"
  shows "pending_inv (SetPeerIndex p fis upd e)"
proof (cases "mget (peers e) p")
  case None
  then show ?thesis by (intro pending_inv_all) (simp add: SetPeerIndex_def open_view_def Let_def)
next
  case (Some v)
  let ?e0 = "e\<lparr>viewRev := viewRev e + 1\<rparr>"
  let ?stale = "if upd then [] else filter (\<lambda>n. n \<notin> set (map Name fis)) (mkeys v)"
  let ?v' = "merge_view (filter (\<lambda>(n, _). n \<notin> set ?stale) v) fis"
  let ?e' = "markPendingNames (?stale @ map Name fis) (set_view p ?v' ?e0)"
  have e': "SetPeerIndex p fis upd e = ?e'" using Some by (simp add: SetPeerIndex_def open_view_def Let_def)
  have "[] \<notin> set (mkeys v)" using Some assms(3) mget_Some_in [OF Some] by (auto simp: read_ok_def mget_None_iff)
  then have N: "set (?stale @ map Name fis) - {[]} = set (?stale @ map Name fis)" using assms(2) by auto
  have same: "mget ?v' n = mget v n" if "n \<notin> set (?stale @ map Name fis)" for n
    using that by (simp add: mget_merge_view_other mget_filter_key)
  have core: "want_in r ?e0 = want_in r e" "want_up ?e0 = want_up e" for r
    by (rule ext, rule want_cong want_in_cong; simp add: InFlight_def)+
  show ?thesis unfolding e'
    by (rule pending_inv_frame [OF assms(1), of _ "set (?stale @ map Name fis)"])
      (use N Some assms(4) same want_set_view [of ?e0 p v ?v'] core in simp_all)
qed

lemma step_append_inv:
  assumes "pending_inv e" and "\<forall>fi \<in> set fis. Name fi \<noteq> []" and "mwf (peers e)"
  shows "pending_inv (SetPeerIndexAppend p fis e)"
proof (cases "mget (peers e) p")
  case None
  then show ?thesis by (intro pending_inv_all) (simp add: SetPeerIndexAppend_def open_view_def Let_def)
next
  case (Some v)
  let ?e0 = "markPendingNames (map Name fis) e"
  let ?e' = "set_view p (merge_view v fis) ?e0"
  have e': "SetPeerIndexAppend p fis e = ?e'" using Some by (simp add: SetPeerIndexAppend_def open_view_def Let_def)
  show ?thesis unfolding e'
    by (rule pending_inv_frame [OF assms(1), of _ "Name ` set fis"])
      (use Some assms(2,3) want_set_view [of ?e0 p v "merge_view v fis"] mget_merge_view_other [of _ fis v] in auto)
qed

section \<open>Reachable engines\<close>

text \<open>Well-formed engines: the tables answer, names are not empty, each peer has one view.\<close>

definition eng_wf :: "Engine \<Rightarrow> bool" where
  "eng_wf e \<longleftrightarrow> read_ok e \<and> mwf (peers e) \<and> InFlight e [] = False"

lemma Put_reads:
  assumes "ix_wf ix" and "vwf (Version fi)" and "seq_ok ix fi" and "Put ix fi = (ix', fi', err)"
  shows "ix_wf ix' \<and> fault_scan ix' = fault_scan ix \<and> fault_read ix' = fault_read ix"
proof (cases "fault_write ix (Name fi)")
  case True
  then show ?thesis using assms by (force simp: Put_def with_sequence_eq Let_def ix_wf_def)
next
  case False
  then show ?thesis using assms Put_ok [OF False] by auto
qed

lemma ft_puts:
  assumes "ix_wf ix" and "\<forall>fi \<in> set fis. vwf (Version fi) \<and> seq_ok ix fi"
  shows "ix_wf (foldl put_ok ix fis) \<and> fault_scan (foldl put_ok ix fis) = fault_scan ix \<and> fault_read (foldl put_ok ix fis) = fault_read ix"
proof -
  have "fault_scan (foldl put_ok ix fis) = fault_scan ix \<and> fault_read (foldl put_ok ix fis) = fault_read ix"
    by (induction fis arbitrary: ix) simp_all
  then show ?thesis using ft.inv_puts [OF assms] by simp
qed

lemma put_loop_fail:
  "put_loop ix fis = (ix', fis', Some x) \<Longrightarrow> nextSeq ix \<le> nextSeq ix' \<and> fault_scan ix' = fault_scan ix \<and> fault_read ix' = fault_read ix"
proof (induction fis arbitrary: ix fis')
  case (Cons fi fis)
  then show ?case by (fastforce simp: with_sequence_eq Let_def split: if_splits prod.splits)
qed simp

lemma PutBatch_reads:
  assumes "ix_wf ix" and "\<forall>fi \<in> set fis. vwf (Version fi) \<and> seq_ok ix fi" and "PutBatch ix fis = (ix', fis', err)"
  shows "ix_wf ix' \<and> fault_scan ix' = fault_scan ix \<and> fault_read ix' = fault_read ix"
proof (cases "fis = []")
  case True
  then show ?thesis using assms by (auto simp: PutBatch_def)
next
  case False
  obtain ix1 fis1 err1 where loop: "put_loop ix fis = (ix1, fis1, err1)" by (cases "put_loop ix fis")
  show ?thesis
  proof (cases err1)
    case None
    then show ?thesis using False loop assms put_loop_success [of ix fis] ft_puts [OF assms(1,2)]
      by (auto simp: PutBatch_def)
  next
    case (Some x)
    then show ?thesis using False loop assms put_loop_fail [of ix fis ix1 fis1 x]
      by (force simp: PutBatch_def ix_wf_def)
  qed
qed

lemma Delete_reads:
  "ix_wf ix \<Longrightarrow> Delete ix n = (ix', err) \<Longrightarrow> ix_wf ix' \<and> fault_scan ix' = fault_scan ix \<and> fault_read ix' = fault_read ix"
  using ix_wf_del_ok [of ix n] by (auto simp: Delete_def del_ok_def split: if_splits)

lemma read_ok_write:
  assumes "read_ok e" and "ix_wf ix" and "fault_scan ix = fault_scan (Ix e)" and "fault_read ix = fault_read (Ix e)"
    and "entry ix [] = entry (Ix e) []" and "Ix e' = ix" and "peers e' = peers e"
  shows "read_ok e'"
  using assms by (simp add: read_ok_def)

lemma eng_wf_write:
  assumes "eng_wf e" and "e' = (if err = None then markPendingNames ns (e\<lparr>Ix := ix\<rparr>) else e\<lparr>Ix := ix\<rparr>)"
    and "ix_wf ix \<and> fault_scan ix = fault_scan (Ix e) \<and> fault_read ix = fault_read (Ix e)"
    and "entry ix [] = entry (Ix e) []"
  shows "eng_wf e'"
  using assms(1) read_ok_write [of e ix e'] assms(2-4) by (auto simp: eng_wf_def InFlight_def)

lemma eng_wf_set_view:
  assumes "eng_wf e" and "mget v [] = None"
  shows "eng_wf (set_view p v e)"
proof -
  have "(q, w) \<in> set (mset_at (peers e) p v) \<Longrightarrow> mget w [] = None" for q w
    using in_set_mset_at [of "(q, w)" "peers e" p v] assms by (auto simp: eng_wf_def read_ok_def)
  then show ?thesis using assms(1) by (auto simp: eng_wf_def read_ok_def InFlight_def)
qed

lemma eng_wf_marks [simp]: "eng_wf (markPendingNames ns e) = eng_wf e" "eng_wf (markPendingAll e) = eng_wf e"
  by (simp_all add: eng_wf_def read_ok_def InFlight_def)

lemma open_view_wf: "eng_wf e \<Longrightarrow> open_view p e = (e1, v) \<Longrightarrow> eng_wf e1 \<and> mget v [] = None"
  using mget_Some_in [of "peers e" p v] eng_wf_set_view [of e "[]" p]
  by (auto simp: open_view_def eng_wf_def read_ok_def InFlight_def split: option.splits)

lemma merge_view_nonempty: "\<forall>fi \<in> set fis. Name fi \<noteq> [] \<Longrightarrow> mget (merge_view v fis) [] = mget v []"
  by (intro mget_merge_view_other) auto

lemma eng_wf_put:
  assumes "eng_wf e" and "vwf (Version fi)" and "seq_ok (Ix e) fi" and "Name fi \<noteq> []" and "IxPut e fi = (e', fi', err)"
  shows "eng_wf e'"
proof -
  obtain ix where ix: "Put (Ix e) fi = (ix, fi', err)"
    and e': "e' = (if err = None then markPendingNames (touched [Name fi]) (e\<lparr>Ix := ix\<rparr>) else e\<lparr>Ix := ix\<rparr>)"
    using assms(5) by (cases "Put (Ix e) fi") (auto simp: IxPut_def Let_def)
  have "entry ix [] = entry (Ix e) []" using Put_entry [OF assms(2) ix, of "[]"] assms(4) by (auto split: if_splits)
  then show ?thesis using eng_wf_write [OF assms(1) e'] Put_reads [OF _ assms(2,3) ix] assms(1)
    by (auto simp: eng_wf_def read_ok_def)
qed

lemma eng_wf_batch:
  assumes "eng_wf e" and "\<forall>fi \<in> set fis. vwf (Version fi) \<and> seq_ok (Ix e) fi \<and> Name fi \<noteq> []"
    and "IxPutBatch e fis = (e', fis', err)"
  shows "eng_wf e'"
proof -
  obtain ix where ix: "PutBatch (Ix e) fis = (ix, fis', err)"
    and e': "e' = (if err = None then markPendingNames (touched (map Name fis)) (e\<lparr>Ix := ix\<rparr>) else e\<lparr>Ix := ix\<rparr>)"
    using assms(3) by (cases "PutBatch (Ix e) fis") (auto simp: IxPutBatch_def Let_def)
  have "[] \<notin> (if err = None then Name ` set fis else {})" using assms(2) by auto
  then have "entry ix [] = entry (Ix e) []" using PutBatch_entry [OF _ ix, of "[]"] assms(2) by blast
  then show ?thesis using eng_wf_write [OF assms(1) e'] PutBatch_reads [OF _ _ ix] assms(1,2)
    by (auto simp: eng_wf_def read_ok_def)
qed

lemma eng_wf_delete:
  assumes "eng_wf e" and "n \<noteq> []" and "IxDelete e n = (e', err)"
  shows "eng_wf e'"
proof -
  obtain ix where ix: "Delete (Ix e) n = (ix, err)"
    and e': "e' = (if err = None then markPendingNames (touched [n]) (e\<lparr>Ix := ix\<rparr>) else e\<lparr>Ix := ix\<rparr>)"
    using assms(3) by (cases "Delete (Ix e) n") (auto simp: IxDelete_def Let_def)
  have "entry ix [] = entry (Ix e) []" using Delete_entry [OF ix, of "[]"] assms(2) by (auto split: if_splits)
  then show ?thesis using eng_wf_write [OF assms(1) e'] Delete_reads [OF _ ix] assms(1)
    by (auto simp: eng_wf_def read_ok_def)
qed

lemma set_inflight_map: "set (mkeys (inflight_map lst)) = fst ` set lst"
proof -
  have "set (mkeys (foldl (\<lambda>m (n, s). mset_at m n s) m0 l)) = set (mkeys m0) \<union> fst ` set l" for l and m0 :: "(string, int) gomap"
    by (induction l arbitrary: m0) auto
  then show ?thesis by (simp add: inflight_map_def)
qed

lemma eng_wf_gate:
  assumes "eng_wf e" and "\<forall>(n, _) \<in> set lst. n \<noteq> []"
  shows "eng_wf (SetInFlight lst e)"
proof -
  have "mget (inflight_map lst) [] = None" using assms(2) by (auto simp: mget_None_iff set_inflight_map)
  then show ?thesis using assms(1)
    by (auto simp: SetInFlight_def Let_def eng_wf_def read_ok_def InFlight_def split: option.splits)
qed

lemma eng_wf_view:
  assumes "eng_wf e" and "\<forall>fi \<in> set fis. Name fi \<noteq> []"
  shows "eng_wf (SetPeerIndex p fis upd e)" and "eng_wf (SetPeerIndexAppend p fis e)"
proof -
  have "eng_wf (e\<lparr>viewRev := viewRev e + 1\<rparr>)" using assms(1) by (simp add: eng_wf_def read_ok_def InFlight_def)
  then show "eng_wf (SetPeerIndex p fis upd e)"
    using open_view_wf assms(2)
    by (auto simp: SetPeerIndex_def Let_def merge_view_nonempty mget_filter_key intro!: eng_wf_set_view split: prod.splits)
  show "eng_wf (SetPeerIndexAppend p fis e)"
    using open_view_wf [OF assms(1)] assms(2)
    by (auto simp: SetPeerIndexAppend_def Let_def merge_view_nonempty intro!: eng_wf_set_view split: prod.splits)
qed

lemma eng_wf_core: "same_core e e' \<Longrightarrow> eng_wf e' = eng_wf e"
  using same_tableD [of "Ix e" "Ix e'"] by (simp add: same_core_def eng_wf_def read_ok_def InFlight_def)

lemma eng_wf_step: "eng_step e e' \<Longrightarrow> eng_wf e \<Longrightarrow> pending_inv e \<Longrightarrow> eng_wf e'"
proof (induction rule: eng_step.induct)
  case (step_drop e p)
  have "(q, w) \<in> set (mdelete (peers e) p) \<Longrightarrow> (q, w) \<in> set (peers e)" for q w by (auto simp: mdelete_def)
  then show ?case using step_drop by (fastforce simp: eng_wf_def read_ok_def InFlight_def)
next
  case (step_ensure now e e')
  then have "Ix e' = Ix e" "peers e' = peers e" "inflight e' = inflight e"
    using ensure_exact [of e now] by (auto simp: eng_wf_def)
  then show ?case using step_ensure by (simp add: eng_wf_def read_ok_def InFlight_def)
next
  case (step_switch e b)
  then show ?case by (simp add: eng_wf_def read_ok_def InFlight_def SetIncrementalPending_def)
next
  case (step_begin e p)
  then show ?case by (simp add: eng_wf_def read_ok_def InFlight_def BeginPeerViewExchange_def)
next
  case (step_end e now p)
  then show ?case by (simp add: eng_wf_def read_ok_def InFlight_def EndPeerViewExchange_def)
next
  case (step_other e e')
  then show ?case by (simp add: eng_wf_core)
qed (rule eng_wf_put eng_wf_batch eng_wf_delete eng_wf_gate eng_wf_view; assumption)+

lemma pending_inv_core: "same_core e e' \<Longrightarrow> pending_inv e \<Longrightarrow> pending_inv e'"
proof -
  assume core: "same_core e e'" and inv: "pending_inv e"
  have "want_in r e' n = want_in r e n" "want_up e' n = want_up e n" for n r
    by (rule want_cong want_in_cong; use core same_tableD [of "Ix e" "Ix e'"] in \<open>simp add: same_core_def InFlight_def\<close>)+
  then show ?thesis using core by (intro pending_inv_frame [OF inv, of e' "{}"]) (simp_all add: same_core_def)
qed

lemma pending_inv_step: "eng_step e e' \<Longrightarrow> eng_wf e \<Longrightarrow> pending_inv e \<Longrightarrow> pending_inv e'"
proof (induction rule: eng_step.induct)
  case (step_put fi e e' fi' err)
  then show ?case using step_put_inv by blast
next
  case (step_batch fis e e' fis' err)
  then show ?case using step_batch_inv [of e fis] by blast
next
  case (step_ensure now e e')
  then show ?case using ensure_exact [of e now] by (auto simp: eng_wf_def)
next
  case (step_switch e b)
  then show ?case by (simp add: SetIncrementalPending_def pending_inv_def)
qed (auto simp: eng_wf_def BeginPeerViewExchange_def EndPeerViewExchange_def
  intro: step_delete_inv step_gate_inv step_view_inv step_append_inv pending_inv_all pending_inv_core)

lemma steps_inv: "eng_step\<^sup>*\<^sup>* e e' \<Longrightarrow> eng_wf e \<Longrightarrow> pending_inv e \<Longrightarrow> eng_wf e' \<and> pending_inv e'"
  by (induction rule: rtranclp_induct) (auto dest: eng_wf_step pending_inv_step)

lemma New_Engine_wf:
  "ix_wf ix \<Longrightarrow> healthy ix \<Longrightarrow> entry ix [] = None \<Longrightarrow> eng_wf (New_Engine nd pol v ix st ig f) \<and> pending_inv (New_Engine nd pol v ix st ig f)"
  by (simp add: New_Engine_def eng_wf_def read_ok_def InFlight_def pending_inv_def healthy_simps)

text \<open>An engine on a fresh index, for the concrete instances.\<close>

definition fresh_engine :: Engine where
  "fresh_engine = New_Engine 1 ConflictCopy None empty_index default_stager None empty_fs"

lemma empty_index_no_root: "entry empty_index [] = None"
  by (simp add: entry_def empty_index_def)

lemma fresh_engine_wf: "eng_wf fresh_engine" "pending_inv fresh_engine"
  using New_Engine_wf [OF empty_index_wf(1,2) empty_index_no_root, of 1 ConflictCopy None default_stager None empty_fs]
  by (simp_all add: fresh_engine_def)

lemma fresh_engine_simps [simp]:
  "Ix fresh_engine = empty_index" "peers fresh_engine = []" "inflight fresh_engine = None"
  "Direction fresh_engine = []" "Include fresh_engine = None" "NodeID fresh_engine = 1"
  "viewPending fresh_engine = []" "viewAt fresh_engine = []"
  by (simp_all add: fresh_engine_def New_Engine_def)

section \<open>Properties of the pending lists\<close>


definition arrived :: "string \<Rightarrow> Engine" where
  "arrived n = SetPeerIndex 9 [sample n] False (fst (NeedPulls 3 fresh_engine))"


text \<open>Which files a peer is owed does not depend on the order the views are visited in: a live, settled
file is upload work exactly when some authoritative view lacks it, holds a tombstone our version
dominates, or holds other bytes under a version ours dominates.\<close>

theorem upload_wanted_iff:
  "uploadWanted e name (Some l) views \<longleftrightarrow> \<not> Deleted l \<and> \<not> InFlight e name
     \<and> (\<exists>view \<in> set views. case mget view name of
          None \<Rightarrow> True
        | Some pf \<Rightarrow> Compare (Version l) (Version pf) = 1 \<and> (Deleted pf \<or> \<not> identicalContent l pf))"
proof -
  have "upload_loop views name l \<longleftrightarrow> (\<exists>view \<in> set views. case mget view name of None \<Rightarrow> True
      | Some pf \<Rightarrow> Compare (Version l) (Version pf) = 1 \<and> (Deleted pf \<or> \<not> identicalContent l pf))"
    by (induction views name l rule: upload_loop.induct) (auto split: option.splits)
  then show ?thesis by (simp add: uploadWanted_def)
qed

theorem upload_wanted_iff_witness:
  "uploadWanted fresh_engine ''f'' (Some (sample ''f'')) [[(''f'', sample ''f'')], []]"
  using upload_wanted_iff [of fresh_engine "''f''" "sample ''f''" "[[(''f'', sample ''f'')], []]"]
  by (simp add: InFlight_def)

section \<open>The winner\<close>

lemma global_loop_dominant:
  assumes "Some w \<in> insert best (set (map (\<lambda>v. mget v n) vs))"
    and "\<And>p. Some p \<in> insert best (set (map (\<lambda>v. mget v n) vs)) \<Longrightarrow> p = w \<or> Compare (Version w) (Version p) = 1"
  shows "fst (global_loop vs n (best, bl)) = Some w"
  using assms
proof (induction vs arbitrary: best bl)
  case Nil
  then show ?case by simp
next
  case (Cons v vs)
  let ?b = "case mget v n of None \<Rightarrow> (best, bl) | Some p \<Rightarrow> (case best of None \<Rightarrow> (Some p, False)
    | Some b \<Rightarrow> if beats p b then (Some p, False) else (best, bl))"
  have lose: "p = w" if "beats p w" "Some p \<in> insert best (set (map (\<lambda>v. mget v n) (v # vs)))" for p
    using that(1) Cons.prems(2) [OF that(2)] vv.cmp_swap [of "Version p" "Version w"] by (auto simp: beats_def Let_def)
  have win: "beats w p" if "p \<noteq> w" "Some p \<in> insert best (set (map (\<lambda>v. mget v n) (v # vs)))" for p
    using Cons.prems(2) [OF that(2)] that(1) by (auto simp: beats_def Let_def)
  have sub: "Some p \<in> insert best (set (map (\<lambda>v. mget v n) (v # vs)))"
    if "Some p \<in> insert (fst ?b) (set (map (\<lambda>v. mget v n) vs))" for p
    using that by (auto split: option.splits if_splits)
  have "Some w \<in> insert (fst ?b) (set (map (\<lambda>v. mget v n) vs))"
  proof (cases "mget v n")
    case None
    then show ?thesis using Cons.prems(1) by auto
  next
    case (Some p)
    then show ?thesis using Cons.prems(1) lose [of p] win [of p] win [of "the best"]
      by (cases best; cases "p = w"; cases "best = Some w") auto
  qed
  then have "fst (global_loop vs n (fst ?b, snd ?b)) = Some w"
    by (rule Cons.IH) (rule Cons.prems(2) [OF sub])
  then show ?case by simp
qed

text \<open>A version that contains every other known history of a path is the global winner, whatever the order
of the views and whether it is the local entry or a peer's: a fast-forward is never lost to an older
or concurrent entry.\<close>

theorem dominating_version_wins:
  assumes "local = Some w \<or> (\<exists>(p, v) \<in> set (peers e). mget v name = Some w)"
    and "\<forall>x. local = Some x \<or> (\<exists>(p, v) \<in> set (peers e). mget v name = Some x) \<longrightarrow> x = w \<or> Compare (Version w) (Version x) = 1"
  shows "fst (globalFrom e local name) = Some w"
proof -
  have "fst (global_loop (ranged e name) name (local, local \<noteq> None)) = Some w"
    using assms by (intro global_loop_dominant) (force simp: image_iff)+
  then show ?thesis by (auto simp: globalFrom_def split: prod.splits option.splits)
qed

theorem dominating_version_wins_witness:
  "fst (globalFrom (fresh_engine\<lparr>peers := [(2, [(''f'', (sample ''f'')\<lparr>Version := Some [(7, 2)]\<rparr>)]), (3, [(''f'', sample ''f'')])]\<rparr>)
     (Some (sample ''f'')) ''f'') = Some ((sample ''f'')\<lparr>Version := Some [(7, 2)]\<rparr>)"
proof -
  have "Compare (Some [(7, 2)]) (Version (sample n)) = 1" for n
    by (simp add: sample_def Compare_def)
  then show ?thesis by (intro dominating_version_wins) auto
qed

text \<open>With three mutually known versions the winner does depend on the order of the views: below, B contains
A's history and C is concurrent with both, with modification times B, C, A in increasing order. The
same state then answers B or A depending on which view is visited first.\<close>

theorem winner_depends_on_view_order:
  "\<exists>e C A B. A \<noteq> B \<and> fst (globalFrom e (Some C) ''f'') = Some B \<and> (\<exists>r. fst (globalFrom (e\<lparr>map_ord := r\<rparr>) (Some C) ''f'') = Some A)"
proof -
  let ?A = "(sample ''f'')\<lparr>Version := Some [(2, 1)], ModifiedS := 3\<rparr>"
  let ?B = "(sample ''f'')\<lparr>Version := Some [(2, 2)], ModifiedS := 1\<rparr>"
  let ?C = "(sample ''f'')\<lparr>Version := Some [(4, 1)], ModifiedS := 2\<rparr>"
  let ?e = "fresh_engine\<lparr>peers := [(2, [(''f'', ?A)]), (3, [(''f'', ?B)])]\<rparr>"
  have b: "beats ?A ?C" "beats ?B ?A" "\<not> beats ?B ?C" "\<not> beats ?A ?B" "?A \<noteq> ?B"
    by code_simp+
  have "ranged ?e ''f'' = [[(''f'', ?A)], [(''f'', ?B)]]" "ranged (?e\<lparr>map_ord := (\<lambda>_ p. if p = 2 then 1 else 0)\<rparr>) ''f'' = [[(''f'', ?B)], [(''f'', ?A)]]"
    by (simp_all add: ranged_def fresh_engine_def New_Engine_def)
  then have "fst (globalFrom ?e (Some ?C) ''f'') = Some ?B"
    "fst (globalFrom (?e\<lparr>map_ord := (\<lambda>_ p. if p = 2 then 1 else 0)\<rparr>) (Some ?C) ''f'') = Some ?A"
    using b by (simp_all add: globalFrom_def)
  then show ?thesis using b(5) by blast
qed

text \<open>The verdict on a path does not depend on the order of the views. A version that contains all others of the path is enough for that.\<close>

definition order_free :: "Engine \<Rightarrow> string \<Rightarrow> bool" where
  "order_free e n \<longleftrightarrow> (\<forall>r. fst (globalFrom (e\<lparr>map_ord := r\<rparr>) (entry (Ix e) n) n) = fst (globalFrom e (entry (Ix e) n) n))"

lemma dominated_order_free:
  assumes "entry (Ix e) n = Some w \<or> (\<exists>(p, v) \<in> set (peers e). mget v n = Some w)"
    and "\<forall>x. entry (Ix e) n = Some x \<or> (\<exists>(p, v) \<in> set (peers e). mget v n = Some x) \<longrightarrow> x = w \<or> Compare (Version w) (Version x) = 1"
  shows "order_free e n"
  using dominating_version_wins [of "entry (Ix e) n" w "e\<lparr>map_ord := r\<rparr>" n for r] dominating_version_wins [of "entry (Ix e) n" w e n] assms
  by (simp add: order_free_def)

section \<open>Deletions and counters\<close>

lemma live_map:
  assumes "ix_wf ix"
  shows "mget (local_map (filter (\<lambda>fi. \<not> Deleted fi) (entries ix))) n = live_entry ix n"
proof -
  have "find (\<lambda>fi. Name fi = n) (filter (\<lambda>fi. \<not> Deleted fi) (entries ix)) = live_entry ix n"
    using find_filter_entries [OF assms, of n UNIV] by simp
  then show ?thesis using distinct_entries [OF assms] by (simp add: mget_local_map distinct_map_filter)
qed

lemma PendingDeletions_walk:
  assumes "read_ok e"
  shows "\<exists>ds. PendingDeletions e = Inr ds \<and> sorted ds \<and> distinct ds \<and> (\<forall>n. n \<in> set ds \<longleftrightarrow>
    Direction e \<noteq> ''send-only'' \<and> \<not> InFlight e n \<and> (\<exists>l g. entry (Ix e) n = Some l \<and> \<not> Deleted l
      \<and> fst (globalFrom e (Some l) n) = Some g \<and> Deleted g))"
proof (cases "Direction e = ''send-only''")
  case True
  then show ?thesis by (simp add: PendingDeletions_def)
next
  case False
  have wf: "ix_wf (Ix e)" and scan: "\<not> fault_scan (Ix e)" using assms by (simp_all add: read_ok_def)
  let ?live = "filter (\<lambda>fi. \<not> Deleted fi) (entries (Ix e))"
  let ?P = "\<lambda>n. \<not> InFlight e n \<and> (case fst (globalFrom e (live_entry (Ix e) n) n) of None \<Rightarrow> False | Some g \<Rightarrow> Deleted g)"
  have eq: "PendingDeletions e = Inr (sort (filter ?P (map Name ?live)))"
    using False Ix_List_entries [OF wf scan] live_map [OF wf] by (simp add: PendingDeletions_def Let_def filter_filter cong: filter_cong)
  have "n \<in> set (map Name ?live) \<longleftrightarrow> (\<exists>fi. (fi \<in> set (entries (Ix e)) \<and> Name fi = n) \<and> \<not> Deleted fi)" for n by auto
  then have "n \<in> set (map Name ?live) \<longleftrightarrow> live_entry (Ix e) n \<noteq> None" for n
    unfolding entries_mem [OF wf] by (cases "entry (Ix e) n") (simp_all add: live_entry_def)
  then have "n \<in> set (sort (filter ?P (map Name ?live))) \<longleftrightarrow> \<not> InFlight e n \<and> (\<exists>l g. entry (Ix e) n = Some l \<and> \<not> Deleted l
      \<and> fst (globalFrom e (Some l) n) = Some g \<and> Deleted g)" for n
    by (cases "entry (Ix e) n") (auto simp: live_entry_def split: option.splits)
  moreover have "distinct (map Name ?live)" using distinct_entries [OF wf] by (simp add: distinct_map_filter)
  ultimately show ?thesis using False eq by (intro exI [of _ "sort (filter ?P (map Name ?live))"]) simp
qed


text \<open>A live file that the only peer has deleted.\<close>

definition stale_engine :: Engine where
  "stale_engine = fresh_engine\<lparr>Ix := put_ok empty_index (sample ''f''),
     peers := [(9, [(''f'', (sample ''f'')\<lparr>Version := Some [(7, 2)], Deleted := True\<rparr>)])]\<rparr>"

lemma stale_engine_wf: "eng_wf stale_engine" "pending_inv stale_engine" "order_free stale_engine ''f''"
proof -
  have "vwf (Version (sample ''f''))" "seq_ok empty_index (sample ''f'')" "ix_wf empty_index" by (simp_all add: seq_ok_def)
  then have "ix_wf (put_ok empty_index (sample ''f''))" by (simp add: ix_wf_put_ok)
  then show "eng_wf stale_engine" by (simp add: eng_wf_def read_ok_def stale_engine_def InFlight_def empty_index_no_root healthy_simps)
  show "pending_inv stale_engine" by (simp add: pending_inv_def stale_engine_def fresh_engine_def New_Engine_def)
  show "order_free stale_engine ''f''" by (simp add: order_free_def globalFrom_def stale_engine_def)
qed


text \<open>A refresh that is not throttled publishes consistent counters: the cached download list is the full
pull list without the names that only wait to be deleted, the upload list is the full upload list,
and every count is the length of its list.\<close>

theorem refresh_counters_exact:
  assumes "eng_wf e" and "pending_inv e" and "lastPendingRefresh (Stats e) = 0"
    and "PendingDeletions e = Inr ds" and "computePendingUploadsLocked e = Inr ups"
  shows "\<exists>pulls r. snd (computeNeedPullsLocked (e\<lparr>map_ord := r\<rparr>)) = Inr pulls \<and> CachedPendingPulls (RefreshPendingStats now e) = Some (filter (\<lambda>n. n \<notin> set ds) pulls)
    \<and> CachedPendingUploads (RefreshPendingStats now e) = Some ups
    \<and> PendingPullCount (Stats (RefreshPendingStats now e)) = int (length (filter (\<lambda>n. n \<notin> set ds) pulls))
    \<and> PendingUpCount (Stats (RefreshPendingStats now e)) = int (length ups)
    \<and> PendingDeleteCount (Stats (RefreshPendingStats now e)) = int (length ds)"
proof -
  let ?s1 = "(Stats e)\<lparr>lastPendingRefresh := now, PendingDeleteCount := int (length ds)\<rparr>"
  let ?e1 = "e\<lparr>Stats := ?s1\<rparr>"
  have core: "same_core e (e\<lparr>Stats := s\<rparr>)" for s by (simp add: same_core_def)
  have ok: "read_ok e" using assms(1) by (simp add: eng_wf_def)
  have w: "want_pull (?e1\<lparr>map_ord := r\<rparr>) = want_pull (e\<lparr>map_ord := r\<rparr>)" "want_up ?e1 = want_up e" for r
    by (rule ext, rule want_cong; simp add: InFlight_def)+
  have wf1: "read_ok ?e1" "pending_inv ?e1"
    using eng_wf_core [OF core] pending_inv_core [OF core assms(2)] assms(1) by (simp_all add: eng_wf_def)
  have w1: "walk_ups ?e1 = ups" using up.exact [OF wf1(1)] up.exact [OF ok] w(2) assms(5) by (simp add: walk_ups_def)
  obtain e2 r where e2: "ensurePendingLocked now ?e1 = (e2, None)" "pc_pulls e2 = walk_pulls (?e1\<lparr>map_ord := r\<rparr>)" "pending_inv e2"
    "want_up e2 = want_up ?e1" "Ix e2 = Ix ?e1" "peers e2 = peers ?e1" "inflight e2 = inflight ?e1" "Stats e2 = ?s1"
    using ensure_exact [OF wf1, of now] by auto
  define pulls where "pulls = walk_pulls (e\<lparr>map_ord := r\<rparr>)"
  have rd: "read_ok (?e1\<lparr>map_ord := r\<rparr>)" "read_ok (e\<lparr>map_ord := r\<rparr>)" using wf1(1) ok by (simp_all add: read_ok_def)
  have pulls: "snd (computeNeedPullsLocked (e\<lparr>map_ord := r\<rparr>)) = Inr pulls" "pc_pulls e2 = pulls"
    using compute_pulls(1) [OF rd(2)] pl.exact [OF rd(1)] pl.exact [OF rd(2)] w(1) e2(2) by (simp_all add: pulls_def)
  have del: "PendingDeletions (e\<lparr>Stats := s\<rparr>) = Inr ds" for s
  proof -
    have "InFlight (e\<lparr>Stats := s\<rparr>) = InFlight e" "globalFrom (e\<lparr>Stats := s\<rparr>) = globalFrom e"
      by (simp_all add: InFlight_def globalFrom_def ranged_def fun_eq_iff)
    note same = this
    have "PendingDeletions (e\<lparr>Stats := s\<rparr>) = PendingDeletions e" unfolding PendingDeletions_def same by simp
    then show ?thesis using assms(4) by simp
  qed
  let ?kept = "filter (\<lambda>n. n \<notin> set ds) pulls"
  let ?e3 = "e2\<lparr>Stats := ?s1\<lparr>PendingPullCount := int (length ?kept), cachedPulls := Some ?kept, PendingPullBytes := sizesFor e2 ?kept\<rparr>\<rparr>"
  have ok2: "read_ok e2" using wf1(1) e2(5,6) by (simp add: read_ok_def)
  have ok3: "read_ok ?e3" "pending_inv ?e3" using ok2 pending_inv_core [OF _ e2(3)] by (simp_all add: read_ok_def same_core_def)
  have "want_up ?e3 = want_up e2" by (rule ext, rule want_cong; simp add: InFlight_def)
  then have "walk_ups ?e3 = ups" using up.exact [OF ok3(1)] up.exact [OF wf1(1)] e2(4) w1 by simp
  then obtain e4 where e4: "ensurePendingLocked now ?e3 = (e4, None)" "pc_ups e4 = ups" "Stats e4 = Stats ?e3"
    using ensure_exact [OF ok3, of now] by auto
  have "RefreshPendingStats now e = e4\<lparr>Stats := (Stats e4)\<lparr>PendingUpCount := int (length ups), cachedUps := Some ups, PendingUpBytes := sizesFor e4 ups\<rparr>\<rparr>"
    using e2(1,8) pulls(2) e4(1,2) assms(3)
    by (cases "ds = []") (simp_all add: RefreshPendingStats_def Let_def del NeedPulls_def PendingUploads_def)
  then show ?thesis using e4(3) pulls(1) by (intro exI [of _ pulls] exI [of _ r]) (simp add: CachedPendingPulls_def CachedPendingUploads_def)
qed

theorem refresh_counters_exact_witness:
  "PendingDeleteCount (Stats (RefreshPendingStats 7 fresh_engine)) = 0 \<and> PendingUpCount (Stats (RefreshPendingStats 7 fresh_engine)) = 0"
proof -
  have "PendingDeletions fresh_engine = Inr []" "computePendingUploadsLocked fresh_engine = Inr []" "lastPendingRefresh (Stats fresh_engine) = 0"
    by code_simp+
  then show ?thesis using refresh_counters_exact [OF fresh_engine_wf, of "[]" "[]" 7] by auto
qed

text \<open>A verified basis means what it says: the counters are reported as verified exactly when at least one
peer view exists, none is in the middle of an exchange, each was completed within the last ninety
seconds, and every peer has been sent this index up to its last sequence.\<close>

theorem pending_basis_verified:
  "PendingBasis now e = None \<longleftrightarrow> peers e \<noteq> [] \<and> (\<forall>pid \<in> set (mkeys (peers e)). \<not> view_is_pending e pid
     \<and> (\<exists>t. mget (viewAt e) pid = Some t \<and> now - t \<le> 90 * 1000000000)
     \<and> (\<exists>st. GetPeerIndex (Ix e) pid = Inr (Some st) \<and> MaxSeq (Ix e) \<le> pi_MaxSeq st))"
proof -
  have "basis_views now e pids = None \<longleftrightarrow> (\<forall>pid \<in> set pids. \<exists>t. mget (viewAt e) pid = Some t \<and> now - t \<le> 90 * 1000000000)" for pids
    by (induction pids) (auto simp: pendingViewMaxAge_def split: option.splits)
  moreover have "basis_sent e s pids = None \<longleftrightarrow> (\<forall>pid \<in> set pids. \<exists>st. GetPeerIndex (Ix e) pid = Inr (Some st) \<and> s \<le> pi_MaxSeq st)" for s pids
    by (induction pids) (auto split: option.splits sum.splits)
  moreover have "PendingBasis now e = None \<longleftrightarrow> peers e \<noteq> [] \<and> (\<forall>pid \<in> set (mkeys (peers e)). \<not> view_is_pending e pid)
      \<and> basis_views now e (mkeys (peers e)) = None \<and> basis_sent e (MaxSeq (Ix e)) (mkeys (peers e)) = None"
    by (simp add: PendingBasis_def list_ex_iff split: option.splits)
  ultimately show ?thesis by (simp only:) blast
qed

theorem pending_basis_verified_witness:
  "PendingBasis 5 (fresh_engine\<lparr>peers := [(2, [])], viewAt := [(2, 4)],
     Ix := empty_index\<lparr>meta := [(''peer_index:2'', MPeer \<lparr>pi_IndexID = [], pi_MaxSeq = 0, pi_SessionID = []\<rparr>)]\<rparr>\<rparr>) = None"
proof -
  have "GetPeerIndex (empty_index\<lparr>meta := [(''peer_index:2'', MPeer \<lparr>pi_IndexID = [], pi_MaxSeq = 0, pi_SessionID = []\<rparr>)]\<rparr>) 2 =
      Inr (Some \<lparr>pi_IndexID = [], pi_MaxSeq = 0, pi_SessionID = []\<rparr>)" by code_simp
  then show ?thesis
    by (subst pending_basis_verified) (simp add: view_is_pending_def MaxSeq_def)
qed

section \<open>Where the incremental lists go wrong\<close>

text \<open>A read error while the dirty names are decided loses them: the dirty set has been drained, so the next
call finds nothing changed and serves the old lists, although the full walk would list the new file.
Below, a peer announces a file, the index cannot be read once, and then answers again.\<close>

theorem dirty_names_lost_on_read_error:
  "\<exists>e. eng_step\<^sup>*\<^sup>* fresh_engine e
     \<and> (let e1 = fst (NeedPulls 6 (e\<lparr>Ix := (Ix e)\<lparr>fault_read := (\<lambda>_. True)\<rparr>\<rparr>));
            e2 = e1\<lparr>Ix := (Ix e1)\<lparr>fault_read := (\<lambda>_. False)\<rparr>\<rparr> in
          snd (NeedPulls 7 e2) = Inr [] \<and> snd (computeNeedPullsLocked e2) = Inr [''f''])"
proof -
  let ?e1 = "SetPeerIndex 9 [] False fresh_engine"
  let ?e2 = "fst (ensurePendingLocked 3 ?e1)"
  let ?e3 = "SetPeerIndexAppend 9 [sample ''f''] ?e2"
  have "eng_step fresh_engine ?e1" by (rule step_view) simp
  moreover have "snd (ensurePendingLocked 3 ?e1) = None" by code_simp
  then have "eng_step ?e1 ?e2" by (intro step_ensure [of 3]) (simp add: prod_eq_iff)
  moreover have "eng_step ?e2 ?e3" by (rule step_append) simp
  ultimately have steps: "eng_step\<^sup>*\<^sup>* fresh_engine ?e3" by (meson rtranclp.rtrancl_into_rtrancl r_into_rtranclp)
  let ?e4 = "fst (NeedPulls 6 (?e3\<lparr>Ix := (Ix ?e3)\<lparr>fault_read := (\<lambda>_. True)\<rparr>\<rparr>))"
  have "snd (NeedPulls 7 (?e4\<lparr>Ix := (Ix ?e4)\<lparr>fault_read := (\<lambda>_. False)\<rparr>\<rparr>)) = Inr []" by code_simp
  moreover have "snd (computeNeedPullsLocked (?e4\<lparr>Ix := (Ix ?e4)\<lparr>fault_read := (\<lambda>_. False)\<rparr>\<rparr>)) = Inr [''f'']" by code_simp
  ultimately show ?thesis using steps by (intro exI [of _ ?e3]) (simp add: Let_def)
qed

text \<open>Reconfiguring a live folder is not noticed by the lists: after a folder with outstanding pulls is
switched to send-only, the engine still serves the old pull list, while the full walk of the
reconfigured folder is empty.\<close>

theorem direction_change_not_noticed:
  "\<exists>e. eng_step\<^sup>*\<^sup>* fresh_engine e \<and> (let e' = UpdateFolder_engine default_stager None None ''send-only'' e in
     snd (NeedPulls 7 e') = Inr [''f''] \<and> snd (computeNeedPullsLocked e') = Inr [])"
proof -
  let ?e1 = "SetPeerIndex 9 [sample ''f''] False fresh_engine"
  let ?e2 = "fst (ensurePendingLocked 3 ?e1)"
  have "eng_step fresh_engine ?e1" by (rule step_view) simp
  moreover have "snd (ensurePendingLocked 3 ?e1) = None" by code_simp
  then have "eng_step ?e1 ?e2" by (intro step_ensure [of 3]) (simp add: prod_eq_iff)
  ultimately have steps: "eng_step\<^sup>*\<^sup>* fresh_engine ?e2" by (meson rtranclp.rtrancl_into_rtrancl r_into_rtranclp)
  have "snd (NeedPulls 7 (UpdateFolder_engine default_stager None None ''send-only'' ?e2)) = Inr [''f'']"
    "snd (computeNeedPullsLocked (UpdateFolder_engine default_stager None None ''send-only'' ?e2)) = Inr []" by code_simp+
  then show ?thesis using steps by (intro exI [of _ ?e2]) (simp add: Let_def)
qed

end
