(* ===== verification/Protocol.thy ===== *)
theory Protocol
  imports Index_Store
begin

text \<open>
  The messages peers exchange and their frames, \<^verbatim>\<open>internal/protocol/protocol.go\<close>, with the conversion of an
  index entry to its wire form, \<^verbatim>\<open>internal/node/codec.go\<close>. A pointer field is an option. A frame is a
  length in four big-endian bytes and a payload; the JSON text of a message, which package
  \<^verbatim>\<open>encoding/json\<close> produces and reads by reflection, enters as the two functions \<open>marshal\<close> and \<open>unmarshal\<close>.
  A stream is the list of chunks its \<^verbatim>\<open>Read\<close> calls return, followed by the end of the file.
\<close>

section \<open>Messages\<close>

datatype MsgType = MsgHello | MsgClusterConfig | MsgIndex | MsgIndexUpdate | MsgRequest | MsgResponse
  | MsgDownloadProgress | MsgPing | MsgPhaseDone | MsgClose | MsgEvent | MsgUnknown int

definition ProtocolCurrent :: int where
  "ProtocolCurrent = 2"

record Hello =
  he_DeviceID :: uint64
  he_DeviceName :: string
  he_SessionID :: string
  he_Protocol :: int

record ClusterFolder =
  cf_ID :: string
  cf_Devices :: "uint64 list"

record FileMessage =
  fm_Name :: string
  fm_Size :: int
  fm_ModifiedS :: int
  fm_ModifiedNs :: int
  fm_Mode :: uint32
  fm_Type :: int
  fm_Deleted :: bool
  fm_Invalid :: bool
  fm_Version :: Vector
  fm_BlockSize :: int
  fm_Blocks :: "byte list list"

record IndexMsg =
  im_Folder :: string
  im_Files :: "FileMessage list"
  im_Update :: bool
  im_IndexID :: string
  im_MaxSeq :: int
  im_Final :: bool

record Request =
  rq_ID :: uint64
  rq_Folder :: string
  rq_Name :: string
  rq_Offset :: int
  rq_Size :: int

datatype RespCode = RespNoError | RespGeneric | RespNoSuchFile | RespInvalidFile | RespOther int

record Response =
  rs_ID :: uint64
  rs_Data :: "byte list"
  rs_Code :: RespCode

record DownloadProgress =
  dp_Folder :: string
  dp_Name :: string
  dp_Version :: Vector
  dp_HaveBlocks :: "int list"

record UnsyncedEntry =
  ue_Path :: string
  ue_Reason :: string
  ue_Dir :: string

record EventMsg =
  em_Folder :: string
  em_Entries :: "UnsyncedEntry list"

record Message =
  m_Type :: MsgType
  m_Hello :: "Hello option"
  m_Cluster :: "ClusterFolder list option"
  m_Index :: "IndexMsg option"
  m_Request :: "Request option"
  m_Response :: "Response option"
  m_Progress :: "DownloadProgress option"
  m_Close :: "string option"
  m_Event :: "EventMsg option"

text \<open>A message of the given type without a body.\<close>

definition bare :: "MsgType \<Rightarrow> Message" where
  "bare t = \<lparr>m_Type = t, m_Hello = None, m_Cluster = None, m_Index = None, m_Request = None, m_Response = None,
     m_Progress = None, m_Close = None, m_Event = None\<rparr>"

section \<open>Entries on the wire\<close>

definition toFileMessage :: "FileInfo \<Rightarrow> FileMessage" where
  "toFileMessage fi = \<lparr>fm_Name = Name fi, fm_Size = Size fi, fm_ModifiedS = ModifiedS fi, fm_ModifiedNs = ModifiedNs fi,
     fm_Mode = Mode fi, fm_Type = type_int (Type fi), fm_Deleted = Deleted fi, fm_Invalid = Invalid fi,
     fm_Version = Version fi, fm_BlockSize = BlockSize fi, fm_Blocks = Blocks fi\<rparr>"

definition fromFileMessage :: "FileMessage \<Rightarrow> FileInfo" where
  "fromFileMessage fm = \<lparr>Name = fm_Name fm, Size = fm_Size fm, ModifiedS = fm_ModifiedS fm, ModifiedNs = fm_ModifiedNs fm,
     Mode = fm_Mode fm, Type = int_type (fm_Type fm), Deleted = fm_Deleted fm, Invalid = fm_Invalid fm,
     Version = fm_Version fm, Sequence = 0, BlockSize = fm_BlockSize fm, Blocks = fm_Blocks fm\<rparr>"

section \<open>Frames\<close>

definition maxMessageSize :: nat where
  "maxMessageSize = 512 * 1024 * 1024"

text \<open>\<open>WriteMessage\<close> returns the bytes it writes. \<^verbatim>\<open>io.ReadFull\<close> reads until the buffer is full; \<open>got\<close> are the bytes so far.\<close>

definition WriteMessage :: "('m \<Rightarrow> go_error + byte list) \<Rightarrow> 'm \<Rightarrow> go_error + byte list" where
  "WriteMessage marshal m =
     (case marshal m of
        Inl e \<Rightarrow> Inl e
      | Inr data \<Rightarrow> if length data > maxMessageSize then Inl (Err ''message too large'')
                    else Inr (bytes_be32 (of_nat (length data)) @ data))"

fun ReadFull :: "nat \<Rightarrow> byte list \<Rightarrow> byte list list \<Rightarrow> (go_error + byte list) \<times> byte list list" where
  "ReadFull n got [] = (if n = 0 then Inr got else if got = [] then Inl (Err ''EOF'') else Inl (Err ''unexpected EOF''), [])"
| "ReadFull n got (c # cs) =
     (if n = 0 then (Inr got, c # cs)
      else if length c < n then ReadFull (n - length c) (got @ c) cs
      else (Inr (got @ take n c), drop n c # cs))"

definition ReadMessage :: "(byte list \<Rightarrow> go_error + 'm) \<Rightarrow> byte list list \<Rightarrow> (go_error + 'm) \<times> byte list list" where
  "ReadMessage unmarshal r =
     (case ReadFull 4 [] r of
        (Inl e, r') \<Rightarrow> (Inl e, r')
      | (Inr header, r') \<Rightarrow>
          (let n = unat (hd (be32 header)) in
             if n > maxMessageSize then (Inl (Err ''frame too large''), r')
             else case ReadFull n [] r' of
                 (Inl e, r'') \<Rightarrow> (Inl e, r'')
               | (Inr data, r'') \<Rightarrow>
                   (case unmarshal data of Inl e \<Rightarrow> (Inl (Err ''decoding frame''), r'') | Inr m \<Rightarrow> (Inr m, r''))))"

text \<open>Reading messages until the first error.\<close>

fun read_n :: "(byte list \<Rightarrow> go_error + 'm) \<Rightarrow> nat \<Rightarrow> byte list list \<Rightarrow> (go_error + 'm) list" where
  "read_n unmarshal 0 r = []"
| "read_n unmarshal (Suc k) r =
     (case ReadMessage unmarshal r of (Inl e, _) \<Rightarrow> [Inl e] | (Inr m, r') \<Rightarrow> Inr m # read_n unmarshal k r')"

section \<open>Frames come back\<close>

lemma ReadFull_enough:
  "n \<le> length (concat r) \<Longrightarrow>
     \<exists>r'. ReadFull n got r = (Inr (got @ take n (concat r)), r') \<and> concat r' = drop n (concat r)"
  by (induction n got r rule: ReadFull.induct) auto

lemma ReadFull_short:
  "length (concat r) < n \<Longrightarrow> \<exists>e. ReadFull n got r = (Inl (Err e), [])"
  by (induction n got r rule: ReadFull.induct) auto

lemma be32_bytes: "be32 (bytes_be32 w) = [w]"
proof -
  have "bit (or (or (push_bit 24 (ucast (ucast (drop_bit 24 w) :: byte))) (push_bit 16 (ucast (ucast (drop_bit 16 w) :: byte))))
      (or (push_bit 8 (ucast (ucast (drop_bit 8 w) :: byte))) (ucast (ucast w :: byte))) :: uint32) n = bit w n" if "n < 32" for n
  proof -
    consider "n < 8" | "8 \<le> n" "n < 16" | "16 \<le> n" "n < 24" | "24 \<le> n" by linarith
    then show ?thesis using that by cases (auto simp: bit_simps)
  qed
  then show ?thesis by (simp add: bytes_be32_def) (rule bit_word_eqI, simp)
qed

lemma length_bytes_be32 [simp]: "length (bytes_be32 w) = 4"
  by (simp add: bytes_be32_def)

lemma ReadMessage_frame:
  assumes "concat r = bytes_be32 (of_nat (length data)) @ data @ rest" and "length data \<le> maxMessageSize"
    and "unmarshal data = Inr m"
  shows "\<exists>r'. ReadMessage unmarshal r = (Inr m, r') \<and> concat r' = rest"
proof -
  let ?h = "bytes_be32 (of_nat (length data))"
  have h: "length ?h = 4" by (simp add: bytes_be32_def)
  obtain r1 where 1: "ReadFull 4 [] r = (Inr ?h, r1)" "concat r1 = data @ rest"
    using ReadFull_enough [of 4 r "[]"] assms(1) h by auto
  have n: "unat (of_nat (length data) :: uint32) = length data"
    using assms(2) by (simp add: unat_of_nat maxMessageSize_def)
  obtain r2 where 2: "ReadFull (length data) [] r1 = (Inr data, r2)" "concat r2 = rest"
    using ReadFull_enough [of "length data" r1 "[]"] 1(2) by auto
  show ?thesis using 1 2 n assms(2,3) by (simp add: ReadMessage_def be32_bytes)
qed

lemma ReadMessage_cut:
  assumes "concat r = take k (bytes_be32 (of_nat (length data)) @ data)" and "k < 4 + length data"
    and "length data \<le> maxMessageSize"
  shows "\<exists>e r'. ReadMessage unmarshal r = (Inl (Err e), r')"
proof (cases "k < 4")
  case True
  then have "length (concat r) < 4" using assms(1) by simp
  then show ?thesis using ReadFull_short [of r 4 "[]"] by (auto simp: ReadMessage_def)
next
  case False
  let ?h = "bytes_be32 (of_nat (length data))"
  obtain r1 where 1: "ReadFull 4 [] r = (Inr ?h, r1)" "concat r1 = take (k - 4) data"
    using ReadFull_enough [of 4 r "[]"] assms(1) False by auto
  have n: "unat (of_nat (length data) :: uint32) = length data"
    using assms(3) by (simp add: unat_of_nat maxMessageSize_def)
  have "length (concat r1) < length data" using 1(2) False assms(2) by simp
  from ReadFull_short [OF this, of "[]"] show ?thesis using 1(1) n assms(3) by (auto simp: ReadMessage_def be32_bytes)
qed

definition frame_of :: "('m \<Rightarrow> go_error + byte list) \<Rightarrow> (byte list \<Rightarrow> go_error + 'm) \<Rightarrow> 'm \<Rightarrow> byte list \<Rightarrow> bool" where
  "frame_of marshal unmarshal m w \<longleftrightarrow> WriteMessage marshal m = Inr w \<and> (\<exists>d. marshal m = Inr d \<and> unmarshal d = Inr m)"

lemma frame_ofD:
  "frame_of marshal unmarshal m w \<Longrightarrow>
     \<exists>d. w = bytes_be32 (of_nat (length d)) @ d \<and> length d \<le> maxMessageSize \<and> unmarshal d = Inr m"
  by (auto simp: frame_of_def WriteMessage_def split: if_splits)

lemma read_n_cut:
  assumes "list_all2 (frame_of marshal unmarshal) ms ws" and "concat r = take k (concat ws)"
  shows "\<exists>j e. read_n unmarshal (Suc (length ms)) r = map Inr (take j ms) @ [Inl (Err e)]
     \<and> j \<le> length ms \<and> (length (concat ws) \<le> k \<longrightarrow> j = length ms)
     \<and> length (concat (take j ws)) \<le> k \<and> (j < length ms \<longrightarrow> k < length (concat (take (Suc j) ws)))"
  using assms
proof (induction ms ws arbitrary: r k rule: list_all2_induct)
  case Nil
  then have "concat r = []" by simp
  then have "length (concat r) < 4" by (simp only: list.size)
  from ReadFull_short [OF this, of "[]"] show ?case by (auto simp: ReadMessage_def)
next
  case (Cons m ms w ws)
  obtain d where d: "w = bytes_be32 (of_nat (length d)) @ d" "length d \<le> maxMessageSize" "unmarshal d = Inr m"
    using frame_ofD [OF Cons.hyps(1)] by blast
  show ?case
  proof (cases "k < length w")
    case True
    then have "concat r = take k (bytes_be32 (of_nat (length d)) @ d)" "k < 4 + length d"
      using Cons.prems d(1) by simp_all
    from ReadMessage_cut [OF this d(2), of unmarshal] obtain e r' where
      cut: "ReadMessage unmarshal r = (Inl (Err e), r')" by blast
    show ?thesis using True by (intro exI [of _ 0] exI [of _ e]) (simp add: cut)
  next
    case False
    then have "concat r = bytes_be32 (of_nat (length d)) @ d @ take (k - length w) (concat ws)" using Cons.prems d(1) by simp
    from ReadMessage_frame [OF this d(2), of unmarshal m] d(3) obtain r' where
      r': "ReadMessage unmarshal r = (Inr m, r')" "concat r' = take (k - length w) (concat ws)" by blast
    from Cons.IH [OF r'(2)] obtain j e where j: "read_n unmarshal (Suc (length ms)) r' = map Inr (take j ms) @ [Inl (Err e)]"
      "j \<le> length ms" "length (concat ws) \<le> k - length w \<longrightarrow> j = length ms"
      "length (concat (take j ws)) \<le> k - length w" "j < length ms \<longrightarrow> k - length w < length (concat (take (Suc j) ws))" by blast
    have "read_n unmarshal (Suc (length (m # ms))) r = map Inr (take (Suc j) (m # ms)) @ [Inl (Err e)]"
      by (subst read_n.simps) (simp add: r'(1) j(1) del: read_n.simps)
    then show ?thesis using j(2-5) False by (intro exI [of _ "Suc j"] exI [of _ e]) auto
  qed
qed

text \<open>C16. Framing: messages written one after the other come back in order, whatever the sizes of the reads. When the stream is cut after
any number of bytes, or not at all, the reader returns exactly the messages whose frames lie completely before the cut, each unchanged, and
then reports an error; it never returns a message that was not written. A message is taken to be one whose JSON text decodes to it.\<close>

theorem framing_roundtrip:
  assumes "list_all2 (frame_of marshal unmarshal) ms ws" and "concat r = take k (concat ws)"
  shows "\<exists>j e. read_n unmarshal (Suc (length ms)) r = map Inr (take j ms) @ [Inl (Err e)]
    \<and> j \<le> length ms \<and> (length (concat ws) \<le> k \<longrightarrow> j = length ms)
    \<and> length (concat (take j ws)) \<le> k \<and> (j < length ms \<longrightarrow> k < length (concat (take (Suc j) ws)))"
  by (rule read_n_cut [OF assms])

definition text_marshal :: "string \<Rightarrow> go_error + byte list" where
  "text_marshal s = Inr (map of_char s)"

definition text_unmarshal :: "byte list \<Rightarrow> go_error + string" where
  "text_unmarshal b = Inr (map (\<lambda>x. char_of (unat x)) b)"

theorem framing_roundtrip_witness:
  "(\<exists>e. read_n text_unmarshal 3 [[0, 0], [0, 2, 111], [107, 0, 0, 0, 2], [111]] = [Inr ''ok'', Inl (Err e)])"
proof -
  have "list_all2 (frame_of text_marshal text_unmarshal) [''ok'', ''ok''] [[0, 0, 0, 2, 111, 107], [0, 0, 0, 2, 111, 107]]"
    by (simp add: frame_of_def WriteMessage_def text_marshal_def text_unmarshal_def maxMessageSize_def bytes_be32_def char_of_def bit_numeral_rec bit_0)
  from framing_roundtrip [OF this, of "[[0, 0], [0, 2, 111], [107, 0, 0, 0, 2], [111]]" 11]
  obtain j e where j: "read_n text_unmarshal 3 [[0, 0], [0, 2, 111], [107, 0, 0, 0, 2], [111]] = map Inr (take j [''ok'', ''ok'']) @ [Inl (Err e)]"
    "j \<le> 2" "length (concat (take j [[0, 0, 0, 2, 111, 107], [0, 0, 0, 2, 111, 107 :: byte]])) \<le> 11"
    "j < 2 \<longrightarrow> 11 < length (concat (take (Suc j) [[0, 0, 0, 2, 111, 107], [0, 0, 0, 2, 111, 107 :: byte]]))"
    by (auto simp: numeral_3_eq_3)
  consider "j = 0" | "j = 1" | "j = 2" using j(2) by linarith
  then have "j = 1" using j(3,4) by cases simp_all
  then show ?thesis using j(1) by auto
qed

end
