(* ===== verification/Exchange.thy ===== *)
theory Exchange
  imports Pending Protocol
begin

text \<open>
  The opening of a session and the index exchange, the first half of \<^verbatim>\<open>internal/node/session.go\<close>: handshake, cluster
  configuration, shared folders, the choice between a delta and the full index, frames of bounded size,
  merging frames into the peer view, and the marker that remembers what a peer was sent. A connection holds the
  messages still to be received and the messages sent; sends fail once \<open>cn_left\<close> is used up and receives fail at the end
  of the input. Log lines and the per-folder locks are not modelled.
\<close>

section \<open>Node and connection\<close>

record FolderCfg =
  fc_Peers :: "uint64 list"
  fc_MaxDeletePct :: int
  fc_MaxDeleteFiles :: int

record Folder =
  fo_Cfg :: FolderCfg
  fo_Root :: string
  fo_Paused :: bool
  fo_TransfersPaused :: bool
  fo_Engine :: Engine

record Node =
  nd_ID :: uint64
  nd_Name :: string
  nd_SessionID :: string
  nd_Folders :: "(string, Folder) gomap"
  nd_SentEntries :: int

record Conn =
  cn_PeerID :: uint64
  cn_PeerName :: string
  cn_PeerSession :: string
  cn_PeerProtocol :: int
  cn_in :: "Message list"
  cn_out :: "Message list"
  cn_left :: nat

definition Send :: "Message \<Rightarrow> Conn \<Rightarrow> Conn \<times> go_error option" where
  "Send m c = (if cn_left c = 0 then (c, Some IOError) else (c\<lparr>cn_out := cn_out c @ [m], cn_left := cn_left c - 1\<rparr>, None))"

definition Recv :: "Conn \<Rightarrow> Conn \<times> (go_error + Message)" where
  "Recv c = (case cn_in c of [] \<Rightarrow> (c, Inl IOError) | m # ms \<Rightarrow> (c\<lparr>cn_in := ms\<rparr>, Inr m))"

definition AllowsPeer :: "FolderCfg \<Rightarrow> uint64 \<Rightarrow> bool" where
  "AllowsPeer f peerID \<longleftrightarrow> length (fc_Peers f) = 0 \<or> list_ex (\<lambda>i. i = peerID) (fc_Peers f)"

definition DeleteGuard :: "FolderCfg \<Rightarrow> int \<times> int" where
  "DeleteGuard f = (if fc_MaxDeletePct f \<le> 0 then 25 else fc_MaxDeletePct f, fc_MaxDeleteFiles f)"

section \<open>Opening a session\<close>

definition hello_of :: "Node \<Rightarrow> Message" where
  "hello_of n = (bare MsgHello)\<lparr>m_Hello := Some \<lparr>he_DeviceID = nd_ID n, he_DeviceName = nd_Name n, he_SessionID = nd_SessionID n,
     he_Protocol = ProtocolCurrent\<rparr>\<rparr>"

definition handshake :: "Node \<Rightarrow> Conn \<Rightarrow> uint64 \<Rightarrow> bool \<Rightarrow> Conn \<times> (go_error + uint64 \<times> string)" where
  "handshake n c expectedPeer sendFirst =
     (let (c1, got) =
        (if sendFirst then
           (case Send (hello_of n) c of (c', Some e) \<Rightarrow> (c', Inl e) | (c', None) \<Rightarrow> Recv c')
         else
           (case Recv c of
              (c', Inl e) \<Rightarrow> (c', Inl e)
            | (c', Inr m) \<Rightarrow> (case Send (hello_of n) c' of (c'', Some e) \<Rightarrow> (c'', Inl e) | (c'', None) \<Rightarrow> (c'', Inr m)))) in
      case got of
        Inl e \<Rightarrow> (c1, Inl e)
      | Inr m \<Rightarrow>
          if m_Type m \<noteq> MsgHello then (c1, Inl (Err ''expected hello''))
          else (case m_Hello m of
              None \<Rightarrow> (c1, Inl (Err ''expected hello''))
            | Some h \<Rightarrow>
                if expectedPeer \<noteq> 0 \<and> he_DeviceID h \<noteq> expectedPeer then (c1, Inl (Err ''peer identity mismatch''))
                else (c1\<lparr>cn_PeerID := he_DeviceID h, cn_PeerName := he_DeviceName h, cn_PeerSession := he_SessionID h,
                        cn_PeerProtocol := he_Protocol h\<rparr>, Inr (he_DeviceID h, he_DeviceName h))))"

definition sharedFolders :: "Node \<Rightarrow> string list \<Rightarrow> uint64 \<Rightarrow> string list" where
  "sharedFolders n peerFolders peerID =
     map fst (filter (\<lambda>(i, f). i \<in> set peerFolders \<and> AllowsPeer (fo_Cfg f) peerID \<and> \<not> fo_Paused f) (nd_Folders n))"

definition advertisedFolders :: "Node \<Rightarrow> uint64 \<Rightarrow> string list" where
  "advertisedFolders n peerID =
     map fst (filter (\<lambda>(i, f). AllowsPeer (fo_Cfg f) peerID \<and> \<not> fo_Paused f) (nd_Folders n))"

definition sendCluster :: "Node \<Rightarrow> Conn \<Rightarrow> Conn \<times> go_error option" where
  "sendCluster n c =
     Send ((bare MsgClusterConfig)\<lparr>m_Cluster := Some (map (\<lambda>i. \<lparr>cf_ID = i, cf_Devices = []\<rparr>) (advertisedFolders n (cn_PeerID c)))\<rparr>) c"

fun skip_pings :: "Message list \<Rightarrow> Message list" where
  "skip_pings [] = []"
| "skip_pings (m # ms) = (if m_Type m = MsgPing then skip_pings ms else m # ms)"

definition recvCluster :: "Conn \<Rightarrow> Conn \<times> (go_error + string list)" where
  "recvCluster c =
     (case Recv (c\<lparr>cn_in := skip_pings (cn_in c)\<rparr>) of
        (c', Inl e) \<Rightarrow> (c', Inl e)
      | (c', Inr m) \<Rightarrow>
          if m_Type m \<noteq> MsgClusterConfig then (c', Inl (Err ''expected cluster config''))
          else (case m_Cluster m of
              None \<Rightarrow> (c', Inl (Err ''expected cluster config''))
            | Some cfs \<Rightarrow> (c', Inr (map cf_ID cfs))))"

section \<open>Sending indexes\<close>

record indexSnapshot =
  sn_folder :: string
  sn_indexID :: string
  sn_maxSeq :: int

definition sessionValid :: "string \<Rightarrow> string \<Rightarrow> bool" where
  "sessionValid storedPeerSession livePeerSession \<longleftrightarrow> livePeerSession \<noteq> [] \<and> storedPeerSession = livePeerSession"

definition indexChunkSize :: nat where
  "indexChunkSize = 4096"

text \<open>The entries to send: a delta after the marker when it holds for the index generation and the peer's live session, all
entries otherwise. The first component says which.\<close>

definition index_files :: "Index \<Rightarrow> string \<Rightarrow> uint64 \<Rightarrow> string \<Rightarrow> go_error + bool \<times> FileMessage list" where
  "index_files ix ixID peerID livePeerSession =
     (case GetPeerIndex ix peerID of
        Inl e \<Rightarrow> Inl e
      | Inr marker \<Rightarrow>
          (case (case marker of
                   Some st \<Rightarrow> if pi_IndexID st = ixID \<and> sessionValid (pi_SessionID st) livePeerSession then Some (pi_MaxSeq st) else None
                 | None \<Rightarrow> None) of
             Some seq \<Rightarrow> (case Ix_ListAfter ix seq of Inl e \<Rightarrow> Inl e | Inr fis \<Rightarrow> Inr (True, map toFileMessage fis))
           | None \<Rightarrow> (case Ix_ListAll ix of Inl e \<Rightarrow> Inl e | Inr fis \<Rightarrow> Inr (False, map toFileMessage fis))))"

definition index_frame :: "string \<Rightarrow> bool \<Rightarrow> string \<Rightarrow> int \<Rightarrow> bool \<Rightarrow> FileMessage list \<Rightarrow> Message" where
  "index_frame fid update ixID maxSeq final fms =
     (bare MsgIndex)\<lparr>m_Index := Some \<lparr>im_Folder = fid, im_Files = fms, im_Update = update, im_IndexID = ixID,
        im_MaxSeq = maxSeq, im_Final = final\<rparr>\<rparr>"

text \<open>The loop over \<open>chunk\<close> entries at a time.\<close>

function send_chunks :: "nat \<Rightarrow> (bool \<Rightarrow> FileMessage list \<Rightarrow> Message) \<Rightarrow> FileMessage list \<Rightarrow> Conn \<Rightarrow> Conn \<times> go_error option" where
  "send_chunks chunk mk fms c =
     (if length fms \<le> chunk \<or> chunk = 0 then Send (mk True fms) c
      else case Send (mk False (take chunk fms)) c of
          (c', Some e) \<Rightarrow> (c', Some e)
        | (c', None) \<Rightarrow> send_chunks chunk mk (drop chunk fms) c')"
  by pat_completeness auto
termination
  by (relation "measure (\<lambda>(chunk, mk, fms, c). length fms)") auto

declare send_chunks.simps [simp del]

definition set_engine :: "string \<Rightarrow> Engine \<Rightarrow> Node \<Rightarrow> Node" where
  "set_engine fid e n =
     (case mget (nd_Folders n) fid of
        None \<Rightarrow> n
      | Some f \<Rightarrow> n\<lparr>nd_Folders := mset_at (nd_Folders n) fid (f\<lparr>fo_Engine := e\<rparr>)\<rparr>)"

text \<open>One round of the loop over the folders. A name that is not a folder of the node is the nil map entry of the code,
whose use panics. \<open>fresh\<close> are the random digits for an index without a generation.\<close>

definition send_folder :: "string \<Rightarrow> uint64 \<Rightarrow> string \<Rightarrow> Node \<Rightarrow> Conn \<Rightarrow> Node \<times> Conn \<times> (go_error + indexSnapshot)" where
  "send_folder fresh peerID fid n c =
     (case mget (nd_Folders n) fid of
        None \<Rightarrow> (n, c, Inl Panic)
      | Some f \<Rightarrow>
          (let (ix, got) = IndexID fresh (Ix (fo_Engine f)); n1 = set_engine fid ((fo_Engine f)\<lparr>Ix := ix\<rparr>) n in
             case got of
               Inl e \<Rightarrow> (n1, c, Inl e)
             | Inr ixID \<Rightarrow>
                 (let maxSeq = MaxSeq ix in
                    case index_files ix ixID peerID (cn_PeerSession c) of
                      Inl e \<Rightarrow> (n1, c, Inl e)
                    | Inr (update, fms) \<Rightarrow>
                        (let n2 = n1\<lparr>nd_SentEntries := nd_SentEntries n1 + int (length fms)\<rparr>;
                             mk = index_frame fid update ixID maxSeq;
                             (c1, err) = (if cn_PeerProtocol c \<ge> 1 then send_chunks indexChunkSize mk fms c else Send (mk True fms) c)
                         in (n2, c1, case err of Some e \<Rightarrow> Inl e
                              | None \<Rightarrow> Inr \<lparr>sn_folder = fid, sn_indexID = ixID, sn_maxSeq = maxSeq\<rparr>)))))"

fun sendIndexes :: "(string \<Rightarrow> string) \<Rightarrow> uint64 \<Rightarrow> string list \<Rightarrow> Node \<Rightarrow> Conn \<Rightarrow> Node \<times> Conn \<times> (go_error + indexSnapshot list)" where
  "sendIndexes fresh peerID [] n c = (n, c, Inr [])"
| "sendIndexes fresh peerID (i # is) n c =
     (case send_folder (fresh i) peerID i n c of
        (n1, c1, Inl e) \<Rightarrow> (n1, c1, Inl e)
      | (n1, c1, Inr s) \<Rightarrow>
          (case sendIndexes fresh peerID is n1 c1 of
             (n2, c2, Inl e) \<Rightarrow> (n2, c2, Inl e)
           | (n2, c2, Inr ss) \<Rightarrow> (n2, c2, Inr (s # ss))))"

fun recordPeerIndex :: "uint64 \<Rightarrow> string \<Rightarrow> indexSnapshot list \<Rightarrow> Node \<Rightarrow> Node \<times> go_error option" where
  "recordPeerIndex peerID session [] n = (n, None)"
| "recordPeerIndex peerID session (s # ss) n =
     (case mget (nd_Folders n) (sn_folder s) of
        None \<Rightarrow> recordPeerIndex peerID session ss n
      | Some f \<Rightarrow>
          (case Ix_SetPeerIndex (Ix (fo_Engine f)) peerID (sn_indexID s) (sn_maxSeq s) session of
             (ix, Some e) \<Rightarrow> (n, Some e)
           | (ix, None) \<Rightarrow> recordPeerIndex peerID session ss (set_engine (sn_folder s) ((fo_Engine f)\<lparr>Ix := ix\<rparr>) n)))"

section \<open>Receiving indexes\<close>

text \<open>The effect of a frame on the engine. \<open>streaming\<close> is \<open>None\<close> outside the index exchange; \<open>now\<close> is the clock.\<close>

definition merge_frame :: "int \<Rightarrow> uint64 \<Rightarrow> IndexMsg \<Rightarrow> bool option \<Rightarrow> Engine \<Rightarrow> Engine" where
  "merge_frame now peerID msg streaming e =
     (let fis = map fromFileMessage (im_Files msg) in
      case streaming of
        None \<Rightarrow> SetPeerIndex peerID fis (im_Update msg) e
      | Some s \<Rightarrow>
          (let e1 = (if s then SetPeerIndexAppend peerID fis e
                     else if im_Update msg then SetPeerIndex peerID fis True e
                     else SetPeerIndex peerID fis False (BeginPeerViewExchange peerID e))
           in if im_Final msg then EndPeerViewExchange now peerID e1 else e1))"

definition mergeIndex :: "int \<Rightarrow> uint64 \<Rightarrow> IndexMsg \<Rightarrow> string list option \<Rightarrow> Node \<Rightarrow> Node" where
  "mergeIndex now peerID msg streaming n =
     (case mget (nd_Folders n) (im_Folder msg) of
        None \<Rightarrow> n
      | Some f \<Rightarrow> set_engine (im_Folder msg)
          (merge_frame now peerID msg (map_option (\<lambda>ss. im_Folder msg \<in> set ss) streaming) (fo_Engine f)) n)"

text \<open>The loop of \<^verbatim>\<open>recvFullIndexes\<close>: it ends when no folder remains, returning the unread messages. \<open>Panic\<close> cannot occur, the
body of an index message is checked.\<close>

fun recv_loop :: "int \<Rightarrow> uint64 \<Rightarrow> string list \<Rightarrow> string list \<Rightarrow> Message list \<Rightarrow> Node \<Rightarrow> Node \<times> Message list \<times> go_error option" where
  "recv_loop now peerID remaining streaming [] n = (n, [], if remaining = [] then None else Some IOError)"
| "recv_loop now peerID remaining streaming (m # ms) n =
     (if remaining = [] then (n, m # ms, None)
      else if m_Type m = MsgIndex then
        (case m_Index m of
           None \<Rightarrow> recv_loop now peerID remaining streaming ms n
         | Some msg \<Rightarrow>
             if im_Folder msg \<notin> set remaining then recv_loop now peerID remaining streaming ms n
             else (let n1 = mergeIndex now peerID msg (Some streaming) n; i = im_Folder msg in
               if im_Final msg then recv_loop now peerID (removeAll i remaining) (removeAll i streaming) ms n1
               else recv_loop now peerID remaining (List.insert i streaming) ms n1))
      else if m_Type m = MsgClose then (n, ms, Some (Err ''peer closed during index exchange''))
      else recv_loop now peerID remaining streaming ms n)"

definition recvFullIndexes :: "int \<Rightarrow> string list \<Rightarrow> Node \<Rightarrow> Conn \<Rightarrow> Node \<times> Conn \<times> go_error option" where
  "recvFullIndexes now fids n c =
     (let (n1, rest, err) = recv_loop now (cn_PeerID c) (remdups fids) [] (cn_in c) n in (n1, c\<lparr>cn_in := rest\<rparr>, err))"

text \<open>\<^verbatim>\<open>sendIndexUpdate\<close> pushes one entry outside the exchange.\<close>

definition sendIndexUpdate :: "Node \<Rightarrow> string \<Rightarrow> string \<Rightarrow> Conn \<Rightarrow> Conn \<times> go_error option" where
  "sendIndexUpdate n fid name c =
     (case mget (nd_Folders n) fid of
        None \<Rightarrow> (c, None)
      | Some f \<Rightarrow>
          (case Ix_Get (Ix (fo_Engine f)) name of
             Inl e \<Rightarrow> (c, Some e)
           | Inr None \<Rightarrow> (c, None)
           | Inr (Some fi) \<Rightarrow>
               Send ((bare MsgIndexUpdate)\<lparr>m_Index := Some \<lparr>im_Folder = fid, im_Files = [toFileMessage fi], im_Update = True,
                  im_IndexID = [], im_MaxSeq = 0, im_Final = False\<rparr>\<rparr>) c))"

section \<open>The deletion guard\<close>

definition minGuardDeletes :: int where
  "minGuardDeletes = 100"

definition guardBlocksDeletes :: "int \<Rightarrow> int \<Rightarrow> int \<Rightarrow> int \<Rightarrow> bool" where
  "guardBlocksDeletes live dels pct cap \<longleftrightarrow>
     \<not> (live \<le> 0 \<or> dels < minGuardDeletes) \<and> (dels * 100 \<ge> live * pct \<or> cap > 0 \<and> dels \<ge> cap)"

text \<open>\<^verbatim>\<open>List\<close> fails halfway at the first row it cannot decode; the code ignores the error, and with it what was not listed.\<close>

fun decoded :: "Row list \<Rightarrow> FileInfo list" where
  "decoded [] = []"
| "decoded (r # rs) = (case scanRow r of Inl _ \<Rightarrow> [] | Inr fi \<Rightarrow> fi # decoded rs)"

definition listed :: "Index \<Rightarrow> FileInfo list" where
  "listed ix = (if fault_scan ix then [] else decoded (filter (\<lambda>r. r_deleted r = 0) (map snd (files ix))))"

definition deletionWeight :: "Index \<Rightarrow> string list \<Rightarrow> int \<times> int" where
  "deletionWeight ix dels =
     (let lives = filter (\<lambda>fi. \<not> Deleted fi) (listed ix) in
        if length dels = 0 then (int (length lives), 0)
        else (int (length lives),
              int (length dels) + int (length (filter (\<lambda>fi. list_ex (\<lambda>d. HasPrefix (Name fi) (d @ ''/'')) dels) lives))))"

section \<open>Pruning tombstones\<close>

text \<open>\<open>tombstoneFloor\<close> of \<^verbatim>\<open>node.go\<close> over the identifiers of the configured peers, with the smallest marker so far, and the
call of \<^verbatim>\<open>RunMaintenance\<close> that uses it.\<close>

fun floor_loop :: "FolderCfg \<Rightarrow> Index \<Rightarrow> uint64 list \<Rightarrow> int option \<Rightarrow> int" where
  "floor_loop cfg ix [] acc = (case acc of None \<Rightarrow> 0 | Some m \<Rightarrow> m)"
| "floor_loop cfg ix (p # ps) acc =
     (if \<not> AllowsPeer cfg p then floor_loop cfg ix ps acc
      else case GetPeerIndex ix p of
          Inl e \<Rightarrow> floor_loop cfg ix ps acc
        | Inr None \<Rightarrow> 0
        | Inr (Some st) \<Rightarrow>
            floor_loop cfg ix ps (Some (case acc of None \<Rightarrow> pi_MaxSeq st | Some m \<Rightarrow> if pi_MaxSeq st < m then pi_MaxSeq st else m)))"

definition tombstoneFloor :: "uint64 list \<Rightarrow> FolderCfg \<Rightarrow> Index \<Rightarrow> int" where
  "tombstoneFloor ps cfg ix = floor_loop cfg ix ps None"

definition prune_folder :: "uint64 list \<Rightarrow> FolderCfg \<Rightarrow> Index \<Rightarrow> Index \<times> (go_error + int)" where
  "prune_folder ps cfg ix = PruneTombstones ix (tombstoneFloor ps cfg ix)"

lemma floor_loop_le:
  "0 < floor_loop cfg ix ps acc \<Longrightarrow> (\<forall>m. acc = Some m \<longrightarrow> floor_loop cfg ix ps acc \<le> m)
    \<and> (\<forall>p \<in> set ps. AllowsPeer cfg p \<longrightarrow> (\<exists>e. GetPeerIndex ix p = Inl e)
         \<or> (\<exists>st. GetPeerIndex ix p = Inr (Some st) \<and> floor_loop cfg ix ps acc \<le> pi_MaxSeq st))"
proof (induction ps arbitrary: acc)
  case (Cons p ps)
  show ?case
  proof (cases "\<not> AllowsPeer cfg p \<or> (\<exists>e. GetPeerIndex ix p = Inl e)")
    case True
    then have "floor_loop cfg ix (p # ps) acc = floor_loop cfg ix ps acc" by auto
    then show ?thesis using Cons.IH [of acc] Cons.prems True by (auto simp del: floor_loop.simps)
  next
    case False
    then obtain st where st: "GetPeerIndex ix p = Inr (Some st)" "AllowsPeer cfg p"
      using Cons.prems by (cases "GetPeerIndex ix p") (auto split: option.splits)
    let ?m = "case acc of None \<Rightarrow> pi_MaxSeq st | Some m \<Rightarrow> if pi_MaxSeq st < m then pi_MaxSeq st else m"
    have eq: "floor_loop cfg ix (p # ps) acc = floor_loop cfg ix ps (Some ?m)" using st by simp
    have "?m \<le> pi_MaxSeq st" "\<And>m. acc = Some m \<Longrightarrow> ?m \<le> m" by (auto split: option.splits)
    moreover note IH = Cons.IH [OF Cons.prems [unfolded eq]]
    ultimately have "floor_loop cfg ix ps (Some ?m) \<le> pi_MaxSeq st" "\<And>m. acc = Some m \<Longrightarrow> floor_loop cfg ix ps (Some ?m) \<le> m" by fastforce+
    then show ?thesis using IH st(1) unfolding eq by (auto simp del: floor_loop.simps)
  qed
qed simp

lemma mget_filter: "mwf m \<Longrightarrow> mget (filter P m) k = (case mget m k of None \<Rightarrow> None | Some v \<Rightarrow> if P (k, v) then Some v else None)"
proof (induction m)
  case (Cons kv m)
  have "mget (filter P m) (fst kv) = None" using Cons by (cases kv) (auto simp: mget_None_iff mkeys_def)
  then show ?case using Cons by (cases kv) auto
qed simp


definition marked_index :: Index where
  "marked_index = empty_index\<lparr>files := [(''a'', row_of ((sample ''a'')\<lparr>Sequence := 1, Deleted := True\<rparr>))], nextSeq := 2,
     meta := [(peerIndexKey 2, MPeer \<lparr>pi_IndexID = ''g'', pi_MaxSeq = 1, pi_SessionID = ''r1''\<rparr>)]\<rparr>"


section \<open>What a frame does to a view\<close>

text \<open>The peer's entry as the engine sees it, and an entry that went over the wire.\<close>

definition seen :: "uint64 \<Rightarrow> Engine \<Rightarrow> string \<Rightarrow> FileInfo option" where
  "seen p e name = (case mget (peers e) p of None \<Rightarrow> None | Some v \<Rightarrow> mget v name)"

definition wire :: "FileInfo \<Rightarrow> FileInfo" where
  "wire fi = fromFileMessage (toFileMessage fi)"

lemma Name_wire [simp]: "Name (wire fi) = Name fi"
  by (simp add: wire_def fromFileMessage_def toFileMessage_def)

lemma Name_from [simp]: "Name (fromFileMessage fm) = fm_Name fm"
  by (simp add: fromFileMessage_def)

text \<open>The entries of a list with distinct names, laid over a view.\<close>

definition overlay :: "FileInfo list \<Rightarrow> (string \<Rightarrow> FileInfo option) \<Rightarrow> string \<Rightarrow> FileInfo option" where
  "overlay fis g n = (case find (\<lambda>f. Name f = n) (rev fis) of None \<Rightarrow> g n | Some f \<Rightarrow> Some f)"

lemma overlay_Nil [simp]: "overlay [] g = g"
  by (simp add: overlay_def fun_eq_iff)

lemma find_append: "find P (xs @ ys) = (case find P xs of None \<Rightarrow> find P ys | Some x \<Rightarrow> Some x)"
  by (induction xs) auto

lemma overlay_append: "overlay (xs @ ys) g = overlay ys (overlay xs g)"
  by (simp add: overlay_def fun_eq_iff find_append split: option.splits)

lemma overlay_other: "n \<notin> Name ` set fis \<Longrightarrow> overlay fis g n = g n"
  by (auto simp: overlay_def find_Some_iff split: option.splits) (metis imageI length_rev nth_mem set_rev)

lemma overlay_Cons: "overlay (x # xs) g = overlay xs (\<lambda>n. if n = Name x then Some x else g n)"
  by (rule ext) (simp add: overlay_def find_append split: option.split)

lemma overlay_mem: "distinct (map Name fis) \<Longrightarrow> f \<in> set fis \<Longrightarrow> overlay fis g (Name f) = Some f"
  by (induction fis arbitrary: g) (auto simp: overlay_Cons overlay_other)

lemma overlay_cases: "overlay fis g n = (if n \<in> Name ` set fis then overlay fis (\<lambda>_. None) n else g n)"
  by (cases "n \<in> Name ` set fis") (auto simp: overlay_other, auto simp: overlay_def find_None_iff image_iff split: option.splits)

lemma mget_overlay: "mget (merge_view v fis) n = overlay fis (mget v) n"
  by (simp add: mget_merge_view overlay_def)

text \<open>What an index frame leaves alone in an engine.\<close>

definition view_change :: "uint64 \<Rightarrow> Engine \<Rightarrow> Engine \<Rightarrow> bool" where
  "view_change p e e' \<longleftrightarrow> Ix e' = Ix e \<and> (\<forall>q. q \<noteq> p \<longrightarrow> seen q e' = seen q e) \<and> Direction e' = Direction e \<and> Include e' = Include e \<and> inflight e' = inflight e"

lemma open_view_seen:
  "open_view p e = (e1, v) \<Longrightarrow> mget v = seen p e \<and> view_change p e e1 \<and> viewPending e1 = viewPending e"
  by (auto simp: open_view_def seen_def view_change_def fun_eq_iff markPendingAll_def split: option.splits)

lemma seen_mark [simp]: "seen p (markPendingNames ns e) = seen p e" "seen p (markPendingAll e) = seen p e"
  by (simp_all add: seen_def fun_eq_iff markPendingAll_def)

lemma seen_set_view [simp]: "seen p (set_view q v e) = (if p = q then mget v else seen p e)"
  by (simp add: seen_def fun_eq_iff)

lemma SetPeerIndex_seen:
  "seen p (SetPeerIndex p fis upd e) = overlay fis (if upd then seen p e else (\<lambda>_. None))
     \<and> view_change p e (SetPeerIndex p fis upd e) \<and> viewPending (SetPeerIndex p fis upd e) = viewPending e"
proof -
  let ?e = "e\<lparr>viewRev := viewRev e + 1\<rparr>"
  obtain e1 v where o: "open_view p ?e = (e1, v)" by (cases "open_view p ?e")
  have q: "seen q ?e = seen q e" for q by (simp add: seen_def fun_eq_iff)
  note ov = open_view_seen [OF o]
  let ?stale = "if upd then [] else filter (\<lambda>n. n \<notin> set (map Name fis)) (mkeys v)"
  let ?kept = "filter (\<lambda>(n, _). n \<notin> set ?stale) v"
  have s: "SetPeerIndex p fis upd e = markPendingNames (?stale @ map Name fis) (set_view p (merge_view ?kept fis) e1)"
    by (simp add: SetPeerIndex_def o)
  have "mget (merge_view ?kept fis) n = overlay fis (if upd then seen p e else (\<lambda>_. None)) n" for n
    using ov q mget_None_iff [of v n] unfolding mget_overlay overlay_cases [of fis "mget ?kept"] overlay_cases [of fis "if upd then seen p e else (\<lambda>_. None)"]
    by (auto simp: mget_filter_key)
  then show ?thesis using ov q unfolding s by (auto simp: view_change_def)
qed

lemma SetPeerIndexAppend_seen:
  "seen p (SetPeerIndexAppend p fis e) = overlay fis (seen p e)
     \<and> view_change p e (SetPeerIndexAppend p fis e) \<and> viewPending (SetPeerIndexAppend p fis e) = viewPending e"
proof -
  obtain e1 v where o: "open_view p e = (e1, v)" by (cases "open_view p e")
  have "mget (merge_view v fis) = overlay fis (seen p e)" using open_view_seen [OF o] by (simp add: mget_overlay [abs_def])
  then show ?thesis using open_view_seen [OF o] by (simp add: SetPeerIndexAppend_def o view_change_def)
qed

lemma Begin_End_seen [simp]:
  "seen q (BeginPeerViewExchange p e) = seen q e" "seen q (EndPeerViewExchange now p e) = seen q e"
  "view_change p e (BeginPeerViewExchange p e)" "view_change p e (EndPeerViewExchange now p e)"
  "mget (viewPending (EndPeerViewExchange now p e)) p = None"
  by (simp_all add: BeginPeerViewExchange_def EndPeerViewExchange_def markPendingAll_def view_change_def seen_def fun_eq_iff)

lemma view_change_trans [trans]: "view_change p a b \<Longrightarrow> view_change p b c \<Longrightarrow> view_change p a c"
  by (simp add: view_change_def)

lemma merge_frame_seen:
  assumes e': "e' = merge_frame now p msg st e"
  shows "seen p e' = overlay (map fromFileMessage (im_Files msg)) (if st = Some True \<or> im_Update msg then seen p e else (\<lambda>_. None))"
    and "view_change p e e'" and "st \<noteq> None \<Longrightarrow> im_Final msg \<Longrightarrow> mget (viewPending e') p = None"
proof -
  let ?fis = "map fromFileMessage (im_Files msg)"
  note b = SetPeerIndex_seen [of p ?fis False "BeginPeerViewExchange p e"]
  show "seen p e' = overlay ?fis (if st = Some True \<or> im_Update msg then seen p e else (\<lambda>_. None))"
    using SetPeerIndex_seen [of p ?fis] SetPeerIndexAppend_seen [of p ?fis] b
    by (cases st) (auto simp: e' merge_frame_def Let_def)
  have "view_change p e (SetPeerIndex p ?fis False (BeginPeerViewExchange p e))"
    using b Begin_End_seen(3) view_change_trans by blast
  then show "view_change p e e'"
    using SetPeerIndex_seen [of p ?fis] SetPeerIndexAppend_seen [of p ?fis] view_change_trans [OF _ Begin_End_seen(4)]
    by (cases st) (auto simp: e' merge_frame_def Let_def)
  show "mget (viewPending e') p = None" if "st \<noteq> None" "im_Final msg"
    using that by (auto simp: e' merge_frame_def Let_def)
qed

end
