(* ===== verification/Node_Events.thy ===== *)
theory Node_Events
  imports Event_Store Exchange
begin

text \<open>
  How a node reports conditions: \<^verbatim>\<open>recordEvent\<close> with its alerts and subscribers, the throttled reports of files that cannot
  be applied, of folder failures, of mass changes and of names that differ by case, the events of moves and of held files, the
  reconciliation of unsynced events, and the unsynced view peers exchange at the end of a round (\<^verbatim>\<open>internal/node/node.go\<close>,
  \<^verbatim>\<open>internal/node/events_bus.go\<close> and the end of \<^verbatim>\<open>internal/node/session.go\<close>). The text of an error and the
  time, in nanoseconds, are arguments. Log lines are left out; an alert is an entry of the list of pages.
\<close>

section \<open>State\<close>

record eventSub =
  sb_ch :: "StoredEvent list"
  sb_closed :: bool

record NodeEvents =
  ne_Events :: "EventStore option"
  ne_problems :: "(string, string) gomap"
  ne_folderErr :: "(string, string) gomap"
  ne_delGuard :: "(string, bool) gomap"
  ne_massChange :: "(string, bool) gomap"
  ne_caseColl :: "(string, string) gomap"
  ne_holdings :: "(string, int \<times> bool) gomap"
  ne_Alert :: bool
  ne_alertThrottle :: "(string, int) gomap"
  ne_alertCooldown :: int
  ne_pages :: "(int \<times> StoredEvent) list"
  ne_subs :: "(nat, eventSub) gomap"
  ne_nextSub :: nat
  ne_peerUnsynced :: "(uint64, (string, UnsyncedEntry list) gomap) gomap"

definition NUL :: char where
  "NUL = CHR 0x00"

definition em_dash :: string where
  "em_dash = [CHR 0xE2, CHR 0x80, CHR 0x94]"

fun cat_string :: "Category_name \<Rightarrow> string" where
  "cat_string C_Applied = ''applied''"
| "cat_string C_Conflict = ''conflict''"
| "cat_string C_Versioned = ''versioned''"
| "cat_string C_Skipped = ''skipped''"
| "cat_string C_Unsynced = ''unsynced''"
| "cat_string C_Error = ''error''"
| "cat_string C_Warning = ''warning''"
| "cat_string C_Peer = ''peer''"
| "cat_string C_System = ''system''"

definition new_event :: "int \<Rightarrow> string \<Rightarrow> string \<Rightarrow> Category_name \<Rightarrow> int \<Rightarrow> string \<Rightarrow> StoredEvent" where
  "new_event now folder path cat sev reason =
     \<lparr>sv_ID = 0, sv_TS = now div 10 ^ 9, sv_TSns = now mod 10 ^ 9, sv_Folder = folder, sv_Path = path, sv_Category = cat,
      sv_Severity = sev, sv_Reason = reason, sv_Resolution = ResOpen, sv_AckBy = [], sv_AckTS = None, sv_Linked = [], sv_PeerID = 0\<rparr>"

section \<open>Subscribers\<close>

definition sub_send :: "StoredEvent \<Rightarrow> eventSub \<Rightarrow> eventSub" where
  "sub_send e s = (if sb_closed s then s else if length (sb_ch s) < 64 then s\<lparr>sb_ch := sb_ch s @ [e]\<rparr> else s)"

definition broadcast :: "StoredEvent \<Rightarrow> NodeEvents \<Rightarrow> NodeEvents" where
  "broadcast e n = n\<lparr>ne_subs := map (\<lambda>(i, s). (i, sub_send e s)) (ne_subs n)\<rparr>"

definition Subscribe :: "NodeEvents \<Rightarrow> NodeEvents \<times> nat" where
  "Subscribe n =
     (n\<lparr>ne_subs := mset_at (ne_subs n) (ne_nextSub n) \<lparr>sb_ch = [], sb_closed = False\<rparr>, ne_nextSub := ne_nextSub n + 1\<rparr>, ne_nextSub n)"

definition cancel_sub :: "nat \<Rightarrow> NodeEvents \<Rightarrow> NodeEvents" where
  "cancel_sub i n = n\<lparr>ne_subs := mdelete (ne_subs n) i\<rparr>"

section \<open>Alerts and recording\<close>

definition page_worthy :: "StoredEvent \<Rightarrow> bool" where
  "page_worthy e \<longleftrightarrow> sv_Category e = C_Error \<and> sv_Severity e \<ge> Sev_Warn
     \<or> sv_Category e = C_Peer \<and> sv_Severity e \<ge> Sev_Warn \<and> Contains (sv_Reason e) ''peer offline''"

definition alert_key :: "StoredEvent \<Rightarrow> string" where
  "alert_key e = sv_Folder e @ ''|'' @ sv_Path e @ ''|'' @ cat_string (sv_Category e)"

definition maybeAlert :: "int \<Rightarrow> StoredEvent \<Rightarrow> NodeEvents \<Rightarrow> NodeEvents" where
  "maybeAlert now e n =
     (if \<not> ne_Alert n \<or> \<not> page_worthy e then n
      else if (case mget (ne_alertThrottle n) (alert_key e) of None \<Rightarrow> False | Some t \<Rightarrow> now - t < ne_alertCooldown n) then n
      else n\<lparr>ne_alertThrottle := mset_at (ne_alertThrottle n) (alert_key e) now, ne_pages := ne_pages n @ [(now, e)]\<rparr>)"

definition recordEvent :: "int \<Rightarrow> StoredEvent \<Rightarrow> NodeEvents \<Rightarrow> NodeEvents" where
  "recordEvent now e n =
     (case ne_Events n of
        None \<Rightarrow> n
      | Some st \<Rightarrow> broadcast e (maybeAlert now e (n\<lparr>ne_Events := Some (fst (Record e st))\<rparr>)))"

definition RecordSystem :: "int \<Rightarrow> int \<Rightarrow> string \<Rightarrow> NodeEvents \<Rightarrow> NodeEvents" where
  "RecordSystem now sev reason = recordEvent now (new_event now [] [] C_System sev reason)"

text \<open>An operation on the store whose outcome the caller ignores.\<close>

definition on_store :: "(EventStore \<Rightarrow> EventStore) \<Rightarrow> NodeEvents \<Rightarrow> NodeEvents" where
  "on_store f n = (case ne_Events n of None \<Rightarrow> n | Some st \<Rightarrow> n\<lparr>ne_Events := Some (f st)\<rparr>)"

definition peerRecovered :: "int \<Rightarrow> string \<Rightarrow> NodeEvents \<Rightarrow> NodeEvents" where
  "peerRecovered now name n =
     (case ne_Events n of
        None \<Rightarrow> n
      | Some st \<Rightarrow>
          (case HasOpenCondition ''peers'' name C_Peer st of
             (st1, Inr True) \<Rightarrow> n\<lparr>ne_Events := Some (fst (ResolveAutoCondition ''peers'' name C_Peer ''system'' now st1))\<rparr>
           | (st1, _) \<Rightarrow> n\<lparr>ne_Events := Some st1\<rparr>))"

section \<open>Problems of a file and of a folder\<close>

definition classifyProblem :: "string \<Rightarrow> string" where
  "classifyProblem msg =
     (let s = ToLower msg in
        if Contains s ''used by another process'' \<or> Contains s ''being used by another'' \<or> Contains s ''text file busy''
          \<or> Contains s ''device or resource busy'' then ''file is locked/in use '' @ em_dash @ '' retrying''
        else if Contains s ''no space left'' \<or> Contains s ''disk full'' \<or> Contains s ''enospc''
          then ''disk full '' @ em_dash @ '' space needed on the share''
        else if Contains s ''permission denied'' then ''permission denied '' @ em_dash @ '' check PUID/PGID ownership''
        else if Contains s ''read-only file system'' \<or> Contains s ''erofs''
          then ''share is read-only '' @ em_dash @ '' check the SMB export / array mode''
        else if Contains s ''hash mismatch'' \<or> Contains s ''bad transfer''
          then ''transfer failed hash verification '' @ em_dash @ '' will re-request''
        else if Contains s ''block request failed''
          then ''the peer could not read this file from its disk '' @ em_dash
            @ '' retrying next round (check the file and its permissions on that peer)''
        else ''cannot apply: '' @ take 140 s)"

definition problem_key :: "string \<Rightarrow> string \<Rightarrow> string" where
  "problem_key folder name = folder @ NUL # name"

definition text_at :: "(string, string) gomap \<Rightarrow> string \<Rightarrow> string" where
  "text_at m k = (case mget m k of None \<Rightarrow> [] | Some v \<Rightarrow> v)"

definition flag_at :: "(string, bool) gomap \<Rightarrow> string \<Rightarrow> bool" where
  "flag_at m k = (mget m k = Some True)"

definition node_reportProblem :: "int \<Rightarrow> string \<Rightarrow> string \<Rightarrow> string \<Rightarrow> NodeEvents \<Rightarrow> NodeEvents" where
  "node_reportProblem now folder name msg n =
     (if ne_Events n = None then n
      else let reason = classifyProblem msg; key = problem_key folder name in
        if text_at (ne_problems n) key = reason then n
        else recordEvent now (new_event now folder name C_Unsynced Sev_Warn reason) (n\<lparr>ne_problems := mset_at (ne_problems n) key reason\<rparr>))"

definition node_clearProblem :: "int \<Rightarrow> string \<Rightarrow> string \<Rightarrow> NodeEvents \<Rightarrow> NodeEvents" where
  "node_clearProblem now folder name n =
     (if ne_Events n = None then n
      else let key = problem_key folder name; was = mget (ne_problems n) key \<noteq> None; n1 = n\<lparr>ne_problems := mdelete (ne_problems n) key\<rparr> in
        if was then on_store (\<lambda>st. fst (ResolveCondition folder name C_Unsynced ''system'' now st)) n1 else n1)"

definition reportFolderError :: "int \<Rightarrow> string \<Rightarrow> string \<Rightarrow> NodeEvents \<Rightarrow> NodeEvents" where
  "reportFolderError now folder msg n =
     (if ne_Events n = None then n
      else let reason = classifyProblem msg in
        if text_at (ne_folderErr n) folder = reason then n
        else recordEvent now (new_event now folder [] C_Error Sev_Warn (''folder error: '' @ reason)) (n\<lparr>ne_folderErr := mset_at (ne_folderErr n) folder reason\<rparr>))"

definition clearFolderError :: "int \<Rightarrow> string \<Rightarrow> NodeEvents \<Rightarrow> NodeEvents" where
  "clearFolderError now folder n =
     (if ne_Events n = None then n
      else let was = mget (ne_folderErr n) folder \<noteq> None; n1 = n\<lparr>ne_folderErr := mdelete (ne_folderErr n) folder\<rparr> in
        if was then on_store (\<lambda>st. fst (ResolveCondition folder [] C_Error ''system'' now st)) n1 else n1)"

section \<open>The deletion guard and mass changes\<close>

definition DeleteGuardTripped :: "string \<Rightarrow> NodeEvents \<Rightarrow> bool" where
  "DeleteGuardTripped fid n = flag_at (ne_delGuard n) fid"

definition reportDeletionGuard :: "int \<Rightarrow> string \<Rightarrow> string \<Rightarrow> NodeEvents \<Rightarrow> NodeEvents" where
  "reportDeletionGuard now fid msg n =
     (if flag_at (ne_delGuard n) fid then n
      else on_store (\<lambda>st. fst (Record (new_event now fid [] C_Error Sev_Warn (''deletion guard: '' @ msg)) st))
        (n\<lparr>ne_delGuard := mset_at (ne_delGuard n) fid True\<rparr>))"

definition clearDeletionGuard :: "int \<Rightarrow> string \<Rightarrow> NodeEvents \<Rightarrow> NodeEvents" where
  "clearDeletionGuard now fid n =
     (let was = mget (ne_delGuard n) fid \<noteq> None; n1 = n\<lparr>ne_delGuard := mdelete (ne_delGuard n) fid\<rparr> in
        if was then on_store (\<lambda>st. fst (ResolveCondition fid [] C_Error ''system'' now st)) n1 else n1)"

definition mass_reason :: "int \<Rightarrow> int \<Rightarrow> string" where
  "mass_reason changed live = ''mass change: '' @ FormatInt changed @ '' of '' @ FormatInt live @ '' files changed in one sync (>50% after a prior sync) ''
     @ em_dash @ '' could be a rename/format shift or a migration; verify the change is intended''"

definition checkMassChange :: "int \<Rightarrow> Node \<Rightarrow> string \<Rightarrow> int \<Rightarrow> int \<Rightarrow> uint64 \<Rightarrow> NodeEvents \<Rightarrow> NodeEvents" where
  "checkMassChange now nd fid changed live peerID n =
     (if live > 0 \<and> changed > 0 \<and> changed * 100 \<ge> live * 50 then
        (case mget (nd_Folders nd) fid of
           None \<Rightarrow> n
         | Some f \<Rightarrow>
             (case GetPeerIndex (Ix (fo_Engine f)) peerID of
                Inr (Some _) \<Rightarrow>
                  (if flag_at (ne_massChange n) fid then n
                   else recordEvent now (new_event now fid [] C_Warning Sev_Warn (mass_reason changed live))
                     (n\<lparr>ne_massChange := mset_at (ne_massChange n) fid True\<rparr>))
              | _ \<Rightarrow> n))
      else let was = flag_at (ne_massChange n) fid; n1 = n\<lparr>ne_massChange := mdelete (ne_massChange n) fid\<rparr> in
        if was then on_store (\<lambda>st. fst (ResolveCondition fid [] C_Warning ''system'' now st)) n1 else n1)"

definition settleMassChange :: "int \<Rightarrow> string \<Rightarrow> NodeEvents \<Rightarrow> NodeEvents" where
  "settleMassChange now fid n =
     (if ne_Events n = None then n
      else let was = flag_at (ne_massChange n) fid; n1 = n\<lparr>ne_massChange := mdelete (ne_massChange n) fid\<rparr> in
        if was then on_store (\<lambda>st. fst (ResolveAutoReasonPrefix fid C_Warning ''mass change:'' ''system'' now st)) n1 else n1)"

section \<open>Moves, releases and held files\<close>

definition emitMoves :: "int \<Rightarrow> string \<Rightarrow> (string \<times> string) list \<Rightarrow> uint64 \<Rightarrow> NodeEvents \<Rightarrow> NodeEvents" where
  "emitMoves now folder moves peerID n =
     (if ne_Events n = None \<or> length moves = 0 then n
      else let n1 = (if length moves \<le> 50
             then foldl (\<lambda>a (src, dst). recordEvent now ((new_event now folder dst C_Applied Sev_Info ''moved (local rename, no transfer)'')
               \<lparr>sv_Linked := src, sv_PeerID := peerID\<rparr>) a) n moves else n) in
        recordEvent now ((new_event now folder [] C_Applied Sev_Info
          (''moved '' @ FormatInt (int (length moves)) @ '' file(s) locally (same-content rename, no transfer)''))\<lparr>sv_PeerID := peerID\<rparr>) n1)"

definition emitReleases :: "int \<Rightarrow> string \<Rightarrow> (string \<times> string) list \<Rightarrow> NodeEvents \<Rightarrow> NodeEvents" where
  "emitReleases now folder moves n =
     (if ne_Events n = None \<or> length moves = 0 then n
      else recordEvent now (new_event now folder [] C_Applied Sev_Info (''released '' @ FormatInt (int (length moves))
        @ '' path(s) moved outside this device's include gate (the peer that holds them keeps them)'')) n)"

definition noteHeldBack :: "int \<Rightarrow> string \<Rightarrow> nat \<Rightarrow> NodeEvents \<Rightarrow> NodeEvents" where
  "noteHeldBack now fid inFlight n =
     (let (files, announce) = (case mget (ne_holdings n) fid of None \<Rightarrow> (0, False) | Some h \<Rightarrow> h);
          (h, owed) = (if inFlight > 0 then ((int inFlight, True), 0) else if announce then ((0, False), files) else ((files, announce), 0));
          n1 = n\<lparr>ne_holdings := mset_at (ne_holdings n) fid h\<rparr> in
        if owed = 0 \<or> ne_Events n = None then n1
        else recordEvent now (new_event now fid [] C_Applied Sev_Info
          (''held back '' @ FormatInt owed @ '' file(s) until they stopped changing; syncing now'')) n1)"

section \<open>Health\<close>

text \<open>\<open>SyncHealth\<close> over the folders in the order the walk of the map gives them, each with the time of its last completed sync, if it has
an engine: the newest time, the oldest and the number of folders that count.\<close>

definition SyncHealth :: "(string \<Rightarrow> bool) \<Rightarrow> (string \<times> int option) list \<Rightarrow> int \<times> int \<times> int" where
  "SyncHealth running folders =
     foldl (\<lambda>(newest, oldest, n) (fid, ls).
        case ls of
          None \<Rightarrow> (newest, oldest, n)
        | Some l \<Rightarrow>
            if running fid then (newest, oldest, n - 1)
            else (if l > newest then l else newest, if oldest = 0 \<or> l < oldest then l else oldest, n))
      (0, 0, int (length folders)) folders"

text \<open>A folder that never synced hides behind one that did, or not, depending on the order of the walk.\<close>

lemma health_depends_on_order:
  "SyncHealth (\<lambda>_. False) [(''a'', Some 0), (''b'', Some 100)] = (100, 100, 2)"
  "SyncHealth (\<lambda>_. False) [(''b'', Some 100), (''a'', Some 0)] = (100, 0, 2)"
  by (simp_all add: SyncHealth_def)

section \<open>The badge and the throttle\<close>

text \<open>What a throttle remembers of a category agrees with the rows of the store: each row of the category that needs attention is
remembered, and what is remembered has a row with the remembered text, open, or acknowledged where \<open>A\<close> allows it.\<close>

definition tracks :: "bool \<Rightarrow> Category_name \<Rightarrow> (string \<times> string \<Rightarrow> string option) \<Rightarrow> StoredEvent list \<Rightarrow> bool" where
  "tracks A c m rows \<longleftrightarrow> (\<forall>e\<in>set rows. attention e \<and> sv_Category e = c \<longrightarrow> m (sv_Folder e, sv_Path e) \<noteq> None)
   \<and> (\<forall>f p r. m (f, p) = Some r \<longrightarrow> (\<exists>e\<in>set rows. cond_of e = (f, p, c) \<and> sv_Reason e = r \<and> sv_Severity e \<ge> Sev_Warn
        \<and> (sv_Resolution e = ResOpen \<or> A \<and> sv_Resolution e = ResAcknowledged)))"

lemma tracks_mono: "tracks A c m rows \<Longrightarrow> (A \<Longrightarrow> B) \<Longrightarrow> tracks B c m rows"
  unfolding tracks_def by blast

lemma tracks_open: "tracks A c m rows \<Longrightarrow> e \<in> set rows \<Longrightarrow> attention e \<Longrightarrow> cond_of e = (f, p, c) \<Longrightarrow> m (f, p) \<noteq> None"
  by (auto simp: tracks_def cond_of_def)

lemma tracks_row:
  assumes "tracks A c m rows" "m (f, p) = Some r"
  obtains e where "e \<in> set rows" "cond_of e = (f, p, c)" "sv_Reason e = r" "sv_Severity e \<ge> Sev_Warn"
    "sv_Resolution e = ResOpen \<or> A \<and> sv_Resolution e = ResAcknowledged"
  using assms unfolding tracks_def by blast

lemma sv_cond: "cond_of e = (f, p, c) \<longleftrightarrow> sv_Folder e = f \<and> sv_Path e = p \<and> sv_Category e = c"
  by (simp add: cond_of_def)

lemma tracks_image:
  assumes t: "tracks A c m rows" and img: "set rows' = g ` set rows" and rec: "\<And>e. record_of (g e) = record_of e"
    and old: "\<And>e. e \<in> set rows \<Longrightarrow> attention (g e) \<Longrightarrow> sv_Category e = c \<Longrightarrow> m (sv_Folder e, sv_Path e) \<noteq> None"
    and kept: "\<And>e f p. cond_of e = (f, p, c) \<Longrightarrow> m (f, p) \<noteq> None \<Longrightarrow> sv_Resolution e = ResOpen \<or> A \<and> sv_Resolution e = ResAcknowledged
        \<Longrightarrow> sv_Resolution (g e) = ResOpen \<or> B \<and> sv_Resolution (g e) = ResAcknowledged"
  shows "tracks B c m rows'"
proof -
  have same: "cond_of (g e) = cond_of e" "sv_Reason (g e) = sv_Reason e" "sv_Severity (g e) = sv_Severity e" for e
    using record_of_fields(1,5) [OF rec] rec [of e] by (simp_all add: record_of_def) (cases e; cases "g e"; simp)
  have "m (sv_Folder e', sv_Path e') \<noteq> None" if "e' \<in> set rows'" "attention e'" "sv_Category e' = c" for e'
  proof -
    from that img obtain e where "e' = g e" "e \<in> set rows" by blast
    then show ?thesis using old [of e] that same(1) [of e] by (simp add: cond_of_def)
  qed
  moreover have "\<exists>e'\<in>set rows'. cond_of e' = (f, p, c) \<and> sv_Reason e' = r \<and> sv_Severity e' \<ge> Sev_Warn
      \<and> (sv_Resolution e' = ResOpen \<or> B \<and> sv_Resolution e' = ResAcknowledged)" if m: "m (f, p) = Some r" for f p r
  proof -
    obtain e where "e \<in> set rows" "cond_of e = (f, p, c)" "sv_Reason e = r" "sv_Severity e \<ge> Sev_Warn"
      "sv_Resolution e = ResOpen \<or> A \<and> sv_Resolution e = ResAcknowledged" using tracks_row [OF t m] .
    then show ?thesis using kept [of e f p] m same [of e] img by (intro bexI [of _ "g e"]) auto
  qed
  ultimately show ?thesis unfolding tracks_def by blast
qed

definition sound :: "EventStore \<Rightarrow> bool" where
  "sound s \<longleftrightarrow> (\<forall>i. \<not> es_fault s i)"

lemma exec_sound: "sound s \<Longrightarrow> sound (fst (exec_rows f s)) \<and> es_rows (fst (exec_rows f s)) = f (es_rows s)"
  by (simp add: exec_rows_def sound_def Let_def)

lemma Record_sound:
  assumes "sound s"
  shows "sound (fst (Record e s))"
    "es_rows (fst (Record e s)) = update_where (\<lambda>r. cond_of r = cond_of e \<and> sv_Resolution r = ResAcknowledged) reopened (es_rows s)
      @ [e\<lparr>sv_ID := es_nextID s\<rparr>]"
  using assms by (simp_all add: Record_def exec_rows_def sound_def Let_def)

lemma reopened_row [simp]:
  "sv_Reason (reopened e) = sv_Reason e" "sv_Severity (reopened e) = sv_Severity e" "sv_Resolution (reopened e) = ResOpen"
  "sv_Folder (reopened e) = sv_Folder e" "sv_Path (reopened e) = sv_Path e" "sv_Category (reopened e) = sv_Category e"
  by (simp_all add: reopened_def)

lemma closed_row [simp]:
  "sv_Reason (closed_by r w now e) = sv_Reason e" "sv_Severity (closed_by r w now e) = sv_Severity e" "sv_Resolution (closed_by r w now e) = r"
  "sv_Folder (closed_by r w now e) = sv_Folder e" "sv_Path (closed_by r w now e) = sv_Path e" "sv_Category (closed_by r w now e) = sv_Category e"
  by (simp_all add: closed_by_def)

lemma tracks_Record:
  assumes t: "tracks A c m (es_rows s)" and s: "sound s"
    and e: "sv_Category e = c \<Longrightarrow> sv_Resolution e = ResOpen \<and> sv_Severity e \<ge> Sev_Warn"
  shows "tracks A c (if sv_Category e = c then m((sv_Folder e, sv_Path e) \<mapsto> sv_Reason e) else m) (es_rows (fst (Record e s)))"
proof -
  let ?P = "\<lambda>r. cond_of r = cond_of e \<and> sv_Resolution r = ResAcknowledged"
  let ?m = "if sv_Category e = c then m((sv_Folder e, sv_Path e) \<mapsto> sv_Reason e) else m"
  let ?g = "\<lambda>r. if ?P r then reopened r else r"
  have rows: "set (es_rows (fst (Record e s))) = insert (e\<lparr>sv_ID := es_nextID s\<rparr>) (?g ` set (es_rows s))"
    using Record_sound(2) [OF s] by (auto simp: update_where_def)
  have "?m (sv_Folder r, sv_Path r) \<noteq> None" if r: "r \<in> set (es_rows (fst (Record e s)))" "attention r" "sv_Category r = c" for r
  proof (cases "r = e\<lparr>sv_ID := es_nextID s\<rparr>")
    case False
    then obtain r0 where r0: "r0 \<in> set (es_rows s)" "r = ?g r0" using r(1) rows by auto
    show ?thesis
    proof (cases "?P r0")
      case True
      then show ?thesis using r r0 by (auto simp: cond_of_def)
    next
      case False
      then show ?thesis using r r0 t by (auto simp: tracks_def)
    qed
  qed (use r in auto)
  moreover have "\<exists>r\<in>set (es_rows (fst (Record e s))). cond_of r = (f, p, c) \<and> sv_Reason r = x \<and> sv_Severity r \<ge> Sev_Warn
      \<and> (sv_Resolution r = ResOpen \<or> A \<and> sv_Resolution r = ResAcknowledged)" if m: "?m (f, p) = Some x" for f p x
  proof (cases "sv_Category e = c \<and> (f, p) = (sv_Folder e, sv_Path e)")
    case True
    then show ?thesis using m e rows by (auto simp: cond_of_def intro!: bexI [of _ "e\<lparr>sv_ID := es_nextID s\<rparr>"])
  next
    case False
    then have "m (f, p) = Some x" using m by (auto split: if_splits)
    then obtain r where r: "r \<in> set (es_rows s)" "cond_of r = (f, p, c)" "sv_Reason r = x" "sv_Severity r \<ge> Sev_Warn"
      "sv_Resolution r = ResOpen \<or> A \<and> sv_Resolution r = ResAcknowledged" using tracks_row [OF t] by blast
    have "\<not> ?P r" using False r(2) by (auto simp: cond_of_def)
    then have g: "?g r = r" by (rule if_not_P)
    have "r \<in> set (es_rows (fst (Record e s)))" unfolding rows by (rule insertI2, rule image_eqI [where f = ?g and x = r, OF g [symmetric] r(1)])
    then show ?thesis using r by blast
  qed
  ultimately show ?thesis unfolding tracks_def by blast
qed

lemma tracks_ResolveCondition:
  assumes t: "tracks A c m (es_rows s)" and s: "sound s"
  shows "tracks A c (if cat = c then m((f, p) := None) else m) (es_rows (fst (ResolveCondition f p cat w now s)))"
proof -
  let ?P = "\<lambda>e. attention e \<and> cond_of e = (f, p, cat)"
  let ?g = "\<lambda>e. if ?P e then closed_by ResResolved w now e else e"
  let ?m = "if cat = c then m((f, p) := None) else m"
  have rows: "set (es_rows (fst (ResolveCondition f p cat w now s))) = ?g ` set (es_rows s)"
    using exec_sound [OF s] by (simp add: ResolveCondition_def update_where_def)
  have "?m (sv_Folder r, sv_Path r) \<noteq> None" if r: "r \<in> set (es_rows (fst (ResolveCondition f p cat w now s)))" "attention r" "sv_Category r = c" for r
  proof -
    obtain r0 where r0: "r0 \<in> set (es_rows s)" "r = ?g r0" using r(1) rows by auto
    have "\<not> ?P r0" using r(2) r0(2) by (auto simp: event_codes)
    then have "r = r0" "attention r0 \<longrightarrow> cond_of r0 \<noteq> (f, p, cat)" using r0(2) by auto
    then show ?thesis using r r0 t by (auto simp: tracks_def cond_of_def)
  qed
  moreover have "\<exists>r\<in>set (es_rows (fst (ResolveCondition f p cat w now s))). cond_of r = (f', p', c) \<and> sv_Reason r = x \<and> sv_Severity r \<ge> Sev_Warn
      \<and> (sv_Resolution r = ResOpen \<or> A \<and> sv_Resolution r = ResAcknowledged)" if m: "?m (f', p') = Some x" for f' p' x
  proof -
    have m': "m (f', p') = Some x" "(f', p', c) \<noteq> (f, p, cat)" using m by (auto split: if_splits)
    then obtain r where r: "r \<in> set (es_rows s)" "cond_of r = (f', p', c)" "sv_Reason r = x" "sv_Severity r \<ge> Sev_Warn"
      "sv_Resolution r = ResOpen \<or> A \<and> sv_Resolution r = ResAcknowledged" using tracks_row [OF t] by blast
    have "\<not> ?P r" using m'(2) r(2) by auto
    then have g: "?g r = r" by (rule if_not_P)
    have "r \<in> set (es_rows (fst (ResolveCondition f p cat w now s)))" unfolding rows by (rule image_eqI [where f = ?g and x = r, OF g [symmetric] r(1)])
    then show ?thesis using r by blast
  qed
  ultimately show ?thesis unfolding tracks_def by blast
qed

lemma tracks_acknowledged:
  assumes t: "tracks A c m (es_rows s)" and st: "es_rows s' = update_where P (closed_by ResAcknowledged w now) (es_rows s)"
  shows "tracks True c m (es_rows s')"
  using t
proof (rule tracks_image)
  let ?g = "\<lambda>e. if P e then closed_by ResAcknowledged w now e else e"
  show "set (es_rows s') = ?g ` set (es_rows s)" by (simp add: st update_where_def)
  show "record_of (?g e) = record_of e" for e by simp
  show "m (sv_Folder e, sv_Path e) \<noteq> None" if "e \<in> set (es_rows s)" "attention (?g e)" "sv_Category e = c" for e
    using that t by (cases "P e") (auto simp: tracks_def event_codes)
  show "sv_Resolution (?g e) = ResOpen \<or> True \<and> sv_Resolution (?g e) = ResAcknowledged"
    if "sv_Resolution e = ResOpen \<or> A \<and> sv_Resolution e = ResAcknowledged" for e using that by auto
qed

lemma maybeAlert_fields [simp]:
  "ne_Events (maybeAlert now e n) = ne_Events n" "ne_problems (maybeAlert now e n) = ne_problems n" "ne_folderErr (maybeAlert now e n) = ne_folderErr n"
  by (simp_all add: maybeAlert_def)

lemma recordEvent_fields [simp]:
  "ne_Events (recordEvent now e n) = map_option (\<lambda>st. fst (Record e st)) (ne_Events n)" "ne_problems (recordEvent now e n) = ne_problems n"
  "ne_folderErr (recordEvent now e n) = ne_folderErr n"
  by (simp_all add: recordEvent_def broadcast_def split: option.split)

lemma on_store_fields [simp]:
  "ne_Events (on_store f n) = map_option f (ne_Events n)" "ne_problems (on_store f n) = ne_problems n" "ne_folderErr (on_store f n) = ne_folderErr n"
  by (simp_all add: on_store_def split: option.split)

text \<open>What happens to a node's events: reports and their ends, other events, and a user acknowledging.\<close>

datatype NodeOp =
    NReport int string string string
  | NClear int string string
  | NFolderError int string string
  | NFolderOk int string
  | NEvent int StoredEvent
  | NAcknowledge int int string
  | NAcknowledgeCondition int string string Category_name string

fun node_op :: "NodeOp \<Rightarrow> NodeEvents \<Rightarrow> NodeEvents" where
  "node_op (NReport now folder name msg) n = node_reportProblem now folder name msg n"
| "node_op (NClear now folder name) n = node_clearProblem now folder name n"
| "node_op (NFolderError now folder msg) n = reportFolderError now folder msg n"
| "node_op (NFolderOk now folder) n = clearFolderError now folder n"
| "node_op (NEvent now e) n = recordEvent now e n"
| "node_op (NAcknowledge now i w) n = on_store (\<lambda>st. fst (Acknowledge i w now st)) n"
| "node_op (NAcknowledgeCondition now folder path cat w) n = on_store (\<lambda>st. fst (AcknowledgeCondition folder path cat w now st)) n"

fun op_ok :: "NodeOp \<Rightarrow> bool" where
  "op_ok (NReport _ folder _ _) = (NUL \<notin> set folder)"
| "op_ok (NClear _ folder _) = (NUL \<notin> set folder)"
| "op_ok (NEvent _ e) = (sv_Category e \<noteq> C_Unsynced \<and> sv_Category e \<noteq> C_Error)"
| "op_ok _ = True"

fun is_ack :: "NodeOp \<Rightarrow> bool" where
  "is_ack (NAcknowledge _ _ _) = True"
| "is_ack (NAcknowledgeCondition _ _ _ _ _) = True"
| "is_ack _ = False"

definition problem_of :: "NodeEvents \<Rightarrow> string \<times> string \<Rightarrow> string option" where
  "problem_of n fp = (if NUL \<in> set (fst fp) then None else mget (ne_problems n) (problem_key (fst fp) (snd fp)))"

definition folder_error_of :: "NodeEvents \<Rightarrow> string \<times> string \<Rightarrow> string option" where
  "folder_error_of n fp = (if snd fp = [] then map_option (\<lambda>r. ''folder error: '' @ r) (mget (ne_folderErr n) (fst fp)) else None)"

definition badge_ok :: "bool \<Rightarrow> NodeEvents \<Rightarrow> bool" where
  "badge_ok A n \<longleftrightarrow> (\<exists>st. ne_Events n = Some st \<and> sound st \<and> tracks A C_Unsynced (problem_of n) (es_rows st)
     \<and> tracks A C_Error (folder_error_of n) (es_rows st))"

lemma problem_key_inj: "NUL \<notin> set f \<Longrightarrow> NUL \<notin> set f' \<Longrightarrow> problem_key f p = problem_key f' p' \<longleftrightarrow> f = f' \<and> p = p'"
proof
  assume a: "NUL \<notin> set f" "NUL \<notin> set f'" "problem_key f p = problem_key f' p'"
  have "takeWhile (\<lambda>c. c \<noteq> NUL) (problem_key g q) = g" if "NUL \<notin> set g" for g q
    using that unfolding problem_key_def by (induction g) auto
  then have "f = f'" using a by metis
  then show "f = f' \<and> p = p'" using a(3) by (simp add: problem_key_def)
qed (simp add: problem_key_def)

lemma problem_of_set:
  assumes "NUL \<notin> set folder"
  shows "problem_of (n\<lparr>ne_problems := mset_at (ne_problems n) (problem_key folder name) r\<rparr>) = (problem_of n)((folder, name) \<mapsto> r)"
    "problem_of (n\<lparr>ne_problems := mdelete (ne_problems n) (problem_key folder name)\<rparr>) = (problem_of n)((folder, name) := None)"
  using assms problem_key_inj [OF _ assms] by (auto simp: problem_of_def fun_eq_iff)

lemma folder_error_of_set:
  "folder_error_of (n\<lparr>ne_folderErr := mset_at (ne_folderErr n) folder r\<rparr>) = (folder_error_of n)((folder, []) \<mapsto> ''folder error: '' @ r)"
  "folder_error_of (n\<lparr>ne_folderErr := mdelete (ne_folderErr n) folder\<rparr>) = (folder_error_of n)((folder, []) := None)"
  by (auto simp: folder_error_of_def fun_eq_iff)

lemma badge_fields:
  "ne_problems n' = ne_problems n \<Longrightarrow> problem_of n' = problem_of n" "ne_folderErr n' = ne_folderErr n \<Longrightarrow> folder_error_of n' = folder_error_of n"
  by (simp_all add: problem_of_def folder_error_of_def fun_eq_iff)

lemma badge_Record:
  assumes ok: "badge_ok A n" and e: "sv_Resolution e = ResOpen" "sv_Severity e \<ge> Sev_Warn"
    and n': "ne_Events n' = ne_Events n"
    and m: "problem_of n' = (if sv_Category e = C_Unsynced then (problem_of n)((sv_Folder e, sv_Path e) \<mapsto> sv_Reason e) else problem_of n)"
      "folder_error_of n' = (if sv_Category e = C_Error then (folder_error_of n)((sv_Folder e, sv_Path e) \<mapsto> sv_Reason e) else folder_error_of n)"
  shows "badge_ok A (recordEvent now e n')"
proof -
  obtain st where st: "ne_Events n = Some st" "sound st" "tracks A C_Unsynced (problem_of n) (es_rows st)"
    "tracks A C_Error (folder_error_of n) (es_rows st)" using ok by (auto simp: badge_ok_def)
  have eq: "problem_of (recordEvent now e n') = problem_of n'" "folder_error_of (recordEvent now e n') = folder_error_of n'"
    by (rule badge_fields, simp)+
  show ?thesis unfolding badge_ok_def eq m
    using st n' Record_sound(1) [OF st(2)] tracks_Record [OF st(3,2), of e] tracks_Record [OF st(4,2), of e] e by simp
qed

lemma badge_Resolve:
  assumes ok: "badge_ok A n" and n': "ne_Events n' = ne_Events n"
    and m: "problem_of n' = (if cat = C_Unsynced then (problem_of n)((f, p) := None) else problem_of n)"
      "folder_error_of n' = (if cat = C_Error then (folder_error_of n)((f, p) := None) else folder_error_of n)"
  shows "badge_ok A (on_store (\<lambda>st. fst (ResolveCondition f p cat w now st)) n')"
proof -
  obtain st where st: "ne_Events n = Some st" "sound st" "tracks A C_Unsynced (problem_of n) (es_rows st)"
    "tracks A C_Error (folder_error_of n) (es_rows st)" using ok by (auto simp: badge_ok_def)
  have eq: "problem_of (on_store g n') = problem_of n'" "folder_error_of (on_store g n') = folder_error_of n'" for g
    by (rule badge_fields, simp)+
  have "sound (fst (ResolveCondition f p cat w now st))" using exec_sound [OF st(2)] by (simp add: ResolveCondition_def)
  then show ?thesis unfolding badge_ok_def eq m
    using st n' tracks_ResolveCondition [OF st(3,2)] tracks_ResolveCondition [OF st(4,2)] by simp
qed

lemma badge_same:
  "badge_ok A n \<Longrightarrow> ne_Events n' = ne_Events n \<Longrightarrow> problem_of n' = problem_of n \<Longrightarrow> folder_error_of n' = folder_error_of n \<Longrightarrow> badge_ok A n'"
  by (simp add: badge_ok_def)

lemma badge_ack:
  assumes ok: "badge_ok A n" and f: "\<And>st. sound st \<Longrightarrow> sound (f st) \<and> es_rows (f st) = update_where P (closed_by ResAcknowledged w now) (es_rows st)"
  shows "badge_ok True (on_store f n)"
proof -
  obtain st where st: "ne_Events n = Some st" "sound st" "tracks A C_Unsynced (problem_of n) (es_rows st)"
    "tracks A C_Error (folder_error_of n) (es_rows st)" using ok by (auto simp: badge_ok_def)
  have eq: "problem_of (on_store f n) = problem_of n" "folder_error_of (on_store f n) = folder_error_of n"
    by (rule badge_fields, simp)+
  show ?thesis unfolding badge_ok_def eq
    using st f [OF st(2)] tracks_acknowledged [OF st(3) conjunct2 [OF f [OF st(2)]]]
      tracks_acknowledged [OF st(4) conjunct2 [OF f [OF st(2)]]] by simp
qed

lemma new_event_fields [simp]:
  "sv_Folder (new_event now f p c sev r) = f" "sv_Path (new_event now f p c sev r) = p" "sv_Category (new_event now f p c sev r) = c"
  "sv_Severity (new_event now f p c sev r) = sev" "sv_Reason (new_event now f p c sev r) = r" "sv_Resolution (new_event now f p c sev r) = ResOpen"
  by (simp_all add: new_event_def)

lemma badge_other:
  assumes ok: "badge_ok A n" and e: "sv_Category e \<noteq> C_Unsynced" "sv_Category e \<noteq> C_Error"
  shows "badge_ok A (recordEvent now e n)"
proof -
  obtain st where st: "ne_Events n = Some st" "sound st" "tracks A C_Unsynced (problem_of n) (es_rows st)"
    "tracks A C_Error (folder_error_of n) (es_rows st)" using ok by (auto simp: badge_ok_def)
  have eq: "problem_of (recordEvent now e n) = problem_of n" "folder_error_of (recordEvent now e n) = folder_error_of n"
    by (rule badge_fields, simp)+
  show ?thesis unfolding badge_ok_def eq
    using st Record_sound(1) [OF st(2)] tracks_Record [OF st(3,2), of e] tracks_Record [OF st(4,2), of e] e by simp
qed

lemma badge_step:
  assumes ok: "badge_ok A n" and w: "op_ok op"
  shows "badge_ok (A \<or> is_ack op) (node_op op n)"
proof -
  have some: "ne_Events n \<noteq> None" using ok by (auto simp: badge_ok_def)
  show ?thesis
  proof (cases op)
    case (NReport now folder name msg)
    let ?n = "n\<lparr>ne_problems := mset_at (ne_problems n) (problem_key folder name) (classifyProblem msg)\<rparr>"
    have fe: "folder_error_of ?n = folder_error_of n" by (rule badge_fields) simp
    have "badge_ok A (recordEvent now (new_event now folder name C_Unsynced Sev_Warn (classifyProblem msg)) ?n)"
      using NReport w by (intro badge_Record [OF ok]) (simp_all add: problem_of_set fe event_codes)
    then show ?thesis using NReport ok some by (simp add: node_reportProblem_def Let_def)
  next
    case (NClear now folder name)
    let ?n = "n\<lparr>ne_problems := mdelete (ne_problems n) (problem_key folder name)\<rparr>"
    have m: "problem_of ?n = (problem_of n)((folder, name) := None)" "folder_error_of ?n = folder_error_of n"
      using NClear w problem_of_set by (simp, intro badge_fields, simp)
    have "badge_ok A (on_store (\<lambda>st. fst (ResolveCondition folder name C_Unsynced ''system'' now st)) ?n)"
      by (rule badge_Resolve [OF ok]) (simp_all add: m)
    moreover have "badge_ok A ?n" if "mget (ne_problems n) (problem_key folder name) = None"
      using that NClear w by (intro badge_same [OF ok]) (auto simp: m problem_of_def fun_eq_iff)
    ultimately show ?thesis using NClear some ok by (simp add: node_clearProblem_def Let_def)
  next
    case (NFolderError now folder msg)
    let ?n = "n\<lparr>ne_folderErr := mset_at (ne_folderErr n) folder (classifyProblem msg)\<rparr>"
    have pe: "problem_of ?n = problem_of n" by (rule badge_fields) simp
    have "badge_ok A (recordEvent now (new_event now folder [] C_Error Sev_Warn (''folder error: '' @ classifyProblem msg)) ?n)"
      by (rule badge_Record [OF ok]) (simp_all add: folder_error_of_set pe event_codes)
    then show ?thesis using NFolderError ok some by (simp add: reportFolderError_def Let_def)
  next
    case (NFolderOk now folder)
    let ?n = "n\<lparr>ne_folderErr := mdelete (ne_folderErr n) folder\<rparr>"
    have m: "folder_error_of ?n = (folder_error_of n)((folder, []) := None)" "problem_of ?n = problem_of n"
      by (simp add: folder_error_of_set, intro badge_fields, simp)
    have "badge_ok A (on_store (\<lambda>st. fst (ResolveCondition folder [] C_Error ''system'' now st)) ?n)"
      by (rule badge_Resolve [OF ok]) (simp_all add: m)
    moreover have "badge_ok A ?n" if "mget (ne_folderErr n) folder = None"
      using that by (intro badge_same [OF ok]) (auto simp: m folder_error_of_def fun_eq_iff)
    ultimately show ?thesis using NFolderOk some ok by (simp add: clearFolderError_def Let_def)
  next
    case (NEvent now e)
    then show ?thesis using badge_other [OF ok] w by simp
  next
    case (NAcknowledge now i w)
    then show ?thesis using badge_ack [OF ok] exec_sound by (simp add: Acknowledge_def)
  next
    case (NAcknowledgeCondition now folder path cat w)
    then show ?thesis using badge_ack [OF ok] exec_sound by (simp add: AcknowledgeCondition_def)
  qed
qed

definition new_node_events :: "bool \<Rightarrow> int \<Rightarrow> NodeEvents" where
  "new_node_events alert cooldown = \<lparr>ne_Events = Some new_store, ne_problems = [], ne_folderErr = [], ne_delGuard = [], ne_massChange = [],
     ne_caseColl = [], ne_holdings = [], ne_Alert = alert, ne_alertThrottle = [], ne_alertCooldown = cooldown, ne_pages = [], ne_subs = [],
     ne_nextSub = 0, ne_peerUnsynced = []\<rparr>"

lemma badge_new: "badge_ok False (new_node_events alert cooldown)"
  by (simp add: badge_ok_def new_node_events_def new_store_def sound_def tracks_def problem_of_def folder_error_of_def)

lemma badge_run:
  "badge_ok A n \<Longrightarrow> \<forall>op\<in>set ops. op_ok op \<Longrightarrow> badge_ok (A \<or> (\<exists>op\<in>set ops. is_ack op)) (fold node_op ops n)"
proof (induction ops arbitrary: n A)
  case (Cons op ops)
  then show ?case using Cons.IH [OF badge_step [OF Cons.prems(1), of op]] by (simp add: disj_assoc)
qed simp

text \<open>What the reports say, read off the operations alone: the last word on a file, and the last word on a folder.\<close>

fun note_file :: "NodeOp \<Rightarrow> (string \<times> string \<Rightarrow> string option) \<Rightarrow> string \<times> string \<Rightarrow> string option" where
  "note_file (NReport _ folder name msg) m = m((folder, name) \<mapsto> classifyProblem msg)"
| "note_file (NClear _ folder name) m = m((folder, name) := None)"
| "note_file _ m = m"

fun note_folder :: "NodeOp \<Rightarrow> (string \<Rightarrow> string option) \<Rightarrow> string \<Rightarrow> string option" where
  "note_folder (NFolderError _ folder msg) m = m(folder \<mapsto> classifyProblem msg)"
| "note_folder (NFolderOk _ folder) m = m(folder := None)"
| "note_folder _ m = m"

definition file_problem :: "NodeOp list \<Rightarrow> string \<times> string \<Rightarrow> string option" where
  "file_problem ops = fold note_file ops Map.empty"

definition folder_problem :: "NodeOp list \<Rightarrow> string \<Rightarrow> string option" where
  "folder_problem ops = fold note_folder ops Map.empty"

lemma classifyProblem_text: "classifyProblem msg \<noteq> []"
  by (simp add: classifyProblem_def Let_def)

lemma node_op_notes:
  assumes "ne_Events n \<noteq> None" and "op_ok op"
  shows "problem_of (node_op op n) = note_file op (problem_of n)" and "mget (ne_folderErr (node_op op n)) = note_folder op (mget (ne_folderErr n))"
proof -
  have keep: "problem_of (recordEvent t e n') = problem_of n'" "problem_of (on_store g n') = problem_of n'"
    "problem_of (n'\<lparr>ne_folderErr := d\<rparr>) = problem_of n'" for t e n' g d by (rule badge_fields, simp)+
  have stays: "(problem_of n)((f, p) := Some r) = problem_of n" if "NUL \<notin> set f" "text_at (ne_problems n) (problem_key f p) = r" "r \<noteq> []" for f p r
    using that by (auto simp: fun_eq_iff problem_of_def text_at_def split: option.splits)
  show "problem_of (node_op op n) = note_file op (problem_of n)"
  proof (cases op)
    case (NReport now folder name msg)
    show ?thesis
    proof (cases "text_at (ne_problems n) (problem_key folder name) = classifyProblem msg")
      case True
      then show ?thesis using NReport assms stays [of folder name] classifyProblem_text by (simp add: node_reportProblem_def Let_def)
    next
      case False
      then show ?thesis using NReport assms by (auto simp: node_reportProblem_def Let_def keep problem_of_set)
    qed
  next
    case (NClear now folder name)
    then show ?thesis using assms by (auto simp: node_clearProblem_def Let_def keep problem_of_set)
  qed (use assms in \<open>auto simp: keep reportFolderError_def clearFolderError_def Let_def\<close>)
  show "mget (ne_folderErr (node_op op n)) = note_folder op (mget (ne_folderErr n))"
    using assms
    by (cases op) (auto simp: classifyProblem_text classifyProblem_text [symmetric] fun_eq_iff node_reportProblem_def node_clearProblem_def reportFolderError_def clearFolderError_def Let_def text_at_def
      split: option.splits)
qed

lemma notes_run:
  assumes "\<forall>op\<in>set ops. op_ok op"
  shows "problem_of (fold node_op ops (new_node_events alert cooldown)) = file_problem ops
    \<and> mget (ne_folderErr (fold node_op ops (new_node_events alert cooldown))) = folder_problem ops"
  using assms
proof (induction ops rule: rev_induct)
  case Nil
  show ?case by (simp add: file_problem_def folder_problem_def problem_of_def new_node_events_def fun_eq_iff)
next
  case (snoc op ops)
  have "badge_ok (\<exists>op\<in>set ops. is_ack op) (fold node_op ops (new_node_events alert cooldown))"
    using badge_run [OF badge_new, of ops alert cooldown] snoc.prems by simp
  then have some: "ne_Events (fold node_op ops (new_node_events alert cooldown)) \<noteq> None" by (auto simp: badge_ok_def)
  show ?case using node_op_notes [OF some, of op] snoc by (simp add: file_problem_def folder_problem_def)
qed

text \<open>C20. The badge tells the truth about files and folders that fail. Start a node on an empty store that does not fail, and let it
report and clear problems of files and folders and record other events, with users acknowledging events in between; the other events are
of other categories (a tripped deletion guard is an error event too and is not among them), and the folders' names have no NUL byte. A file
has an open unsynced condition only when the last word on it was a report and not a clear, and a folder has an open error only when the
last word on it was a failure; conversely each file and each folder whose last word is a report or a failure has an event with the text of
exactly that last word, and as long as nobody acknowledged anything the open unsynced and error conditions are exactly these files and
folders.\<close>

theorem badge_tracks_problems:
  assumes "n = fold node_op ops (new_node_events alert cooldown)" and "\<forall>op\<in>set ops. op_ok op"
  shows "\<exists>st. ne_Events n = Some st
    \<and> (\<forall>f p. (f, p, C_Unsynced) \<in> open_conditions st \<longrightarrow> file_problem ops (f, p) \<noteq> None)
    \<and> (\<forall>f p. (f, p, C_Error) \<in> open_conditions st \<longrightarrow> p = [] \<and> folder_problem ops f \<noteq> None)
    \<and> (\<forall>f p r. file_problem ops (f, p) = Some r \<longrightarrow> (\<exists>e\<in>set (es_rows st). cond_of e = (f, p, C_Unsynced) \<and> sv_Reason e = r))
    \<and> (\<forall>f r. folder_problem ops f = Some r \<longrightarrow> (\<exists>e\<in>set (es_rows st). cond_of e = (f, [], C_Error) \<and> sv_Reason e = ''folder error: '' @ r))
    \<and> ((\<forall>op\<in>set ops. \<not> is_ack op) \<longrightarrow>
         (\<forall>f p. (f, p, C_Unsynced) \<in> open_conditions st \<longleftrightarrow> file_problem ops (f, p) \<noteq> None)
         \<and> (\<forall>f p. (f, p, C_Error) \<in> open_conditions st \<longleftrightarrow> p = [] \<and> folder_problem ops f \<noteq> None))"
proof -
  have told: "problem_of n = file_problem ops" "folder_error_of n (f, p) = (if p = [] then map_option (\<lambda>r. ''folder error: '' @ r) (folder_problem ops f) else None)"
    for f p using notes_run [OF assms(2), of alert cooldown] unfolding assms(1) folder_error_of_def by (simp_all only: fst_conv snd_conv)
  have "badge_ok (\<exists>op\<in>set ops. is_ack op) n" using badge_run [OF badge_new assms(2)] by (simp add: assms(1))
  then obtain st where st: "ne_Events n = Some st"
    and u: "tracks (\<exists>op\<in>set ops. is_ack op) C_Unsynced (problem_of n) (es_rows st)"
    and x: "tracks (\<exists>op\<in>set ops. is_ack op) C_Error (folder_error_of n) (es_rows st)" by (auto simp: badge_ok_def)
  have closed: "m (f, p) \<noteq> None" if "tracks A c m (es_rows st)" "(f, p, c) \<in> open_conditions st" for A c m f p
    using that(2) tracks_open [OF that(1)] by (auto simp: open_conditions_def)
  have opened: "(f, p, c) \<in> open_conditions st" if q: "tracks False c m (es_rows st)" "m (f, p) = Some r" for c m f p r
  proof -
    obtain e where "e \<in> set (es_rows st)" "cond_of e = (f, p, c)" "sv_Severity e \<ge> Sev_Warn" "sv_Resolution e = ResOpen"
      using tracks_row [OF q] by blast
    then show ?thesis by (force simp: open_conditions_def attention_def)
  qed
  have a: "file_problem ops (f, p) \<noteq> None" if "(f, p, C_Unsynced) \<in> open_conditions st" for f p
    using closed [OF u that] by (simp add: told)
  have b: "p = [] \<and> folder_problem ops f \<noteq> None" if "(f, p, C_Error) \<in> open_conditions st" for f p
    using closed [OF x that] by (simp add: told split: if_splits)
  have c: "\<exists>e\<in>set (es_rows st). cond_of e = (f, p, C_Unsynced) \<and> sv_Reason e = r" if "file_problem ops (f, p) = Some r" for f p r
    using tracks_row [OF u that [folded told(1)]] by blast
  have d: "\<exists>e\<in>set (es_rows st). cond_of e = (f, [], C_Error) \<and> sv_Reason e = ''folder error: '' @ r" if "folder_problem ops f = Some r" for f r
    using tracks_row [OF x, of f "[]"] that by (auto simp: told)
  have e: "(f, p, C_Unsynced) \<in> open_conditions st" if "\<forall>op\<in>set ops. \<not> is_ack op" "file_problem ops (f, p) \<noteq> None" for f p
    using opened [of C_Unsynced "problem_of n"] u that by (auto simp: told)
  have g: "(f, [], C_Error) \<in> open_conditions st" if "\<forall>op\<in>set ops. \<not> is_ack op" "folder_problem ops f \<noteq> None" for f
    using opened [of C_Error "folder_error_of n" f "[]"] x that by (auto simp: told)
  have iff: "(f, p, C_Unsynced) \<in> open_conditions st \<longleftrightarrow> file_problem ops (f, p) \<noteq> None"
      "(f, p, C_Error) \<in> open_conditions st \<longleftrightarrow> p = [] \<and> folder_problem ops f \<noteq> None" if "\<forall>op\<in>set ops. \<not> is_ack op" for f p
    using a b e [OF that] g [OF that] by blast+
  show ?thesis
    by (intro exI [of _ st] conjI allI impI st a c d iff b [THEN conjunct1] b [THEN conjunct2])
qed

definition busy_file :: "NodeOp list" where
  "busy_file = [NReport 5 ''docs'' ''a.txt'' ''open a.txt: text file busy'', NReport 6 ''docs'' ''b.txt'' ''disk full'',
     NFolderError 6 ''pics'' ''permission denied'', NClear 7 ''docs'' ''b.txt'']"

theorem badge_tracks_problems_witness:
  "\<exists>st. ne_Events (fold node_op busy_file (new_node_events False 0)) = Some st
     \<and> (''docs'', ''a.txt'', C_Unsynced) \<in> open_conditions st \<and> (''docs'', ''b.txt'', C_Unsynced) \<notin> open_conditions st
     \<and> (''pics'', [], C_Error) \<in> open_conditions st"
proof -
  have w: "\<forall>op\<in>set busy_file. op_ok op" and na: "\<forall>op\<in>set busy_file. \<not> is_ack op" by (simp_all add: busy_file_def NUL_def)
  have p: "file_problem busy_file (''docs'', ''a.txt'') \<noteq> None" "file_problem busy_file (''docs'', ''b.txt'') = None" "folder_problem busy_file ''pics'' \<noteq> None"
    by (simp_all add: file_problem_def folder_problem_def busy_file_def)
  obtain st where "ne_Events (fold node_op busy_file (new_node_events False 0)) = Some st"
    and "(f, p, C_Unsynced) \<in> open_conditions st \<longleftrightarrow> file_problem busy_file (f, p) \<noteq> None"
    and "(f, p, C_Error) \<in> open_conditions st \<longleftrightarrow> p = [] \<and> folder_problem busy_file f \<noteq> None" for f p
    using badge_tracks_problems [OF refl w, of False 0] na by (elim exE conjE) (rule that, assumption, metis+)
  then show ?thesis using p by simp
qed

text \<open>An acknowledged problem stays closed while its reason does not change: the throttle returns before \<open>Record\<close>, which would
re-open it.\<close>

definition acked_file :: "NodeOp list" where
  "acked_file = [NReport 5 ''docs'' ''a.txt'' ''disk full'', NAcknowledgeCondition 6 ''docs'' ''a.txt'' C_Unsynced ''admin'',
     NReport 7 ''docs'' ''a.txt'' ''disk full'']"

lemma acknowledged_problem_stays_closed:
  "map_option (\<lambda>st. map sv_Resolution (es_rows st)) (ne_Events (fold node_op acked_file (new_node_events False 0))) = Some [ResAcknowledged]"
  by code_simp

section \<open>Alerts\<close>

definition record_all :: "(int \<times> StoredEvent) list \<Rightarrow> NodeEvents \<Rightarrow> NodeEvents" where
  "record_all evs n = fold (\<lambda>(t, e). recordEvent t e) evs n"

lemma record_all_snoc: "record_all (evs @ [(t, e)]) n = recordEvent t e (record_all evs n)"
  by (simp add: record_all_def)

lemma recordEvent_alert:
  assumes "ne_Events n \<noteq> None"
  shows "ne_pages (recordEvent t e n) = ne_pages (maybeAlert t e n)" "ne_alertThrottle (recordEvent t e n) = ne_alertThrottle (maybeAlert t e n)"
    "ne_Alert (recordEvent t e n) = ne_Alert n" "ne_alertCooldown (recordEvent t e n) = ne_alertCooldown n" "ne_Events (recordEvent t e n) \<noteq> None"
  using assms by (auto simp: recordEvent_def broadcast_def maybeAlert_def split: option.split)

definition spaced :: "int \<Rightarrow> int \<times> StoredEvent \<Rightarrow> int \<times> StoredEvent \<Rightarrow> bool" where
  "spaced cd a b \<longleftrightarrow> (alert_key (snd a) = alert_key (snd b) \<longrightarrow> fst b - fst a \<ge> cd)"

definition paged :: "int \<Rightarrow> (int \<times> StoredEvent) list \<Rightarrow> int \<times> StoredEvent \<Rightarrow> bool" where
  "paged cd pages x \<longleftrightarrow> (page_worthy (snd x) \<longrightarrow> (\<exists>y\<in>set pages. alert_key (snd y) = alert_key (snd x) \<and> fst y \<le> fst x \<and> (fst y = fst x \<or> fst x - fst y < cd)))"

definition alerts_ok :: "int \<Rightarrow> (int \<times> StoredEvent) list \<Rightarrow> NodeEvents \<Rightarrow> bool" where
  "alerts_ok cd evs n \<longleftrightarrow> ne_Events n \<noteq> None \<and> ne_Alert n \<and> ne_alertCooldown n = cd \<and> sorted_wrt (spaced cd) (ne_pages n) \<and> set (ne_pages n) \<subseteq> set evs
     \<and> (\<forall>k t. mget (ne_alertThrottle n) k = Some t \<longrightarrow> (\<exists>y\<in>set (ne_pages n). fst y = t \<and> alert_key (snd y) = k))
     \<and> (\<forall>y\<in>set (ne_pages n). \<exists>t. mget (ne_alertThrottle n) (alert_key (snd y)) = Some t \<and> fst y \<le> t)
     \<and> (\<forall>x\<in>set evs. paged cd (ne_pages n) x) \<and> (\<forall>y\<in>set (ne_pages n). page_worthy (snd y))"

lemma paged_mono: "paged cd pages x \<Longrightarrow> paged cd (pages @ more_pages) x"
  unfolding paged_def by auto

lemma alerts_step:
  assumes ok: "alerts_ok cd evs n" and late: "\<forall>x\<in>set evs. fst x \<le> t"
  shows "alerts_ok cd (evs @ [(t, e)]) (recordEvent t e n)"
proof (cases "page_worthy e")
  case False
  then have "ne_pages (maybeAlert t e n) = ne_pages n" "ne_alertThrottle (maybeAlert t e n) = ne_alertThrottle n" by (simp_all add: maybeAlert_def)
  moreover have "paged cd (ne_pages n) (t, e)" using False by (simp add: paged_def)
  ultimately show ?thesis using ok recordEvent_alert [of n t e] by (auto simp: alerts_ok_def)
next
  case worthy: True
  have al: "ne_Alert n" "ne_alertCooldown n = cd" "ne_Events n \<noteq> None" and sub: "set (ne_pages n) \<subseteq> set evs"
    and th: "\<And>k t. mget (ne_alertThrottle n) k = Some t \<Longrightarrow> \<exists>y\<in>set (ne_pages n). fst y = t \<and> alert_key (snd y) = k"
    and last_page: "\<And>y. y \<in> set (ne_pages n) \<Longrightarrow> \<exists>t. mget (ne_alertThrottle n) (alert_key (snd y)) = Some t \<and> fst y \<le> t"
    using ok unfolding alerts_ok_def by blast+
  note f = recordEvent_alert [OF al(3), of t e]
  show ?thesis
  proof (cases "\<exists>t0. mget (ne_alertThrottle n) (alert_key e) = Some t0 \<and> t - t0 < cd")
    case True
    then obtain t0 where t0: "mget (ne_alertThrottle n) (alert_key e) = Some t0" "t - t0 < cd" by blast
    then obtain y where y: "y \<in> set (ne_pages n)" "fst y = t0" "alert_key (snd y) = alert_key e" using th by blast
    have "maybeAlert t e n = n" using al t0 worthy by (simp add: maybeAlert_def)
    then have same: "ne_pages (recordEvent t e n) = ne_pages n" "ne_alertThrottle (recordEvent t e n) = ne_alertThrottle n" using f by simp_all
    have "fst y \<le> t" using y(1) sub late by blast
    then have "paged cd (ne_pages n) (t, e)" using y t0(2) by (auto simp: paged_def)
    then show ?thesis using ok f unfolding alerts_ok_def same by auto
  next
    case False
    let ?th = "mset_at (ne_alertThrottle n) (alert_key e) t"
    have "maybeAlert t e n = n\<lparr>ne_alertThrottle := ?th, ne_pages := ne_pages n @ [(t, e)]\<rparr>"
      using al False worthy by (auto simp: maybeAlert_def split: option.split)
    then have same: "ne_pages (recordEvent t e n) = ne_pages n @ [(t, e)]" "ne_alertThrottle (recordEvent t e n) = ?th" using f by simp_all
    have space: "spaced cd x (t, e)" if x: "x \<in> set (ne_pages n)" for x
      using last_page [OF x] False by (auto simp: spaced_def)
    have early: "fst y \<le> t" if "y \<in> set (ne_pages n)" for y using that sub late by blast
    have "paged cd (ne_pages n @ [(t, e)]) (t, e)" by (auto simp: paged_def)
    then have cover: "\<forall>x\<in>set (evs @ [(t, e)]). paged cd (ne_pages n @ [(t, e)]) x" using ok by (auto simp: alerts_ok_def intro: paged_mono)
    have backw: "\<forall>k t'. mget ?th k = Some t' \<longrightarrow> (\<exists>y\<in>set (ne_pages n @ [(t, e)]). fst y = t' \<and> alert_key (snd y) = k)"
      using th by auto
    have fwd: "\<forall>y\<in>set (ne_pages n @ [(t, e)]). \<exists>t'. mget ?th (alert_key (snd y)) = Some t' \<and> fst y \<le> t'"
      using last_page early by auto
    have sorted: "sorted_wrt (spaced cd) (ne_pages n @ [(t, e)])" using ok space by (simp add: sorted_wrt_append alerts_ok_def)
    have "set (ne_pages n @ [(t, e)]) \<subseteq> set (evs @ [(t, e)])" using sub by auto
    moreover have "\<forall>y\<in>set (ne_pages n @ [(t, e)]). page_worthy (snd y)" using ok worthy by (auto simp: alerts_ok_def)
    ultimately show ?thesis unfolding alerts_ok_def same f(3,4) using al f(5) cover backw fwd sorted by blast
  qed
qed

text \<open>The key of the throttle stands for the condition as long as no folder's name has a bar.\<close>

lemma alert_key_inj:
  assumes "CHR 0x7C \<notin> set (sv_Folder a)" and "CHR 0x7C \<notin> set (sv_Folder b)"
  shows "alert_key a = alert_key b \<longleftrightarrow> cond_of a = cond_of b"
proof
  assume key: "alert_key a = alert_key b"
  have fol: "takeWhile (\<lambda>c. c \<noteq> CHR 0x7C) (alert_key e) = sv_Folder e" if "CHR 0x7C \<notin> set (sv_Folder e)" for e
    using that unfolding alert_key_def by (induction "sv_Folder e") (auto simp: takeWhile_append)
  have f: "sv_Folder a = sv_Folder b" using fol [OF assms(1)] fol [OF assms(2)] key by simp
  have nobar: "CHR 0x7C \<notin> set (cat_string c)" for c by (cases c) simp_all
  have cat: "takeWhile (\<lambda>c. c \<noteq> CHR 0x7C) (rev (p @ ''|'' @ cat_string c)) = rev (cat_string c)" for p c
    using nobar [of c] by (simp add: takeWhile_append)
  have rest: "sv_Path a @ ''|'' @ cat_string (sv_Category a) = sv_Path b @ ''|'' @ cat_string (sv_Category b)" using key f by (simp add: alert_key_def)
  then have "cat_string (sv_Category a) = cat_string (sv_Category b)" using cat by (metis rev_is_rev_conv)
  moreover from this have "sv_Category a = sv_Category b" by (cases "sv_Category a"; cases "sv_Category b") simp_all
  ultimately show "cond_of a = cond_of b" using f rest by (simp add: cond_of_def)
qed (simp add: alert_key_def cond_of_def)

definition calls_for_page :: "StoredEvent \<Rightarrow> bool" where
  "calls_for_page e \<longleftrightarrow> 1 \<le> sv_Severity e
     \<and> (sv_Category e = C_Error \<or> sv_Category e = C_Peer \<and> (\<exists>a b. sv_Reason e = a @ ''peer offline'' @ b))"

lemma page_worthy_iff: "page_worthy e \<longleftrightarrow> calls_for_page e"
  by (auto simp: page_worthy_def calls_for_page_def Contains_iff sublist_def event_codes)


text \<open>The two conditions the documentation of the alerts also names are never paged.\<close>

lemma guard_and_rebuild_never_paged:
  "ne_pages (reportDeletionGuard now fid msg n) = ne_pages n" "ne_pages (RecordSystem now sev reason n) = ne_pages n"
  by (simp_all add: reportDeletionGuard_def on_store_def RecordSystem_def recordEvent_def broadcast_def maybeAlert_def page_worthy_def new_event_def
      split: option.split)

text \<open>A deletion guard and a failing folder share one condition, so the end of the one closes the other's event while it is still noted.\<close>

lemma guard_end_closes_folder_error:
  "let n = clearDeletionGuard 7 ''docs'' (reportDeletionGuard 6 ''docs'' ''x'' (reportFolderError 5 ''docs'' ''disk full'' (new_node_events False 0)))
   in mget (ne_folderErr n) ''docs'' \<noteq> None \<and> map_option (\<lambda>st. list_all (\<lambda>e. sv_Resolution e \<noteq> ResOpen) (es_rows st)) (ne_Events n) = Some True"
  by code_simp

definition down_event :: StoredEvent where
  "down_event = new_event 0 ''peers'' ''nas'' C_Peer 1 ''peer offline''"

definition tripped_event :: StoredEvent where
  "tripped_event = new_event 3 ''docs'' [] C_Error 1 ''folder error: disk full''"


section \<open>Case collisions\<close>

definition path_Split :: "string \<Rightarrow> string \<times> string" where
  "path_Split p = (rev (dropWhile (\<lambda>c. c \<noteq> CHR ''/'') (rev p)), rev (takeWhile (\<lambda>c. c \<noteq> CHR ''/'') (rev p)))"

definition collision_key :: "string \<Rightarrow> string" where
  "collision_key name = ToLower (fst (path_Split name)) @ NUL # ToLower (snd (path_Split name))"

fun group_names :: "string list \<Rightarrow> (string, string list) gomap \<Rightarrow> (string, string list) gomap" where
  "group_names [] m = m"
| "group_names (name # ns) m =
     group_names ns (mset_at m (collision_key name) ((case mget m (collision_key name) of None \<Rightarrow> [] | Some l \<Rightarrow> l) @ [name]))"

text \<open>\<open>path.Dir\<close> of a directory with its trailing slash, or of the empty text.\<close>

definition collision_dir :: "string \<Rightarrow> string" where
  "collision_dir key = (let d = takeWhile (\<lambda>c. c \<noteq> NUL) key in if d = [] then ''.'' else if d = ''/'' then ''/'' else take (length d - 1) d)"

fun joined :: "string list \<Rightarrow> string" where
  "joined [] = []"
| "joined [n] = n"
| "joined (n # ns) = n @ '' / '' @ joined ns"

definition collision_reason :: "string list \<Rightarrow> string" where
  "collision_reason names = ''case collision: '' @ joined names @ '' differ only by case '' @ em_dash @ '' SMB clients cannot hold both''"

fun report_collisions :: "int \<Rightarrow> string \<Rightarrow> (string \<times> string list) list \<Rightarrow> string set \<Rightarrow> NodeEvents \<Rightarrow> NodeEvents \<times> string set" where
  "report_collisions now fid [] sn n = (n, sn)"
| "report_collisions now fid ((key, names) # gs) sn n =
     (if length names < 2 then report_collisions now fid gs sn n
      else let cond = collision_dir key; reason = collision_reason (sort names); ck = problem_key fid cond;
             n1 = (if text_at (ne_caseColl n) ck \<noteq> reason
               then recordEvent now (new_event now fid cond C_Warning Sev_Warn reason) (n\<lparr>ne_caseColl := mset_at (ne_caseColl n) ck reason\<rparr>) else n) in
           report_collisions now fid gs (insert ck sn) n1)"

fun resolve_collisions :: "int \<Rightarrow> string \<Rightarrow> string list \<Rightarrow> string set \<Rightarrow> NodeEvents \<Rightarrow> NodeEvents" where
  "resolve_collisions now fid [] sn n = n"
| "resolve_collisions now fid (ck # cks) sn n =
     (if HasPrefix ck (fid @ [NUL]) \<and> ck \<notin> sn
      then resolve_collisions now fid cks sn (on_store (\<lambda>st. fst (ResolveCondition fid (drop (length fid + 1) ck) C_Warning ''system'' now st))
        (n\<lparr>ne_caseColl := mdelete (ne_caseColl n) ck\<rparr>))
      else resolve_collisions now fid cks sn n)"

text \<open>The walks over Go maps are in the order \<open>ord\<close> gives the groups, and in the order of insertion for the entries to resolve.\<close>

definition checkCaseCollisions :: "((string \<times> string list) list \<Rightarrow> (string \<times> string list) list) \<Rightarrow> int \<Rightarrow> Node \<Rightarrow> string \<Rightarrow> NodeEvents \<Rightarrow> NodeEvents" where
  "checkCaseCollisions ord now nd fid n =
     (case mget (nd_Folders nd) fid of
        None \<Rightarrow> n
      | Some f \<Rightarrow>
          if ne_Events n = None then n
          else let names = map Name (filter (\<lambda>fi. \<not> Deleted fi \<and> \<not> HasSuffix (Name fi) ConflictSuffix) (listed (Ix (fo_Engine f))));
                 (n1, sn) = report_collisions now fid (ord (group_names names [])) {} n in
            resolve_collisions now fid (mkeys (ne_caseColl n1)) sn n1)"

section \<open>Reconciling and exchanging the unsynced view\<close>

definition unsynced_filter :: "string \<Rightarrow> EventFilter" where
  "unsynced_filter fid = \<lparr>ef_Folder = fid, ef_Path = [], ef_Category = Some C_Unsynced, ef_MinSeverity = None, ef_OpenOnly = True, ef_Limit = 0,
     ef_AfterID = 0, ef_Since = 0, ef_PeerID = 0, ef_PeerName = [], ef_Self = False\<rparr>"

definition unsyncedDirections :: "int \<Rightarrow> Engine \<Rightarrow> Engine \<times> string list \<times> string list" where
  "unsyncedDirections now e =
     (let (e1, pulls) = NeedPulls now e; (e2, ups) = PendingUploads now e1 in
        (e2, (case pulls of Inl _ \<Rightarrow> [] | Inr l \<Rightarrow> l), (case ups of Inl _ \<Rightarrow> [] | Inr l \<Rightarrow> l)))"

definition dirTag :: "bool \<Rightarrow> bool \<Rightarrow> string" where
  "dirTag down up = (if down \<and> up then ''both'' else if down then ''down'' else if up then ''up'' else [])"

definition maxUnsyncedPerFolder :: nat where
  "maxUnsyncedPerFolder = 200"

text \<open>The first event of each path, newest first; events without a path are skipped.\<close>

fun first_per_path :: "string set \<Rightarrow> StoredEvent list \<Rightarrow> StoredEvent list" where
  "first_per_path sn [] = []"
| "first_per_path sn (e # es) =
     (if sv_Path e = [] \<or> sv_Path e \<in> sn then first_per_path sn es else e # first_per_path (insert (sv_Path e) sn) es)"

definition folder_engine :: "string \<Rightarrow> Folder \<Rightarrow> Engine \<Rightarrow> Node \<Rightarrow> Node" where
  "folder_engine fid f e nd = nd\<lparr>nd_Folders := mset_at (nd_Folders nd) fid (f\<lparr>fo_Engine := e\<rparr>)\<rparr>"

definition eventMsgFor :: "int \<Rightarrow> string \<Rightarrow> Node \<Rightarrow> NodeEvents \<Rightarrow> Node \<times> NodeEvents \<times> EventMsg option" where
  "eventMsgFor now fid nd n =
     (case mget (nd_Folders nd) fid of
        None \<Rightarrow> (nd, n, None)
      | Some f \<Rightarrow>
          (case ne_Events n of
             None \<Rightarrow> (nd, n, Some \<lparr>em_Folder = fid, em_Entries = []\<rparr>)
           | Some st \<Rightarrow>
               (case events_query (unsynced_filter fid) st of
                  (st1, Inl _) \<Rightarrow> (nd, n\<lparr>ne_Events := Some st1\<rparr>, Some \<lparr>em_Folder = fid, em_Entries = []\<rparr>)
                | (st1, Inr evs) \<Rightarrow>
                    (let (e, down, up) = unsyncedDirections now (fo_Engine f);
                         out = sort_key ue_Path (map (\<lambda>ev. \<lparr>ue_Path = sv_Path ev, ue_Reason = sv_Reason ev,
                           ue_Dir = dirTag (sv_Path ev \<in> set down) (sv_Path ev \<in> set up)\<rparr>) (first_per_path {} evs)) in
                      (folder_engine fid f e nd, n\<lparr>ne_Events := Some st1\<rparr>, Some \<lparr>em_Folder = fid, em_Entries = take maxUnsyncedPerFolder out\<rparr>)))))"

definition protocolUnsyncedState :: int where
  "protocolUnsyncedState = 2"

fun send_states :: "int \<Rightarrow> string list \<Rightarrow> Node \<Rightarrow> NodeEvents \<Rightarrow> Conn \<Rightarrow> Node \<times> NodeEvents \<times> Conn \<times> go_error option" where
  "send_states now [] nd n c = (nd, n, c, None)"
| "send_states now (fid # fids) nd n c =
     (case eventMsgFor now fid nd n of
        (nd1, n1, None) \<Rightarrow> send_states now fids nd1 n1 c
      | (nd1, n1, Some em) \<Rightarrow>
          (case Send ((bare MsgEvent)\<lparr>m_Event := Some em\<rparr>) c of
             (c1, Some err) \<Rightarrow> (nd1, n1, c1, Some err) | (c1, None) \<Rightarrow> send_states now fids nd1 n1 c1))"

definition sendUnsyncedStates :: "int \<Rightarrow> string list \<Rightarrow> Node \<Rightarrow> NodeEvents \<Rightarrow> Conn \<Rightarrow> Node \<times> NodeEvents \<times> Conn \<times> go_error option" where
  "sendUnsyncedStates now fids nd n c = (if cn_PeerProtocol c < protocolUnsyncedState then (nd, n, c, None) else send_states now fids nd n c)"

definition StorePeerUnsynced :: "Node \<Rightarrow> uint64 \<Rightarrow> string \<Rightarrow> UnsyncedEntry list \<Rightarrow> NodeEvents \<Rightarrow> NodeEvents" where
  "StorePeerUnsynced nd peerID folder ents n =
     (if peerID = 0 \<or> folder = [] \<or> mget (nd_Folders nd) folder = None then n
      else let byFolder = (case mget (ne_peerUnsynced n) peerID of None \<Rightarrow> [] | Some m \<Rightarrow> m) in
        n\<lparr>ne_peerUnsynced := mset_at (ne_peerUnsynced n) peerID (mset_at byFolder folder (take maxUnsyncedPerFolder ents))\<rparr>)"

definition PeerUnsynced :: "uint64 \<Rightarrow> string \<Rightarrow> NodeEvents \<Rightarrow> UnsyncedEntry list option" where
  "PeerUnsynced peerID folder n = (case mget (ne_peerUnsynced n) peerID of None \<Rightarrow> None | Some m \<Rightarrow> mget m folder)"

definition clearPeerUnsynced :: "uint64 \<Rightarrow> NodeEvents \<Rightarrow> NodeEvents" where
  "clearPeerUnsynced peerID n = n\<lparr>ne_peerUnsynced := mdelete (ne_peerUnsynced n) peerID\<rparr>"

definition storeEventMsg :: "Node \<Rightarrow> uint64 \<Rightarrow> Message \<Rightarrow> NodeEvents \<Rightarrow> NodeEvents" where
  "storeEventMsg nd peerID m n = (case m_Event m of None \<Rightarrow> n | Some em \<Rightarrow> StorePeerUnsynced nd peerID (em_Folder em) (em_Entries em) n)"

definition peerConfirmedGone :: "string \<Rightarrow> bool" where
  "peerConfirmedGone reason = Contains reason ''code 2''"

fun reconcile_paths :: "int \<Rightarrow> string \<Rightarrow> Engine \<Rightarrow> string list \<Rightarrow> string list \<Rightarrow> StoredEvent list \<Rightarrow> NodeEvents \<Rightarrow> NodeEvents" where
  "reconcile_paths now fid e down up [] n = n"
| "reconcile_paths now fid e down up (ev # evs) n =
     reconcile_paths now fid e down up evs
       (if sv_Path ev \<in> set down \<or> sv_Path ev \<in> set up \<or> InFlight e (sv_Path ev)
           \<or> (case Ix_Get (Ix e) (sv_Path ev) of Inl _ \<Rightarrow> True | Inr fi \<Rightarrow> fi = None \<and> \<not> peerConfirmedGone (sv_Reason ev)) then n
        else case ne_Events n of
            None \<Rightarrow> n
          | Some st \<Rightarrow>
              (case ResolveAutoCondition fid (sv_Path ev) C_Unsynced ''system'' now st of
                 (st1, Some _) \<Rightarrow> n\<lparr>ne_Events := Some st1\<rparr>
               | (st1, None) \<Rightarrow> n\<lparr>ne_Events := Some st1, ne_problems := mdelete (ne_problems n) (problem_key fid (sv_Path ev))\<rparr>))"

definition reconcileUnsynced :: "int \<Rightarrow> string \<Rightarrow> Node \<Rightarrow> NodeEvents \<Rightarrow> Node \<times> NodeEvents" where
  "reconcileUnsynced now fid nd n =
     (case ne_Events n of
        None \<Rightarrow> (nd, n)
      | Some st \<Rightarrow>
          (case mget (nd_Folders nd) fid of
             None \<Rightarrow> (nd, n)
           | Some f \<Rightarrow>
               (case events_query (unsynced_filter fid) st of
                  (st1, Inl _) \<Rightarrow> (nd, n\<lparr>ne_Events := Some st1\<rparr>)
                | (st1, Inr evs) \<Rightarrow>
                    (if evs = [] then (nd, n\<lparr>ne_Events := Some st1\<rparr>)
                     else let (e, down, up) = unsyncedDirections now (fo_Engine f) in
                       (folder_engine fid f e nd, reconcile_paths now fid e down up (first_per_path {} evs) (n\<lparr>ne_Events := Some st1\<rparr>))))))"

lemma first_per_path_paths:
  "set (map sv_Path (first_per_path sn es)) = set (map sv_Path es) - {[]} - sn \<and> distinct (map sv_Path (first_per_path sn es))"
  by (induction sn es rule: first_per_path.induct) auto

lemma first_per_path_newest:
  assumes "sorted_wrt (\<lambda>a b. sv_ID b < sv_ID a) es" and "e \<in> set (first_per_path sn es)"
  shows "e \<in> set es \<and> (\<forall>e'\<in>set es. sv_Path e' = sv_Path e \<longrightarrow> sv_ID e' \<le> sv_ID e)"
  using assms
proof (induction sn es rule: first_per_path.induct)
  case (2 sn x es)
  have IH: "e \<in> set es \<and> (\<forall>e'\<in>set es. sv_Path e' = sv_Path e \<longrightarrow> sv_ID e' \<le> sv_ID e)" if "e \<in> set (first_per_path sn' es)"
    "sn' = sn \<and> (sv_Path x = [] \<or> sv_Path x \<in> sn) \<or> sn' = insert (sv_Path x) sn \<and> \<not> (sv_Path x = [] \<or> sv_Path x \<in> sn)" for sn'
    using that 2 by auto
  have paths: "sv_Path e \<notin> insert [] sn'" if "e \<in> set (first_per_path sn' es)" for sn'
    using that first_per_path_paths [of sn' es] by force
  show ?case
  proof (cases "sv_Path x = [] \<or> sv_Path x \<in> sn")
    case True
    then have e: "e \<in> set (first_per_path sn es)" using 2(4) by simp
    then have "sv_Path e \<noteq> sv_Path x" using paths [OF e] True by auto
    then show ?thesis using IH [OF e] True by auto
  next
    case False
    then consider "e = x" | "e \<in> set (first_per_path (insert (sv_Path x) sn) es)" using 2(4) by auto
    then show ?thesis
    proof cases
      case 1
      then show ?thesis using 2(3) by (auto simp: less_imp_le)
    next
      case 2
      then show ?thesis using IH [OF 2] paths [OF 2] False by auto
    qed
  qed
qed simp

lemma unsynced_query:
  assumes "sound st" and "fid \<noteq> []"
  shows "\<exists>st1. events_query (unsynced_filter fid) st
      = (st1, Inr (rev (filter (\<lambda>e. attention e \<and> sv_Folder e = fid \<and> sv_Category e = C_Unsynced) (es_rows st))))
    \<and> es_rows st1 = es_rows st \<and> sound st1"
proof -
  have "selects (unsynced_filter fid) = (\<lambda>e. attention e \<and> sv_Folder e = fid \<and> sv_Category e = C_Unsynced)"
    using assms(2) by (auto simp: selects_def unsynced_filter_def fun_eq_iff)
  then show ?thesis using assms by (simp add: events_query_def unsynced_filter_def sound_def Let_def)
qed

lemma unsynced_paths:
  "set (map sv_Path (rev (filter (\<lambda>e. attention e \<and> sv_Folder e = fid \<and> sv_Category e = C_Unsynced) (es_rows st))))
    = {p. (fid, p, C_Unsynced) \<in> open_conditions st}"
  by (auto simp: open_conditions_def image_iff cond_of_def)

lemma view_sorted:
  assumes "distinct (map sv_Path evs)"
  shows "map ue_Path (sort_key ue_Path (map (\<lambda>ev. \<lparr>ue_Path = sv_Path ev, ue_Reason = g ev, ue_Dir = h ev\<rparr>) evs))
    = sorted_list_of_set (set (map sv_Path evs))"
proof -
  let ?l = "map (\<lambda>ev. \<lparr>ue_Path = sv_Path ev, ue_Reason = g ev, ue_Dir = h ev\<rparr>) evs"
  have m: "map ue_Path ?l = map sv_Path evs" by simp
  have "sorted (map ue_Path (sort_key ue_Path ?l))" by simp
  moreover have "mset (map ue_Path (sort_key ue_Path ?l)) = mset (map sv_Path evs)"
  proof -
    have "mset (map ue_Path (sort_key ue_Path ?l)) = image_mset ue_Path (mset ?l)" by (simp only: mset_map mset_sort)
    also have "\<dots> = mset (map ue_Path ?l)" by (simp only: mset_map)
    finally show ?thesis unfolding m .
  qed
  ultimately have "map ue_Path (sort_key ue_Path ?l) = sort (map sv_Path evs)" by (metis properties_for_sort)
  then show ?thesis using assms by (simp add: sorted_list_of_set_sort_remdups distinct_remdups_id del: set_map)
qed

text \<open>C22. What a peer shows of this device's unsynced files is what this device says of itself. At the end of a round a device builds its
message for a folder and the peer stores it, whatever the peer held before; the peer then lists exactly the paths with an open unsynced
condition, in order and at most two hundred of them, each with the reason of the newest event of that path, and what it holds of other
folders and other peers is untouched.\<close>

theorem unsynced_view_exchanged:
  assumes "ne_Events n = Some st" and "sound st" and "store_ok st" and "mget (nd_Folders nd) fid \<noteq> None" and "fid \<noteq> []"
    and "mget (nd_Folders nd') fid \<noteq> None" and "peerID \<noteq> 0"
  shows "\<exists>em es. snd (snd (eventMsgFor now fid nd n)) = Some em
    \<and> PeerUnsynced peerID fid (storeEventMsg nd' peerID ((bare MsgEvent)\<lparr>m_Event := Some em\<rparr>) n') = Some es
    \<and> map ue_Path es = take 200 (sorted_list_of_set {p. p \<noteq> [] \<and> (fid, p, C_Unsynced) \<in> open_conditions st})
    \<and> (\<forall>u\<in>set es. \<exists>e\<in>set (es_rows st). attention e \<and> cond_of e = (fid, ue_Path u, C_Unsynced) \<and> sv_Reason e = ue_Reason u
         \<and> (\<forall>e'\<in>set (es_rows st). attention e' \<and> cond_of e' = cond_of e \<longrightarrow> sv_ID e' \<le> sv_ID e))
    \<and> (\<forall>peer folder. (peer, folder) \<noteq> (peerID, fid)
         \<longrightarrow> PeerUnsynced peer folder (storeEventMsg nd' peerID ((bare MsgEvent)\<lparr>m_Event := Some em\<rparr>) n') = PeerUnsynced peer folder n')"
proof -
  let ?evs = "rev (filter (\<lambda>e. attention e \<and> sv_Folder e = fid \<and> sv_Category e = C_Unsynced) (es_rows st))"
  obtain f where f: "mget (nd_Folders nd) fid = Some f" using assms(4) by blast
  obtain st1 where q: "events_query (unsynced_filter fid) st = (st1, Inr ?evs)" using unsynced_query [OF assms(2,5)] by blast
  obtain e down up where d: "unsyncedDirections now (fo_Engine f) = (e, down, up)" by (cases "unsyncedDirections now (fo_Engine f)") auto
  define out where "out = sort_key ue_Path (map (\<lambda>ev. \<lparr>ue_Path = sv_Path ev, ue_Reason = sv_Reason ev,
    ue_Dir = dirTag (sv_Path ev \<in> set down) (sv_Path ev \<in> set up)\<rparr>) (first_per_path {} ?evs))"
  define em where "em = \<lparr>em_Folder = fid, em_Entries = take 200 out\<rparr>"
  have msg: "snd (snd (eventMsgFor now fid nd n)) = Some em"
    using f q d assms(1) by (simp add: eventMsgFor_def em_def out_def maxUnsyncedPerFolder_def)
  have stored: "PeerUnsynced peer folder (storeEventMsg nd' peerID ((bare MsgEvent)\<lparr>m_Event := Some em\<rparr>) n')
      = (if (peer, folder) = (peerID, fid) then Some (take 200 out) else PeerUnsynced peer folder n')" for peer folder
    using assms(5-7) by (auto simp: PeerUnsynced_def storeEventMsg_def StorePeerUnsynced_def em_def maxUnsyncedPerFolder_def bare_def split: option.split)
  have "map ue_Path out = sorted_list_of_set {p. p \<noteq> [] \<and> (fid, p, C_Unsynced) \<in> open_conditions st}"
    using first_per_path_paths [of "{}" ?evs] unsynced_paths [of fid st] view_sorted [of "first_per_path {} ?evs" sv_Reason]
    unfolding out_def by (simp add: set_diff_eq conj_commute)
  then have paths: "map ue_Path (take 200 out) = take 200 (sorted_list_of_set {p. p \<noteq> [] \<and> (fid, p, C_Unsynced) \<in> open_conditions st})"
    by (simp add: take_map [symmetric])
  have newest: "sorted_wrt (\<lambda>a b. sv_ID b < sv_ID a) ?evs" using assms(3)
    by (simp add: store_ok_def sorted_wrt_map sorted_wrt_rev sorted_wrt_filter)
  have row: "\<exists>e\<in>set (es_rows st). attention e \<and> cond_of e = (fid, ue_Path u, C_Unsynced) \<and> sv_Reason e = ue_Reason u
      \<and> (\<forall>e'\<in>set (es_rows st). attention e' \<and> cond_of e' = cond_of e \<longrightarrow> sv_ID e' \<le> sv_ID e)" if u: "u \<in> set (take 200 out)" for u
  proof -
    obtain ev where ev: "ev \<in> set (first_per_path {} ?evs)" "ue_Path u = sv_Path ev" "ue_Reason u = sv_Reason ev"
      using in_set_takeD [OF u] by (auto simp: out_def)
    from first_per_path_newest [OF newest ev(1)] show ?thesis using ev(2,3) by (intro bexI [of _ ev]) (auto simp: cond_of_def)
  qed
  show ?thesis using msg stored paths row by (intro exI [of _ em] exI [of _ "take 200 out"]) simp
qed

section \<open>Reconciliation\<close>

definition converged :: "Engine \<Rightarrow> string list \<Rightarrow> string list \<Rightarrow> StoredEvent \<Rightarrow> bool" where
  "converged e down up ev \<longleftrightarrow> sv_Path ev \<notin> set down \<and> sv_Path ev \<notin> set up \<and> \<not> InFlight e (sv_Path ev)
     \<and> (case Ix_Get (Ix e) (sv_Path ev) of Inl _ \<Rightarrow> False | Inr fi \<Rightarrow> fi \<noteq> None \<or> peerConfirmedGone (sv_Reason ev))"

lemma ResolveAuto_sound:
  assumes "sound st"
  shows "snd (ResolveAutoCondition f p c w now st) = None" "sound (fst (ResolveAutoCondition f p c w now st))"
    "open_conditions (fst (ResolveAutoCondition f p c w now st)) = open_conditions st - {(f, p, c)}"
  using assms close_conditions [of ResAutoResolved "(f, p, c)" w now "es_rows st"]
  by (simp_all add: ResolveAutoCondition_def exec_rows_def sound_def open_conditions_def event_codes Let_def)

lemma reconcile_loop:
  assumes "ne_Events n = Some st" "sound st"
  shows "\<exists>st'. ne_Events (reconcile_paths now fid e down up evs n) = Some st'
    \<and> open_conditions st' = open_conditions st - {(fid, sv_Path ev, C_Unsynced) | ev. ev \<in> set evs \<and> converged e down up ev}
    \<and> (\<forall>k. mget (ne_problems (reconcile_paths now fid e down up evs n)) k
         = (if \<exists>ev\<in>set evs. converged e down up ev \<and> k = problem_key fid (sv_Path ev) then None else mget (ne_problems n) k))"
  using assms
proof (induction evs arbitrary: n st)
  case (Cons ev evs)
  have skip: "(sv_Path ev \<in> set down \<or> sv_Path ev \<in> set up \<or> InFlight e (sv_Path ev)
      \<or> (case Ix_Get (Ix e) (sv_Path ev) of Inl _ \<Rightarrow> True | Inr fi \<Rightarrow> fi = None \<and> \<not> peerConfirmedGone (sv_Reason ev))) = (\<not> converged e down up ev)"
    by (auto simp: converged_def split: sum.split)
  show ?case
  proof (cases "converged e down up ev")
    case False
    then have "reconcile_paths now fid e down up (ev # evs) n = reconcile_paths now fid e down up evs n" by (simp add: skip)
    then show ?thesis using Cons.IH [OF Cons.prems] False by auto
  next
    case True
    obtain st1 where r: "ResolveAutoCondition fid (sv_Path ev) C_Unsynced ''system'' now st = (st1, None)"
      using ResolveAuto_sound(1) [OF Cons.prems(2)] by (metis prod.collapse)
    have st1: "sound st1" "open_conditions st1 = open_conditions st - {(fid, sv_Path ev, C_Unsynced)}"
      using ResolveAuto_sound(2,3) [OF Cons.prems(2), of fid "sv_Path ev" C_Unsynced "''system''" now] r by simp_all
    let ?n = "n\<lparr>ne_Events := Some st1, ne_problems := mdelete (ne_problems n) (problem_key fid (sv_Path ev))\<rparr>"
    have step: "reconcile_paths now fid e down up (ev # evs) n = reconcile_paths now fid e down up evs ?n"
      using True Cons.prems(1) r by (simp add: skip)
    show ?thesis unfolding step using Cons.IH [of ?n st1] st1 True by auto
  qed
qed simp

lemma directions_exact:
  assumes "read_ok e" and "pending_inv e"
  obtains e' down up r where "unsyncedDirections now e = (e', down, up)" "set down = {n. want_in r e n}" "set up = {n. want_up e n}"
    "Ix e' = Ix e" "InFlight e' = InFlight e"
proof -
  obtain e1 r where e1: "ensurePendingLocked now e = (e1, None)" "pc_pulls e1 = walk_pulls (e\<lparr>map_ord := r\<rparr>)" "pending_inv e1"
    "want_up e1 = want_up e" "Ix e1 = Ix e" "peers e1 = peers e" "inflight e1 = inflight e"
    using ensure_exact [OF assms, of now] by (elim exE conjE) (rule that)
  have "read_ok e1" using assms(1) e1(5,6) by (simp add: read_ok_def)
  then obtain e2 where e2: "ensurePendingLocked now e1 = (e2, None)" "pc_ups e2 = walk_ups e1" "Ix e2 = Ix e1" "inflight e2 = inflight e1"
    using ensure_exact [OF _ e1(3)] by blast
  have "unsyncedDirections now e = (e2, walk_pulls (e\<lparr>map_ord := r\<rparr>), walk_ups e1)"
    using e1 e2 by (simp add: unsyncedDirections_def NeedPulls_def PendingUploads_def)
  moreover have "InFlight e2 = InFlight e" using e1(7) e2(4) by (simp add: InFlight_def fun_eq_iff)
  moreover have "read_ok (e\<lparr>map_ord := r\<rparr>)" using assms(1) by (simp add: read_ok_def)
  ultimately show thesis
    using that compute_pulls(2) [of "e\<lparr>map_ord := r\<rparr>"] compute_ups(2) [OF \<open>read_ok e1\<close>] e1(4,5) e2(3) by (simp add: want_in_def)
qed

text \<open>What a path needs for its flag to be stale: nothing wants it, in the order the peers were asked, it is not being written, and it has an index
row or else the newest of its open events says that the peer answered with code 2, the file is gone.\<close>

definition stale_flag :: "(string \<Rightarrow> uint64 \<Rightarrow> nat) \<Rightarrow> Engine \<Rightarrow> StoredEvent list \<Rightarrow> string \<Rightarrow> string \<Rightarrow> bool" where
  "stale_flag r E rows fid p \<longleftrightarrow> p \<noteq> [] \<and> \<not> want_in r E p \<and> \<not> want_up E p \<and> \<not> InFlight E p
     \<and> (\<exists>ev\<in>set rows. attention ev \<and> cond_of ev = (fid, p, C_Unsynced)
          \<and> (\<forall>ev'\<in>set rows. attention ev' \<and> cond_of ev' = (fid, p, C_Unsynced) \<longrightarrow> sv_ID ev' \<le> sv_ID ev)
          \<and> (entry (Ix E) p \<noteq> None \<or> (\<exists>a b. sv_Reason ev = a @ ''code 2'' @ b)))"

lemma gone_text: "peerConfirmedGone reason \<longleftrightarrow> (\<exists>a b. reason = a @ ''code 2'' @ b)"
  by (simp add: peerConfirmedGone_def Contains_iff sublist_def)

lemma converged_iff_stale:
  assumes "store_ok st" and "Ix_Get (Ix e) p = Inr (entry (Ix E) p)" and "InFlight e p = InFlight E p"
    and "p \<in> set down \<longleftrightarrow> want_in r E p" and "p \<in> set up \<longleftrightarrow> want_up E p"
  shows "(\<exists>ev \<in> set (first_per_path {} (rev (filter (\<lambda>e. attention e \<and> sv_Folder e = fid \<and> sv_Category e = C_Unsynced) (es_rows st)))).
      converged e down up ev \<and> sv_Path ev = p) \<longleftrightarrow> stale_flag r E (es_rows st) fid p"
    (is "(\<exists>ev\<in>set ?first. _ ev) \<longleftrightarrow> _")
proof -
  let ?evs = "rev (filter (\<lambda>e. attention e \<and> sv_Folder e = fid \<and> sv_Category e = C_Unsynced) (es_rows st))"
  have srt: "sorted_wrt (\<lambda>a b. sv_ID b < sv_ID a) ?evs" and ids: "distinct (map sv_ID (es_rows st))"
    using assms(1) strict_sorted_iff [of "map sv_ID (es_rows st)"] by (simp_all add: store_ok_def sorted_wrt_map sorted_wrt_rev sorted_wrt_filter)
  have conv: "converged e down up ev \<longleftrightarrow> \<not> want_in r E p \<and> \<not> want_up E p \<and> \<not> InFlight E p
      \<and> (entry (Ix E) p \<noteq> None \<or> (\<exists>a b. sv_Reason ev = a @ ''code 2'' @ b))" if "sv_Path ev = p" for ev
    using that assms(2-5) by (simp add: converged_def gone_text)
  have row: "ev \<in> set (es_rows st) \<and> attention ev \<and> cond_of ev = (fid, sv_Path ev, C_Unsynced) \<and> sv_Path ev \<noteq> []
      \<and> (\<forall>ev'\<in>set (es_rows st). attention ev' \<and> cond_of ev' = (fid, sv_Path ev, C_Unsynced) \<longrightarrow> sv_ID ev' \<le> sv_ID ev)"
    if "ev \<in> set ?first" for ev
    using first_per_path_newest [OF srt that] that first_per_path_paths [of "{}" ?evs] by (force simp: cond_of_def)
  show ?thesis
  proof
    assume "\<exists>ev\<in>set ?first. converged e down up ev \<and> sv_Path ev = p"
    then obtain ev where "ev \<in> set ?first" "converged e down up ev" "sv_Path ev = p" by blast
    then show "stale_flag r E (es_rows st) fid p" using row [of ev] conv [of ev] unfolding stale_flag_def by blast
  next
    assume g: "stale_flag r E (es_rows st) fid p"
    then obtain ev where ev: "ev \<in> set (es_rows st)" "attention ev" "cond_of ev = (fid, p, C_Unsynced)"
      "\<forall>ev'\<in>set (es_rows st). attention ev' \<and> cond_of ev' = (fid, p, C_Unsynced) \<longrightarrow> sv_ID ev' \<le> sv_ID ev"
      "entry (Ix E) p \<noteq> None \<or> (\<exists>a b. sv_Reason ev = a @ ''code 2'' @ b)" unfolding stale_flag_def by blast
    have "ev \<in> set ?evs" "sv_Path ev = p" "p \<noteq> []" using ev(1-3) g by (simp_all add: sv_cond stale_flag_def)
    then have "p \<in> set (map sv_Path ?first)" using first_per_path_paths [of "{}" ?evs] by force
    then obtain ev0 where ev0: "ev0 \<in> set ?first" "sv_Path ev0 = p" by auto
    have "sv_ID ev0 = sv_ID ev" using row [OF ev0(1)] ev ev0(2) by (simp add: order_antisym)
    then have "ev0 = ev" using ids row [OF ev0(1)] ev(1) by (auto simp: distinct_map dest: inj_onD)
    then show "\<exists>ev\<in>set ?first. converged e down up ev \<and> sv_Path ev = p"
      using ev0 ev(5) g conv [OF ev0(2)] by (auto simp: stale_flag_def)
  qed
qed

text \<open>C21. Reconciling heals the stale flags, all of them and only those. For some order in which the peers were asked, the open conditions
after it are those before it without the unsynced ones of the folder whose path neither this device wants from a peer nor a peer wants from
it, that is not being written, and that has an index row or, without one, whose newest open event carries the text \<open>code 2\<close> of a peer that
confirmed the file gone. The throttle entries of exactly the closed paths are forgotten, so that their next failure is reported again, and
every other throttle entry is as before.\<close>

theorem reconcile_closes_converged:
  assumes "ne_Events n = Some st" and "sound st" and "store_ok st" and "mget (nd_Folders nd) fid = Some f" and "fid \<noteq> []" and "E = fo_Engine f"
    and "read_ok E" and "pending_inv E"
  shows "\<exists>st' r. ne_Events (snd (reconcileUnsynced now fid nd n)) = Some st'
    \<and> open_conditions st' = open_conditions st - {(fid, p, C_Unsynced) | p. stale_flag r E (es_rows st) fid p}
    \<and> (\<forall>k. mget (ne_problems (snd (reconcileUnsynced now fid nd n))) k
         = (if \<exists>p. stale_flag r E (es_rows st) fid p \<and> k = fid @ [NUL] @ p then None else mget (ne_problems n) k))"
proof -
  obtain e down up r where dirs: "unsyncedDirections now (fo_Engine f) = (e, down, up)" "set down = {n. want_in r E n}" "set up = {n. want_up E n}"
    "Ix e = Ix E" "InFlight e = InFlight E" using directions_exact [OF assms(7,8), of now] unfolding assms(6) .
  let ?evs = "rev (filter (\<lambda>e. attention e \<and> sv_Folder e = fid \<and> sv_Category e = C_Unsynced) (es_rows st))"
  obtain st1 where q: "events_query (unsynced_filter fid) st = (st1, Inr ?evs)" "es_rows st1 = es_rows st" "sound st1"
    using unsynced_query [OF assms(2,5)] by blast
  have same: "open_conditions st1 = open_conditions st" using q(2) by (simp add: open_conditions_def)
  define n1 where "n1 = reconcile_paths now fid e down up (first_per_path {} ?evs) (n\<lparr>ne_Events := Some st1\<rparr>)"
  have n1: "?evs \<noteq> [] \<Longrightarrow> snd (reconcileUnsynced now fid nd n) = n1" "?evs = [] \<Longrightarrow> snd (reconcileUnsynced now fid nd n) = n1"
    using assms(1,4) dirs(1) q(1) by (simp_all add: reconcileUnsynced_def n1_def)
  have stale: "(\<exists>ev\<in>set (first_per_path {} ?evs). converged e down up ev \<and> sv_Path ev = p) \<longleftrightarrow> stale_flag r E (es_rows st) fid p" for p
    by (rule converged_iff_stale [OF assms(3)]) (use read_ok_Get [OF assms(7)] dirs(2-5) in auto)
  have "ne_Events (n\<lparr>ne_Events := Some st1\<rparr>) = Some st1" by simp
  from reconcile_loop [OF this q(3), of now fid e down up "first_per_path {} ?evs", folded n1_def]
  obtain st' where st': "ne_Events n1 = Some st'"
    "open_conditions st' = open_conditions st - {(fid, sv_Path ev, C_Unsynced) | ev. ev \<in> set (first_per_path {} ?evs) \<and> converged e down up ev}"
    "\<forall>k. mget (ne_problems n1) k = (if \<exists>ev\<in>set (first_per_path {} ?evs). converged e down up ev \<and> k = problem_key fid (sv_Path ev)
        then None else mget (ne_problems (n\<lparr>ne_Events := Some st1\<rparr>)) k)"
    unfolding same by (elim exE conjE) (rule that)
  have closed: "{(fid, sv_Path ev, C_Unsynced) | ev. ev \<in> set (first_per_path {} ?evs) \<and> converged e down up ev}
      = {(fid, p, C_Unsynced) | p. stale_flag r E (es_rows st) fid p}"
    by (auto simp flip: stale)
  have keys: "(\<exists>ev\<in>set (first_per_path {} ?evs). converged e down up ev \<and> k = problem_key fid (sv_Path ev))
      \<longleftrightarrow> (\<exists>p. stale_flag r E (es_rows st) fid p \<and> k = fid @ [NUL] @ p)" for k
    by (auto simp: problem_key_def simp flip: stale)
  have pr: "ne_problems (n\<lparr>ne_Events := Some st1\<rparr>) = ne_problems n" by simp
  have m: "mget (ne_problems n1) k
      = (if \<exists>p. stale_flag r E (es_rows st) fid p \<and> k = fid @ [NUL] @ p then None else mget (ne_problems n) k)" for k
    using st'(3) [rule_format, of k] unfolding keys pr .
  have res: "snd (reconcileUnsynced now fid nd n) = n1" using n1 by blast
  show ?thesis unfolding res
    by (intro exI [of _ st'] exI [of _ r] conjI allI st'(1) st'(2) [unfolded closed] m)
qed

text \<open>A refused block never reads as the peer confirming the file gone: \<open>classifyProblem\<close> replaces the text of the error, code included.\<close>

lemma gone_reason_never_recorded:
  "\<not> peerConfirmedGone (classifyProblem ''block request failed: code 2'')"
  by code_simp

text \<open>Two collisions in one directory share a throttle entry, so that each scan records both again.\<close>

definition twin_groups :: "(string \<times> string list) list" where
  "twin_groups = group_names [''d/a'', ''d/A'', ''d/b'', ''d/B''] []"

lemma collisions_of_one_directory_repeat:
  "let n1 = fst (report_collisions 1 ''docs'' twin_groups {} (new_node_events False 0));
       n2 = fst (report_collisions 2 ''docs'' twin_groups {} n1)
   in map_option (length \<circ> es_rows) (ne_Events n1) = Some 2 \<and> map_option (length \<circ> es_rows) (ne_Events n2) = Some 4"
  by code_simp

definition docs_engine :: Engine where
  "docs_engine = fresh_engine\<lparr>Ix := empty_index\<lparr>files := [(''a.txt'', row_of (sample ''a.txt''))]\<rparr>\<rparr>"

definition events_node :: Node where
  "events_node = \<lparr>nd_ID = 1, nd_Name = ''n'', nd_SessionID = ''s'', nd_Folders = [(''docs'', \<lparr>fo_Cfg = \<lparr>fc_Peers = [], fc_MaxDeletePct = 0,
     fc_MaxDeleteFiles = 0\<rparr>, fo_Root = ''/r'', fo_Paused = False, fo_TransfersPaused = False, fo_Engine = docs_engine\<rparr>)], nd_SentEntries = 0\<rparr>"

definition reporting_node :: NodeEvents where
  "reporting_node = (new_node_events False 0)\<lparr>ne_Events := Some sample_store\<rparr>"

lemma sample_open: "open_conditions sample_store = {(''docs'', ''a.txt'', C_Unsynced)}"
proof -
  have "attention sample_row" "es_rows sample_store = [sample_row]" "cond_of sample_row = (''docs'', ''a.txt'', C_Unsynced)"
    by (simp_all add: sample_store_def new_store_def sample_row_def attention_def event_codes cond_of_def)
  then show ?thesis by (auto simp: open_conditions_def)
qed

lemma sample_store_facts: "sound sample_store" "store_ok sample_store"
  by (simp_all add: sound_def store_ok_def sample_store_def new_store_def sample_row_def)

lemma events_node_docs: "mget (nd_Folders events_node) ''docs'' \<noteq> None" "fo_Engine (the (mget (nd_Folders events_node) ''docs'')) = docs_engine"
  by (simp_all add: events_node_def)

theorem unsynced_view_exchanged_witness:
  "\<exists>em es. snd (snd (eventMsgFor 0 ''docs'' events_node reporting_node)) = Some em
     \<and> PeerUnsynced 9 ''docs'' (storeEventMsg events_node 9 ((bare MsgEvent)\<lparr>m_Event := Some em\<rparr>) reporting_node) = Some es \<and> map ue_Path es = [''a.txt'']"
proof -
  have r: "ne_Events reporting_node = Some sample_store" by (simp add: reporting_node_def)
  have one: "{p. p \<noteq> [] \<and> (''docs'', p, C_Unsynced) \<in> open_conditions sample_store} = {''a.txt''}" by (auto simp: sample_open)
  have "take 200 (sorted_list_of_set {''a.txt''}) = [''a.txt'']" by simp
  then show ?thesis
    using unsynced_view_exchanged [OF r sample_store_facts events_node_docs(1) _ events_node_docs(1), of 9 0 reporting_node, unfolded one] by force
qed

lemma docs_engine_facts:
  "read_ok docs_engine" "pending_inv docs_engine" "entry (Ix docs_engine) ''a.txt'' \<noteq> None"
proof -
  have files: "files (Ix docs_engine) = [(''a.txt'', row_of (sample ''a.txt''))]" "healthy (Ix docs_engine)" "peers docs_engine = []"
    by (simp_all add: docs_engine_def empty_index_def healthy_def)
  have "row_ok (Name (sample ''a.txt''), row_of (sample ''a.txt''))" by (rule row_ok_row_of) simp
  then have "ix_wf (Ix docs_engine)" using files by (simp add: ix_wf_def row_of_def docs_engine_def empty_index_def)
  then show "read_ok docs_engine" using files by (simp add: read_ok_def entry_def healthy_simps)
  show "pending_inv docs_engine" by (simp add: pending_inv_def docs_engine_def fresh_engine_def New_Engine_def)
  show "entry (Ix docs_engine) ''a.txt'' \<noteq> None" using files by (simp add: entry_def)
qed

lemma docs_engine_idle:
  "\<not> want_in r docs_engine p" "\<not> want_up docs_engine p" "\<not> InFlight docs_engine p"
proof -
  have none: "peers docs_engine = []" "inflight docs_engine = None" by (simp_all add: docs_engine_def)
  show "\<not> want_up docs_engine p" using none
    by (simp add: want_up_def uploadWanted_def authoritativeViewsLocked_def split: option.split)
  show "\<not> InFlight docs_engine p" using none by (simp add: InFlight_def)
  show "\<not> want_in r docs_engine p" using none Compare_eq_0 [of v v for v]
    by (auto simp: want_in_def want_pull_def pullWanted_def globalFrom_def ranged_def Let_def split: option.split)
qed

definition gone_row :: StoredEvent where
  "gone_row = sample_row\<lparr>sv_ID := 2, sv_Path := ''b.txt'', sv_Reason := ''block request failed: code 2''\<rparr>"

definition healing_node :: NodeEvents where
  "healing_node = (new_node_events False 0)\<lparr>ne_Events := Some (sample_store\<lparr>es_rows := [sample_row, gone_row], es_nextID := 3\<rparr>),
     ne_problems := [(''docs'' @ [NUL] @ ''a.txt'', ''disk full''), (''docs'' @ [NUL] @ ''c.txt'', ''no space'')]\<rparr>"

theorem reconcile_closes_converged_witness:
  "\<exists>st'. ne_Events (snd (reconcileUnsynced 0 ''docs'' events_node healing_node)) = Some st' \<and> open_conditions st' = {}
     \<and> mget (ne_problems (snd (reconcileUnsynced 0 ''docs'' events_node healing_node))) (''docs'' @ [NUL] @ ''a.txt'') = None
     \<and> mget (ne_problems (snd (reconcileUnsynced 0 ''docs'' events_node healing_node))) (''docs'' @ [NUL] @ ''c.txt'') = Some ''no space''"
proof -
  let ?st = "sample_store\<lparr>es_rows := [sample_row, gone_row], es_nextID := 3\<rparr>"
  have n: "ne_Events healing_node = Some ?st" by (simp add: healing_node_def)
  have st: "sound ?st" "store_ok ?st" by (simp_all add: sound_def store_ok_def sample_store_def new_store_def sample_row_def gone_row_def)
  obtain f where f: "mget (nd_Folders events_node) ''docs'' = Some f" "docs_engine = fo_Engine f" using events_node_docs by auto
  have att: "attention sample_row" "attention gone_row" by (simp_all add: sample_row_def gone_row_def attention_def event_codes)
  have c: "cond_of sample_row = (''docs'', ''a.txt'', C_Unsynced)" "cond_of gone_row = (''docs'', ''b.txt'', C_Unsynced)"
    by (simp_all add: sample_row_def gone_row_def cond_of_def)
  have open_now: "open_conditions ?st = {(''docs'', ''a.txt'', C_Unsynced), (''docs'', ''b.txt'', C_Unsynced)}"
    using att c by (force simp: open_conditions_def)
  have "sv_Reason gone_row = ''block request failed: '' @ ''code 2'' @ []" by (simp add: gone_row_def)
  then have "\<exists>a b. sv_Reason gone_row = a @ ''code 2'' @ b" by blast
  then have stale: "stale_flag r docs_engine (es_rows ?st) ''docs'' p \<longleftrightarrow> p = ''a.txt'' \<or> p = ''b.txt''" for r p
    using att c docs_engine_idle docs_engine_facts(3) by (auto simp: stale_flag_def)
  obtain st' where "ne_Events (snd (reconcileUnsynced 0 ''docs'' events_node healing_node)) = Some st'"
    "open_conditions st' = open_conditions ?st - {(''docs'', p, C_Unsynced) | p. p = ''a.txt'' \<or> p = ''b.txt''}"
    "\<forall>k. mget (ne_problems (snd (reconcileUnsynced 0 ''docs'' events_node healing_node))) k
       = (if \<exists>p. (p = ''a.txt'' \<or> p = ''b.txt'') \<and> k = ''docs'' @ [NUL] @ p then None else mget (ne_problems healing_node) k)"
    using reconcile_closes_converged [OF n st f(1) _ f(2) docs_engine_facts(1,2), of 0, unfolded stale] by auto
  then show ?thesis by (auto simp: open_now healing_node_def)
qed

end
