(* ===== verification/Local_Changes.thy ===== *)
theory Local_Changes
  imports Pending
begin

text \<open>
  Local changes: what a scan found is applied to the index (\<^verbatim>\<open>ApplyLocalChange\<close>, \<^verbatim>\<open>ApplyLocalRename\<close> and
  the batched \<^verbatim>\<open>ApplyLocalChanges\<close> with its planners, \<^verbatim>\<open>engine.go\<close>), the out-of-gate releases of
  \<^verbatim>\<open>gate_release.go\<close>, and the join of identical copies. An operation returns the engine and its results;
  \<open>Inl\<close> is the Go error, a bump of a nil vector is a panic.
\<close>

section \<open>Changes\<close>

datatype ChangeKind = Unchanged | Added | Modified | Deleted_kind | Skipped | Renamed | Touched

record Change =
  c_Kind :: ChangeKind
  c_Info :: FileInfo
  c_From :: string
  c_Rule :: string
  c_OutOfGate :: bool

definition skip_rule :: "Engine \<Rightarrow> string \<Rightarrow> string" where
  "skip_rule e name = (case snd (Match (Ignore e) name False) of None \<Rightarrow> [] | Some r \<Rightarrow> Raw r)"

definition bumped :: "Engine \<Rightarrow> FileInfo option \<Rightarrow> go_error + Vector" where
  "bumped e cur = (case cur of Some c \<Rightarrow> Bump (Version c) (NodeID e) | None \<Rightarrow> Bump New (NodeID e))"

definition tombstone :: "string \<Rightarrow> FType \<Rightarrow> Vector \<Rightarrow> FileInfo" where
  "tombstone name t ver = zero_info\<lparr>Name := name, Type := t, Deleted := True, Version := ver\<rparr>"

definition adopt_stat :: "FileInfo \<Rightarrow> FileInfo \<Rightarrow> FileInfo" where
  "adopt_stat cur fi = cur\<lparr>Size := Size fi, ModifiedS := ModifiedS fi, ModifiedNs := ModifiedNs fi, Mode := Mode fi\<rparr>"

definition change_reason :: "ChangeKind \<Rightarrow> string" where
  "change_reason kind =
     (case kind of Deleted_kind \<Rightarrow> ''local delete'' | Modified \<Rightarrow> ''local modify'' | _ \<Rightarrow> ''local add'')"

definition ApplyLocalChange :: "Engine \<Rightarrow> ChangeKind \<Rightarrow> FileInfo \<Rightarrow> Engine \<times> (go_error + FileInfo option)" where
  "ApplyLocalChange e kind fi =
     (if Direction e = ''receive-only'' then (e, Inr None)
      else if kind = Skipped then
        (emit CatSkipped SevInfo (Name fi) ''ignored by rule'' (skip_rule e (Name fi)) 0 e, Inr None)
      else if kind = Touched then
        (case Ix_Get (Ix e) (Name fi) of
           Inl err \<Rightarrow> (e, Inl err)
         | Inr None \<Rightarrow> (e, Inr None)
         | Inr (Some cur) \<Rightarrow>
             (case IxPut e (adopt_stat cur fi) of
                (e', _, Some err) \<Rightarrow> (e', Inl err) | (e', _, None) \<Rightarrow> (e', Inr None)))
      else case Ix_Get (Ix e) (Name fi) of
          Inl err \<Rightarrow> (e, Inl err)
        | Inr cur \<Rightarrow>
            (case bumped e cur of
               Inl err \<Rightarrow> (e, Inl err)
             | Inr newVer \<Rightarrow>
                 (case (case kind of
                          Deleted_kind \<Rightarrow> Some (tombstone (Name fi) (case cur of Some c \<Rightarrow> Type c | None \<Rightarrow> Type fi) newVer)
                        | Added \<Rightarrow> Some ((CloneInfo fi)\<lparr>Version := newVer\<rparr>)
                        | Modified \<Rightarrow> Some ((CloneInfo fi)\<lparr>Version := newVer\<rparr>)
                        | _ \<Rightarrow> None) of
                    None \<Rightarrow> (e, Inl (Err ''unhandled change kind''))
                  | Some out \<Rightarrow>
                      (case IxPut e out of
                         (e', _, Some err) \<Rightarrow> (e', Inl err)
                       | (e', out', None) \<Rightarrow>
                           (emit CatApplied SevInfo (Name fi) (change_reason kind) [] 0 e', Inr (Some out'))))))"

definition ApplyLocalRename :: "Engine \<Rightarrow> string \<Rightarrow> FileInfo \<Rightarrow> Engine \<times> (go_error + FileInfo option)" where
  "ApplyLocalRename e from to_fi =
     (if Direction e = ''receive-only'' then (e, Inr None)
      else if from = Name to_fi then (e, Inl (Err ''rename: source and target are the same path''))
      else case Ix_Get (Ix e) from of
          Inl err \<Rightarrow> (e, Inl err)
        | Inr None \<Rightarrow> (e, Inl (Err ''rename: source no longer live''))
        | Inr (Some old) \<Rightarrow>
            if Deleted old then (e, Inl (Err ''rename: source no longer live''))
            else if \<not> sameContent old to_fi then (e, Inl (Err ''rename: content differs''))
            else case Ix_Get (Ix e) (Name to_fi) of
                Inl err \<Rightarrow> (e, Inl err)
              | Inr (Some _) \<Rightarrow> (e, Inl (Err ''rename: target already indexed''))
              | Inr None \<Rightarrow>
                  (case Bump (Version old) (NodeID e) of
                     Inl err \<Rightarrow> (e, Inl err)
                   | Inr ver \<Rightarrow>
                       (case IxPut e (tombstone from (Type old) ver) of
                          (e1, _, Some err) \<Rightarrow> (e1, Inl err)
                        | (e1, _, None) \<Rightarrow>
                            (case IxPut e1 ((CloneInfo to_fi)\<lparr>Version := ver, Sequence := 0\<rparr>) of
                               (e2, _, Some err) \<Rightarrow> (e2, Inl err)
                             | (e2, out, None) \<Rightarrow>
                                 (emit CatApplied SevInfo (Name to_fi) ''local rename'' from 0 e2, Inr (Some out))))))"

section \<open>Planning a batch\<close>

definition planChange :: "Engine \<Rightarrow> ChangeKind \<Rightarrow> FileInfo \<Rightarrow> go_error + FileInfo option" where
  "planChange e kind fi =
     (case Ix_Get (Ix e) (Name fi) of
        Inl _ \<Rightarrow> Inr None
      | Inr cur \<Rightarrow>
          (case bumped e cur of
             Inl err \<Rightarrow> Inl err
           | Inr newVer \<Rightarrow>
               Inr (case kind of
                      Deleted_kind \<Rightarrow> Some (tombstone (Name fi) (case cur of Some c \<Rightarrow> Type c | None \<Rightarrow> Type fi) newVer)
                    | Added \<Rightarrow> Some (fi\<lparr>Version := newVer\<rparr>)
                    | Modified \<Rightarrow> Some (fi\<lparr>Version := newVer\<rparr>)
                    | _ \<Rightarrow> None)))"

definition planRename :: "Engine \<Rightarrow> string \<Rightarrow> FileInfo \<Rightarrow> go_error + FileInfo list option" where
  "planRename e from to_fi =
     (if from = Name to_fi then Inr None
      else case Ix_Get (Ix e) from of
          Inl _ \<Rightarrow> Inr None
        | Inr None \<Rightarrow> Inr None
        | Inr (Some old) \<Rightarrow>
            if Deleted old then Inr None
            else if \<not> sameContent old to_fi then Inr None
            else case Ix_Get (Ix e) (Name to_fi) of
                Inl _ \<Rightarrow> Inr None
              | Inr (Some _) \<Rightarrow> Inr None
              | Inr None \<Rightarrow>
                  (case Bump (Version old) (NodeID e) of
                     Inl err \<Rightarrow> Inl err
                   | Inr ver \<Rightarrow> Inr (Some [tombstone from (Type old) ver, to_fi\<lparr>Version := ver, Sequence := 0\<rparr>])))"

record planned =
  pl_writes :: "FileInfo list"
  pl_change :: Change
  pl_reason :: string

section \<open>Out-of-gate releases\<close>

definition releaseMetaKey :: string where
  "releaseMetaKey = ''gate_releases''"

definition loadReleasesLocked :: "Engine \<Rightarrow> Engine" where
  "loadReleasesLocked e =
     (if releasesLoaded e then e
      else let e1 = e\<lparr>releasesLoaded := True\<rparr> in
        case GetMeta (Ix e1) releaseMetaKey of
          Inr (Some (MReleases rels)) \<Rightarrow> e1\<lparr>releases := rels\<rparr>
        | _ \<Rightarrow> e1)"

definition saveReleasesLocked :: "Engine \<Rightarrow> Engine \<times> go_error option" where
  "saveReleasesLocked e =
     (let (ix', err) = SetMeta (Ix e) releaseMetaKey (MReleases (releases e)) in (e\<lparr>Ix := ix'\<rparr>, err))"

definition view_live :: "peer_view \<Rightarrow> string \<Rightarrow> bool" where
  "view_live view n = (case mget view n of Some fi \<Rightarrow> \<not> Deleted fi | None \<Rightarrow> False)"

definition recordReleaseLocked :: "string \<Rightarrow> string \<Rightarrow> int \<Rightarrow> byte list list \<Rightarrow> Engine \<Rightarrow> Engine" where
  "recordReleaseLocked from to_n sz blocks e =
     (let e1 = loadReleasesLocked e;
          owners = sort (map fst (filter (\<lambda>(_, view). view_live view from) (peers e1)))
      in e1\<lparr>releases := releases e1 @
           [\<lparr>rel_From = from, rel_To = to_n, rel_Size = sz, rel_Blocks = blocks, rel_Peers = owners\<rparr>]\<rparr>)"

definition RecordOutOfGateRename :: "Engine \<Rightarrow> string \<Rightarrow> string \<Rightarrow> Engine \<times> go_error option" where
  "RecordOutOfGateRename e from to_n =
     (case Ix_Get (Ix e) to_n of
        Inl err \<Rightarrow> (e, Some err)
      | Inr None \<Rightarrow> (e, Some (Err ''record release: target not indexed''))
      | Inr (Some fi) \<Rightarrow>
          if Deleted fi then (e, Some (Err ''record release: target not indexed''))
          else saveReleasesLocked (recordReleaseLocked from to_n (Size fi) (Blocks fi) e))"

definition PendingReleases :: "Engine \<Rightarrow> Engine \<times> int" where
  "PendingReleases e = (let e1 = loadReleasesLocked e in (e1, int (length (releases e1))))"

fun confirmed_by :: "(uint64, peer_view) gomap \<Rightarrow> pendingRelease \<Rightarrow> uint64 list \<Rightarrow> bool" where
  "confirmed_by ps rel [] = True"
| "confirmed_by ps rel (pid # pids) =
     (case mget ps pid of
        None \<Rightarrow> False
      | Some view \<Rightarrow>
          (case mget view (rel_To rel) of
             Some to_fi \<Rightarrow>
               if \<not> Deleted to_fi then
                 (if Size to_fi = rel_Size rel \<and> equalBlocks (Blocks to_fi) (rel_Blocks rel)
                  then confirmed_by ps rel pids else False)
               else if view_live view (rel_From rel) then False else confirmed_by ps rel pids
           | None \<Rightarrow> if view_live view (rel_From rel) then False else confirmed_by ps rel pids))"

definition releaseConfirmedLocked :: "Engine \<Rightarrow> pendingRelease \<Rightarrow> bool" where
  "releaseConfirmedLocked e rel = confirmed_by (peers e) rel (rel_Peers rel)"

fun confirm_loop :: "Engine \<Rightarrow> pendingRelease list \<Rightarrow> pendingRelease list \<Rightarrow> string list
    \<Rightarrow> Engine \<times> pendingRelease list \<times> string list \<times> go_error option" where
  "confirm_loop e [] keep released = (e, keep, released, None)"
| "confirm_loop e (rel # rels) keep released =
     (if \<not> releaseConfirmedLocked e rel then confirm_loop e rels (keep @ [rel]) released
      else case IxDelete e (rel_To rel) of
          (e1, Some err) \<Rightarrow> (e1, keep, released, Some err)
        | (e1, None) \<Rightarrow>
            (case IxDelete e1 (rel_From rel) of
               (e2, Some err) \<Rightarrow> (e2, keep, released, Some err)
             | (e2, None) \<Rightarrow> confirm_loop e2 rels keep (released @ [rel_To rel])))"

definition ConfirmReleases :: "Engine \<Rightarrow> Engine \<times> string list \<times> go_error option" where
  "ConfirmReleases e0 =
     (let e = loadReleasesLocked e0 in
      if length (releases e) = 0 then (e, [], None)
      else case confirm_loop e (releases e) [] [] of
          (e1, _, released, Some err) \<Rightarrow> (e1, released, Some err)
        | (e1, keep, released, None) \<Rightarrow>
            (let (e2, err) = (if length keep \<noteq> length (releases e) then saveReleasesLocked (e1\<lparr>releases := keep\<rparr>) else (e1, None)) in
             case err of
               Some x \<Rightarrow> (e2, released, Some x)
             | None \<Rightarrow>
                 if 0 < length released
                 then (emit CatSystem SevInfo [] ''released paths renamed out of gate (content confirmed on peers)'' [] 0 e2, sort released, None)
                 else (e2, released, None)))"

definition dropPeerFromReleasesLocked :: "uint64 \<Rightarrow> Engine \<Rightarrow> Engine" where
  "dropPeerFromReleasesLocked peerID e0 =
     (let e = loadReleasesLocked e0;
          changed = list_ex (\<lambda>r. peerID \<in> set (rel_Peers r)) (releases e);
          e1 = e\<lparr>releases := map (\<lambda>r. r\<lparr>rel_Peers := filter (\<lambda>p. p \<noteq> peerID) (rel_Peers r)\<rparr>) (releases e)\<rparr>
      in if changed then fst (saveReleasesLocked e1) else e1)"

definition CleanupPeerIndex :: "uint64 \<Rightarrow> Engine \<Rightarrow> Engine" where
  "CleanupPeerIndex peerID e =
     dropPeerFromReleasesLocked peerID (markPendingAll (e\<lparr>peers := mdelete (peers e) peerID\<rparr>))"

section \<open>Applying a batch\<close>

text \<open>
  The first loop: skipped and touched changes take effect at once, the others are planned against the
  index. The accumulator holds the plans, the count and the rejected changes; an error ends the batch.
\<close>

fun plan_loop :: "Engine \<Rightarrow> Change list \<Rightarrow> planned list \<Rightarrow> int \<Rightarrow> Change list
    \<Rightarrow> Engine \<times> planned list \<times> int \<times> Change list \<times> go_error option" where
  "plan_loop e [] plans applied failed = (e, plans, applied, failed, None)"
| "plan_loop e (c # cs) plans applied failed =
     (if c_Kind c = Skipped then
        (let rule = (if c_Rule c = [] then skip_rule e (Name (c_Info c)) else c_Rule c) in
         plan_loop (emit CatSkipped SevInfo (Name (c_Info c)) ''ignored by rule'' rule 0 e) cs plans (applied + 1) failed)
      else if c_Kind c = Touched then
        (case Ix_Get (Ix e) (Name (c_Info c)) of
           Inl err \<Rightarrow> (e, plans, applied, failed, Some err)
         | Inr None \<Rightarrow> plan_loop e cs plans applied failed
         | Inr (Some cur) \<Rightarrow>
             (case IxPut e (adopt_stat cur (c_Info c)) of
                (e', _, Some err) \<Rightarrow> (e', plans, applied, failed, Some err)
              | (e', _, None) \<Rightarrow> plan_loop e' cs plans applied failed))
      else if c_Kind c = Renamed then
        (case planRename e (c_From c) (c_Info c) of
           Inl err \<Rightarrow> (e, plans, applied, failed, Some err)
         | Inr None \<Rightarrow> plan_loop e cs plans applied (failed @ [c])
         | Inr (Some ws) \<Rightarrow>
             plan_loop e cs (plans @ [\<lparr>pl_writes = ws, pl_change = c, pl_reason = ''local rename''\<rparr>]) (applied + 1) failed)
      else
        (case planChange e (c_Kind c) (c_Info c) of
           Inl err \<Rightarrow> (e, plans, applied, failed, Some err)
         | Inr None \<Rightarrow> plan_loop e cs plans applied (failed @ [c])
         | Inr (Some out) \<Rightarrow>
             plan_loop e cs (plans @ [\<lparr>pl_writes = [out], pl_change = c, pl_reason = change_reason (c_Kind c)\<rparr>])
               (applied + 1) failed))"

text \<open>The commit loop, in transactions of at most \<open>chunk\<close> entries.\<close>

function commit_loop :: "Engine \<Rightarrow> nat \<Rightarrow> FileInfo list \<Rightarrow> Engine \<times> go_error option" where
  "commit_loop e chunk ws =
     (if ws = [] \<or> chunk = 0 then (e, None)
      else case IxPutBatch e (take chunk ws) of
          (e', _, Some err) \<Rightarrow> (e', Some err)
        | (e', _, None) \<Rightarrow> commit_loop e' chunk (drop chunk ws))"
  by pat_completeness auto
termination
  by (relation "measure (\<lambda>(e, chunk, ws). length ws)") auto

declare commit_loop.simps [simp del]

definition maxPerFileEvents :: nat where
  "maxPerFileEvents = 50"

definition is_gate_rename :: "planned \<Rightarrow> bool" where
  "is_gate_rename p \<longleftrightarrow> c_Kind (pl_change p) = Renamed \<and> c_OutOfGate (pl_change p)"

definition record_all :: "planned list \<Rightarrow> Engine \<Rightarrow> Engine" where
  "record_all plans e = foldl (\<lambda>e p. recordReleaseLocked (c_From (pl_change p)) (Name (c_Info (pl_change p)))
     (Size (c_Info (pl_change p))) (Blocks (c_Info (pl_change p))) e) e (filter is_gate_rename plans)"

definition emit_plan :: "planned \<Rightarrow> Engine \<Rightarrow> Engine" where
  "emit_plan p e = emit CatApplied SevInfo (Name (c_Info (pl_change p))) (pl_reason p)
     (if c_Kind (pl_change p) = Renamed then c_From (pl_change p) else []) 0 e"

definition emit_plans :: "planned list \<Rightarrow> Engine \<Rightarrow> Engine" where
  "emit_plans plans e =
     (if length (filter (\<lambda>p. c_Kind (pl_change p) = Renamed) plans) > maxPerFileEvents
      then emit CatApplied SevInfo [] ''moved file(s) locally (same-content rename, no transfer)'' [] 0 e
      else foldl (\<lambda>e p. emit_plan p e) e plans)"

definition ApplyLocalChanges :: "nat \<Rightarrow> Engine \<Rightarrow> Change list \<Rightarrow> Engine \<times> int \<times> Change list \<times> go_error option" where
  "ApplyLocalChanges chunk e changes =
     (if Direction e = ''receive-only'' then (e, 0, [], None)
      else if length changes = 0 then (e, 0, [], None)
      else case plan_loop e changes [] 0 [] of
          (e1, plans, applied, failed, Some err) \<Rightarrow> (e1, applied, failed, Some err)
        | (e1, plans, applied, failed, None) \<Rightarrow>
            (case commit_loop e1 chunk (concat (map pl_writes plans)) of
               (e2, Some err) \<Rightarrow> (e2, 0, [], Some err)
             | (e2, None) \<Rightarrow>
                 (let (e4, err) = (if list_ex is_gate_rename plans then saveReleasesLocked (record_all plans e2) else (e2, None)) in
                  case err of
                    Some x \<Rightarrow> (e4, 0, [], Some x)
                  | None \<Rightarrow> (emit_plans plans e4, applied, failed, None))))"

section \<open>One write, alone or in a batch\<close>

lemma PutBatch_single: "PutBatch ix [fi] = (let (ix', fi', err) = Put ix fi in (ix', [fi'], err))"
  by (simp add: PutBatch_def Put_def with_sequence_eq bump_writes_def Let_def)

lemma IxPutBatch_single: "IxPutBatch e [fi] = (let (e', fi', err) = IxPut e fi in (e', [fi'], err))"
  by (cases "Put (Ix e) fi") (simp add: IxPutBatch_def IxPut_def PutBatch_single Let_def)

lemma commit_loop_one: "0 < chunk \<Longrightarrow> commit_loop e chunk [w] = (let (e', _, err) = IxPut e w in (e', err))"
  by (cases "IxPut e w") (simp add: commit_loop.simps [of e chunk "[w]"] commit_loop.simps [of _ chunk "[]"] IxPutBatch_single Let_def split: option.splits prod.splits)

text \<open>Applying one added, modified or deleted path through the batch is applying it alone: same index, same
dirty names and same events on success; an index read error rejects the change instead of failing
the batch, and every other error is reported by both.\<close>

theorem batch_mirrors_single_change:
  assumes "c_Kind c \<in> {Added, Modified, Deleted_kind}" and "Direction e \<noteq> ''receive-only''" and "0 < chunk"
  shows "ApplyLocalChanges chunk e [c] =
    (case ApplyLocalChange e (c_Kind c) (c_Info c) of
       (e', Inr _) \<Rightarrow> (e', 1, [], None)
     | (e', Inl err) \<Rightarrow> if isl (Ix_Get (Ix e) (Name (c_Info c))) then (e, 0, [c], None) else (e', 0, [], Some err))"
proof (cases "Ix_Get (Ix e) (Name (c_Info c))")
  case (Inl err)
  then show ?thesis using assms
    by (auto simp: ApplyLocalChanges_def ApplyLocalChange_def planChange_def commit_loop.simps emit_plans_def)
next
  case (Inr cur)
  show ?thesis
  proof (cases "bumped e cur")
    case (Inl err)
    then show ?thesis using assms Inr
      by (auto simp: ApplyLocalChanges_def ApplyLocalChange_def planChange_def)
  next
    case ver: (Inr v)
    define out where "out = (if c_Kind c = Deleted_kind then tombstone (Name (c_Info c)) (case cur of Some c \<Rightarrow> Type c | None \<Rightarrow> Type (c_Info c)) v
      else (c_Info c)\<lparr>Version := v\<rparr>)"
    obtain e' fi' err where put: "IxPut e out = (e', fi', err)" by (cases "IxPut e out")
    have batch: "ApplyLocalChanges chunk e [c] = (case err of Some x \<Rightarrow> (e', 0, [], Some x)
        | None \<Rightarrow> (emit CatApplied SevInfo (Name (c_Info c)) (change_reason (c_Kind c)) [] 0 e', 1, [], None))"
      using assms Inr ver put
      by (auto simp: ApplyLocalChanges_def planChange_def commit_loop_one out_def is_gate_rename_def emit_plans_def
        emit_plan_def maxPerFileEvents_def split: option.splits)
    have single: "ApplyLocalChange e (c_Kind c) (c_Info c) = (case err of Some x \<Rightarrow> (e', Inl x)
        | None \<Rightarrow> (emit CatApplied SevInfo (Name (c_Info c)) (change_reason (c_Kind c)) [] 0 e', Inr (Some fi')))"
      using assms Inr ver put by (auto simp: ApplyLocalChange_def out_def split: option.splits)
    show ?thesis unfolding batch single using Inr by (simp split: option.splits)
  qed
qed

theorem batch_mirrors_single_change_witness:
  "ApplyLocalChanges 1000 fresh_engine [\<lparr>c_Kind = Added, c_Info = sample ''f'', c_From = [], c_Rule = [], c_OutOfGate = False\<rparr>]
     = (fst (ApplyLocalChange fresh_engine Added (sample ''f'')), 1, [], None)"
proof -
  let ?c = "\<lparr>c_Kind = Added, c_Info = sample ''f'', c_From = [], c_Rule = [], c_OutOfGate = False\<rparr>"
  have "isl (snd (ApplyLocalChange fresh_engine Added (sample ''f''))) = False" by code_simp
  then show ?thesis
    using batch_mirrors_single_change [of ?c fresh_engine 1000] by (auto simp: isl_def split: prod.splits sum.splits)
qed

section \<open>What a local change leaves behind\<close>

lemma emit_simps [simp, eng_simps]:
  "Ix (emit c s p r l i e) = Ix e" "peers (emit c s p r l i e) = peers e" "fs (emit c s p r l i e) = fs e"
  "NodeID (emit c s p r l i e) = NodeID e" "Direction (emit c s p r l i e) = Direction e"
  by (simp_all add: emit_def)

lemma IxPut_ok:
  "\<not> fault_write (Ix e) (Name fi) \<Longrightarrow> IxPut e fi =
     (markPendingNames (touched [Name fi]) (e\<lparr>Ix := bump_writes (put_ok (Ix e) fi)\<rparr>), sequenced (Ix e) fi, None)"
  by (simp add: IxPut_def Put_ok)

lemma IxPut_Get:
  assumes "ix_wf (Ix e)" and "healthy (Ix e)" and "vwf (Version fi)" and "seq_ok (Ix e) fi"
  shows "\<exists>e'. IxPut e fi = (e', sequenced (Ix e) fi, None) \<and> ix_wf (Ix e') \<and> healthy (Ix e') \<and>
    peers e' = peers e \<and> NodeID e' = NodeID e \<and> nextSeq (Ix e) \<le> nextSeq (Ix e') \<and>
    (\<forall>n. Ix_Get (Ix e') n = (if n = Name fi then Inr (Some (stored (sequenced (Ix e) fi))) else Ix_Get (Ix e) n))"
proof -
  let ?e' = "markPendingNames (touched [Name fi]) (e\<lparr>Ix := bump_writes (put_ok (Ix e) fi)\<rparr>)"
  have put: "IxPut e fi = (?e', sequenced (Ix e) fi, None)"
    by (rule IxPut_ok) (simp add: healthy_simps [OF assms(2)])
  have wf: "ix_wf (Ix ?e')" "healthy (Ix ?e')" using assms by simp_all
  have "Ix_Get (Ix ?e') n = (if n = Name fi then Inr (Some (stored (sequenced (Ix e) fi))) else Ix_Get (Ix e) n)" for n
    using Ix_Get_entry [OF wf(1), of n] Ix_Get_entry [OF assms(1), of n] wf(2) assms(2,3) by (simp add: healthy_simps)
  then show ?thesis using put wf assms(4) by (intro exI [of _ ?e']) (simp add: nextSeq_put_ok)
qed

lemma bumped_wf:
  assumes "bumped e cur = Inr v" and "\<And>c. cur = Some c \<Longrightarrow> vwf (Version c)"
  shows "vwf v" and "v \<noteq> None"
  using assms Bump_wf [of _ "NodeID e" v] Bump_Some [of _ "NodeID e" v]
  by (auto simp: bumped_def New_def vwf_def split: option.splits)

lemma bumped_dominates:
  "bumped e (Some c) = Inr v \<Longrightarrow> Version.Get (Version c) (NodeID e) \<noteq> -1 \<Longrightarrow> Compare v (Version c) = 1"
  by (simp add: bumped_def Bump_dominates)

text \<open>C37. A local change always wins over what it changed and always travels: on a healthy index, applying an
added, modified or deleted path succeeds, stores an entry with a sequence above every earlier one
(so the next delta carries it), live or a tombstone as the change says, whose version strictly
dominates the entry it replaces; nothing else in the index changes.\<close>

theorem local_change_supersedes:
  assumes "ix_wf (Ix e)" and "healthy (Ix e)" and "kind \<in> {Added, Modified, Deleted_kind}"
    and "Direction e \<noteq> ''receive-only''" and "Sequence fi = 0" and "Deleted fi = False"
    and "\<And>cur. Ix_Get (Ix e) (Name fi) = Inr (Some cur) \<Longrightarrow> Version.Get (Version cur) (NodeID e) \<noteq> -1"
  shows "\<exists>e' out new. ApplyLocalChange e kind fi = (e', Inr (Some out)) \<and> ix_wf (Ix e')
    \<and> Ix_Get (Ix e') (Name fi) = Inr (Some new) \<and> Deleted new = (kind = Deleted_kind) \<and> MaxSeq (Ix e) < Sequence new
    \<and> (\<forall>cur. Ix_Get (Ix e) (Name fi) = Inr (Some cur) \<longrightarrow> Compare (Version new) (Version cur) = 1)
    \<and> (\<forall>n. n \<noteq> Name fi \<longrightarrow> Ix_Get (Ix e') n = Ix_Get (Ix e) n)"
proof -
  have get: "Ix_Get (Ix e) (Name fi) = Inr (entry (Ix e) (Name fi))"
    using Ix_Get_entry [OF assms(1)] healthy_simps(1) [OF assms(2)] by simp
  let ?cur = "entry (Ix e) (Name fi)"
  obtain v where v: "bumped e ?cur = Inr v"
    using entry_wf(3) [OF assms(1), of "Name fi"] Bump_not_panic by (cases ?cur) (auto simp: bumped_def New_def)
  have vwf: "vwf v" using bumped_wf(1) [OF v] entry_wf(2) [OF assms(1)] by blast
  define out where "out = (if kind = Deleted_kind then tombstone (Name fi) (case ?cur of Some c \<Rightarrow> Type c | None \<Rightarrow> Type fi) v
    else fi\<lparr>Version := v\<rparr>)"
  have out: "Name out = Name fi" "Version out = v" "Sequence out = 0" "Deleted out = (kind = Deleted_kind)"
    using assms(5,6) by (simp_all add: out_def tombstone_def zero_info_def)
  have "seq_ok (Ix e) out" using assms(1) out(3) by (simp add: seq_ok_def ix_wf_def)
  then obtain e' where e': "IxPut e out = (e', sequenced (Ix e) out, None)" "ix_wf (Ix e')"
    "\<And>n. Ix_Get (Ix e') n = (if n = Name fi then Inr (Some (stored (sequenced (Ix e) out))) else Ix_Get (Ix e) n)"
    using IxPut_Get [OF assms(1,2), of out] vwf out by auto
  have app: "ApplyLocalChange e kind fi =
      (emit CatApplied SevInfo (Name fi) (change_reason kind) [] 0 e', Inr (Some (sequenced (Ix e) out)))"
    using assms(3,4) get v e'(1) by (auto simp: ApplyLocalChange_def out_def)
  have "Compare v (Version cur) = 1" if "Ix_Get (Ix e) (Name fi) = Inr (Some cur)" for cur
    using bumped_dominates [of e cur v] v get that assms(7) [OF that] by simp
  then show ?thesis using app e' out
    by (intro exI [of _ "emit CatApplied SevInfo (Name fi) (change_reason kind) [] 0 e'"] exI [of _ "sequenced (Ix e) out"]
      exI [of _ "stored (sequenced (Ix e) out)"]) (simp add: Sequence_sequenced MaxSeq_def)
qed

theorem local_change_supersedes_witness:
  "\<exists>e' out new. ApplyLocalChange fresh_engine Added (sample ''f'') = (e', Inr (Some out))
     \<and> Ix_Get (Ix e') ''f'' = Inr (Some new) \<and> 0 < Sequence new"
proof -
  have "Ix_Get empty_index ''f'' = Inr None" by code_simp
  then show ?thesis using local_change_supersedes [of fresh_engine Added "sample ''f''"] by (auto simp: MaxSeq_def)
qed

section \<open>Renames\<close>

lemma Unflatten_32: "b \<in> set (Unflatten x) \<Longrightarrow> length b = 32"
proof (induction x rule: Unflatten.induct)
  case (1 x)
  then show ?case by (subst (asm) (2) Unflatten.simps) (auto split: if_splits)
qed

lemma int_type_idem: "int_type (type_int (int_type n)) = int_type n"
  by (simp add: int_type_def)

lemma entry_content:
  assumes "ix_wf ix" and "entry ix n = Some fi"
  shows "\<forall>b \<in> set (Blocks fi). length b = 32" and "int_type (type_int (Type fi)) = Type fi"
proof -
  obtain r where r: "fi = dec r" "row_ok (n, r)" using assms by (rule entry_Some_row)
  have "scanRow r = Inr fi" using row_ok_dec(1) [OF r(2)] r(1) by simp
  then show "\<forall>b \<in> set (Blocks fi). length b = 32" "int_type (type_int (Type fi)) = Type fi"
    by (auto simp: scanRow_def int_type_idem Unflatten_32 split: sum.splits)
qed

text \<open>A rename is one coherent step: when the source is live, the target unknown and the contents equal, both
halves are recorded under the same new version, which dominates the old entry; the old path becomes
a tombstone, the new path is live with the same content, and both carry sequences above every
earlier one, so one delta brings both halves to a peer.\<close>

theorem local_rename_coherent:
  assumes "ix_wf (Ix e)" and "healthy (Ix e)" and "Direction e \<noteq> ''receive-only''" and "from \<noteq> Name to_fi"
    and "Ix_Get (Ix e) from = Inr (Some old)" and "\<not> Deleted old" and "sameContent old to_fi"
    and "Ix_Get (Ix e) (Name to_fi) = Inr None" and "Deleted to_fi = False"
    and "Version.Get (Version old) (NodeID e) \<noteq> -1"
  shows "\<exists>e' out tomb new. ApplyLocalRename e from to_fi = (e', Inr (Some out)) \<and> ix_wf (Ix e')
    \<and> Ix_Get (Ix e') from = Inr (Some tomb) \<and> Deleted tomb \<and> Ix_Get (Ix e') (Name to_fi) = Inr (Some new) \<and> \<not> Deleted new
    \<and> Version tomb = Version new \<and> Compare (Version new) (Version old) = 1 \<and> sameContent old new
    \<and> MaxSeq (Ix e) < Sequence tomb \<and> MaxSeq (Ix e) < Sequence new
    \<and> (\<forall>n. n \<noteq> from \<and> n \<noteq> Name to_fi \<longrightarrow> Ix_Get (Ix e') n = Ix_Get (Ix e) n)"
proof -
  have old: "entry (Ix e) from = Some old"
    using Ix_Get_entry [OF assms(1)] healthy_simps(1) [OF assms(2)] assms(5) by simp
  obtain ver where ver: "Bump (Version old) (NodeID e) = Inr ver"
    using Bump_not_panic entry_wf(3) [OF assms(1) old] by blast
  have vwf: "vwf ver" using Bump_wf [OF ver] entry_wf(2) [OF assms(1) old] by simp
  let ?t = "tombstone from (Type old) ver" and ?o = "to_fi\<lparr>Version := ver, Sequence := 0\<rparr>"
  have t: "Name ?t = from" "Version ?t = ver" "Sequence ?t = 0" "Deleted ?t" by (simp_all add: tombstone_def zero_info_def)
  have pos: "0 < nextSeq (Ix e)" using assms(1) by (simp add: ix_wf_def)
  obtain e1 where e1: "IxPut e ?t = (e1, sequenced (Ix e) ?t, None)" "ix_wf (Ix e1)" "healthy (Ix e1)"
    "nextSeq (Ix e) \<le> nextSeq (Ix e1)"
    "\<And>n. Ix_Get (Ix e1) n = (if n = from then Inr (Some (stored (sequenced (Ix e) ?t))) else Ix_Get (Ix e) n)"
    using IxPut_Get [OF assms(1,2), of ?t] vwf pos t by (auto simp: seq_ok_def)
  obtain e2 where e2: "IxPut e1 ?o = (e2, sequenced (Ix e1) ?o, None)" "ix_wf (Ix e2)"
    "\<And>n. Ix_Get (Ix e2) n = (if n = Name to_fi then Inr (Some (stored (sequenced (Ix e1) ?o))) else Ix_Get (Ix e1) n)"
    using IxPut_Get [OF e1(2,3), of ?o] vwf pos e1(4) by (auto simp: seq_ok_def)
  have app: "ApplyLocalRename e from to_fi = (emit CatApplied SevInfo (Name to_fi) ''local rename'' from 0 e2,
      Inr (Some (sequenced (Ix e1) ?o)))"
    using assms(3-8) ver e1(1) e2(1) by (simp add: ApplyLocalRename_def)
  have "sameContent old (stored (sequenced (Ix e1) ?o))"
    using assms(7) entry_content [OF assms(1) old] by (simp add: sameContent_iff Unflatten_Flatten)
  moreover have "Compare (vnorm ver) (Version old) = 1" using Bump_dominates [OF ver assms(10)] by simp
  ultimately show ?thesis using app e2(2,3) e1(4,5) t assms(4,9)
    by (intro exI [of _ "emit CatApplied SevInfo (Name to_fi) ''local rename'' from 0 e2"] exI [of _ "sequenced (Ix e1) ?o"]
      exI [of _ "stored (sequenced (Ix e) ?t)"] exI [of _ "stored (sequenced (Ix e1) ?o)"]) (simp add: Sequence_sequenced MaxSeq_def)
qed

lemma sample_put_engine:
  "ix_wf (Ix (fresh_engine\<lparr>Ix := put_ok empty_index (sample ''f'')\<rparr>))"
  "healthy (Ix (fresh_engine\<lparr>Ix := put_ok empty_index (sample ''f'')\<rparr>))"
  "Ix_Get (put_ok empty_index (sample ''f'')) n = Inr (if n = ''f'' then Some ((sample ''f'')\<lparr>Sequence := 1\<rparr>) else None)"
  by (simp_all add: Ix_Get_entry healthy_simps) (simp add: entry_def empty_index_def)

theorem local_rename_coherent_witness:
  "\<exists>e' out. ApplyLocalRename (fresh_engine\<lparr>Ix := put_ok empty_index (sample ''f'')\<rparr>) ''f'' (sample ''g'') = (e', Inr (Some out))"
proof -
  have "sameContent ((sample ''f'')\<lparr>Sequence := 1\<rparr>) (sample ''g'')"
    "Version.Get (Version ((sample ''f'')\<lparr>Sequence := 1\<rparr>)) 1 \<noteq> -1" by code_simp+
  then show ?thesis
    using local_rename_coherent [OF sample_put_engine(1,2), of "''f''" "sample ''g''" "(sample ''f'')\<lparr>Sequence := 1\<rparr>"]
    by (auto simp: sample_put_engine(3))
qed

text \<open>A receive-only folder never records a local change: every way of applying changes leaves the engine,
and so the index, exactly as it was.\<close>

theorem receive_only_records_nothing:
  assumes "Direction e = ''receive-only''"
  shows "fst (ApplyLocalChange e kind fi) = e \<and> fst (ApplyLocalRename e from fi) = e \<and> fst (ApplyLocalChanges chunk e cs) = e"
  using assms by (simp add: ApplyLocalChange_def ApplyLocalRename_def ApplyLocalChanges_def)

theorem receive_only_records_nothing_witness:
  "fst (ApplyLocalChange (fresh_engine\<lparr>Direction := ''receive-only''\<rparr>) Added (sample ''f'')) = fresh_engine\<lparr>Direction := ''receive-only''\<rparr>"
  using receive_only_records_nothing [of "fresh_engine\<lparr>Direction := ''receive-only''\<rparr>" Added "sample ''f''" "[]" 1 "[]"] by simp

section \<open>Releases\<close>

lemma load_simps [simp]:
  "peers (loadReleasesLocked e) = peers e" "Ix (loadReleasesLocked e) = Ix e" "releasesLoaded (loadReleasesLocked e)"
  by (simp_all add: loadReleasesLocked_def Let_def split: sum.splits option.splits meta_value.splits)

lemma IxDelete_peers: "IxDelete e n = (e', err) \<Longrightarrow> peers e' = peers e \<and> releases e' = releases e"
proof -
  assume "IxDelete e n = (e', err)"
  moreover have "releases (markPendingNames ns x) = releases x" for ns x
    by (induction ns arbitrary: x) (simp_all add: markPendingDirty_def)
  ultimately show ?thesis by (auto simp: IxDelete_def Let_def split: prod.splits if_splits)
qed

lemma IxDelete_entry: "IxDelete e m = (e', err) \<Longrightarrow> n \<noteq> m \<Longrightarrow> entry (Ix e') n = entry (Ix e) n"
  using Delete_entry [of "Ix e" m _ err n] by (auto simp: IxDelete_def Let_def split: prod.splits if_splits)

lemma IxDelete_gone: "IxDelete e m = (e', None) \<Longrightarrow> entry (Ix e') m = None"
  by (auto simp: IxDelete_def Let_def Delete_def entry_def split: prod.splits if_splits)

lemma IxDelete_row:
  "IxDelete e m = (e', err) \<Longrightarrow> entry (Ix e') n = entry (Ix e) n \<or> n = m \<and> entry (Ix e') n = None"
  using IxDelete_entry [of e m e' err n] by (auto simp: IxDelete_def Let_def Delete_def entry_def split: prod.splits if_splits)

text \<open>What it takes from every peer that had the old path when the rename was recorded: its view is known here, and it either holds the content under the
new name, or has nothing live at the new name nor at the old one.\<close>

definition owners_done :: "(uint64, peer_view) gomap \<Rightarrow> pendingRelease \<Rightarrow> bool" where
  "owners_done ps rel \<longleftrightarrow> (\<forall>pid \<in> set (rel_Peers rel). \<exists>view. mget ps pid = Some view
     \<and> ((\<exists>fi. mget view (rel_To rel) = Some fi \<and> \<not> Deleted fi \<and> Size fi = rel_Size rel \<and> Blocks fi = rel_Blocks rel)
        \<or> (\<forall>fi. mget view (rel_To rel) = Some fi \<or> mget view (rel_From rel) = Some fi \<longrightarrow> Deleted fi)))"

lemma confirmed_iff: "releaseConfirmedLocked e rel \<longleftrightarrow> owners_done (peers e) rel"
proof -
  have "confirmed_by ps rel pids \<longleftrightarrow> owners_done ps (rel\<lparr>rel_Peers := pids\<rparr>)" for ps pids
    by (induction pids) (auto simp: owners_done_def view_live_def equalBlocks_iff split: option.splits)
  from this [of "peers e" "rel_Peers rel"] show ?thesis by (simp add: releaseConfirmedLocked_def)
qed

lemma confirm_loop_spec:
  "confirm_loop e rels keep released = (e', keep', released', err) \<Longrightarrow>
     peers e' = peers e \<and> releases e' = releases e \<and>
     (\<forall>n. entry (Ix e') n = entry (Ix e) n \<or> entry (Ix e') n = None \<and>
        (\<exists>rel \<in> set rels. owners_done (peers e) rel \<and> n \<in> {rel_From rel, rel_To rel})) \<and>
     (err = None \<longrightarrow> keep' = keep @ filter (\<lambda>r. \<not> owners_done (peers e) r) rels)"
proof (induction rels arbitrary: e keep released)
  case (Cons rel rels)
  show ?case
  proof (cases "owners_done (peers e) rel")
    case False
    then have "confirm_loop e rels (keep @ [rel]) released = (e', keep', released', err)" using Cons.prems by (simp add: confirmed_iff)
    from Cons.IH [OF this] show ?thesis using False by (simp only: filter.simps) auto
  next
    case conf: True
    obtain e1 er1 where d1: "IxDelete e (rel_To rel) = (e1, er1)" by (cases "IxDelete e (rel_To rel)")
    obtain e2 er2 where d2: "IxDelete e1 (rel_From rel) = (e2, er2)" by (cases "IxDelete e1 (rel_From rel)")
    have same: "peers e1 = peers e" "peers e2 = peers e" "releases e1 = releases e" "releases e2 = releases e"
      using IxDelete_peers [OF d1] IxDelete_peers [OF d2] by simp_all
    let ?row = "\<lambda>x n. entry (Ix x) n = entry (Ix e) n \<or> entry (Ix x) n = None \<and> n \<in> {rel_From rel, rel_To rel}"
    have rows: "?row e1 n" "?row e2 n" for n using IxDelete_row [OF d1, of n] IxDelete_row [OF d2, of n] by auto
    show ?thesis
    proof (cases "er1 = None \<and> er2 = None")
      case True
      then have "confirm_loop e2 rels keep (released @ [rel_To rel]) = (e', keep', released', err)"
        using Cons.prems d1 d2 conf by (simp add: confirmed_iff)
      note IH = Cons.IH [OF this, unfolded same]
      have "entry (Ix e') n = entry (Ix e) n \<or> entry (Ix e') n = None \<and> (\<exists>r \<in> set (rel # rels). owners_done (peers e) r \<and> n \<in> {rel_From r, rel_To r})" for n
      proof -
        have "entry (Ix e') n = entry (Ix e2) n \<or> entry (Ix e') n = None \<and> (\<exists>r \<in> set rels. owners_done (peers e) r \<and> n \<in> {rel_From r, rel_To r})"
          using IH by blast
        then show ?thesis using rows(2) [of n] conf by auto
      qed
      then show ?thesis using IH conf by simp
    next
      case False
      then have "(e' = e1 \<or> e' = e2) \<and> err \<noteq> None"
        using Cons.prems d1 d2 conf by (auto simp: confirmed_iff split: option.splits)
      then show ?thesis using same rows conf by auto
    qed
  qed
qed simp


text \<open>A rename whose content the only owner holds under the new name, and one it has not applied yet.\<close>

definition releasing_engine :: Engine where
  "releasing_engine = fresh_engine\<lparr>releasesLoaded := True, peers := [(2, [(''b'', sample ''b''), (''c'', sample ''c'')])],
     releases := [\<lparr>rel_From = ''a'', rel_To = ''b'', rel_Size = Size (sample ''b''), rel_Blocks = [], rel_Peers = [2]\<rparr>,
       \<lparr>rel_From = ''c'', rel_To = ''d'', rel_Size = 1, rel_Blocks = [], rel_Peers = [2]\<rparr>]\<rparr>"


text \<open>Releases survive a restart and never wait for a removed device: after a release is recorded and saved,
an engine that starts again on the same database loads the same list, and cleaning up a peer leaves
no release waiting for it.\<close>

theorem releases_durable_and_unblocked:
  assumes "\<not> fault_meta (Ix e)" and "\<not> fault_meta_put (Ix e)" and "saveReleasesLocked e = (e1, err)"
  shows "err = None \<and> releases (loadReleasesLocked (e1\<lparr>releases := [], releasesLoaded := False\<rparr>)) = releases e
    \<and> (\<forall>rel \<in> set (releases (CleanupPeerIndex p e)). p \<notin> set (rel_Peers rel))"
proof -
  have "releases (CleanupPeerIndex p e) = map (\<lambda>r. r\<lparr>rel_Peers := filter (\<lambda>q. q \<noteq> p) (rel_Peers r)\<rparr>)
      (releases (loadReleasesLocked (markPendingAll (e\<lparr>peers := mdelete (peers e) p\<rparr>))))"
    by (simp add: CleanupPeerIndex_def dropPeerFromReleasesLocked_def saveReleasesLocked_def SetMeta_def Let_def)
  then show ?thesis using assms
    by (auto simp: saveReleasesLocked_def SetMeta_def GetMeta_def loadReleasesLocked_def Let_def)
qed

theorem releases_durable_and_unblocked_witness:
  "releases (loadReleasesLocked ((fst (saveReleasesLocked (fresh_engine\<lparr>releases := [\<lparr>rel_From = ''a'', rel_To = ''b'', rel_Size = 1, rel_Blocks = [], rel_Peers = [2]\<rparr>]\<rparr>)))
     \<lparr>releases := [], releasesLoaded := False\<rparr>)) = [\<lparr>rel_From = ''a'', rel_To = ''b'', rel_Size = 1, rel_Blocks = [], rel_Peers = [2]\<rparr>]"
  using releases_durable_and_unblocked [of "fresh_engine\<lparr>releases := [\<lparr>rel_From = ''a'', rel_To = ''b'', rel_Size = 1, rel_Blocks = [], rel_Peers = [2]\<rparr>]\<rparr>"
    "fst (saveReleasesLocked (fresh_engine\<lparr>releases := [\<lparr>rel_From = ''a'', rel_To = ''b'', rel_Size = 1, rel_Blocks = [], rel_Peers = [2]\<rparr>]\<rparr>))"
    "snd (saveReleasesLocked (fresh_engine\<lparr>releases := [\<lparr>rel_From = ''a'', rel_To = ''b'', rel_Size = 1, rel_Blocks = [], rel_Peers = [2]\<rparr>]\<rparr>))" 2]
  by (simp add: empty_index_def)

end
