(* ===== verification/Scan.thy ===== *)
theory Scan
  imports Local_Changes
begin

text \<open>
  The folder scanner, \<^verbatim>\<open>internal/scanner/scanner.go\<close>: the walk with its ignore rules and include gate, the
  stability gate, the cheap rename pass, hashing, rename detection and the deletion gate. What the
  operating system answers during one pass is a \<open>ScanWorld\<close>: the directory entries the walk meets, the
  bytes a file has when it is hashed, its stat right after, the clock, and what each look at the
  cancellation probe returns. The worker pool hashes the files of the queue in some order; here they
  come in queue order, and a file whose worker saw a cancellation is not hashed. An index query that
  fails reports no rows. Progress callbacks are not modelled.
\<close>

section \<open>What the system answers\<close>

datatype dirent = DFile (d_size: int) (d_modS: int) (d_modNs: int) (d_perm: uint32) | DDir (d_perm: uint32) | DLink (d_size: int) (d_perm: uint32)

datatype probe = AtVisit string | AfterWalk | AtVerify string | AfterRenames | AtQueue string | AtHash string | AfterHash | AtEnd

record ScanWorld =
  w_entries :: "(string, dirent) gomap"
  w_lstat_err :: "string \<Rightarrow> go_error option"
  w_readdir_err :: "string \<Rightarrow> go_error option"
  w_info_err :: "string \<Rightarrow> go_error option"
  w_read :: "string \<Rightarrow> byte list option"
  w_restat :: "string \<Rightarrow> (int \<times> int \<times> int) option"
  w_gone :: "string \<Rightarrow> bool"
  w_now :: int
  w_cancel :: "probe \<Rightarrow> bool"

section \<open>The scanner\<close>

record InFlightFile =
  if_Name :: string
  if_Size :: int
  if_Since :: int
  if_Scans :: int

record Scanner =
  sc_ignore :: Matcher
  sc_include :: Matcher
  settleScans :: int
  settleSeconds :: int
  deletionScans :: int
  crossScopePair :: bool
  bypassGate :: bool
  lastInFlight :: "InFlightFile list"
  forceHash :: bool

definition New_Scanner :: "Matcher \<Rightarrow> Scanner" where
  "New_Scanner ig = \<lparr>sc_ignore = ig, sc_include = None, settleScans = 2, settleSeconds = 10, deletionScans = 2,
     crossScopePair = True, bypassGate = False, lastInFlight = [], forceHash = False\<rparr>"

definition SetForceHash :: "bool \<Rightarrow> Scanner \<Rightarrow> Scanner" where
  "SetForceHash on sc = sc\<lparr>forceHash := on\<rparr>"

definition SetInclude :: "Matcher \<Rightarrow> Scanner \<Rightarrow> Scanner" where
  "SetInclude m sc = sc\<lparr>sc_include := m\<rparr>"

definition SetSettleScans :: "int \<Rightarrow> Scanner \<Rightarrow> Scanner" where
  "SetSettleScans n sc = sc\<lparr>settleScans := (if n \<le> 0 then 2 else n)\<rparr>"

definition SetSettleSeconds :: "int \<Rightarrow> Scanner \<Rightarrow> Scanner" where
  "SetSettleSeconds n sc = sc\<lparr>settleSeconds := (if n < 0 then 0 else n)\<rparr>"

definition SetCrossScopePairing :: "bool \<Rightarrow> Scanner \<Rightarrow> Scanner" where
  "SetCrossScopePairing on sc = sc\<lparr>crossScopePair := on\<rparr>"

definition SetDeletionScans :: "int \<Rightarrow> Scanner \<Rightarrow> Scanner" where
  "SetDeletionScans n sc = sc\<lparr>deletionScans := (if n \<le> 0 then 2 else n)\<rparr>"

definition SetGateBypass :: "bool \<Rightarrow> Scanner \<Rightarrow> Scanner" where
  "SetGateBypass b sc = sc\<lparr>bypassGate := b\<rparr>"

definition gateOn :: "Scanner \<Rightarrow> bool" where
  "gateOn sc \<longleftrightarrow> \<not> bypassGate sc \<and> settleScans sc > 1"

record pending =
  pd_rel :: string
  pd_kind :: ChangeKind
  pd_size :: int
  pd_modS :: int
  pd_modNs :: int
  pd_mode :: uint32
  pd_first :: int
  pd_prevKey :: "byte list"

type_synonym mtKey = "int \<times> int \<times> int"

definition info_mt :: "FileInfo \<Rightarrow> mtKey" where
  "info_mt fi = (Size fi, ModifiedS fi, ModifiedNs fi)"

definition pending_mt :: "pending \<Rightarrow> mtKey" where
  "pending_mt p = (pd_size p, pd_modS p, pd_modNs p)"

record gateCandidate =
  gc_from :: string
  gc_rel :: string
  gc_size :: int
  gc_modS :: int
  gc_modNs :: int
  gc_mode :: uint32

definition new_change :: "ChangeKind \<Rightarrow> FileInfo \<Rightarrow> Change" where
  "new_change k fi = \<lparr>c_Kind = k, c_Info = fi, c_From = [], c_Rule = [], c_OutOfGate = False\<rparr>"

definition inScope :: "string list \<Rightarrow> string \<Rightarrow> bool" where
  "inScope scope name \<longleftrightarrow> scope = [] \<or> list_ex (\<lambda>root. name = root \<or> HasPrefix name (root @ ''/'')) scope"

section \<open>The include gate's rename candidates\<close>

definition group_add :: "('k, 'v list) gomap \<Rightarrow> 'k \<Rightarrow> 'v \<Rightarrow> ('k, 'v list) gomap" where
  "group_add m k x = mset_at m k ((case mget m k of Some xs \<Rightarrow> xs | None \<Rightarrow> []) @ [x])"

definition group_get :: "('k, 'v list) gomap \<Rightarrow> 'k \<Rightarrow> 'v list" where
  "group_get m k = (case mget m k of Some xs \<Rightarrow> xs | None \<Rightarrow> [])"

definition live_rows :: "Index \<Rightarrow> FileInfo list" where
  "live_rows ix = (case Ix_List ix of Inl _ \<Rightarrow> [] | Inr fis \<Rightarrow> fis)"

definition inScopeFilesByMT :: "Scanner \<Rightarrow> Index \<Rightarrow> (mtKey, string list) gomap" where
  "inScopeFilesByMT sc ix =
     (if sc_include sc = None then []
      else foldl (\<lambda>m fi. group_add m (info_mt fi) (Name fi)) []
        (filter (\<lambda>fi. Type fi = TypeFile \<and> fst (Match (sc_include sc) (Name fi) False)) (live_rows ix)))"

definition collapseGateCands :: "gateCandidate list \<Rightarrow> (string, gateCandidate) gomap" where
  "collapseGateCands cands =
     foldl (\<lambda>m c. if length (filter (\<lambda>d. gc_from d = gc_from c) cands) = 1 then mset_at m (gc_from c) c else m) [] cands"

section \<open>The walk\<close>

record WalkState =
  ws_seen :: "string list"
  ws_changes :: "Change list"
  ws_toHash :: "pending list"
  ws_walked :: int
  ws_ignoredFiles :: int
  ws_ignoredBytes :: int
  ws_nextSettle :: "(string, SettleState) gomap"
  ws_inFlight :: "InFlightFile list"
  ws_gateCands :: "gateCandidate list"

definition empty_walk :: WalkState where
  "empty_walk = \<lparr>ws_seen = [], ws_changes = [], ws_toHash = [], ws_walked = 0, ws_ignoredFiles = 0, ws_ignoredBytes = 0,
     ws_nextSettle = [], ws_inFlight = [], ws_gateCands = []\<rparr>"

text \<open>What stays fixed during one pass.\<close>

record Pass =
  ps_sc :: Scanner
  ps_ix :: Index
  ps_settle :: "(string, SettleState) gomap"
  ps_gateByMT :: "(mtKey, string list) gomap"
  ps_force :: bool
  ps_now :: int

datatype verdict = VNil | VSkipDir | VSkipAll | VErr go_error

definition see :: "string \<Rightarrow> WalkState \<Rightarrow> WalkState" where
  "see p st = st\<lparr>ws_seen := p # ws_seen st\<rparr>"

definition note_change :: "Change \<Rightarrow> WalkState \<Rightarrow> WalkState" where
  "note_change c st = st\<lparr>ws_changes := ws_changes st @ [c]\<rparr>"

definition offer :: "pending \<Rightarrow> WalkState \<Rightarrow> WalkState" where
  "offer p st = st\<lparr>ws_toHash := ws_toHash st @ [p]\<rparr>"

definition settle_run :: "Pass \<Rightarrow> string \<Rightarrow> mtKey \<Rightarrow> int \<times> int" where
  "settle_run ps p mt =
     (case mget (ps_settle ps) p of
        Some prev \<Rightarrow> if (st_Size prev, st_ModS prev, st_ModNs prev) = mt then (st_Count prev + 1, st_First prev) else (1, ps_now ps)
      | None \<Rightarrow> (1, ps_now ps))"

definition hold_back :: "Pass \<Rightarrow> int \<Rightarrow> int \<Rightarrow> bool" where
  "hold_back ps num first \<longleftrightarrow> num < settleScans (ps_sc ps)
     \<or> settleScans (ps_sc ps) > 1 \<and> settleSeconds (ps_sc ps) > 0 \<and> ps_now ps - first < settleSeconds (ps_sc ps)"

definition visit_changed :: "Pass \<Rightarrow> string \<Rightarrow> mtKey \<Rightarrow> uint32 \<Rightarrow> ChangeKind \<Rightarrow> byte list \<Rightarrow> WalkState \<Rightarrow> WalkState" where
  "visit_changed ps p mt perm kind prevKey st =
     (let (sz, modS, modNs) = mt;
          pd = (\<lambda>first. \<lparr>pd_rel = p, pd_kind = kind, pd_size = sz, pd_modS = modS, pd_modNs = modNs, pd_mode = perm,
                  pd_first = first, pd_prevKey = prevKey\<rparr>) in
        if \<not> gateOn (ps_sc ps) \<or> ps_force ps then offer (pd (ps_now ps)) st
        else let (num, first) = settle_run ps p mt in
          if hold_back ps num first
          then st\<lparr>ws_nextSettle := mset_at (ws_nextSettle st) p
                    \<lparr>st_Size = sz, st_ModS = modS, st_ModNs = modNs, st_Count = num, st_First = first\<rparr>,
                  ws_inFlight := ws_inFlight st @ [\<lparr>if_Name = p, if_Size = sz, if_Since = first, if_Scans = num\<rparr>]\<rparr>
          else offer (pd first) st)"

definition existing_row :: "Pass \<Rightarrow> string \<Rightarrow> FileInfo option" where
  "existing_row ps p = (case Ix_Get (ps_ix ps) p of Inr row \<Rightarrow> row | Inl _ \<Rightarrow> None)"

definition visit_file :: "Pass \<Rightarrow> string \<Rightarrow> mtKey \<Rightarrow> uint32 \<Rightarrow> WalkState \<Rightarrow> WalkState" where
  "visit_file ps p mt perm st =
     (case existing_row ps p of
        None \<Rightarrow> visit_changed ps p mt perm Added [] st
      | Some old \<Rightarrow>
          if info_mt old = mt \<and> \<not> ps_force ps then st
          else visit_changed ps p mt perm Modified (if ps_force ps then contentKey old else []) st)"

definition dirInfo :: "string \<Rightarrow> uint32 \<Rightarrow> FileInfo" where
  "dirInfo rel perm = zero_info\<lparr>Name := rel, Type := TypeDirectory, Mode := perm\<rparr>"

definition symlinkInfo :: "string \<Rightarrow> uint32 \<Rightarrow> FileInfo" where
  "symlinkInfo rel perm = zero_info\<lparr>Name := rel, Type := TypeSymlink, Mode := perm\<rparr>"

definition gate_candidate :: "Pass \<Rightarrow> string \<Rightarrow> dirent \<Rightarrow> WalkState \<Rightarrow> WalkState" where
  "gate_candidate ps p d st =
     (case d of
        DFile sz modS modNs perm \<Rightarrow>
          (case group_get (ps_gateByMT ps) (sz, modS, modNs) of
             [from] \<Rightarrow> st\<lparr>ws_gateCands := ws_gateCands st @ [\<lparr>gc_from = from, gc_rel = p, gc_size = sz, gc_modS = modS,
                        gc_modNs = modNs, gc_mode = perm\<rparr>]\<rparr>
           | _ \<Rightarrow> st)
      | _ \<Rightarrow> st)"

definition skipped :: "string \<Rightarrow> string \<Rightarrow> Change" where
  "skipped p rule = (new_change Skipped (zero_info\<lparr>Name := p, Type := TypeFile\<rparr>))\<lparr>c_Rule := rule\<rparr>"

definition is_dir :: "dirent \<Rightarrow> bool" where
  "is_dir d \<longleftrightarrow> (case d of DDir _ \<Rightarrow> True | _ \<Rightarrow> False)"

definition visit_tracked :: "Pass \<Rightarrow> string \<Rightarrow> dirent \<Rightarrow> WalkState \<Rightarrow> WalkState" where
  "visit_tracked ps p d st =
     (case d of
        DDir perm \<Rightarrow> if existing_row ps p = None then note_change (new_change Added (dirInfo p perm)) st else st
      | DLink _ perm \<Rightarrow> if existing_row ps p = None then note_change (new_change Added (symlinkInfo p perm)) st else st
      | DFile sz modS modNs perm \<Rightarrow> visit_file ps p (sz, modS, modNs) perm st)"

definition visit_ruled :: "Pass \<Rightarrow> string \<Rightarrow> dirent \<Rightarrow> WalkState \<Rightarrow> WalkState \<times> verdict" where
  "visit_ruled ps p d st =
     (case Match (sc_ignore (ps_sc ps)) p (is_dir d) of
        (True, rule) \<Rightarrow>
          if is_dir d then (see p st, VSkipDir)
          else (note_change (skipped p (case rule of Some r \<Rightarrow> Raw r | None \<Rightarrow> [])) (see p st), VNil)
      | (False, _) \<Rightarrow>
          if in_gate (sc_include (ps_sc ps)) p (is_dir d) then (visit_tracked ps p d (see p st), VNil)
          else if is_dir d then (see p st, VNil)
          else (note_change (skipped p ''include'') (gate_candidate ps p d (see p st)), VNil))"

definition visit_reserved :: "ScanWorld \<Rightarrow> string \<Rightarrow> dirent \<Rightarrow> WalkState \<Rightarrow> WalkState \<times> verdict" where
  "visit_reserved w p d st =
     (if is_dir d then (st, VSkipDir)
      else if w_info_err w p = None
        then (st\<lparr>ws_ignoredFiles := ws_ignoredFiles st + 1, ws_ignoredBytes := ws_ignoredBytes st + d_size d\<rparr>, VNil)
      else (st, VNil))"

definition visit :: "ScanWorld \<Rightarrow> Pass \<Rightarrow> string \<Rightarrow> dirent \<Rightarrow> WalkState \<Rightarrow> WalkState \<times> verdict" where
  "visit w ps p d st =
     (if w_cancel w (AtVisit p) then (st, VSkipAll)
      else let st1 = st\<lparr>ws_walked := ws_walked st + 1\<rparr> in
        if p = ''.'' then (st1, VNil)
        else if IsReserved p \<or> IsTransient p then visit_reserved w p d st1
        else case w_info_err w p of
            Some NotExist \<Rightarrow> (st1, VNil)
          | Some err \<Rightarrow> (st1, VErr err)
          | None \<Rightarrow> visit_ruled ps p d st1)"

definition fs_entry :: "ScanWorld \<Rightarrow> string \<Rightarrow> dirent option" where
  "fs_entry w p = (if p = ''.'' then Some (DDir 0) else mget (w_entries w) p)"

definition below :: "string \<Rightarrow> string \<Rightarrow> bool" where
  "below d p \<longleftrightarrow> d = ''.'' \<or> HasPrefix p (d @ ''/'')"

text \<open>\<^verbatim>\<open>filepath.WalkDir\<close> over the entries in walk order: \<open>skip\<close> is the directory whose entries are being skipped.\<close>

fun walk_loop :: "ScanWorld \<Rightarrow> Pass \<Rightarrow> string option \<Rightarrow> string list \<Rightarrow> WalkState \<Rightarrow> WalkState \<times> go_error option" where
  "walk_loop w ps skip [] st = (st, None)"
| "walk_loop w ps skip (p # rest) st =
     (if (case skip of Some d \<Rightarrow> below d p | None \<Rightarrow> False) then walk_loop w ps skip rest st
      else case fs_entry w p of
          None \<Rightarrow> walk_loop w ps None rest st
        | Some d \<Rightarrow>
            (case visit w ps p d st of
               (st1, VErr err) \<Rightarrow> (st1, Some err)
             | (st1, VSkipAll) \<Rightarrow> (st1, None)
             | (st1, VSkipDir) \<Rightarrow> walk_loop w ps (Some p) rest st1
             | (st1, VNil) \<Rightarrow>
                 if \<not> is_dir d then walk_loop w ps None rest st1
                 else case w_readdir_err w p of
                     None \<Rightarrow> walk_loop w ps None rest st1
                   | Some NotExist \<Rightarrow> walk_loop w ps (Some p) rest st1
                   | Some err \<Rightarrow> (st1, Some err)))"

definition walk_paths :: "ScanWorld \<Rightarrow> string \<Rightarrow> string list" where
  "walk_paths w root = root # filter (\<lambda>p. p \<noteq> root \<and> below root p) (walk_order (mkeys (w_entries w)))"

definition walk_dir :: "ScanWorld \<Rightarrow> Pass \<Rightarrow> string \<Rightarrow> WalkState \<Rightarrow> WalkState \<times> go_error option" where
  "walk_dir w ps root st =
     (if fs_entry w root = None \<or> w_lstat_err w root = Some NotExist then (st, None)
      else case w_lstat_err w root of
          Some err \<Rightarrow> (st, Some err)
        | None \<Rightarrow> walk_loop w ps None (walk_paths w root) st)"

fun walk_roots :: "ScanWorld \<Rightarrow> Pass \<Rightarrow> string list \<Rightarrow> WalkState \<Rightarrow> WalkState \<times> go_error option" where
  "walk_roots w ps [] st = (st, None)"
| "walk_roots w ps (r # rs) st =
     (case walk_dir w ps r st of (st1, Some err) \<Rightarrow> (st1, Some err) | (st1, None) \<Rightarrow> walk_roots w ps rs st1)"

section \<open>Cheap renames\<close>

definition maxVerifyFileSize :: int where "maxVerifyFileSize = 64 * 2 ^ 20"
definition maxVerifyTotal :: int where "maxVerifyTotal = 256 * 2 ^ 20"

definition trackable :: "Scanner \<Rightarrow> FileInfo \<Rightarrow> bool" where
  "trackable sc fi \<longleftrightarrow> in_gate (sc_include sc) (Name fi) (Type fi = TypeDirectory)"

definition has_content :: "FileInfo \<Rightarrow> bool" where
  "has_content fi \<longleftrightarrow> Type fi = TypeFile \<and> Blocks fi \<noteq> []"

definition vanished_files :: "Scanner \<Rightarrow> Index \<Rightarrow> string list \<Rightarrow> string list \<Rightarrow> FileInfo list" where
  "vanished_files sc ix scope seen =
     filter (\<lambda>fi. inScope scope (Name fi) \<and> Name fi \<notin> set seen \<and> trackable sc fi \<and> has_content fi) (live_rows ix)"

definition cheap_cands :: "pending list \<Rightarrow> FileInfo list \<Rightarrow> (pending \<times> FileInfo) list" where
  "cheap_cands added vanished =
     sort_key (\<lambda>c. pd_rel (fst c))
       (List.map_filter (\<lambda>p. case (filter (\<lambda>q. pending_mt q = pending_mt p) added, filter (\<lambda>fi. info_mt fi = pending_mt p) vanished) of
            ([_], [old]) \<Rightarrow> Some (p, old) | _ \<Rightarrow> None) added)"

definition sample_step :: "nat \<Rightarrow> nat" where
  "sample_step n = max 1 (n div min n (min 64 (max 3 (n div 32 + 1))))"

definition sampled :: "'a list \<Rightarrow> 'a list" where
  "sampled xs = map (\<lambda>i. xs ! i) (filter (\<lambda>i. i mod sample_step (length xs) = 0) [0..<length xs])"

fun verify_sample :: "ScanWorld \<Rightarrow> int \<Rightarrow> (pending \<times> FileInfo) list \<Rightarrow> bool" where
  "verify_sample w spent [] = True"
| "verify_sample w spent ((p, old) # rest) =
     (if w_cancel w (AtVerify (pd_rel p)) then False
      else if pd_size p > maxVerifyFileSize \<or> spent + pd_size p > maxVerifyTotal then verify_sample w spent rest
      else case FileHashes (w_read w (pd_rel p)) 0 of
          Inl _ \<Rightarrow> False
        | Inr (_, blocks) \<Rightarrow> equalBlocks blocks (Blocks old) \<and> verify_sample w (spent + pd_size p) rest)"

definition cheap_rename :: "pending \<times> FileInfo \<Rightarrow> Change" where
  "cheap_rename c = (new_change Renamed ((snd c)\<lparr>Name := pd_rel (fst c), Sequence := 0\<rparr>))\<lparr>c_From := Name (snd c)\<rparr>"

text \<open>The trusted renames, the vanished names they claim and what is left to hash.\<close>

definition cheapRenames :: "ScanWorld \<Rightarrow> Scanner \<Rightarrow> Index \<Rightarrow> string list \<Rightarrow> string list \<Rightarrow> pending list \<Rightarrow> Change list \<times> string list \<times> pending list" where
  "cheapRenames w sc ix scope seen toHash =
     (let added = filter (\<lambda>p. pd_kind p = Added) toHash in
        if added = [] then ([], [], toHash)
        else let vanished = vanished_files sc ix scope seen; cands = cheap_cands added vanished in
          if cands = [] \<or> length cands * 2 < length added \<or> length cands * 2 < length vanished \<or> \<not> verify_sample w 0 (sampled cands)
          then ([], [], toHash)
          else (map cheap_rename cands, map (Name \<circ> snd) cands,
                filter (\<lambda>p. \<not> (pd_kind p = Added \<and> pending_mt p \<in> pending_mt ` set (map fst cands))) toHash))"

section \<open>Hashing\<close>

definition hashed_info :: "pending \<Rightarrow> int \<Rightarrow> byte list list \<Rightarrow> FileInfo" where
  "hashed_info p blockSize blocks =
     zero_info\<lparr>Name := pd_rel p, Size := pd_size p, ModifiedS := pd_modS p, ModifiedNs := pd_modNs p, Mode := pd_mode p,
       Type := TypeFile, BlockSize := blockSize, Blocks := blocks\<rparr>"

definition hash_one :: "ScanWorld \<Rightarrow> pending \<Rightarrow> (Change + (string \<times> SettleState)) option" where
  "hash_one w p =
     (case FileHashes (w_read w (pd_rel p)) 0 of
        Inl _ \<Rightarrow> None
      | Inr (blockSize, blocks) \<Rightarrow>
          (case w_restat w (pd_rel p) of
             None \<Rightarrow> None
           | Some (sz, modS, modNs) \<Rightarrow>
               if (sz, modS, modNs) \<noteq> pending_mt p
               then Some (Inr (pd_rel p, \<lparr>st_Size = sz, st_ModS = modS, st_ModNs = modNs, st_Count = 1, st_First = pd_first p\<rparr>))
               else let fi = hashed_info p blockSize blocks in
                 Some (Inl (new_change (if pd_prevKey p \<noteq> [] \<and> contentKey fi = pd_prevKey p then Touched else pd_kind p) fi))))"

definition hashPending :: "ScanWorld \<Rightarrow> pending list \<Rightarrow> Change list \<times> (string \<times> SettleState) list \<times> bool" where
  "hashPending w pendings =
     (if w_cancel w AfterHash then ([], [], True)
      else let queue = takeWhile (\<lambda>p. \<not> w_cancel w (AtQueue (pd_rel p))) pendings;
               results = List.map_filter (hash_one w) (filter (\<lambda>p. \<not> w_cancel w (AtHash (pd_rel p))) queue)
           in (List.map_filter (\<lambda>r. case r of Inl c \<Rightarrow> Some c | Inr _ \<Rightarrow> None) results,
               List.map_filter (\<lambda>r. case r of Inr d \<Rightarrow> Some d | Inl _ \<Rightarrow> None) results, False))"

section \<open>Rename detection and the deleted pass\<close>

definition added_content :: "Change \<Rightarrow> bool" where
  "added_content c \<longleftrightarrow> c_Kind c = Added \<and> has_content (c_Info c)"

definition same_content_added :: "Change list \<Rightarrow> FileInfo \<Rightarrow> nat list" where
  "same_content_added cs fi = filter (\<lambda>i. added_content (cs ! i) \<and> contentKey (c_Info (cs ! i)) = contentKey fi) [0..<length cs]"

definition same_mt_added :: "Change list \<Rightarrow> FileInfo \<Rightarrow> bool" where
  "same_mt_added cs fi = list_ex (\<lambda>c. added_content c \<and> info_mt (c_Info c) = info_mt fi) cs"

definition renamed_to :: "FileInfo \<Rightarrow> Change \<Rightarrow> Change" where
  "renamed_to fi c = (new_change Renamed (c_Info c))\<lparr>c_From := Name fi\<rparr>"

definition gate_moved :: "ScanWorld \<Rightarrow> (string, gateCandidate) gomap \<Rightarrow> FileInfo \<Rightarrow> Change option" where
  "gate_moved w gateMoves fi =
     (case mget gateMoves (Name fi) of
        None \<Rightarrow> None
      | Some c \<Rightarrow>
          (case FileHashes (w_read w (gc_rel c)) 0 of
             Inl _ \<Rightarrow> None
           | Inr (_, blocks) \<Rightarrow>
               if equalBlocks blocks (Blocks fi)
               then Some ((new_change Renamed (fi\<lparr>Name := gc_rel c, Sequence := 0, ModifiedS := gc_modS c, ModifiedNs := gc_modNs c, Mode := gc_mode c\<rparr>))
                      \<lparr>c_From := Name fi, c_OutOfGate := True\<rparr>)
               else None))"

text \<open>One index entry of the deleted pass: \<open>cs\<close> are the changes before the pass, the state is the changes added by
it and the added changes already claimed.\<close>

definition detect_one :: "ScanWorld \<Rightarrow> Scanner \<Rightarrow> string list \<Rightarrow> string list \<Rightarrow> string list \<Rightarrow> (string, gateCandidate) gomap \<Rightarrow> Change list
    \<Rightarrow> Change list \<times> nat list \<Rightarrow> FileInfo \<Rightarrow> Change list \<times> nat list" where
  "detect_one w sc scope seen claimed gateMoves cs acc fi =
     (let (out, taken) = acc;
          target = (case same_content_added cs fi of [i] \<Rightarrow> if i \<in> set taken then None else Some i | _ \<Rightarrow> None) in
        if Name fi \<in> set seen \<or> Name fi \<in> set claimed then acc
        else if \<not> inScope scope (Name fi)
          then (case target of
                  Some i \<Rightarrow>
                    if scope \<noteq> [] \<and> crossScopePair sc \<and> has_content fi \<and> same_mt_added cs fi \<and> w_gone w (Name fi)
                    then (out @ [renamed_to fi (cs ! i)], i # taken) else acc
                | None \<Rightarrow> acc)
        else if \<not> trackable sc fi then acc
        else if \<not> has_content fi then (out @ [new_change Deleted_kind fi], taken)
        else case target of
            Some i \<Rightarrow> (out @ [renamed_to fi (cs ! i)], i # taken)
          | None \<Rightarrow>
              (case gate_moved w gateMoves fi of
                 Some c \<Rightarrow> (out @ [c], taken)
               | None \<Rightarrow> (out @ [new_change Deleted_kind fi], taken)))"

definition detectRenames :: "ScanWorld \<Rightarrow> Scanner \<Rightarrow> Index \<Rightarrow> string list \<Rightarrow> string list \<Rightarrow> string list \<Rightarrow> (string, gateCandidate) gomap
    \<Rightarrow> Change list \<Rightarrow> Change list" where
  "detectRenames w sc ix scope seen claimed gateMoves cs =
     (let (out, taken) = foldl (detect_one w sc scope seen claimed gateMoves cs) ([], []) (live_rows ix)
      in map (\<lambda>i. cs ! i) (filter (\<lambda>i. \<not> (c_Kind (cs ! i) = Added \<and> i \<in> set taken)) [0..<length cs]) @ out)"

section \<open>The deletion gate\<close>

definition unsettledKeys :: "(string, SettleState) gomap \<Rightarrow> (string, SettleState) gomap \<Rightarrow> mtKey list" where
  "unsettledKeys prev current = map (\<lambda>(_, st). (st_Size st, st_ModS st, st_ModNs st)) (prev @ current)"

definition deferred_names :: "mtKey list \<Rightarrow> Change list \<Rightarrow> string list" where
  "deferred_names unsettled cs =
     concat (map (\<lambda>c. if Name (c_Info c) = [] then [] else ancestors (Name (c_Info c)))
       (filter (\<lambda>c. c_Kind c = Deleted_kind \<and> has_content (c_Info c) \<and> info_mt (c_Info c) \<in> set unsettled) cs))"

definition missed_once_more :: "int \<Rightarrow> (string, MissingState) gomap \<Rightarrow> string \<Rightarrow> MissingState" where
  "missed_once_more now prev name =
     (case mget prev name of
        None \<Rightarrow> \<lparr>ms_Count = 1, ms_First = now\<rparr>
      | Some st \<Rightarrow> st\<lparr>ms_Count := ms_Count st + 1\<rparr>)"

definition confirm_one :: "Scanner \<Rightarrow> int \<Rightarrow> (string, MissingState) gomap \<Rightarrow> string list \<Rightarrow> (string, MissingState) gomap \<times> Change list \<Rightarrow> Change
    \<Rightarrow> (string, MissingState) gomap \<times> Change list" where
  "confirm_one sc now prev deferred acc c =
     (let (next, out) = acc; name = Name (c_Info c) in
        if c_Kind c \<noteq> Deleted_kind then (next, out @ [c])
        else let st = missed_once_more now prev name in
          if ms_Count st < deletionScans sc \<or> name \<in> set deferred then (mset_at next name st, out)
          else (next, out @ [c]))"

definition confirmDeletions :: "Scanner \<Rightarrow> Index \<Rightarrow> Change list \<Rightarrow> int \<Rightarrow> string list \<Rightarrow> mtKey list \<Rightarrow> Index \<times> Change list" where
  "confirmDeletions sc ix cs now scope unsettled =
     (if deletionScans sc \<le> 1 then (fst (MissingReplace ix []), cs)
      else let prev = (case MissingList ix of Inl _ \<Rightarrow> [] | Inr m \<Rightarrow> m);
               keep = filter (\<lambda>(n, _). \<not> inScope scope n) prev;
               (next, out) = foldl (confirm_one sc now prev (deferred_names unsettled cs)) (keep, []) cs
           in (fst (MissingReplace ix next), out))"

section \<open>One pass\<close>

definition ErrScanCancelled :: go_error where
  "ErrScanCancelled = Err ''scan cancelled''"

definition start_pass :: "ScanWorld \<Rightarrow> Scanner \<Rightarrow> Index \<Rightarrow> Pass" where
  "start_pass w sc ix =
     \<lparr>ps_sc = sc, ps_ix = ix, ps_settle = (case SettleList ix of Inl _ \<Rightarrow> [] | Inr m \<Rightarrow> m),
      ps_gateByMT = inScopeFilesByMT sc ix, ps_force = forceHash sc, ps_now = w_now w\<rparr>"

definition scan_walk :: "ScanWorld \<Rightarrow> Scanner \<Rightarrow> Index \<Rightarrow> string list \<Rightarrow> WalkState \<times> go_error option" where
  "scan_walk w sc ix scope = walk_roots w (start_pass w sc ix) (if scope = [] then [''.''] else scope) empty_walk"

definition drift_entry :: "string \<times> SettleState \<Rightarrow> InFlightFile" where
  "drift_entry d = \<lparr>if_Name = fst d, if_Size = st_Size (snd d), if_Since = st_First (snd d), if_Scans = st_Count (snd d)\<rparr>"

text \<open>The part after the hashing: deleted pass, deletion gate and the tables.\<close>

definition scan_finish :: "ScanWorld \<Rightarrow> Scanner \<Rightarrow> Index \<Rightarrow> string list \<Rightarrow> WalkState \<Rightarrow> string list \<Rightarrow> Change list \<Rightarrow> (string \<times> SettleState) list
    \<Rightarrow> Scanner \<times> Index \<times> Change list \<times> go_error option" where
  "scan_finish w sc ix scope st claimed cs drifted =
     (let settle = ps_settle (start_pass w sc ix);
          nextSettle = foldl (\<lambda>m (n, s). mset_at m n s)
            (foldl (\<lambda>m (n, s). mset_at m n s) (ws_nextSettle st) (if scope = [] then [] else filter (\<lambda>(n, _). \<not> inScope scope n) settle)) drifted;
          inFlight = ws_inFlight st @ map drift_entry drifted;
          cs1 = detectRenames w sc ix scope (ws_seen st) claimed (collapseGateCands (ws_gateCands st)) cs;
          (ix1, cs2) = confirmDeletions sc ix cs1 (w_now w) scope (unsettledKeys settle nextSettle);
          sc1 = sc\<lparr>forceHash := False\<rparr> in
        if w_cancel w AtEnd then (sc1, ix1, [], Some ErrScanCancelled)
        else (sc1\<lparr>lastInFlight := (if scope = [] then inFlight else filter (\<lambda>f. \<not> inScope scope (if_Name f)) (lastInFlight sc) @ inFlight)\<rparr>,
              fst (SettleReplace ix1 nextSettle), cs2, None))"

definition scanScoped :: "ScanWorld \<Rightarrow> Scanner \<Rightarrow> Index \<Rightarrow> string list \<Rightarrow> Scanner \<times> Index \<times> Change list \<times> go_error option" where
  "scanScoped w sc ix scope =
     (let sc1 = sc\<lparr>forceHash := False\<rparr>; (st, err) = scan_walk w sc ix scope in
        if err \<noteq> None then (sc1, ix, ws_changes st, err)
        else if w_cancel w AfterWalk then (sc1, ix, [], Some ErrScanCancelled)
        else let (renames, claimed, toHash) = cheapRenames w sc ix scope (ws_seen st) (ws_toHash st) in
          if w_cancel w AfterRenames then (sc1, ix, [], Some ErrScanCancelled)
          else let (hashed, drifted, stopped) = hashPending w toHash in
            if stopped then (sc1, ix, [], Some ErrScanCancelled)
            else scan_finish w sc ix scope st claimed (ws_changes st @ renames @ hashed) drifted)"

definition Scan_full :: "ScanWorld \<Rightarrow> Scanner \<Rightarrow> Index \<Rightarrow> Scanner \<times> Index \<times> Change list \<times> go_error option" where
  "Scan_full w sc ix = scanScoped w sc ix []"

definition ScanScope :: "ScanWorld \<Rightarrow> Scanner \<Rightarrow> Index \<Rightarrow> string list \<Rightarrow> Scanner \<times> Index \<times> Change list \<times> go_error option" where
  "ScanScope w sc ix scope = scanScoped w sc ix scope"

end
