(* ===== verification/Scan_Safety.thy ===== *)
theory Scan_Safety
  imports Scan
begin

text \<open>
  What a scan may report: invariants of the walk, the frame of a scoped pass, the stability gate, the
  deletion gate over a run of passes, and what an abandoned pass leaves behind.
\<close>

section \<open>Invariants of the walk\<close>

text \<open>One entry of the walk: where it leads, with the directory to skip next or the end of the walk.\<close>

lemma walk_loop_step:
  assumes "\<not> (case skip of Some d \<Rightarrow> below d p | None \<Rightarrow> False)" and "fs_entry w p = Some d" and "visit w ps p d st = (st1, v)"
  obtains (stop) err where "walk_loop w ps skip (p # rest) st = (st1, err)" and "v = VSkipAll \<or> err \<noteq> None"
  | (go) skip' where "walk_loop w ps skip (p # rest) st = walk_loop w ps skip' rest st1" and "v = VNil \<or> v = VSkipDir"
      and "skip' = (if v = VSkipDir \<or> is_dir d \<and> w_readdir_err w p = Some NotExist then Some p else None)"
proof (cases v)
  case VNil
  have eq: "walk_loop w ps skip (p # rest) st = (if \<not> is_dir d then walk_loop w ps None rest st1
      else case w_readdir_err w p of None \<Rightarrow> walk_loop w ps None rest st1 | Some NotExist \<Rightarrow> walk_loop w ps (Some p) rest st1 | Some err \<Rightarrow> (st1, Some err))"
    using assms VNil by simp
  show ?thesis
  proof (cases "\<not> is_dir d \<or> w_readdir_err w p = None")
    case True
    then have "walk_loop w ps skip (p # rest) st = walk_loop w ps None rest st1" using eq by auto
    then show ?thesis using go [of None] VNil True by auto
  next
    case False
    then obtain er where er: "w_readdir_err w p = Some er" "is_dir d" by auto
    show ?thesis
    proof (cases "er = NotExist")
      case True
      then have "walk_loop w ps skip (p # rest) st = walk_loop w ps (Some p) rest st1" using eq er by simp
      then show ?thesis using go [of "Some p"] VNil er True by simp
    next
      case False
      then have "walk_loop w ps skip (p # rest) st = (st1, Some er)" using eq er by (cases er) simp_all
      then show ?thesis using stop by blast
    qed
  qed
next
  case VSkipDir
  then show ?thesis using go [of "Some p"] assms by auto
next
  case VSkipAll
  then show ?thesis using stop [of None] assms by auto
next
  case (VErr x)
  then show ?thesis using stop [of "Some x"] assms by auto
qed

lemma walk_loop_skip:
  "(case skip of Some d \<Rightarrow> below d p | None \<Rightarrow> False) \<Longrightarrow> walk_loop w ps skip (p # rest) st = walk_loop w ps skip rest st"
  "\<not> (case skip of Some d \<Rightarrow> below d p | None \<Rightarrow> False) \<Longrightarrow> fs_entry w p = None \<Longrightarrow> walk_loop w ps skip (p # rest) st = walk_loop w ps None rest st"
  by simp_all

declare walk_loop.simps(2) [simp del]

lemma walk_loop_inv:
  "walk_loop w ps skip paths st = (st', err) \<Longrightarrow> I st \<Longrightarrow>
   (\<And>p d st. p \<in> set paths \<Longrightarrow> fs_entry w p = Some d \<Longrightarrow> I st \<Longrightarrow> I (fst (visit w ps p d st))) \<Longrightarrow> I st'"
proof (induction paths arbitrary: skip st)
  case (Cons p rest)
  show ?case
  proof (cases "case skip of Some d \<Rightarrow> below d p | None \<Rightarrow> False")
    case True
    then show ?thesis using Cons walk_loop_skip(1) [OF True] by simp
  next
    case s: False
    show ?thesis
    proof (cases "fs_entry w p")
      case None
      then show ?thesis using Cons walk_loop_skip(2) [OF s None] by simp
    next
      case (Some d)
      obtain st1 v where v: "visit w ps p d st = (st1, v)" by (cases "visit w ps p d st")
      have "I st1" using Cons.prems(3) [of p d st] Some v Cons.prems(2) by simp
      then show ?thesis using walk_loop_step [OF s Some v, of rest] Cons by (metis fst_conv list.set_intros(2))
    qed
  qed
qed simp

lemma walk_roots_inv:
  "walk_roots w ps roots st = (st', err) \<Longrightarrow> I st \<Longrightarrow>
   (\<And>r p d st. r \<in> set roots \<Longrightarrow> p \<in> set (walk_paths w r) \<Longrightarrow> fs_entry w p = Some d \<Longrightarrow> I st \<Longrightarrow> I (fst (visit w ps p d st))) \<Longrightarrow> I st'"
proof (induction roots arbitrary: st)
  case (Cons r rs)
  obtain st1 er where d: "walk_dir w ps r st = (st1, er)" by (cases "walk_dir w ps r st")
  have "I st1"
    using d Cons.prems(2) walk_loop_inv [of w ps None "walk_paths w r" st st1 er I] Cons.prems(3) [of r]
    by (auto simp: walk_dir_def split: if_splits option.splits)
  have "I st'" if "er = None"
    by (rule Cons.IH [of st1]) (use Cons.prems(1,3) d that \<open>I st1\<close> in auto)
  then show ?case using \<open>I st1\<close> Cons.prems(1) d by (cases er) simp_all
qed simp

lemma scan_walk_inv:
  assumes "scan_walk w sc ix scope = (st, err)" and "I empty_walk"
    and "\<And>p d st. scope = [] \<or> ''.'' \<in> set scope \<or> inScope scope p \<Longrightarrow> fs_entry w p = Some d \<Longrightarrow> I st \<Longrightarrow> I (fst (visit w (start_pass w sc ix) p d st))"
  shows "I st"
proof (rule walk_roots_inv [where I = I, OF assms(1) [unfolded scan_walk_def] assms(2)])
  fix r p d st assume r: "r \<in> set (if scope = [] then [''.''] else scope)" and p: "p \<in> set (walk_paths w r)"
    and d: "fs_entry w p = Some d" and I: "I st"
  have "scope = [] \<or> ''.'' \<in> set scope \<or> inScope scope p"
    using r p by (auto simp: walk_paths_def below_def inScope_def list_ex_iff split: if_splits)
  then show "I (fst (visit w (start_pass w sc ix) p d st))" using assms(3) d I by blast
qed

section \<open>What one visit does\<close>

definition offered :: "Pass \<Rightarrow> string \<Rightarrow> pending \<Rightarrow> bool" where
  "offered ps p pd \<longleftrightarrow> pd_rel pd = p \<and> (pd_kind pd = Added \<or> pd_kind pd = Modified) \<and> (pd_kind pd = Added \<longrightarrow> existing_row ps p = None)
     \<and> (\<not> ps_force ps \<longrightarrow> pd_prevKey pd = [])
     \<and> (gateOn (ps_sc ps) \<and> \<not> ps_force ps \<longrightarrow> (case settle_run ps p (pending_mt pd) of (num, first) \<Rightarrow> \<not> hold_back ps num first))"

definition plain_change :: "string \<Rightarrow> Change \<Rightarrow> bool" where
  "plain_change p c \<longleftrightarrow> Name (c_Info c) = p \<and> (c_Kind c = Skipped \<or> c_Kind c = Added \<and> Type (c_Info c) \<noteq> TypeFile)"

definition effect :: "Pass \<Rightarrow> string \<Rightarrow> WalkState \<Rightarrow> WalkState \<Rightarrow> bool" where
  "effect ps p st st' \<longleftrightarrow>
     set (ws_seen st) \<subseteq> set (ws_seen st')
     \<and> (ws_toHash st' = ws_toHash st \<or> (\<exists>pd. ws_toHash st' = ws_toHash st @ [pd] \<and> offered ps p pd \<and> p \<in> set (ws_seen st')))
     \<and> (ws_nextSettle st' = ws_nextSettle st \<or> (\<exists>s. ws_nextSettle st' = mset_at (ws_nextSettle st) p s))
     \<and> (ws_inFlight st' = ws_inFlight st \<or> (\<exists>f. ws_inFlight st' = ws_inFlight st @ [f] \<and> if_Name f = p))
     \<and> (ws_changes st' = ws_changes st \<or> (\<exists>c. ws_changes st' = ws_changes st @ [c] \<and> plain_change p c))"

lemma visit_changed_effect:
  assumes "kind = Added \<or> kind = Modified" and "kind = Added \<longrightarrow> existing_row ps p = None" and "\<not> ps_force ps \<longrightarrow> prevKey = []"
    and "p \<in> set (ws_seen st)"
  shows "effect ps p st (visit_changed ps p mt perm kind prevKey st)" and "ws_seen (visit_changed ps p mt perm kind prevKey st) = ws_seen st"
proof -
  obtain a b c where mt: "mt = (a, b, c)" by (cases mt)
  obtain n f where r: "settle_run ps p mt = (n, f)" by (cases "settle_run ps p mt")
  show "ws_seen (visit_changed ps p mt perm kind prevKey st) = ws_seen st"
    using mt r by (simp add: visit_changed_def offer_def Let_def)
  show "effect ps p st (visit_changed ps p mt perm kind prevKey st)"
    using assms mt r by (auto simp: visit_changed_def offer_def Let_def effect_def offered_def pending_mt_def)
qed

lemma visit_file_effect:
  assumes "p \<in> set (ws_seen st)"
  shows "effect ps p st (visit_file ps p mt perm st)" and "ws_seen (visit_file ps p mt perm st) = ws_seen st"
  using visit_changed_effect [of _ ps p _ st] assms by (auto simp: visit_file_def effect_def split: option.splits)

lemma visit_tracked_effect:
  assumes "p \<in> set (ws_seen st)"
  shows "effect ps p st (visit_tracked ps p d st)" and "ws_seen (visit_tracked ps p d st) = ws_seen st"
  using visit_file_effect [OF assms] assms
  by (auto simp: visit_tracked_def note_change_def effect_def plain_change_def new_change_def dirInfo_def symlinkInfo_def zero_info_def split: dirent.splits)

lemma effect_see: "effect ps p (see p st) st' \<Longrightarrow> effect ps p st st'"
  by (auto simp: effect_def see_def)

lemma gate_candidate_simps [simp]:
  "ws_seen (gate_candidate ps p d st) = ws_seen st" "ws_toHash (gate_candidate ps p d st) = ws_toHash st"
  "ws_nextSettle (gate_candidate ps p d st) = ws_nextSettle st" "ws_inFlight (gate_candidate ps p d st) = ws_inFlight st"
  "ws_changes (gate_candidate ps p d st) = ws_changes st"
  by (auto simp: gate_candidate_def split: dirent.split list.split)

lemma visit_ruled_effect: "effect ps p st (fst (visit_ruled ps p d st))" and visit_ruled_sees: "p \<in> set (ws_seen (fst (visit_ruled ps p d st)))"
proof -
  have t: "effect ps p (see p st) (visit_tracked ps p d (see p st))" "ws_seen (visit_tracked ps p d (see p st)) = p # ws_seen st"
    using visit_tracked_effect [of p "see p st" ps d] by (simp_all add: see_def)
  show "effect ps p st (fst (visit_ruled ps p d st))"
    using effect_see [OF t(1)]
    by (auto simp: visit_ruled_def see_def note_change_def skipped_def new_change_def effect_def plain_change_def split: prod.split bool.split)
  show "p \<in> set (ws_seen (fst (visit_ruled ps p d st)))"
    using t(2) by (auto simp: visit_ruled_def see_def note_change_def split: prod.split bool.split)
qed

lemma visit_effect: "effect ps p st (fst (visit w ps p d st))"
proof -
  let ?st1 = "st\<lparr>ws_walked := ws_walked st + 1\<rparr>"
  have walked: "effect ps p ?st1 st' = effect ps p st st'" for st' by (simp add: effect_def)
  have refl: "effect ps p s s" for s by (simp add: effect_def)
  have "effect ps p st ?st1" using walked refl by blast
  moreover have "effect ps p st (fst (visit_reserved w p d ?st1))"
    by (simp add: effect_def visit_reserved_def)
  moreover have "effect ps p st (fst (visit_ruled ps p d ?st1))" using visit_ruled_effect [of ps p ?st1 d] walked by blast
  moreover have "fst (visit w ps p d st) \<in> {st, ?st1, fst (visit_reserved w p d ?st1), fst (visit_ruled ps p d ?st1)}"
    by (simp add: visit_def Let_def split: option.split go_error.split)
  ultimately show ?thesis using refl by auto
qed

section \<open>What a walk collects\<close>

definition in_walk :: "string list \<Rightarrow> string \<Rightarrow> bool" where
  "in_walk scope p \<longleftrightarrow> scope = [] \<or> ''.'' \<in> set scope \<or> inScope scope p"

lemma in_walk_scope: "''.'' \<notin> set scope \<Longrightarrow> in_walk scope p = inScope scope p"
  by (auto simp: in_walk_def inScope_def)

definition walk_ok :: "Pass \<Rightarrow> string list \<Rightarrow> WalkState \<Rightarrow> bool" where
  "walk_ok ps scope st \<longleftrightarrow>
     (\<forall>pd \<in> set (ws_toHash st). offered ps (pd_rel pd) pd \<and> pd_rel pd \<in> set (ws_seen st) \<and> in_walk scope (pd_rel pd))
     \<and> (\<forall>n. mget (ws_nextSettle st) n \<noteq> None \<longrightarrow> in_walk scope n)
     \<and> (\<forall>f \<in> set (ws_inFlight st). in_walk scope (if_Name f))
     \<and> (\<forall>c \<in> set (ws_changes st). plain_change (Name (c_Info c)) c)"

lemma effect_walk_ok:
  assumes "effect ps p st st'" and "in_walk scope p" and "walk_ok ps scope st"
  shows "walk_ok ps scope st'"
proof -
  note e = assms(1) [unfolded effect_def] and k = assms(3) [unfolded walk_ok_def]
  have seen: "set (ws_seen st) \<subseteq> set (ws_seen st')" using e by blast
  have a: "offered ps (pd_rel pd) pd \<and> pd_rel pd \<in> set (ws_seen st') \<and> in_walk scope (pd_rel pd)" if "pd \<in> set (ws_toHash st')" for pd
  proof (cases "pd \<in> set (ws_toHash st)")
    case True
    then show ?thesis using k seen by blast
  next
    case False
    then have "offered ps p pd" "p \<in> set (ws_seen st')" using e that by (auto simp: offered_def)
    then show ?thesis using assms(2) by (auto simp: offered_def)
  qed
  have b: "in_walk scope n" if "mget (ws_nextSettle st') n \<noteq> None" for n
    using e k assms(2) that by (metis mget_mset_at)
  have c: "in_walk scope (if_Name f)" if "f \<in> set (ws_inFlight st')" for f using e k assms(2) that by auto
  have d: "plain_change (Name (c_Info c)) c" if "c \<in> set (ws_changes st')" for c using e k that by (auto simp: plain_change_def)
  show ?thesis unfolding walk_ok_def using a b c d by blast
qed

lemma scan_walk_ok:
  assumes "scan_walk w sc ix scope = (st, err)"
  shows "walk_ok (start_pass w sc ix) scope st"
proof (rule scan_walk_inv [where I = "walk_ok (start_pass w sc ix) scope", OF assms])
  show "walk_ok (start_pass w sc ix) scope empty_walk" by (simp add: walk_ok_def empty_walk_def)
  fix p d st assume "scope = [] \<or> ''.'' \<in> set scope \<or> inScope scope p" and "walk_ok (start_pass w sc ix) scope st"
  then show "walk_ok (start_pass w sc ix) scope (fst (visit w (start_pass w sc ix) p d st))"
    using effect_walk_ok [OF visit_effect] by (simp add: in_walk_def)
qed

section \<open>The deleted pass\<close>

definition detected :: "ScanWorld \<Rightarrow> Scanner \<Rightarrow> string list \<Rightarrow> string list \<Rightarrow> string list \<Rightarrow> (string, gateCandidate) gomap \<Rightarrow> Change list \<Rightarrow> FileInfo \<Rightarrow> Change \<Rightarrow> bool" where
  "detected w sc scope seen claimed gateMoves cs fi c \<longleftrightarrow> Name fi \<notin> set seen \<and> Name fi \<notin> set claimed \<and>
     (inScope scope (Name fi) \<and> trackable sc fi \<and> c = new_change Deleted_kind fi
      \<or> (inScope scope (Name fi) \<or> w_gone w (Name fi)) \<and> (\<exists>a \<in> set cs. added_content a \<and> c = renamed_to fi a)
      \<or> inScope scope (Name fi) \<and> gate_moved w gateMoves fi = Some c)"

lemma same_content_added_in: "same_content_added cs fi = [i] \<Longrightarrow> cs ! i \<in> set cs \<and> added_content (cs ! i)"
proof -
  assume "same_content_added cs fi = [i]"
  then have "i \<in> set (same_content_added cs fi)" by simp
  then show ?thesis by (auto simp: same_content_added_def)
qed

lemma detect_one_out:
  "\<exists>xs taken'. detect_one w sc scope seen claimed gm cs (out, taken) fi = (out @ xs, taken') \<and> (\<forall>c \<in> set xs. detected w sc scope seen claimed gm cs fi c)"
proof -
  define target where "target = (case same_content_added cs fi of [i] \<Rightarrow> if i \<in> set taken then None else Some i | _ \<Rightarrow> None)"
  have t: "cs ! i \<in> set cs \<and> added_content (cs ! i)" if "target = Some i" for i
    using that same_content_added_in [of cs fi i] by (auto simp: target_def split: list.splits if_splits)
  have "detect_one w sc scope seen claimed gm cs (out, taken) fi =
    (if Name fi \<in> set seen \<or> Name fi \<in> set claimed then (out, taken)
     else if \<not> inScope scope (Name fi)
       then (case target of Some i \<Rightarrow> if scope \<noteq> [] \<and> crossScopePair sc \<and> has_content fi \<and> same_mt_added cs fi \<and> w_gone w (Name fi)
               then (out @ [renamed_to fi (cs ! i)], i # taken) else (out, taken) | None \<Rightarrow> (out, taken))
     else if \<not> trackable sc fi then (out, taken)
     else if \<not> has_content fi then (out @ [new_change Deleted_kind fi], taken)
     else case target of Some i \<Rightarrow> (out @ [renamed_to fi (cs ! i)], i # taken)
       | None \<Rightarrow> (case gate_moved w gm fi of Some c \<Rightarrow> (out @ [c], taken) | None \<Rightarrow> (out @ [new_change Deleted_kind fi], taken)))"
    by (simp add: detect_one_def target_def Let_def)
  then show ?thesis using t
    by (cases target; cases "gate_moved w gm fi") (auto simp: detected_def)
qed

lemma detect_fold:
  "c \<in> set (fst (foldl (detect_one w sc scope seen claimed gm cs) (out, taken) rows)) \<Longrightarrow>
     c \<in> set out \<or> (\<exists>fi \<in> set rows. detected w sc scope seen claimed gm cs fi c)"
proof (induction rows arbitrary: out taken)
  case (Cons fi rows)
  obtain xs taken' where x: "detect_one w sc scope seen claimed gm cs (out, taken) fi = (out @ xs, taken')"
    "\<forall>c \<in> set xs. detected w sc scope seen claimed gm cs fi c" using detect_one_out by blast
  then show ?case using Cons.IH [of "out @ xs" taken'] Cons.prems by auto
qed simp

lemma detectRenames_set:
  assumes "c \<in> set (detectRenames w sc ix scope seen claimed gm cs)"
  shows "c \<in> set cs \<or> (\<exists>fi \<in> set (live_rows ix). detected w sc scope seen claimed gm cs fi c)"
proof -
  obtain out taken where f: "foldl (detect_one w sc scope seen claimed gm cs) ([], []) (live_rows ix) = (out, taken)"
    by (cases "foldl (detect_one w sc scope seen claimed gm cs) ([], []) (live_rows ix)")
  then have "c \<in> set cs \<or> c \<in> set out" using assms by (auto simp: detectRenames_def)
  then show ?thesis using detect_fold [of c w sc scope seen claimed gm cs "[]" "[]" "live_rows ix"] f by auto
qed

section \<open>The deletion gate\<close>

definition missing_count :: "(string, MissingState) gomap \<Rightarrow> string \<Rightarrow> int" where
  "missing_count m n = (case mget m n of None \<Rightarrow> 0 | Some s \<Rightarrow> ms_Count s)"

lemma missed_once_more_count: "ms_Count (missed_once_more now prev n) = missing_count prev n + 1"
  by (simp add: missed_once_more_def missing_count_def split: option.split)

lemma confirm_fold:
  "foldl (confirm_one sc now prev deferred) (m, out) cs = (nx, out') \<Longrightarrow>
     (mget nx n = mget m n \<or> mget nx n = Some (missed_once_more now prev n) \<and> (\<exists>c \<in> set cs. c_Kind c = Deleted_kind \<and> Name (c_Info c) = n))
     \<and> (\<forall>c \<in> set out'. c \<in> set out \<or> c \<in> set cs \<and> (c_Kind c = Deleted_kind \<longrightarrow> deletionScans sc \<le> missing_count prev (Name (c_Info c)) + 1))"
proof (induction cs arbitrary: m out)
  case (Cons a cs)
  obtain m1 out1 where s: "confirm_one sc now prev deferred (m, out) a = (m1, out1)" by (cases "confirm_one sc now prev deferred (m, out) a")
  have m1: "mget m1 n = mget m n \<or> mget m1 n = Some (missed_once_more now prev n) \<and> c_Kind a = Deleted_kind \<and> Name (c_Info a) = n"
    using s by (auto simp: confirm_one_def Let_def split: if_splits)
  have "c \<in> set out \<or> c = a \<and> (c_Kind a = Deleted_kind \<longrightarrow> deletionScans sc \<le> missing_count prev (Name (c_Info a)) + 1)" if "c \<in> set out1" for c
    using s that missed_once_more_count [of now prev "Name (c_Info a)"] by (auto simp: confirm_one_def Let_def split: if_splits)
  then show ?case using Cons.IH [of m1 out1] Cons.prems s m1 by auto
qed simp

lemma confirmDeletions_frame:
  assumes "confirmDeletions sc ix cs now scope uns = (ix', out)"
  shows "files ix' = files ix" and "settling ix' = settling ix" and "fault_settle_put ix' = fault_settle_put ix"
    and "fault_missing_put ix \<Longrightarrow> missing ix' = missing ix"
  using assms by (auto simp: confirmDeletions_def MissingReplace_def Let_def split: if_splits prod.splits)

text \<open>The table the pass starts from: empty when it cannot be read.\<close>

definition suspected_before :: "Index \<Rightarrow> (string, MissingState) gomap" where
  "suspected_before ix = (if fault_missing ix then [] else missing ix)"

lemma confirmDeletions_table:
  assumes "confirmDeletions sc ix cs now scope uns = (ix', out)" and "1 < deletionScans sc" and "\<not> fault_missing_put ix"
  shows "mget (missing ix') n = (if inScope scope n then None else mget (suspected_before ix) n)
      \<or> (\<exists>c \<in> set cs. c_Kind c = Deleted_kind \<and> Name (c_Info c) = n) \<and> missing_count (missing ix') n = missing_count (suspected_before ix) n + 1"
proof -
  let ?prev = "suspected_before ix"
  let ?keep = "filter (\<lambda>(n, _). \<not> inScope scope n) ?prev"
  obtain nx where f: "foldl (confirm_one sc now ?prev (deferred_names uns cs)) (?keep, []) cs = (nx, out)" and m: "missing ix' = nx"
    using assms by (auto simp: confirmDeletions_def MissingReplace_def MissingList_def suspected_before_def Let_def split: prod.splits if_splits)
  show ?thesis using confirm_fold [OF f, of n] missed_once_more_count [of now ?prev n] m
    by (auto simp: mget_filter_key missing_count_def)
qed

lemma confirmDeletions_out:
  assumes "confirmDeletions sc ix cs now scope uns = (ix', out)" and "c \<in> set out"
  shows "c \<in> set cs"
    and "c_Kind c = Deleted_kind \<Longrightarrow> deletionScans sc \<le> 1 \<or> deletionScans sc \<le> missing_count (suspected_before ix) (Name (c_Info c)) + 1"
proof -
  have "c \<in> set cs \<and> (c_Kind c = Deleted_kind \<longrightarrow> deletionScans sc \<le> 1 \<or> deletionScans sc \<le> missing_count (suspected_before ix) (Name (c_Info c)) + 1)"
  proof (cases "deletionScans sc \<le> 1")
    case True
    then show ?thesis using assms by (auto simp: confirmDeletions_def)
  next
    case False
    let ?prev = "suspected_before ix"
    obtain nx where "foldl (confirm_one sc now ?prev (deferred_names uns cs)) (filter (\<lambda>(n, _). \<not> inScope scope n) ?prev, []) cs = (nx, out)"
      using assms(1) False by (auto simp: confirmDeletions_def MissingList_def suspected_before_def Let_def split: prod.splits if_splits)
    from confirm_fold [OF this] assms(2) show ?thesis by auto
  qed
  then show "c \<in> set cs" "c_Kind c = Deleted_kind \<Longrightarrow> deletionScans sc \<le> 1 \<or> deletionScans sc \<le> missing_count (suspected_before ix) (Name (c_Info c)) + 1"
    by auto
qed

section \<open>Stages of a pass\<close>

text \<open>Whether a pass gets as far as the deleted pass.\<close>

definition reaches_deletions :: "ScanWorld \<Rightarrow> Scanner \<Rightarrow> Index \<Rightarrow> string list \<Rightarrow> bool" where
  "reaches_deletions w sc ix scope \<longleftrightarrow> snd (scan_walk w sc ix scope) = None \<and> \<not> w_cancel w AfterWalk \<and> \<not> w_cancel w AfterRenames \<and> \<not> w_cancel w AfterHash"

lemma scan_stages:
  obtains (stopped) cs err where "scanScoped w sc ix scope = (sc\<lparr>forceHash := False\<rparr>, ix, cs, Some err)"
      and "snd (scan_walk w sc ix scope) = None \<longrightarrow> cs = []" and "\<not> reaches_deletions w sc ix scope"
  | (finished) st renames claimed toHash hashed drifted where "scan_walk w sc ix scope = (st, None)"
      and "cheapRenames w sc ix scope (ws_seen st) (ws_toHash st) = (renames, claimed, toHash)"
      and "hashPending w toHash = (hashed, drifted, False)"
      and "scanScoped w sc ix scope = scan_finish w sc ix scope st claimed (ws_changes st @ renames @ hashed) drifted"
      and "reaches_deletions w sc ix scope"
proof -
  obtain st err where walk: "scan_walk w sc ix scope = (st, err)" by (cases "scan_walk w sc ix scope")
  obtain renames claimed toHash where ch: "cheapRenames w sc ix scope (ws_seen st) (ws_toHash st) = (renames, claimed, toHash)"
    by (cases "cheapRenames w sc ix scope (ws_seen st) (ws_toHash st)") auto
  obtain hashed drifted b where h: "hashPending w toHash = (hashed, drifted, b)" by (cases "hashPending w toHash") auto
  then have b: "b = w_cancel w AfterHash" by (auto simp: hashPending_def Let_def split: if_splits)
  show ?thesis
  proof (cases err)
    case (Some x)
    then have "scanScoped w sc ix scope = (sc\<lparr>forceHash := False\<rparr>, ix, ws_changes st, Some x)" using walk by (simp add: scanScoped_def)
    then show ?thesis using stopped walk Some by (simp add: reaches_deletions_def)
  next
    case None
    show ?thesis
    proof (cases "w_cancel w AfterWalk \<or> w_cancel w AfterRenames \<or> b")
      case True
      then have "scanScoped w sc ix scope = (sc\<lparr>forceHash := False\<rparr>, ix, [], Some ErrScanCancelled)"
        using walk None ch h by (auto simp: scanScoped_def Let_def)
      then show ?thesis using stopped True b by (auto simp: reaches_deletions_def)
    next
      case False
      then have "scanScoped w sc ix scope = scan_finish w sc ix scope st claimed (ws_changes st @ renames @ hashed) drifted"
        using walk None ch h by (simp add: scanScoped_def Let_def)
      then show ?thesis using finished walk None ch h False b by (simp add: reaches_deletions_def)
    qed
  qed
qed

lemma map_filter_set: "y \<in> set (List.map_filter f xs) \<longleftrightarrow> (\<exists>x \<in> set xs. f x = Some y)"
  by (induction xs) (auto simp: List.map_filter_simps split: option.splits)

lemma cheap_cands_in:
  assumes "(p, old) \<in> set (cheap_cands added vanished)"
  shows "p \<in> set added" and "old \<in> set vanished" and "info_mt old = pending_mt p"
proof -
  obtain q where "q \<in> set added" and r: "(case (filter (\<lambda>r. pending_mt r = pending_mt q) added, filter (\<lambda>fi. info_mt fi = pending_mt q) vanished) of
            ([_], [old]) \<Rightarrow> Some (q, old) | _ \<Rightarrow> None) = Some (p, old)"
    using assms unfolding cheap_cands_def set_sort map_filter_set by blast
  then have "q = p" "filter (\<lambda>fi. info_mt fi = pending_mt q) vanished = [old]" by (auto split: list.splits)
  then have "old \<in> set (filter (\<lambda>fi. info_mt fi = pending_mt p) vanished)" by simp
  then show "p \<in> set added" "old \<in> set vanished" "info_mt old = pending_mt p" using \<open>q \<in> set added\<close> \<open>q = p\<close> by auto
qed

lemma cheapRenames_facts:
  assumes "cheapRenames w sc ix scope seen toHash = (renames, claimed, rest)"
  shows "c \<in> set renames \<Longrightarrow> \<exists>p old. c = cheap_rename (p, old) \<and> p \<in> set toHash \<and> old \<in> set (vanished_files sc ix scope seen) \<and> info_mt old = pending_mt p"
    and "set rest \<subseteq> set toHash"
proof -
  let ?added = "filter (\<lambda>p. pd_kind p = Added) toHash" and ?van = "vanished_files sc ix scope seen"
  have c: "(renames, claimed, rest) = ([], [], toHash) \<or> renames = map cheap_rename (cheap_cands ?added ?van) \<and> set rest \<subseteq> set toHash"
    using assms by (auto simp: cheapRenames_def Let_def split: if_splits)
  then show "set rest \<subseteq> set toHash" by auto
  assume "c \<in> set renames"
  then obtain x where "x \<in> set (cheap_cands ?added ?van)" "c = cheap_rename x" using c by auto
  then show "\<exists>p old. c = cheap_rename (p, old) \<and> p \<in> set toHash \<and> old \<in> set ?van \<and> info_mt old = pending_mt p"
    using cheap_cands_in [of "fst x" "snd x" ?added ?van] by (metis filter_is_subset prod.collapse subsetD)
qed

lemma hash_one_drift: "hash_one w p = Some (Inr d) \<Longrightarrow> fst d = pd_rel p"
  by (auto simp: hash_one_def Let_def split: sum.splits prod.splits option.splits if_splits)

lemma hashPending_facts:
  assumes "hashPending w toHash = (hashed, drifted, b)"
  shows "c \<in> set hashed \<Longrightarrow> \<exists>p \<in> set toHash. hash_one w p = Some (Inl c)"
    and "d \<in> set drifted \<Longrightarrow> \<exists>p \<in> set toHash. fst d = pd_rel p"
proof -
  define results where "results = List.map_filter (hash_one w) (filter (\<lambda>p. \<not> w_cancel w (AtHash (pd_rel p)))
    (takeWhile (\<lambda>p. \<not> w_cancel w (AtQueue (pd_rel p))) toHash))"
  have r: "\<exists>p \<in> set toHash. hash_one w p = Some r" if "r \<in> set results" for r
    using that set_takeWhileD unfolding results_def map_filter_set by fastforce
  have out: "hashed = [] \<and> drifted = [] \<or> hashed = List.map_filter (\<lambda>r. case r of Inl c \<Rightarrow> Some c | Inr _ \<Rightarrow> None) results
      \<and> drifted = List.map_filter (\<lambda>r. case r of Inr d \<Rightarrow> Some d | Inl _ \<Rightarrow> None) results"
    using assms by (auto simp: hashPending_def results_def Let_def split: if_splits)
  show "\<exists>p \<in> set toHash. hash_one w p = Some (Inl c)" if c: "c \<in> set hashed"
  proof -
    obtain x where "x \<in> set results" "(case x of Inl c \<Rightarrow> Some c | Inr _ \<Rightarrow> None) = Some c" using c out by (auto simp: map_filter_set)
    then have "Inl c \<in> set results" by (auto split: sum.splits)
    then show ?thesis by (rule r)
  qed
  show "\<exists>p \<in> set toHash. fst d = pd_rel p" if d: "d \<in> set drifted"
  proof -
    obtain x where "x \<in> set results" "(case x of Inr d \<Rightarrow> Some d | Inl _ \<Rightarrow> None) = Some d" using d out by (auto simp: map_filter_set)
    then have "Inr d \<in> set results" by (auto split: sum.splits)
    then show ?thesis using r hash_one_drift by blast
  qed
qed

lemma hash_one_change:
  assumes "hash_one w p = Some (Inl c)"
  shows "\<exists>bs blocks. FileHashes (w_read w (pd_rel p)) 0 = Inr (bs, blocks) \<and> w_restat w (pd_rel p) = Some (pending_mt p)
    \<and> c_Info c = hashed_info p bs blocks \<and> (c_Kind c = pd_kind p \<or> c_Kind c = Touched \<and> pd_prevKey p \<noteq> []) \<and> \<not> c_OutOfGate c"
  using assms by (auto simp: hash_one_def new_change_def Let_def split: sum.splits prod.splits option.splits if_splits)

lemma foldl_set_other:
  "n \<notin> fst ` set xs \<Longrightarrow> mget (foldl (\<lambda>m (k, v). mset_at m k v) m xs) n = mget m n"
  by (induction xs arbitrary: m) (auto split: prod.splits)

lemma foldl_set_map:
  "mwf xs \<Longrightarrow> mget (foldl (\<lambda>m (k, v). mset_at m k v) m xs) n = (case mget xs n of Some v \<Rightarrow> Some v | None \<Rightarrow> mget m n)"
proof (induction xs arbitrary: m)
  case (Cons x xs)
  obtain k v where x: "x = (k, v)" by (cases x)
  then have "mget xs k = None" using Cons.prems by (simp add: mget_None_iff)
  then show ?case using Cons x by (auto split: option.splits)
qed simp

definition next_settle :: "Index \<Rightarrow> string list \<Rightarrow> WalkState \<Rightarrow> (string \<times> SettleState) list \<Rightarrow> (string, SettleState) gomap" where
  "next_settle ix scope st drifted =
     foldl (\<lambda>m (n, s). mset_at m n s) (foldl (\<lambda>m (n, s). mset_at m n s) (ws_nextSettle st)
       (if scope = [] then [] else filter (\<lambda>(n, _). \<not> inScope scope n) (if fault_settle ix then [] else settling ix))) drifted"

definition deleted_pass :: "ScanWorld \<Rightarrow> Scanner \<Rightarrow> Index \<Rightarrow> string list \<Rightarrow> WalkState \<Rightarrow> string list \<Rightarrow> Change list \<Rightarrow> Change list" where
  "deleted_pass w sc ix scope st claimed cs = detectRenames w sc ix scope (ws_seen st) claimed (collapseGateCands (ws_gateCands st)) cs"

lemma start_settle: "ps_settle (start_pass w sc ix) = (if fault_settle ix then [] else settling ix)"
  by (simp add: start_pass_def SettleList_def)

lemma scan_finish_parts:
  assumes "scan_finish w sc ix scope st claimed cs drifted = (sc', ix', cs', err)"
  obtains ix1 cs2 uns where "confirmDeletions sc ix (deleted_pass w sc ix scope st claimed cs) (w_now w) scope uns = (ix1, cs2)"
    and "err = None \<Longrightarrow> ix' = fst (SettleReplace ix1 (next_settle ix scope st drifted)) \<and> cs' = cs2
      \<and> lastInFlight sc' = (if scope = [] then [] else filter (\<lambda>f. \<not> inScope scope (if_Name f)) (lastInFlight sc)) @ ws_inFlight st @ map drift_entry drifted"
    and "err \<noteq> None \<Longrightarrow> w_cancel w AtEnd \<and> ix' = ix1 \<and> cs' = [] \<and> lastInFlight sc' = lastInFlight sc"
proof -
  let ?ns = "next_settle ix scope st drifted"
  let ?uns = "unsettledKeys (if fault_settle ix then [] else settling ix) ?ns"
  obtain ix1 cs2 where c: "confirmDeletions sc ix (deleted_pass w sc ix scope st claimed cs) (w_now w) scope ?uns = (ix1, cs2)"
    by (cases "confirmDeletions sc ix (deleted_pass w sc ix scope st claimed cs) (w_now w) scope ?uns")
  have "scan_finish w sc ix scope st claimed cs drifted =
     (if w_cancel w AtEnd then (sc\<lparr>forceHash := False\<rparr>, ix1, [], Some ErrScanCancelled)
      else (sc\<lparr>forceHash := False, lastInFlight := (if scope = [] then ws_inFlight st @ map drift_entry drifted
              else filter (\<lambda>f. \<not> inScope scope (if_Name f)) (lastInFlight sc) @ ws_inFlight st @ map drift_entry drifted)\<rparr>,
            fst (SettleReplace ix1 ?ns), cs2, None))"
    using c by (simp add: scan_finish_def start_settle next_settle_def deleted_pass_def Let_def)
  then show ?thesis using that [OF c] assms by (auto split: if_splits)
qed

section \<open>A scoped pass speaks only for its scope\<close>

lemma next_settle_outside:
  assumes "walk_ok ps scope st" and "\<And>d. d \<in> set drifted \<Longrightarrow> in_walk scope (fst d)" and "''.'' \<notin> set scope" and "\<not> inScope scope n"
    and "mwf (settling ix)"
  shows "mget (next_settle ix scope st drifted) n = (if fault_settle ix then None else mget (settling ix) n)"
proof -
  have "scope \<noteq> []" using assms(4) by (auto simp: inScope_def)
  have no: "\<not> in_walk scope n" using assms(3,4) by (simp add: in_walk_scope)
  have "n \<notin> fst ` set drifted" using assms(2) no by auto
  moreover have "mget (ws_nextSettle st) n = None" using assms(1) no by (auto simp: walk_ok_def)
  ultimately show ?thesis using assms(4,5) \<open>scope \<noteq> []\<close>
    by (simp add: next_settle_def foldl_set_other foldl_set_map mget_filter_key split: option.split)
qed

lemma pass_pieces:
  assumes "scan_walk w sc ix scope = (st, None)" and "cheapRenames w sc ix scope (ws_seen st) (ws_toHash st) = (renames, claimed, toHash)"
    and "hashPending w toHash = (hashed, drifted, b)"
  shows "d \<in> set drifted \<Longrightarrow> in_walk scope (fst d)"
    and "c \<in> set (ws_changes st @ renames @ hashed) \<Longrightarrow> c_Kind c \<noteq> Deleted_kind"
    and "c \<in> set (ws_changes st @ renames @ hashed) \<Longrightarrow> c_Kind c = Renamed \<Longrightarrow> inScope scope (c_From c) \<and> c_From c \<notin> set (ws_seen st)"
proof -
  note ok = scan_walk_ok [OF assms(1), unfolded walk_ok_def]
  have sub: "set toHash \<subseteq> set (ws_toHash st)" using cheapRenames_facts(2) [OF assms(2)] .
  show "in_walk scope (fst d)" if "d \<in> set drifted"
    using hashPending_facts(2) [OF assms(3) that] ok sub by auto
  have h: "c_Kind c \<in> {Added, Modified, Touched}" if c: "c \<in> set hashed" for c
  proof -
    obtain p where "p \<in> set (ws_toHash st)" "hash_one w p = Some (Inl c)" using hashPending_facts(1) [OF assms(3) c] sub by blast
    then show ?thesis using hash_one_change [of w p c] ok by (auto simp: offered_def)
  qed
  have p: "c_Kind c = Skipped \<or> c_Kind c = Added" if "c \<in> set (ws_changes st)" for c using ok that by (auto simp: plain_change_def)
  have r: "c_Kind c = Renamed \<and> inScope scope (c_From c) \<and> c_From c \<notin> set (ws_seen st)" if "c \<in> set renames" for c
    using cheapRenames_facts(1) [OF assms(2) that] by (auto simp: cheap_rename_def new_change_def vanished_files_def)
  show "c_Kind c \<noteq> Deleted_kind" if "c \<in> set (ws_changes st @ renames @ hashed)" using h [of c] p [of c] r [of c] that by auto
  show "inScope scope (c_From c) \<and> c_From c \<notin> set (ws_seen st)" if "c \<in> set (ws_changes st @ renames @ hashed)" "c_Kind c = Renamed"
    using h [of c] p [of c] r [of c] that by auto
qed

lemma gate_moved_from: "gate_moved w gm fi = Some c \<Longrightarrow> c_Kind c = Renamed \<and> c_From c = Name fi \<and> c_OutOfGate c"
  by (auto simp: gate_moved_def new_change_def split: option.splits sum.splits prod.splits if_splits)

lemma deleted_pass_facts:
  assumes "scan_walk w sc ix scope = (st, None)" and "cheapRenames w sc ix scope (ws_seen st) (ws_toHash st) = (renames, claimed, toHash)"
    and "hashPending w toHash = (hashed, drifted, b)" and c: "c \<in> set (deleted_pass w sc ix scope st claimed (ws_changes st @ renames @ hashed))"
  shows "c_Kind c = Deleted_kind \<Longrightarrow> inScope scope (Name (c_Info c)) \<and> Name (c_Info c) \<notin> set (ws_seen st) \<and> c_Info c \<in> set (live_rows ix)"
    and "c_Kind c = Renamed \<Longrightarrow> (inScope scope (c_From c) \<or> w_gone w (c_From c)) \<and> c_From c \<notin> set (ws_seen st)"
proof -
  consider "c \<in> set (ws_changes st @ renames @ hashed)"
    | fi where "fi \<in> set (live_rows ix)" "detected w sc scope (ws_seen st) claimed (collapseGateCands (ws_gateCands st)) (ws_changes st @ renames @ hashed) fi c"
    using detectRenames_set [OF c [unfolded deleted_pass_def]] by blast
  note cases = this
  show "inScope scope (Name (c_Info c)) \<and> Name (c_Info c) \<notin> set (ws_seen st) \<and> c_Info c \<in> set (live_rows ix)" if k: "c_Kind c = Deleted_kind"
    using pass_pieces(2) [OF assms(1-3), of c] k
    by (cases rule: cases) (auto simp: detected_def new_change_def renamed_to_def dest: gate_moved_from)
  show "(inScope scope (c_From c) \<or> w_gone w (c_From c)) \<and> c_From c \<notin> set (ws_seen st)" if k: "c_Kind c = Renamed"
    using pass_pieces(3) [OF assms(1-3), of c] k
    by (cases rule: cases) (auto simp: detected_def new_change_def renamed_to_def dest: gate_moved_from)
qed


section \<open>Deletions need consecutive misses\<close>

text \<open>Whether the walk of a pass met the path.\<close>

definition missed :: "ScanWorld \<Rightarrow> Scanner \<Rightarrow> Index \<Rightarrow> string list \<Rightarrow> string \<Rightarrow> bool" where
  "missed w sc ix scope n \<longleftrightarrow> n \<notin> set (ws_seen (fst (scan_walk w sc ix scope)))"

text \<open>The history of one path: the list says, newest first, of each pass that looked at the path and could store its result in the missing
table, whether it missed the path. Passes that were cut short, that looked elsewhere or whose write failed are part of the history without an entry, tables that
cannot be read are included, and between passes anything may happen to the index as long as nobody raises the path's count.\<close>

inductive history :: "string \<Rightarrow> Index \<times> bool list \<Rightarrow> Index \<times> bool list \<Rightarrow> bool" for n where
  looked: "scanScoped w sc ix scope = (sc', ix', cs, err) \<Longrightarrow> reaches_deletions w sc ix scope \<Longrightarrow> inScope scope n \<Longrightarrow> \<not> fault_missing_put ix \<Longrightarrow>
     history n (ix, h) (ix', missed w sc ix scope n # h)"
| elsewhere: "scanScoped w sc ix scope = (sc', ix', cs, err) \<Longrightarrow> \<not> reaches_deletions w sc ix scope \<or> \<not> inScope scope n \<or> fault_missing_put ix \<Longrightarrow>
     history n (ix, h) (ix', h)"
| between: "mget (missing ix') n = mget (missing ix) n \<or> mget (missing ix') n = None \<Longrightarrow> history n (ix, h) (ix', h)"

definition streak :: "bool list \<Rightarrow> nat" where
  "streak h = length (takeWhile id h)"

lemma pass_table:
  assumes "scanScoped w sc ix scope = (sc', ix', cs, err)" and "reaches_deletions w sc ix scope"
  shows "fault_missing_put ix \<and> missing ix' = missing ix
    \<or> \<not> inScope scope n \<and> mget (missing ix') n = mget (suspected_before ix) n \<or> mget (missing ix') n = None
    \<or> inScope scope n \<and> missed w sc ix scope n \<and> missing_count (missing ix') n = missing_count (suspected_before ix) n + 1"
proof (cases rule: scan_stages [of w sc ix scope])
  case (stopped cs0 err0)
  then show ?thesis using assms(2) by simp
next
  case (finished st renames claimed toHash hashed drifted)
  note f = finished(1-3)
  let ?cs = "deleted_pass w sc ix scope st claimed (ws_changes st @ renames @ hashed)"
  have fin: "scan_finish w sc ix scope st claimed (ws_changes st @ renames @ hashed) drifted = (sc', ix', cs, err)" using finished(4) assms(1) by simp
  obtain ix1 cs2 uns where parts: "confirmDeletions sc ix ?cs (w_now w) scope uns = (ix1, cs2)" "missing ix' = missing ix1"
    by (rule scan_finish_parts [OF fin]) (cases err; auto simp: SettleReplace_def)
  show ?thesis
  proof (cases "fault_missing_put ix")
    case True
    then show ?thesis using confirmDeletions_frame(4) [OF parts(1)] parts(2) by simp
  next
    case put: False
    show ?thesis
    proof (cases "1 < deletionScans sc")
      case True
      have "inScope scope n \<and> missed w sc ix scope n" if "\<exists>c \<in> set ?cs. c_Kind c = Deleted_kind \<and> Name (c_Info c) = n"
        using that deleted_pass_facts(1) [OF f] f(1) by (auto simp: missed_def)
      then show ?thesis using confirmDeletions_table [OF parts(1) True put, of n] parts(2) by (auto split: if_splits)
    next
      case False
      then show ?thesis using parts put by (auto simp: confirmDeletions_def MissingReplace_def)
    qed
  qed
qed

lemma pass_kept:
  assumes "scanScoped w sc ix scope = (sc', ix', cs, err)" and "fault_missing_put ix"
  shows "missing ix' = missing ix"
proof (cases rule: scan_stages [of w sc ix scope])
  case (stopped cs0 err0)
  then show ?thesis using assms(1) by simp
next
  case (finished st renames claimed toHash hashed drifted)
  have fin: "scan_finish w sc ix scope st claimed (ws_changes st @ renames @ hashed) drifted = (sc', ix', cs, err)" using finished(4) assms(1) by simp
  show ?thesis
    by (rule scan_finish_parts [OF fin]) (use confirmDeletions_frame(4) assms(2) in \<open>cases err; auto simp: SettleReplace_def\<close>)
qed

lemma suspected_before_le: "missing_count (missing ix) n \<le> int k \<Longrightarrow> missing_count (suspected_before ix) n \<le> int k"
  by (auto simp: suspected_before_def missing_count_def)

lemma history_count:
  assumes "history n s s'" and "missing_count (missing (fst s)) n \<le> int (streak (snd s))"
  shows "missing_count (missing (fst s')) n \<le> int (streak (snd s'))"
  using assms
proof (induction rule: history.induct)
  case (looked w sc ix scope sc' ix' cs err h)
  note le = suspected_before_le [of ix n "streak h"]
  show ?case using pass_table [OF looked(1,2), of n] looked(3-5) le by (auto simp: streak_def missing_count_def)
next
  case (elsewhere w sc ix scope sc' ix' cs err h)
  note le = suspected_before_le [of ix n "streak h"]
  show ?case
  proof (cases "reaches_deletions w sc ix scope")
    case True
    have "missing ix' = missing ix" if "fault_missing_put ix" using pass_kept [OF elsewhere(1) that] .
    then show ?thesis using pass_table [OF elsewhere(1) True, of n] elsewhere(2,3) le True by (auto simp: missing_count_def)
  next
    case False
    then show ?thesis using elsewhere by (cases rule: scan_stages [of w sc ix scope]) simp_all
  qed
qed (auto simp: missing_count_def)

lemma history_run_count:
  "(history n)\<^sup>*\<^sup>* s s' \<Longrightarrow> missing_count (missing (fst s)) n \<le> int (streak (snd s)) \<Longrightarrow> missing_count (missing (fst s')) n \<le> int (streak (snd s'))"
  by (induction rule: rtranclp_induct) (use history_count in auto)

lemma streak_take: "k \<le> streak h \<Longrightarrow> k \<le> length h \<and> list_all id (take k h)"
proof (induction h arbitrary: k)
  case (Cons a h)
  then show ?case by (cases k) (auto simp: streak_def split: if_splits)
qed (simp add: streak_def)

text \<open>C3. The deletion gate: whatever scans, failed scans, scoped scans and index changes happened before, and whichever tables could be
read and written, a pass reports a path as deleted only when it did not meet the path on the walk itself and neither did the deletionScans - 1 latest passes that looked
at the path and could store what they found. A pass that saw the path but could not write the missing table, an error the scanner
ignores, is not one of those.\<close>

theorem deletion_needs_consecutive_misses:
  assumes "(history n)\<^sup>*\<^sup>* (ix0, []) (ix, h)" and "mget (missing ix0) n = None" and "1 < deletionScans sc"
    and "scanScoped w sc ix scope = (sc', ix', cs, None)" and "c \<in> set cs" and "c_Kind c = Deleted_kind" and "Name (c_Info c) = n"
  shows "nat (deletionScans sc) \<le> length (missed w sc ix scope n # h) \<and> list_all id (take (nat (deletionScans sc)) (missed w sc ix scope n # h))"
proof (cases rule: scan_stages [of w sc ix scope])
  case (stopped cs0 err0)
  then show ?thesis using assms(4) by simp
next
  case (finished st renames claimed toHash hashed drifted)
  note f = finished(1-3)
  let ?cs = "deleted_pass w sc ix scope st claimed (ws_changes st @ renames @ hashed)"
  have fin: "scan_finish w sc ix scope st claimed (ws_changes st @ renames @ hashed) drifted = (sc', ix', cs, None)" using finished(4) assms(4) by simp
  obtain ix1 uns where conf: "confirmDeletions sc ix ?cs (w_now w) scope uns = (ix1, cs)"
    by (rule scan_finish_parts [OF fin]) auto
  have "deletionScans sc \<le> missing_count (suspected_before ix) n + 1"
    using confirmDeletions_out(2) [OF conf assms(5,6)] assms(3,7) by auto
  moreover have "missing_count (missing ix) n \<le> int (streak h)"
    using history_run_count [OF assms(1)] assms(2) by (simp add: missing_count_def)
  then have "missing_count (suspected_before ix) n \<le> int (streak h)" by (rule suspected_before_le)
  moreover have "missed w sc ix scope n"
    using deleted_pass_facts(1) [OF f confirmDeletions_out(1) [OF conf assms(5)] assms(6)] assms(7) f(1) by (auto simp: missed_def)
  ultimately have "nat (deletionScans sc) \<le> streak (missed w sc ix scope n # h)" by (simp add: streak_def)
  then show ?thesis by (rule streak_take)
qed

section \<open>Only settled content is offered\<close>

text \<open>A path with this size and modification time has been seen before with the same stat often and long enough.\<close>

definition settled :: "ScanWorld \<Rightarrow> Scanner \<Rightarrow> Index \<Rightarrow> string \<Rightarrow> mtKey \<Rightarrow> bool" where
  "settled w sc ix n mt \<longleftrightarrow> (\<exists>prev. mget (settling ix) n = Some prev \<and> (st_Size prev, st_ModS prev, st_ModNs prev) = mt
     \<and> settleScans sc \<le> st_Count prev + 1 \<and> (0 < settleSeconds sc \<longrightarrow> settleSeconds sc \<le> w_now w - st_First prev))"

lemma offered_settled:
  assumes "offered (start_pass w sc ix) p pd" and "gateOn sc" and "\<not> forceHash sc"
  shows "settled w sc ix p (pending_mt pd)"
proof -
  have "1 < settleScans sc" using assms(2) by (simp add: gateOn_def)
  moreover have "case settle_run (start_pass w sc ix) p (pending_mt pd) of (num, first) \<Rightarrow> \<not> hold_back (start_pass w sc ix) num first"
    using assms by (simp add: offered_def start_pass_def)
  ultimately show ?thesis
    by (auto simp: settle_run_def hold_back_def settled_def start_pass_def SettleList_def split: option.splits if_splits)
qed

lemma hashed_info_simps [simp]:
  "Name (hashed_info p bs blocks) = pd_rel p" "info_mt (hashed_info p bs blocks) = pending_mt p" "Type (hashed_info p bs blocks) = TypeFile"
  "BlockSize (hashed_info p bs blocks) = bs" "Blocks (hashed_info p bs blocks) = blocks"
  by (simp_all add: hashed_info_def info_mt_def pending_mt_def)

text \<open>The recorded blocks are the hashes of the bytes read during the pass, and the stat did not move while they were read.\<close>

definition read_now :: "ScanWorld \<Rightarrow> FileInfo \<Rightarrow> bool" where
  "read_now w fi \<longleftrightarrow> FileHashes (w_read w (Name fi)) 0 = Inr (BlockSize fi, Blocks fi) \<and> w_restat w (Name fi) = Some (info_mt fi)"

text \<open>A file that takes over the row of a vanished file of the same size and modification time, its blocks included, unread.\<close>

definition taken_over :: "Index \<Rightarrow> Change \<Rightarrow> bool" where
  "taken_over ix c \<longleftrightarrow> c_Kind c = Renamed
     \<and> (\<exists>old \<in> set (live_rows ix). Name old = c_From c \<and> info_mt old = info_mt (c_Info c) \<and> c_Info c = old\<lparr>Name := Name (c_Info c), Sequence := 0\<rparr>)"

lemma pass_offers:
  assumes "scan_walk w sc ix scope = (st, None)" and "cheapRenames w sc ix scope (ws_seen st) (ws_toHash st) = (renames, claimed, toHash)"
    and "hashPending w toHash = (hashed, drifted, b)" and "gateOn sc" and "\<not> forceHash sc"
    and c: "c \<in> set (ws_changes st @ renames @ hashed)" and "Type (c_Info c) = TypeFile" and "c_Kind c \<noteq> Skipped"
  shows "settled w sc ix (Name (c_Info c)) (info_mt (c_Info c)) \<and> (taken_over ix c \<or> read_now w (c_Info c) \<and> (c_Kind c = Added \<or> c_Kind c = Modified))"
proof -
  note ok = scan_walk_ok [OF assms(1), unfolded walk_ok_def]
  have settle: "settled w sc ix (pd_rel p) (pending_mt p)" if "p \<in> set (ws_toHash st)" for p
    using offered_settled [OF _ assms(4,5)] ok that by blast
  consider "c \<in> set (ws_changes st)" | "c \<in> set renames" | "c \<in> set hashed" using c by auto
  then show ?thesis
  proof cases
    case 1
    then show ?thesis using ok assms(7,8) by (auto simp: plain_change_def)
  next
    case 2
    then obtain p old where p: "c = cheap_rename (p, old)" "p \<in> set (ws_toHash st)" "info_mt old = pending_mt p" "old \<in> set (live_rows ix)"
      using cheapRenames_facts(1) [OF assms(2), of c] unfolding vanished_files_def by auto
    then have i: "Name (c_Info c) = pd_rel p" "info_mt (c_Info c) = pending_mt p" by (simp_all add: cheap_rename_def new_change_def info_mt_def)
    have "taken_over ix c"
      unfolding taken_over_def i using p by (intro conjI bexI [of _ old]) (simp_all add: cheap_rename_def new_change_def)
    then show ?thesis unfolding i using settle [OF p(2)] by blast
  next
    case 3
    then obtain p where p: "p \<in> set (ws_toHash st)" "hash_one w p = Some (Inl c)"
      using hashPending_facts(1) [OF assms(3)] cheapRenames_facts(2) [OF assms(2)] by blast
    moreover have "pd_prevKey p = []" "pd_kind p = Added \<or> pd_kind p = Modified"
      using ok p(1) assms(5) by (auto simp: offered_def start_pass_def)
    ultimately show ?thesis using hash_one_change [OF p(2)] settle [OF p(1)] by (auto simp: read_now_def)
  qed
qed

lemma renamed_info: "c_Info (renamed_to fi a) = c_Info a" "c_Kind (renamed_to fi a) = Renamed"
  by (simp_all add: renamed_to_def new_change_def)


section \<open>Abandoned passes\<close>

text \<open>A pass that fails or is cancelled changes nothing: the index, its settling and deletion tables and the
published in-flight set stay as they were - unless the cancellation is seen by the very last probe.\<close>

theorem abandoned_pass_changes_nothing:
  assumes "scanScoped w sc ix scope = (sc', ix', cs, Some err)" and "\<not> w_cancel w AtEnd"
  shows "ix' = ix \<and> sc' = sc\<lparr>forceHash := False\<rparr> \<and> (snd (scan_walk w sc ix scope) = None \<longrightarrow> cs = [])"
proof (cases rule: scan_stages [of w sc ix scope])
  case (stopped cs0 err0)
  then show ?thesis using assms(1) by simp
next
  case (finished st renames claimed toHash hashed drifted)
  then have "scan_finish w sc ix scope st claimed (ws_changes st @ renames @ hashed) drifted = (sc', ix', cs, Some err)" using assms(1) by simp
  from scan_finish_parts [OF this] show ?thesis using assms(2) by blast
qed

end
