(* ===== verification/Scan_Cases.thy ===== *)
theory Scan_Cases
  imports Scan_Safety
begin

text \<open>
  Passes over small trees: the properties of a scan at work, the passes that report a path as gone
  although it is on disk, and the proof that a clean full walk never does.
\<close>

section \<open>Concrete passes\<close>

definition quiet_world :: "(string, dirent) gomap \<Rightarrow> ScanWorld" where
  "quiet_world es = \<lparr>w_entries = es, w_lstat_err = (\<lambda>_. None), w_readdir_err = (\<lambda>_. None), w_info_err = (\<lambda>_. None),
     w_read = (\<lambda>_. Some [7]), w_restat = (\<lambda>_. Some (1, 5, 0)), w_gone = (\<lambda>_. True), w_now = 100, w_cancel = (\<lambda>_. False)\<rparr>"

lemma quiet_world_simps [simp]:
  "w_entries (quiet_world es) = es" "w_lstat_err (quiet_world es) p = None" "w_readdir_err (quiet_world es) p = None"
  "w_info_err (quiet_world es) p = None" "w_read (quiet_world es) p = Some [7]" "w_restat (quiet_world es) p = Some (1, 5, 0)"
  "w_gone (quiet_world es) p" "w_now (quiet_world es) = 100" "\<not> w_cancel (quiet_world es) pr"
  by (simp_all add: quiet_world_def)

definition tracked :: Index where
  "tracked = put_ok empty_index (sample ''f'')"

lemma single_rows:
  assumes "ix = put_ok empty_index (sample n)"
  shows "live_rows (ix\<lparr>missing := m, settling := s\<rparr>) = [(sample n)\<lparr>Sequence := 1\<rparr>]"
proof -
  have eq: "live_rows (ix\<lparr>missing := m, settling := s\<rparr>) = live_rows ix"
    by (simp add: live_rows_def Ix_List_def select_rows_def)
  have wf: "ix_wf ix" and nf: "\<not> fault_scan ix" by (simp_all add: assms) (simp add: empty_index_def)
  have keys: "map Name (entries ix) = [n]" using map_Name_entries [OF wf] by (simp add: assms put_ok_def empty_index_def)
  then obtain x where x: "entries ix = [x]" "Name x = n" by auto
  then have "entry ix n = Some x" using in_entries_iff [OF wf, of x] by simp
  then have "x = (sample n)\<lparr>Sequence := 1\<rparr>" by (simp add: assms)
  then show ?thesis using x eq Ix_List_entries [OF wf nf] by (simp add: live_rows_def)
qed

lemmas tracked_rows = single_rows [OF tracked_def]

lemma tracked_faults [simp]:
  "\<not> fault_missing_put tracked" "\<not> fault_missing tracked" "\<not> fault_settle_put tracked" "\<not> fault_settle tracked"
  by (simp_all add: tracked_def empty_index_def)

lemma empty_world_walk: "scan_walk (quiet_world []) sc ix [] = (empty_walk\<lparr>ws_walked := 1\<rparr>, None)"
  by (simp add: scan_walk_def walk_dir_def fs_entry_def walk_paths_def walk_order_def walk_loop.simps(2) visit_def is_dir_def Let_def empty_walk_def)

lemma no_hashing [simp]:
  "cheapRenames w sc ix scope seen [] = ([], [], [])" "hashPending (quiet_world es) [] = ([], [], False)"
  by (simp_all add: cheapRenames_def hashPending_def List.map_filter_simps)

lemma empty_world_scan:
  "scanScoped (quiet_world []) sc ix [] = scan_finish (quiet_world []) sc ix [] (empty_walk\<lparr>ws_walked := 1\<rparr>) [] [] []"
  by (simp add: scanScoped_def empty_world_walk Let_def) (simp add: empty_walk_def)

definition missing_row :: "int \<Rightarrow> (string, MissingState) gomap" where
  "missing_row k = [(''f'', \<lparr>ms_Count = k, ms_First = 100\<rparr>)]"

lemma vanished_once:
  "scanScoped (quiet_world []) (New_Scanner None) (tracked\<lparr>missing := [], settling := []\<rparr>) []
     = (New_Scanner None, tracked\<lparr>missing := missing_row 1, settling := []\<rparr>, [], None)"
proof -
  show ?thesis
    by (simp add: empty_world_scan scan_finish_def detectRenames_def tracked_rows detect_one_def inScope_def trackable_def in_gate_def
      has_content_def New_Scanner_def confirmDeletions_def MissingList_def MissingReplace_def confirm_one_def new_change_def missed_once_more_def
      deferred_names_def SettleReplace_def start_pass_def SettleList_def empty_walk_def collapseGateCands_def missing_row_def same_content_added_def Let_def)
qed

lemma vanished_twice:
  "scanScoped (quiet_world []) (New_Scanner None) (tracked\<lparr>missing := missing_row 1, settling := []\<rparr>) []
     = (New_Scanner None, tracked\<lparr>missing := [], settling := []\<rparr>, [new_change Deleted_kind ((sample ''f'')\<lparr>Sequence := 1\<rparr>)], None)"
proof -
  show ?thesis
    by (simp add: empty_world_scan scan_finish_def detectRenames_def tracked_rows detect_one_def inScope_def trackable_def in_gate_def
      has_content_def New_Scanner_def confirmDeletions_def MissingList_def MissingReplace_def confirm_one_def new_change_def missed_once_more_def
      deferred_names_def SettleReplace_def start_pass_def SettleList_def empty_walk_def collapseGateCands_def missing_row_def same_content_added_def Let_def)
qed

theorem deletion_needs_consecutive_misses_witness:
  "\<exists>sc' ix' cs. scanScoped (quiet_world []) (New_Scanner None) (tracked\<lparr>missing := missing_row 1, settling := []\<rparr>) [] = (sc', ix', cs, None)
     \<and> map c_Kind cs = [Deleted_kind]
     \<and> list_all id (take 2 [missed (quiet_world []) (New_Scanner None) (tracked\<lparr>missing := missing_row 1, settling := []\<rparr>) [] ''f'', True])"
proof -
  let ?w = "quiet_world []" and ?sc = "New_Scanner None" and ?ix = "tracked\<lparr>missing := [], settling := []\<rparr>"
  let ?ix1 = "tracked\<lparr>missing := missing_row 1, settling := []\<rparr>"
  have m: "\<not> fault_missing_put tracked" by (rule tracked_faults)
  have r: "reaches_deletions ?w ?sc ?ix []" by (simp add: reaches_deletions_def empty_world_walk)
  have "missed ?w ?sc ?ix [] ''f''" by (simp add: missed_def empty_world_walk) (simp add: empty_walk_def)
  then have "history ''f'' (?ix, []) (?ix1, [True])"
    using looked [OF vanished_once r, of "''f''" "[]"] m by (simp add: inScope_def)
  then have run: "(history ''f'')\<^sup>*\<^sup>* (?ix, []) (?ix1, [True])" by (rule r_into_rtranclp)
  have "nat (deletionScans ?sc) = 2" "1 < deletionScans ?sc" by (simp_all add: New_Scanner_def)
  then show ?thesis
    using deletion_needs_consecutive_misses [OF run _ _ vanished_twice, of "new_change Deleted_kind ((sample ''f'')\<lparr>Sequence := 1\<rparr>)"] m vanished_twice
    by (simp add: new_change_def)
qed

definition settling_rows :: "(string, SettleState) gomap" where
  "settling_rows = [(''f'', \<lparr>st_Size = 1, st_ModS = 5, st_ModNs = 0, st_Count = 1, st_First = 0\<rparr>)]"

lemma absent_scope_scan:
  "scanScoped (quiet_world []) sc ix [''a''] = scan_finish (quiet_world []) sc ix [''a''] empty_walk [] [] []"
  by (simp add: scanScoped_def scan_walk_def walk_dir_def fs_entry_def Let_def) (simp add: empty_walk_def)

lemma quiet_finish: "\<exists>sc' ix' cs'. scan_finish (quiet_world es) sc ix scope st claimed cs drifted = (sc', ix', cs', None)"
  by (simp add: scan_finish_def Let_def split: prod.split)


definition one_file :: ScanWorld where
  "one_file = quiet_world [(''f'', DFile 1 5 0 420)]"

definition settled_index :: Index where
  "settled_index = empty_index\<lparr>settling := settling_rows\<rparr>"

definition ready :: pending where
  "ready = \<lparr>pd_rel = ''f'', pd_kind = Added, pd_size = 1, pd_modS = 5, pd_modNs = 0, pd_mode = 420, pd_first = 0, pd_prevKey = []\<rparr>"

lemma one_file_walk: "scan_walk one_file (New_Scanner None) settled_index [] = (empty_walk\<lparr>ws_walked := 2, ws_seen := [''f''], ws_toHash := [ready]\<rparr>, None)"
proof -
  have names: "\<not> IsReserved ''f''" "\<not> IsTransient ''f''" by (code_simp, code_simp)
  have "existing_row (start_pass one_file (New_Scanner None) settled_index) ''f'' = None"
    by (simp add: existing_row_def start_pass_def Ix_Get_def settled_index_def empty_index_def)
  then show ?thesis
    using names
    by (simp add: scan_walk_def walk_dir_def fs_entry_def walk_paths_def walk_order_def walk_loop.simps(2) visit_def is_dir_def Let_def below_def one_file_def
      visit_ruled_def Match_def in_gate_def visit_tracked_def visit_file_def visit_changed_def settle_run_def hold_back_def offer_def see_def
      New_Scanner_def gateOn_def start_pass_def SettleList_def settled_index_def settling_rows_def empty_walk_def ready_def)
      (simp add: empty_index_def)
qed

lemma one_byte_hashes: "FileHashes (Some [7]) 0 = Inr (131072, [HashBytes [7]])"
proof -
  have "BlockSizeForSize 1 = 131072" by code_simp
  moreover have "blocks_of 131072 [7 :: byte] = [[7]]" by (simp add: blocks_of.simps [of _ "[7]"])
  ultimately show ?thesis using BlockHashes_EOF [of 131072 "[[7]]"] by (simp add: FileHashes_def HashBytes_def Let_def)
qed

lemma settled_index_rows: "live_rows settled_index = []"
  by (simp add: live_rows_def Ix_List_def select_rows_def settled_index_def empty_index_def)

lemma one_file_scan:
  "\<exists>sc' ix'. scanScoped one_file (New_Scanner None) settled_index [] = (sc', ix', [new_change Added (hashed_info ready 131072 [HashBytes [7]])], None)"
proof -
  let ?c = "new_change Added (hashed_info ready 131072 [HashBytes [7]])"
  have ch: "cheapRenames one_file (New_Scanner None) settled_index [] seen [ready] = ([], [], [ready])" for seen
    by (simp add: cheapRenames_def vanished_files_def settled_index_rows cheap_cands_def List.map_filter_simps ready_def)
  have h: "hashPending one_file [ready] = ([?c], [], False)"
    by (simp add: hashPending_def List.map_filter_simps hash_one_def one_file_def one_byte_hashes Let_def) (simp add: ready_def pending_mt_def)
  have "scanScoped one_file (New_Scanner None) settled_index [] =
    scan_finish one_file (New_Scanner None) settled_index [] (empty_walk\<lparr>ws_walked := 2, ws_seen := [''f''], ws_toHash := [ready]\<rparr>) [] [?c] []"
    by (simp add: scanScoped_def one_file_walk ch h Let_def) (simp add: one_file_def empty_walk_def)
  moreover have "detectRenames one_file (New_Scanner None) settled_index [] seen [] gm [?c] = [?c]" for seen gm
    by (simp add: detectRenames_def settled_index_rows)
  moreover have "\<exists>ix1. confirmDeletions (New_Scanner None) settled_index [?c] now [] uns = (ix1, [?c])" for now uns
    by (simp add: confirmDeletions_def New_Scanner_def confirm_one_def new_change_def Let_def)
  ultimately show ?thesis by (simp add: scan_finish_def one_file_def Let_def split: prod.splits) (metis prod.inject)
qed


section \<open>Cancelled passes\<close>

text \<open>The comment before the last probe says that an abandoned pass must not restamp the tables, but the deletion gate
has already written its counts by then.\<close>

lemma late_cancel_scan:
  assumes "w = (quiet_world [])\<lparr>w_cancel := (\<lambda>p. p = AtEnd)\<rparr>"
  shows "scanScoped w sc ix [] = (let (ix1, cs) = confirmDeletions sc ix (detectRenames w sc ix [] [] [] [] []) 100 []
    (unsettledKeys (ps_settle (start_pass w sc ix)) []) in (sc\<lparr>forceHash := False\<rparr>, ix1, [], Some ErrScanCancelled))"
  using assms by (simp add: scanScoped_def scan_walk_def walk_dir_def fs_entry_def walk_paths_def walk_order_def walk_loop.simps(2) visit_def is_dir_def
    scan_finish_def hashPending_def cheapRenames_def collapseGateCands_def empty_walk_def List.map_filter_simps Let_def split: prod.split)

theorem late_cancel_restamps_missing:
  "let w = (quiet_world [])\<lparr>w_cancel := (\<lambda>p. p = AtEnd)\<rparr>;
       (sc', ix', cs, err) = scanScoped w (New_Scanner None) (tracked\<lparr>missing := [], settling := []\<rparr>) []
   in err = Some ErrScanCancelled \<and> missing ix' = missing_row 1"
proof -
  show ?thesis
    by (simp add: Let_def late_cancel_scan [OF refl] detectRenames_def tracked_rows detect_one_def inScope_def trackable_def in_gate_def
      has_content_def New_Scanner_def confirmDeletions_def MissingList_def MissingReplace_def confirm_one_def new_change_def missed_once_more_def
      deferred_names_def missing_row_def)
qed

theorem abandoned_pass_changes_nothing_witness:
  "\<exists>sc' cs. scanScoped ((quiet_world [])\<lparr>w_cancel := (\<lambda>p. p = AfterWalk)\<rparr>) (New_Scanner None) tracked [] = (sc', tracked, cs, Some ErrScanCancelled) \<and> cs = []"
proof -
  let ?w = "(quiet_world [])\<lparr>w_cancel := (\<lambda>p. p = AfterWalk)\<rparr>"
  obtain sc' ix' cs where run: "scanScoped ?w (New_Scanner None) tracked [] = (sc', ix', cs, Some ErrScanCancelled)" "snd (scan_walk ?w (New_Scanner None) tracked []) = None"
    by (simp add: scanScoped_def scan_walk_def walk_dir_def fs_entry_def walk_paths_def walk_order_def walk_loop.simps(2) visit_def is_dir_def Let_def)
  then show ?thesis using abandoned_pass_changes_nothing [OF run(1)] by simp
qed

section \<open>Paths that are there\<close>

definition clean_walk :: "ScanWorld \<Rightarrow> bool" where
  "clean_walk w \<longleftrightarrow> (\<forall>p. \<not> w_cancel w (AtVisit p) \<and> w_info_err w p = None \<and> w_readdir_err w p = None \<and> w_lstat_err w p = None)"

definition pruned :: "Scanner \<Rightarrow> string \<Rightarrow> bool" where
  "pruned sc q \<longleftrightarrow> IsReserved q \<or> IsTransient q \<or> fst (Match (sc_ignore sc) q True)"

lemma visit_sees:
  assumes "clean_walk w" and "n \<noteq> ''.''" and "\<not> IsReserved n" and "\<not> IsTransient n"
  shows "n \<in> set (ws_seen (fst (visit w ps n d st)))"
  using assms visit_ruled_sees [of n ps d] by (simp add: visit_def clean_walk_def Let_def)

lemma visit_verdict:
  assumes "clean_walk w"
  shows "snd (visit w ps p d st) = VNil \<or> snd (visit w ps p d st) = VSkipDir \<and> pruned (ps_sc ps) p \<and> p \<noteq> ''.''"
  using assms by (auto simp: visit_def clean_walk_def Let_def visit_reserved_def visit_ruled_def pruned_def is_dir_def split: prod.splits bool.splits dirent.splits)

lemma seen_mono: "walk_loop w ps skip paths st = (st', err) \<Longrightarrow> set (ws_seen st) \<subseteq> set (ws_seen st')"
  using walk_loop_inv [where I = "\<lambda>s. set (ws_seen st) \<subseteq> set (ws_seen s)"] visit_effect [unfolded effect_def]
  by (metis (no_types, lifting) order_refl order_trans)

lemma walk_loop_sees:
  assumes "clean_walk w" and n: "n \<noteq> ''.''" "\<not> IsReserved n" "\<not> IsTransient n" "fs_entry w n \<noteq> None"
    and up: "\<And>q. below q n \<Longrightarrow> q \<noteq> ''.'' \<Longrightarrow> \<not> pruned (ps_sc ps) q"
  shows "walk_loop w ps skip paths st = (st', err) \<Longrightarrow> n \<in> set paths \<Longrightarrow> (\<And>q. skip = Some q \<Longrightarrow> \<not> below q n) \<Longrightarrow> n \<in> set (ws_seen st')"
proof (induction paths arbitrary: skip st)
  case (Cons p rest)
  show ?case
  proof (cases "(case skip of Some d \<Rightarrow> below d p | None \<Rightarrow> False)")
    case True
    then have "p \<noteq> n" using Cons.prems(3) by (auto split: option.splits)
    then show ?thesis using Cons walk_loop_skip(1) [OF True] by simp
  next
    case s: False
    show ?thesis
    proof (cases "fs_entry w p")
      case None
      then have "p \<noteq> n" using n(4) by auto
      then show ?thesis using Cons.IH [of None st] Cons.prems(1,2) walk_loop_skip(2) [OF s None] by simp
    next
      case (Some d)
      obtain st1 v where v: "visit w ps p d st = (st1, v)" by (cases "visit w ps p d st")
      have verdict: "v = VNil \<or> v = VSkipDir \<and> pruned (ps_sc ps) p \<and> p \<noteq> ''.''" using visit_verdict [OF assms(1), of ps p d st] v by simp
      have rd: "w_readdir_err w p = None" using assms(1) by (simp add: clean_walk_def)
      have go: "walk_loop w ps (if v = VSkipDir then Some p else None) rest st1 = (st', err)"
        using Cons.prems(1) s Some v verdict rd by (auto simp: walk_loop.simps(2) split: if_splits)
      show ?thesis
      proof (cases "p = n")
        case True
        then have "n \<in> set (ws_seen st1)" using visit_sees [OF assms(1) n(1-3), of ps d st] v by simp
        then show ?thesis using seen_mono [OF go] by blast
      next
        case False
        have "\<not> below p n" if "v = VSkipDir" using that verdict up by blast
        then have "\<not> below q n" if "(if v = VSkipDir then Some p else None) = Some q" for q using that by (auto split: if_splits)
        then show ?thesis using Cons.IH [OF go] Cons.prems(2) False by simp
      qed
    qed
  qed
qed simp

lemma present_path_stays:
  assumes "Scan_full w sc ix = (sc', ix', cs, None)" and "clean_walk w" and "mget (w_entries w) n \<noteq> None" and "n \<noteq> ''.''"
    and "\<not> IsReserved n" and "\<not> IsTransient n" and "\<And>q. HasPrefix n (q @ ''/'') \<Longrightarrow> \<not> pruned sc q" and "c \<in> set cs"
  shows "(c_Kind c = Deleted_kind \<longrightarrow> Name (c_Info c) \<noteq> n) \<and> (c_Kind c = Renamed \<longrightarrow> c_From c \<noteq> n)"
proof (cases rule: scan_stages [of w sc ix "[]"])
  case (stopped cs0 err0)
  then show ?thesis using assms(1) by (simp add: Scan_full_def)
next
  case (finished st renames claimed toHash hashed drifted)
  note f = finished(1-3)
  let ?cs = "deleted_pass w sc ix [] st claimed (ws_changes st @ renames @ hashed)"
  have "walk_loop w (start_pass w sc ix) None (walk_paths w ''.'') empty_walk = (st, None)"
    using f(1) assms(2) by (auto simp: scan_walk_def walk_dir_def fs_entry_def clean_walk_def split: prod.splits option.splits)
  moreover have "n \<in> set (walk_paths w ''.'')" using assms(3,4) by (auto simp: walk_paths_def below_def walk_order_def mget_None_iff)
  moreover have "\<not> pruned (ps_sc (start_pass w sc ix)) q" if "below q n" "q \<noteq> ''.''" for q using assms(7) that by (auto simp: below_def start_pass_def)
  ultimately have seen: "n \<in> set (ws_seen st)"
    using walk_loop_sees [OF assms(2,4-6), of "start_pass w sc ix" None "walk_paths w ''.''" empty_walk st None] assms(3,4) by (simp add: fs_entry_def)
  have fin: "scan_finish w sc ix [] st claimed (ws_changes st @ renames @ hashed) drifted = (sc', ix', cs, None)"
    using finished(4) assms(1) by (simp add: Scan_full_def)
  obtain ix1 uns where conf: "confirmDeletions sc ix ?cs (w_now w) [] uns = (ix1, cs)" by (rule scan_finish_parts [OF fin]) auto
  show ?thesis using deleted_pass_facts [OF f confirmDeletions_out(1) [OF conf assms(8)]] seen by auto
qed

text \<open>A path that is on disk is never reported as gone: after a full walk that met no error, a path that exists, is not
one of the program's or the file system's own names and lies in no pruned directory is neither reported as deleted nor
as the old half of a rename, with the deletion gate on or off.\<close>

theorem present_path_not_reported_gone:
  assumes "Scan_full w sc ix = (sc', ix', cs, None)" and "clean_walk w" and "mget (w_entries w) n \<noteq> None" and "n \<noteq> ''.''"
    and "\<not> IsReserved n" and "\<not> IsTransient n" and "\<And>q. HasPrefix n (q @ ''/'') \<Longrightarrow> \<not> pruned sc q" and "c \<in> set cs"
  shows "(c_Kind c = Deleted_kind \<longrightarrow> Name (c_Info c) \<noteq> n) \<and> (c_Kind c = Renamed \<longrightarrow> c_From c \<noteq> n)"
  using present_path_stays [OF assms] .

theorem present_path_not_reported_gone_witness:
  "\<exists>sc' ix' c. Scan_full one_file (New_Scanner None) settled_index = (sc', ix', [c], None) \<and> \<not> (c_Kind c = Deleted_kind \<and> Name (c_Info c) = ''f'')"
proof -
  obtain sc' ix' where run: "Scan_full one_file (New_Scanner None) settled_index = (sc', ix', [new_change Added (hashed_info ready 131072 [HashBytes [7]])], None)"
    using one_file_scan by (auto simp: Scan_full_def)
  have names: "\<not> IsReserved ''f''" "\<not> IsTransient ''f''" by (code_simp, code_simp)
  have "clean_walk one_file" by (simp add: clean_walk_def one_file_def)
  moreover have "\<not> HasPrefix ''f'' (q @ ''/'')" for q by (cases q) auto
  ultimately show ?thesis using present_path_not_reported_gone [OF run, of "''f''"] names run by (simp add: one_file_def)
qed

section \<open>Paths reported gone that are there\<close>

text \<open>The probe is the folder's paused flag, looked at again after the walk. A pause that is lifted before that look
leaves a partial walk that counts as complete: with the deletion gate off a present file is reported deleted at once.\<close>

theorem resumed_pause_reports_deletion:
  "let w = one_file\<lparr>w_cancel := (\<lambda>p. p = AtVisit ''.'')\<rparr>;
       (sc', ix', cs, err) = Scan_full w (SetDeletionScans 1 (New_Scanner None)) (tracked\<lparr>missing := [], settling := []\<rparr>)
   in err = None \<and> mget (w_entries w) ''f'' \<noteq> None \<and> map (\<lambda>c. (c_Kind c, Name (c_Info c))) cs = [(Deleted_kind, ''f'')]"
proof -
  let ?w = "one_file\<lparr>w_cancel := (\<lambda>p. p = AtVisit ''.'')\<rparr>"
  let ?sc = "SetDeletionScans 1 (New_Scanner None)" and ?ix = "tracked\<lparr>missing := [], settling := []\<rparr>"
  have "scan_walk ?w ?sc ?ix [] = (empty_walk, None)"
    by (simp add: scan_walk_def walk_dir_def fs_entry_def walk_paths_def walk_loop.simps(2) visit_def one_file_def)
  then have "scanScoped ?w ?sc ?ix [] = scan_finish ?w ?sc ?ix [] empty_walk [] [] []"
    by (simp add: scanScoped_def Let_def one_file_def) (simp add: empty_walk_def cheapRenames_def hashPending_def List.map_filter_simps)
  then show ?thesis
    by (simp add: Scan_full_def scan_finish_def detectRenames_def tracked_rows detect_one_def inScope_def trackable_def in_gate_def has_content_def
      SetDeletionScans_def New_Scanner_def confirmDeletions_def new_change_def empty_walk_def collapseGateCands_def one_file_def Let_def)
qed

text \<open>An ignored directory is pruned before its entries are seen, and the deleted pass does not consult the ignore rules:
files below it that the index still tracks are reported as deleted although they are on disk.\<close>

definition child_index :: Index where
  "child_index = put_ok empty_index (sample ''d/x'')"

definition dir_world :: ScanWorld where
  "dir_world = quiet_world [(''d'', DDir 493), (''d/x'', DFile 1 5 0 420)]"

theorem ignored_directory_reports_deletions:
  "let (sc', ix', cs, err) = Scan_full dir_world (SetDeletionScans 1 (New_Scanner (Parse [''d/'']))) (child_index\<lparr>missing := [], settling := []\<rparr>)
   in err = None \<and> mget (w_entries dir_world) ''d/x'' \<noteq> None \<and> map (\<lambda>c. (c_Kind c, Name (c_Info c))) cs = [(Deleted_kind, ''d/x'')]"
proof -
  let ?sc = "SetDeletionScans 1 (New_Scanner (Parse [''d/'']))" and ?ix = "child_index\<lparr>missing := [], settling := []\<rparr>"
  have "fst (Match (Parse [''d/'']) ''d'' True)" by code_simp
  then obtain r where r: "Match (Parse [''d/'']) ''d'' True = (True, r)" by (metis prod.collapse)
  have names: "\<not> IsReserved ''d''" "\<not> IsTransient ''d''" "walk_order [''d'', ''d/x''] = [''d'', ''d/x'']" by (code_simp, code_simp, code_simp)
  have "scan_walk dir_world ?sc ?ix [] = (empty_walk\<lparr>ws_walked := 2, ws_seen := [''d'']\<rparr>, None)"
    using r names
    by (simp add: scan_walk_def walk_dir_def fs_entry_def walk_paths_def walk_loop.simps(2) visit_def visit_ruled_def is_dir_def below_def see_def
      dir_world_def start_pass_def SetDeletionScans_def New_Scanner_def empty_walk_def Let_def)
  then have "scanScoped dir_world ?sc ?ix [] = scan_finish dir_world ?sc ?ix [] (empty_walk\<lparr>ws_walked := 2, ws_seen := [''d'']\<rparr>) [] [] []"
    by (simp add: scanScoped_def Let_def dir_world_def) (simp add: empty_walk_def cheapRenames_def)
  then show ?thesis
    by (simp add: Scan_full_def scan_finish_def detectRenames_def single_rows [OF child_index_def] detect_one_def inScope_def trackable_def in_gate_def has_content_def
      SetDeletionScans_def New_Scanner_def confirmDeletions_def new_change_def empty_walk_def collapseGateCands_def dir_world_def Let_def)
qed

end
