(* ===== verification/Node_Scan.thy ===== *)
theory Node_Scan
  imports Node_Events Scan_Cases Local_Changes
begin

text \<open>
  A scan pass of the node, \<^verbatim>\<open>scanFolderScoped\<close> and its callers in \<^verbatim>\<open>internal/node/node.go\<close>: the scanner's
  pass, the abandoned passes of a paused folder, the changes applied in a batch and the rejected ones one by one, case
  collisions, the published set of files still being written, the release of paths renamed out of the include gate, the immediate second
  pass for suspected deletions, and the rebuild of an index from the file system. The pause flag is read before the pass
  and again after it; \<open>late_pause\<close> is what the second reading finds. The live status for the control plane and log lines are left out.
\<close>

section \<open>Suspected deletions\<close>

record ScanSide =
  sd_Scanner :: Scanner
  sd_deletionsPending :: int
  sd_lastDeletionsPending :: int
  sd_followUpScheduled :: bool
  sd_followUps :: nat

definition confirmDeletionsSoon :: "Index \<Rightarrow> ScanSide \<Rightarrow> ScanSide" where
  "confirmDeletionsSoon ix s =
     (let pending = (case MissingList ix of Inl _ \<Rightarrow> [] | Inr m \<Rightarrow> m); num = int (length pending) in
        if pending = [] then s\<lparr>sd_deletionsPending := 0, sd_lastDeletionsPending := 0\<rparr>
        else let s1 = s\<lparr>sd_lastDeletionsPending := num,
               sd_deletionsPending := (if sd_lastDeletionsPending s > num then 0 else sd_deletionsPending s)\<rparr> in
          if sd_deletionsPending s1 \<ge> 3 then s1
          else if sd_followUpScheduled s1 then s1
          else s1\<lparr>sd_followUpScheduled := True, sd_deletionsPending := sd_deletionsPending s1 + 1, sd_followUps := sd_followUps s1 + 1\<rparr>)"

text \<open>The follow-up that was scheduled begins: two seconds later it clears its mark and runs a full pass.\<close>

definition follow_up_begins :: "ScanSide \<Rightarrow> ScanSide" where
  "follow_up_begins s = s\<lparr>sd_followUpScheduled := False\<rparr>"

section \<open>Applying what a pass found\<close>

definition ErrFolderPaused :: go_error where
  "ErrFolderPaused = Err (''folder is paused '' @ em_dash @ '' resume it to scan or sync'')"

text \<open>A rejected rename is tried alone; if its plan is stale it becomes a deletion and an addition.\<close>

fun retry_failed :: "Engine \<Rightarrow> Change list \<Rightarrow> Engine \<times> go_error option" where
  "retry_failed e [] = (e, None)"
| "retry_failed e (c # cs) =
     (if c_Kind c = Renamed then
        (case ApplyLocalRename e (c_From c) (c_Info c) of
           (e1, Inr _) \<Rightarrow> retry_failed (if c_OutOfGate c then fst (RecordOutOfGateRename e1 (c_From c) (Name (c_Info c))) else e1) cs
         | (e1, Inl _) \<Rightarrow>
             (case ApplyLocalChange e1 Deleted_kind (zero_info\<lparr>Name := c_From c, Type := Type (c_Info c)\<rparr>) of
                (e2, Inl err) \<Rightarrow> (e2, Some err)
              | (e2, Inr _) \<Rightarrow>
                  (case ApplyLocalChange e2 Added (c_Info c) of
                     (e3, Inl err) \<Rightarrow> (e3, Some err) | (e3, Inr _) \<Rightarrow> retry_failed e3 cs)))
      else
        (case ApplyLocalChange e (c_Kind c) (c_Info c) of
           (e1, Inl err) \<Rightarrow> (e1, Some err) | (e1, Inr _) \<Rightarrow> retry_failed e1 cs))"

definition apply_pass :: "nat \<Rightarrow> Engine \<Rightarrow> Change list \<Rightarrow> Engine \<times> go_error option" where
  "apply_pass chunk e cs =
     (if cs = [] then (e, None)
      else case ApplyLocalChanges chunk e cs of
          (e1, _, _, Some err) \<Rightarrow> (e1, Some err) | (e1, _, failed, None) \<Rightarrow> retry_failed e1 failed)"

definition confirmGateReleases :: "Engine \<Rightarrow> Engine" where
  "confirmGateReleases e = (let (e1, n) = PendingReleases e in if n = 0 then e1 else fst (ConfirmReleases e1))"

definition counted :: "Change list \<Rightarrow> int" where
  "counted cs = int (length (filter (\<lambda>c. c_Kind c \<notin> {Unchanged, Touched}) cs))"

definition new_or_gone :: "Change list \<Rightarrow> bool" where
  "new_or_gone cs = list_ex (\<lambda>c. c_Kind c \<in> {Added, Deleted_kind, Renamed}) cs"

section \<open>The pass\<close>

type_synonym collision_order = "(string \<times> string list) list \<Rightarrow> (string \<times> string list) list"

definition finish_pass :: "collision_order \<Rightarrow> int \<Rightarrow> string \<Rightarrow> Folder \<Rightarrow> Node \<Rightarrow> Change list \<Rightarrow> InFlightFile list \<Rightarrow> Engine \<Rightarrow> NodeEvents
    \<Rightarrow> Engine \<times> NodeEvents" where
  "finish_pass ord now fid f nd cs held e n =
     (let n1 = (if new_or_gone cs then checkCaseCollisions ord now (folder_engine fid f e nd) fid n else n);
          e1 = SetInFlight (map (\<lambda>x. (if_Name x, if_Size x)) held) e;
          n2 = noteHeldBack now fid (length held) n1
      in (confirmGateReleases e1, n2))"

definition scan_body :: "nat \<Rightarrow> collision_order \<Rightarrow> int \<Rightarrow> ScanWorld \<Rightarrow> string list \<Rightarrow> bool \<Rightarrow> string \<Rightarrow> Folder \<Rightarrow> Node \<Rightarrow> ScanSide \<Rightarrow> NodeEvents
    \<Rightarrow> Engine \<times> ScanSide \<times> NodeEvents \<times> int \<times> go_error option" where
  "scan_body chunk ord now w scope late_pause fid f nd sd n =
     (let (sc, ix, cs, err) = scanScoped w (sd_Scanner sd) (Ix (fo_Engine f)) scope;
          e = (fo_Engine f)\<lparr>Ix := ix\<rparr>; sd1 = sd\<lparr>sd_Scanner := sc\<rparr> in
        if err = Some ErrScanCancelled \<or> late_pause then (e, sd1, n, 0, Some ErrScanCancelled)
        else case err of
            Some x \<Rightarrow> (e, sd1, n, 0, Some x)
          | None \<Rightarrow>
              (let sd2 = confirmDeletionsSoon ix sd1 in
               case apply_pass chunk e cs of
                 (e1, Some x) \<Rightarrow> (e1, sd2, n, counted cs, Some x)
               | (e1, None) \<Rightarrow>
                   (let (e2, n2) = finish_pass ord now fid f nd cs (lastInFlight sc) e1 n in (e2, sd2, n2, counted cs, None))))"

definition scanFolderScoped :: "(go_error \<Rightarrow> string) \<Rightarrow> nat \<Rightarrow> collision_order \<Rightarrow> int \<Rightarrow> ScanWorld \<Rightarrow> string list \<Rightarrow> bool \<Rightarrow> string \<Rightarrow> Node \<Rightarrow> ScanSide
    \<Rightarrow> NodeEvents \<Rightarrow> Node \<times> ScanSide \<times> NodeEvents \<times> int \<times> go_error option" where
  "scanFolderScoped text_of chunk ord now w scope late_pause fid nd sd n =
     (case mget (nd_Folders nd) fid of
        None \<Rightarrow> (nd, sd, n, 0, Some (Err ''unknown folder''))
      | Some f \<Rightarrow>
          if fo_Paused f then (nd, sd, n, 0, Some ErrFolderPaused)
          else let (e, sd1, n1, applied, err) = scan_body chunk ord now w scope late_pause fid f nd sd n in
            (folder_engine fid f e nd, sd1,
             (if err = Some ErrScanCancelled then n1
              else case err of Some x \<Rightarrow> reportFolderError now fid (text_of x) n1 | None \<Rightarrow> clearFolderError now fid n1), applied, err))"

definition ScanFolder :: "(go_error \<Rightarrow> string) \<Rightarrow> nat \<Rightarrow> collision_order \<Rightarrow> int \<Rightarrow> ScanWorld \<Rightarrow> bool \<Rightarrow> string \<Rightarrow> Node \<Rightarrow> ScanSide
    \<Rightarrow> NodeEvents \<Rightarrow> Node \<times> ScanSide \<times> NodeEvents \<times> int \<times> go_error option" where
  "ScanFolder text_of chunk ord now w late_pause fid nd sd n = scanFolderScoped text_of chunk ord now w [] late_pause fid nd sd n"

definition ScanFolderPaths :: "(go_error \<Rightarrow> string) \<Rightarrow> nat \<Rightarrow> collision_order \<Rightarrow> int \<Rightarrow> ScanWorld \<Rightarrow> string list \<Rightarrow> bool \<Rightarrow> string \<Rightarrow> Node \<Rightarrow> ScanSide
    \<Rightarrow> NodeEvents \<Rightarrow> Node \<times> ScanSide \<times> NodeEvents \<times> int \<times> go_error option" where
  "ScanFolderPaths text_of chunk ord now w rels late_pause fid nd sd n =
     (if rels = [] then (nd, sd, n, 0, None) else scanFolderScoped text_of chunk ord now w rels late_pause fid nd sd n)"

definition ScanFolderDeep :: "(go_error \<Rightarrow> string) \<Rightarrow> nat \<Rightarrow> collision_order \<Rightarrow> int \<Rightarrow> ScanWorld \<Rightarrow> bool \<Rightarrow> string \<Rightarrow> Node \<Rightarrow> ScanSide
    \<Rightarrow> NodeEvents \<Rightarrow> Node \<times> ScanSide \<times> NodeEvents \<times> int \<times> go_error option" where
  "ScanFolderDeep text_of chunk ord now w late_pause fid nd sd n =
     (case mget (nd_Folders nd) fid of
        None \<Rightarrow> (nd, sd, n, 0, Some (Err ''unknown folder''))
      | Some f \<Rightarrow>
          if fo_Paused f then (nd, sd, n, 0, Some ErrFolderPaused)
          else scanFolderScoped text_of chunk ord now w [] late_pause fid nd (sd\<lparr>sd_Scanner := (sd_Scanner sd)\<lparr>forceHash := True\<rparr>\<rparr>) n)"

text \<open>The second look at the files the gate holds back; a folder with none is left alone.\<close>

definition scan_held_back :: "(go_error \<Rightarrow> string) \<Rightarrow> nat \<Rightarrow> collision_order \<Rightarrow> int \<Rightarrow> ScanWorld \<Rightarrow> bool \<Rightarrow> string \<Rightarrow> Node \<Rightarrow> ScanSide
    \<Rightarrow> NodeEvents \<Rightarrow> Node \<times> ScanSide \<times> NodeEvents \<times> int" where
  "scan_held_back text_of chunk ord now w late_pause fid nd sd n =
     (case mget (nd_Folders nd) fid of
        None \<Rightarrow> (nd, sd, n, 0)
      | Some f \<Rightarrow>
          if fo_Paused f \<or> lastInFlight (sd_Scanner sd) = [] then (nd, sd, n, 0)
          else case ScanFolderPaths text_of chunk ord now w (map if_Name (lastInFlight (sd_Scanner sd))) late_pause fid nd sd n of
              (nd1, sd1, n1, applied, _) \<Rightarrow> (nd1, sd1, n1, applied))"

section \<open>Rebuilding an index\<close>

fun apply_each :: "Engine \<Rightarrow> Change list \<Rightarrow> int \<Rightarrow> Engine \<times> int \<times> go_error option" where
  "apply_each e [] applied = (e, applied, None)"
| "apply_each e (c # cs) applied =
     (if c_Kind c = Unchanged then apply_each e cs applied
      else if c_Kind c = Renamed then
        (case ApplyLocalRename e (c_From c) (c_Info c) of
           (e1, Inl err) \<Rightarrow> (e1, applied, Some err) | (e1, Inr _) \<Rightarrow> apply_each e1 cs (applied + 1))
      else
        (case ApplyLocalChange e (c_Kind c) (c_Info c) of
           (e1, Inl err) \<Rightarrow> (e1, applied, Some err) | (e1, Inr _) \<Rightarrow> apply_each e1 cs (applied + 1)))"

definition rebuildFromFS :: "int \<Rightarrow> ScanWorld \<Rightarrow> string \<Rightarrow> string \<Rightarrow> Engine \<Rightarrow> ScanSide \<Rightarrow> NodeEvents
    \<Rightarrow> Engine \<times> ScanSide \<times> NodeEvents \<times> int \<times> go_error option" where
  "rebuildFromFS now w fid reason e sd n =
     (let (sc, ix, cs, err) = scanScoped w ((sd_Scanner sd)\<lparr>bypassGate := True\<rparr>) (Ix e) [];
          e1 = e\<lparr>Ix := ix\<rparr>; sd1 = sd\<lparr>sd_Scanner := sc\<lparr>bypassGate := False\<rparr>\<rparr> in
        case err of
          Some x \<Rightarrow> (e1, sd1, n, 0, Some x)
        | None \<Rightarrow>
            (case apply_each e1 cs 0 of
               (e2, applied, Some x) \<Rightarrow> (e2, sd1, n, applied, Some x)
             | (e2, applied, None) \<Rightarrow> (e2, sd1, recordEvent now (new_event now fid [] C_System Sev_Warn reason) n, applied, None)))"

section \<open>An abandoned pass\<close>

lemma scan_keeps_files: "scanScoped w sc ix scope = (sc', ix', cs, err) \<Longrightarrow> files ix' = files ix"
proof -
  assume run: "scanScoped w sc ix scope = (sc', ix', cs, err)"
  show "files ix' = files ix"
  proof (cases rule: scan_stages [of w sc ix scope])
    case (stopped cs0 err0)
    then show ?thesis using run by simp
  next
    case (finished st renames claimed toHash hashed drifted)
    then have "scan_finish w sc ix scope st claimed (ws_changes st @ renames @ hashed) drifted = (sc', ix', cs, err)" using run by simp
    then obtain ix1 cs2 uns where c: "confirmDeletions sc ix (deleted_pass w sc ix scope st claimed (ws_changes st @ renames @ hashed)) (w_now w) scope uns = (ix1, cs2)"
      and "err = None \<Longrightarrow> ix' = fst (SettleReplace ix1 (next_settle ix scope st drifted))" "err \<noteq> None \<Longrightarrow> ix' = ix1"
      by (rule scan_finish_parts) blast
    then show ?thesis using confirmDeletions_frame(1) [OF c] by (cases err) (auto simp: SettleReplace_def)
  qed
qed

section \<open>Rows that stay live\<close>

definition named :: "Index \<Rightarrow> bool" where
  "named ix \<longleftrightarrow> (\<forall>(k, r) \<in> set (files ix). r_name r = k)"

definition row_live :: "Index \<Rightarrow> string \<Rightarrow> bool" where
  "row_live ix p \<longleftrightarrow> (\<exists>r. mget (files ix) p = Some r \<and> r_deleted r = 0)"

definition apart :: "string \<Rightarrow> Engine \<Rightarrow> bool" where
  "apart p e \<longleftrightarrow> (\<forall>rel \<in> set (releases (loadReleasesLocked e)). rel_From rel \<noteq> p \<and> rel_To rel \<noteq> p)"

definition kept :: "string \<Rightarrow> Engine \<Rightarrow> bool" where
  "kept p e \<longleftrightarrow> named (Ix e) \<and> row_live (Ix e) p \<and> apart p e"

lemma apart_cong:
  "releases e' = releases e \<Longrightarrow> releasesLoaded e' = releasesLoaded e \<Longrightarrow> meta (Ix e') = meta (Ix e) \<Longrightarrow> fault_meta (Ix e') = fault_meta (Ix e)
     \<Longrightarrow> apart p e' = apart p e"
  by (simp add: apart_def loadReleasesLocked_def GetMeta_def Let_def split: sum.split option.split meta_value.split)

lemma kept_cong:
  "releases e' = releases e \<Longrightarrow> releasesLoaded e' = releasesLoaded e \<Longrightarrow> meta (Ix e') = meta (Ix e) \<Longrightarrow> fault_meta (Ix e') = fault_meta (Ix e)
     \<Longrightarrow> files (Ix e') = files (Ix e) \<Longrightarrow> kept p e' = kept p e"
  using apart_cong [of e' e p] by (simp add: kept_def named_def row_live_def)

lemma marks_releases [simp]:
  "releases (markPendingNames ns e) = releases e" "releasesLoaded (markPendingNames ns e) = releasesLoaded e"
  by (induction ns arbitrary: e) (simp_all add: markPendingDirty_def)

lemma emit_releases [simp]: "releases (emit c s p r l i e) = releases e" "releasesLoaded (emit c s p r l i e) = releasesLoaded e"
  by (simp_all add: emit_def)

lemma kept_emit [simp]: "kept p (emit c s q r l i e) = kept p e"
  by (rule kept_cong) simp_all

lemma set_mset_at_named:
  "(\<forall>(k, r) \<in> set m. r_name r = k) \<Longrightarrow> r_name row = k0 \<Longrightarrow> (\<forall>(k, r) \<in> set (mset_at m k0 row). r_name r = k)"
  using in_set_mset_at by fastforce

lemma files_put:
  assumes "named ix" "row_live ix p" "Name fi = p \<Longrightarrow> \<not> Deleted fi"
    and "files ix' = mset_at (files ix) (Name fi) (row_of (fi\<lparr>Sequence := s\<rparr>)) \<or> files ix' = mset_at (files ix) (Name fi) (row_of fi) \<or> files ix' = files ix"
  shows "named ix' \<and> row_live ix' p"
proof -
  have row: "r_name (row_of x) = Name x" "r_deleted (row_of x) = boolInt (Deleted x)" for x by (simp_all add: row_of_def)
  have *: "named ix' \<and> row_live ix' p" if "files ix' = mset_at (files ix) (Name fi) (row_of x)" "Name x = Name fi" "Deleted x = Deleted fi" for x
    using assms(1-3) that set_mset_at_named [of "files ix" "row_of x" "Name fi"] row [of x]
    by (auto simp: named_def row_live_def boolInt_def)
  from assms(4) show ?thesis using * [of fi] * [of "fi\<lparr>Sequence := s\<rparr>"] assms(1,2) by (auto simp: named_def row_live_def)
qed

lemma Put_shape:
  assumes "Put ix fi = (ix', fi', err)"
  shows "(\<exists>s. files ix' = mset_at (files ix) (Name fi) (row_of (fi\<lparr>Sequence := s\<rparr>)) \<or> files ix' = mset_at (files ix) (Name fi) (row_of fi) \<or> files ix' = files ix)
    \<and> meta ix' = meta ix \<and> fault_meta ix' = fault_meta ix"
  using assms by (auto simp: Put_def with_sequence_eq sequenced_def bump_writes_def Let_def split: if_splits)

lemma kept_IxPut:
  assumes "kept p e" "IxPut e fi = (e', fi', err)" "Name fi = p \<Longrightarrow> \<not> Deleted fi"
  shows "kept p e'"
proof -
  obtain ix' fi1 er where put: "Put (Ix e) fi = (ix', fi1, er)" by (cases "Put (Ix e) fi") auto
  then have e': "e' = (if er = None then markPendingNames (touched [Name fi]) (e\<lparr>Ix := ix'\<rparr>) else e\<lparr>Ix := ix'\<rparr>)"
    using assms(2) by (auto simp: IxPut_def Let_def split: if_splits)
  from Put_shape [OF put] obtain s where "files ix' = mset_at (files (Ix e)) (Name fi) (row_of (fi\<lparr>Sequence := s\<rparr>))
      \<or> files ix' = mset_at (files (Ix e)) (Name fi) (row_of fi) \<or> files ix' = files (Ix e)"
    and m: "meta ix' = meta (Ix e)" "fault_meta ix' = fault_meta (Ix e)" by blast
  then have "named ix' \<and> row_live ix' p" using files_put [of "Ix e" p fi ix' s] assms(1,3) by (simp add: kept_def)
  moreover have "apart p e' = apart p e" by (rule apart_cong) (simp_all add: e' m)
  ultimately show ?thesis using assms(1) by (simp add: kept_def e')
qed

lemma put_loop_keeps:
  "put_loop ix fis = (ix', fis', err) \<Longrightarrow> named ix \<Longrightarrow> row_live ix p \<Longrightarrow> \<forall>fi\<in>set fis. Name fi = p \<longrightarrow> \<not> Deleted fi
     \<Longrightarrow> named ix' \<and> row_live ix' p \<and> meta ix' = meta ix \<and> fault_meta ix' = fault_meta ix"
proof (induction fis arbitrary: ix ix' fis' err)
  case (Cons fi fis)
  let ?ix = "ix\<lparr>nextSeq := (if Sequence fi = 0 then nextSeq ix + 1 else nextSeq ix), files := mset_at (files ix) (Name fi) (row_of (sequenced ix fi))\<rparr>"
  show ?case
  proof (cases "fault_write ix (Name fi)")
    case True
    then show ?thesis using Cons.prems by (auto simp: with_sequence_eq named_def row_live_def)
  next
    case False
    obtain ix2 fis2 er where l: "put_loop ?ix fis = (ix2, fis2, er)" by (cases "put_loop ?ix fis") auto
    then have "ix' = ix2" using Cons.prems(1) False by (simp add: with_sequence_eq Let_def)
    moreover have "named ?ix \<and> row_live ?ix p"
      using files_put [of ix p fi ?ix "nextSeq ix"] Cons.prems by (simp add: sequenced_def)
    ultimately show ?thesis using Cons.IH [OF l] Cons.prems(4) by simp
  qed
qed auto

lemma kept_IxPutBatch:
  assumes "kept p e" "IxPutBatch e fis = (e', fis', err)" "\<forall>fi\<in>set fis. Name fi = p \<longrightarrow> \<not> Deleted fi"
  shows "kept p e'"
proof -
  obtain ix' fis1 er where put: "PutBatch (Ix e) fis = (ix', fis1, er)" by (cases "PutBatch (Ix e) fis") auto
  have e': "e' = (if er = None then markPendingNames (touched (map Name fis)) (e\<lparr>Ix := ix'\<rparr>) else e\<lparr>Ix := ix'\<rparr>)"
    using assms(2) put by (auto simp: IxPutBatch_def Let_def split: if_splits)
  have "named ix' \<and> row_live ix' p \<and> meta ix' = meta (Ix e) \<and> fault_meta ix' = fault_meta (Ix e)"
  proof (cases "fis = []")
    case True
    then show ?thesis using put assms(1) by (auto simp: PutBatch_def kept_def bump_writes_def named_def row_live_def)
  next
    case False
    obtain ix2 fis2 er2 where l: "put_loop (Ix e) fis = (ix2, fis2, er2)" by (cases "put_loop (Ix e) fis") auto
    have k: "named ix2 \<and> row_live ix2 p \<and> meta ix2 = meta (Ix e) \<and> fault_meta ix2 = fault_meta (Ix e)"
      using put_loop_keeps [OF l, of p] assms(1,3) by (simp add: kept_def)
    show ?thesis using put False l k assms(1) by (cases er2) (auto simp: PutBatch_def kept_def bump_writes_def named_def row_live_def)
  qed
  moreover from this have "apart p e' = apart p e" by (intro apart_cong) (simp_all add: e')
  ultimately show ?thesis using assms(1) by (simp add: kept_def e')
qed

lemma named_Get: "named ix \<Longrightarrow> Ix_Get ix q = Inr (Some fi) \<Longrightarrow> Name fi = q \<and> (row_live ix q \<longrightarrow> \<not> Deleted fi)"
  by (auto simp: Ix_Get_def scanRow_def named_def row_live_def dest!: mget_Some_in split: if_splits option.splits sum.splits)

section \<open>What an engine operation does to a live row\<close>

definition spares :: "string \<Rightarrow> Change \<Rightarrow> bool" where
  "spares p c \<longleftrightarrow> (c_Kind c = Deleted_kind \<longrightarrow> Name (c_Info c) \<noteq> p) \<and> (c_Kind c = Renamed \<longrightarrow> c_From c \<noteq> p) \<and> \<not> Deleted (c_Info c)
     \<and> (c_OutOfGate c \<longrightarrow> Name (c_Info c) \<noteq> p)"

lemma kept_ApplyLocalChange:
  assumes "kept p e" "ApplyLocalChange e kind fi = (e', r)" "kind = Deleted_kind \<Longrightarrow> Name fi \<noteq> p" "kind \<noteq> Deleted_kind \<Longrightarrow> \<not> Deleted fi"
  shows "kept p e'"
proof -
  have tomb: "Name (tombstone q t v) = q" for q t v by (simp add: tombstone_def)
  show ?thesis
  proof (cases "Direction e = ''receive-only'' \<or> kind = Skipped")
    case True
    then show ?thesis using assms(1,2) by (auto simp: ApplyLocalChange_def split: if_splits)
  next
    case dir: False
    show ?thesis
    proof (cases "kind = Touched")
      case True
      show ?thesis
      proof (cases "Ix_Get (Ix e) (Name fi)")
        case (Inl x)
        then show ?thesis using assms(1,2) dir True by (auto simp: ApplyLocalChange_def)
      next
        case (Inr cur)
        show ?thesis
        proof (cases cur)
          case None
          then show ?thesis using assms(1,2) dir True Inr by (auto simp: ApplyLocalChange_def)
        next
          case (Some c)
          obtain e1 x er where put: "IxPut e (adopt_stat c fi) = (e1, x, er)" by (cases "IxPut e (adopt_stat c fi)") auto
          then have e1: "e' = e1" using assms(2) dir True Inr Some by (cases er) (auto simp: ApplyLocalChange_def)
          have n: "Name c = Name fi \<and> (row_live (Ix e) (Name fi) \<longrightarrow> \<not> Deleted c)" using named_Get Inr Some assms(1) by (auto simp: kept_def)
          have "\<not> Deleted (adopt_stat c fi)" if "Name (adopt_stat c fi) = p"
            using n that assms(1) by (simp add: adopt_stat_def kept_def)
          then show ?thesis using kept_IxPut [OF assms(1) put] e1 by simp
        qed
      qed
    next
      case touched: False
      show ?thesis
      proof (cases "Ix_Get (Ix e) (Name fi)")
        case (Inl x)
        then show ?thesis using assms(1,2) dir touched by (auto simp: ApplyLocalChange_def)
      next
        case (Inr cur)
        show ?thesis
        proof (cases "bumped e cur")
          case (Inl x)
          then show ?thesis using assms(1,2) dir touched Inr by (auto simp: ApplyLocalChange_def)
        next
          case ver: (Inr v)
          define out where "out = (case kind of
              Deleted_kind \<Rightarrow> Some (tombstone (Name fi) (case cur of Some c \<Rightarrow> Type c | None \<Rightarrow> Type fi) v)
            | Added \<Rightarrow> Some ((CloneInfo fi)\<lparr>Version := v\<rparr>) | Modified \<Rightarrow> Some ((CloneInfo fi)\<lparr>Version := v\<rparr>) | _ \<Rightarrow> None)"
          have shape: "ApplyLocalChange e kind fi = (case out of None \<Rightarrow> (e, Inl (Err ''unhandled change kind''))
             | Some out \<Rightarrow> (case IxPut e out of (e', _, Some err) \<Rightarrow> (e', Inl err)
                 | (e', out', None) \<Rightarrow> (emit CatApplied SevInfo (Name fi) (change_reason kind) [] 0 e', Inr (Some out'))))"
            using dir touched Inr ver by (simp add: ApplyLocalChange_def out_def)
          show ?thesis
          proof (cases out)
            case None
            then show ?thesis using shape assms(1,2) by simp
          next
            case (Some o1)
            have o1: "Name o1 = p \<Longrightarrow> \<not> Deleted o1" using Some assms(3,4) by (auto simp: out_def tomb split: ChangeKind.splits)
            obtain e1 x er where put: "IxPut e o1 = (e1, x, er)" by (cases "IxPut e o1") auto
            have "kept p e1" by (rule kept_IxPut [OF assms(1) put o1])
            moreover have "e' = e1 \<or> e' = emit CatApplied SevInfo (Name fi) (change_reason kind) [] 0 e1"
              using shape assms(2) put by (cases er) (auto simp: Some)
            ultimately show ?thesis by auto
          qed
        qed
      qed
    qed
  qed
qed

lemma kept_ApplyLocalRename:
  assumes "kept p e" "ApplyLocalRename e q fi = (e', r)" "q \<noteq> p" "\<not> Deleted fi"
  shows "kept p e'"
proof -
  consider "e' = e"
    | t v e1 x er where "IxPut e (tombstone q t v) = (e1, x, Some er)" "e' = e1"
    | t v e1 x e2 y er where "IxPut e (tombstone q t v) = (e1, x, None)" "IxPut e1 ((CloneInfo fi)\<lparr>Version := v, Sequence := 0\<rparr>) = (e2, y, er)"
        "e' = e2 \<or> e' = emit CatApplied SevInfo (Name fi) ''local rename'' q 0 e2"
    using assms(2) unfolding ApplyLocalRename_def
    by (auto split: if_splits sum.splits option.splits prod.splits)
  then show ?thesis
  proof cases
    case 1
    then show ?thesis using assms(1) by simp
  next
    case 2
    then show ?thesis using kept_IxPut [OF assms(1) 2(1)] assms(3) by (simp add: tombstone_def)
  next
    case 3
    have "kept p e1" using kept_IxPut [OF assms(1) 3(1)] assms(3) by (simp add: tombstone_def)
    then have "kept p e2" using kept_IxPut [OF _ 3(2)] assms(4) by simp
    then show ?thesis using 3(3) by auto
  qed
qed

lemma planned_spare:
  assumes "spares p c"
  shows "planRename e (c_From c) (c_Info c) = Inr (Some ws) \<Longrightarrow> c_Kind c = Renamed \<Longrightarrow> \<forall>fi\<in>set ws. Name fi = p \<longrightarrow> \<not> Deleted fi"
    and "planChange e (c_Kind c) (c_Info c) = Inr (Some out) \<Longrightarrow> Name out = p \<longrightarrow> \<not> Deleted out"
  using assms
  by (auto simp: spares_def planRename_def planChange_def tombstone_def split: if_splits sum.splits option.splits ChangeKind.splits)

definition harmless :: "string \<Rightarrow> planned \<Rightarrow> bool" where
  "harmless p pl \<longleftrightarrow> spares p (pl_change pl) \<and> (\<forall>fi\<in>set (pl_writes pl). Name fi = p \<longrightarrow> \<not> Deleted fi)"

lemma kept_plan_loop:
  "plan_loop e cs plans applied failed = (e', plans', applied', failed', err) \<Longrightarrow> kept p e \<Longrightarrow> \<forall>c\<in>set cs. spares p c
     \<Longrightarrow> \<forall>pl\<in>set plans. harmless p pl
     \<Longrightarrow> kept p e' \<and> set failed' \<subseteq> set failed \<union> set cs \<and> (\<forall>pl\<in>set plans'. harmless p pl)"
proof (induction cs arbitrary: e plans applied failed)
  case (Cons c cs)
  note run = Cons.prems(1) and keep = Cons.prems(2) and pls = Cons.prems(4)
  have c: "spares p c" and cs: "\<forall>c\<in>set cs. spares p c" using Cons.prems(3) by simp_all
  have widen: "kept p e' \<and> set failed' \<subseteq> set failed \<union> set (c # cs) \<and> (\<forall>pl\<in>set plans'. harmless p pl)"
    if "kept p e' \<and> set failed' \<subseteq> set fl \<union> set cs \<and> (\<forall>pl\<in>set plans'. harmless p pl)" "set fl \<subseteq> insert c (set failed)" for fl
    using that by auto
  consider (skip) "c_Kind c = Skipped" | (touch) "c_Kind c = Touched" | (move) "c_Kind c = Renamed"
    | (other) "c_Kind c \<noteq> Skipped" "c_Kind c \<noteq> Touched" "c_Kind c \<noteq> Renamed" by blast
  then show ?case
  proof cases
    case skip
    then have "plan_loop (emit CatSkipped SevInfo (Name (c_Info c)) ''ignored by rule''
        (if c_Rule c = [] then skip_rule e (Name (c_Info c)) else c_Rule c) 0 e) cs plans (applied + 1) failed
        = (e', plans', applied', failed', err)" using run by (simp add: Let_def)
    from Cons.IH [OF this _ cs pls] show ?thesis using widen [of failed] keep by auto
  next
    case touch
    show ?thesis
    proof (cases "Ix_Get (Ix e) (Name (c_Info c))")
      case (Inl x)
      then show ?thesis using run touch keep pls by auto
    next
      case (Inr cur)
      show ?thesis
      proof (cases cur)
        case None
        then have "plan_loop e cs plans applied failed = (e', plans', applied', failed', err)" using run touch Inr by simp
        from Cons.IH [OF this keep cs pls] show ?thesis using widen [of failed] by auto
      next
        case (Some cu)
        obtain e1 x er where put: "IxPut e (adopt_stat cu (c_Info c)) = (e1, x, er)" by (cases "IxPut e (adopt_stat cu (c_Info c))") auto
        have n: "Name cu = Name (c_Info c) \<and> (row_live (Ix e) (Name (c_Info c)) \<longrightarrow> \<not> Deleted cu)"
          using named_Get Inr Some keep by (auto simp: kept_def)
        have "\<not> Deleted (adopt_stat cu (c_Info c))" if "Name (adopt_stat cu (c_Info c)) = p"
          using n that keep by (simp add: adopt_stat_def kept_def)
        then have k1: "kept p e1" by (rule kept_IxPut [OF keep put])
        show ?thesis
        proof (cases er)
          case None
          then have "plan_loop e1 cs plans applied failed = (e', plans', applied', failed', err)" using run touch Inr Some put by simp
          from Cons.IH [OF this k1 cs pls] show ?thesis using widen [of failed] by auto
        next
          case (Some y)
          then show ?thesis using run touch Inr \<open>cur = Some cu\<close> put k1 pls by auto
        qed
      qed
    qed
  next
    case move
    show ?thesis
    proof (cases "planRename e (c_From c) (c_Info c)")
      case (Inl x)
      then show ?thesis using run move keep pls by auto
    next
      case (Inr ws)
      show ?thesis
      proof (cases ws)
        case None
        then have "plan_loop e cs plans applied (failed @ [c]) = (e', plans', applied', failed', err)" using run move Inr by simp
        from Cons.IH [OF this keep cs pls] show ?thesis using widen [of "failed @ [c]"] by auto
      next
        case (Some w)
        then have loop: "plan_loop e cs (plans @ [\<lparr>pl_writes = w, pl_change = c, pl_reason = ''local rename''\<rparr>]) (applied + 1) failed
            = (e', plans', applied', failed', err)" using run move Inr by simp
        have "harmless p \<lparr>pl_writes = w, pl_change = c, pl_reason = ''local rename''\<rparr>"
          using planned_spare(1) [OF c] Inr Some move c by (simp add: harmless_def)
        then have "\<forall>pl\<in>set (plans @ [\<lparr>pl_writes = w, pl_change = c, pl_reason = ''local rename''\<rparr>]). harmless p pl" using pls by simp
        from Cons.IH [OF loop keep cs this] show ?thesis using widen [of failed] by auto
      qed
    qed
  next
    case other
    show ?thesis
    proof (cases "planChange e (c_Kind c) (c_Info c)")
      case (Inl x)
      then show ?thesis using run other keep pls by auto
    next
      case (Inr ws)
      show ?thesis
      proof (cases ws)
        case None
        then have "plan_loop e cs plans applied (failed @ [c]) = (e', plans', applied', failed', err)" using run other Inr by simp
        from Cons.IH [OF this keep cs pls] show ?thesis using widen [of "failed @ [c]"] by auto
      next
        case (Some w)
        then have loop: "plan_loop e cs (plans @ [\<lparr>pl_writes = [w], pl_change = c, pl_reason = change_reason (c_Kind c)\<rparr>]) (applied + 1) failed
            = (e', plans', applied', failed', err)" using run other Inr by simp
        have "harmless p \<lparr>pl_writes = [w], pl_change = c, pl_reason = change_reason (c_Kind c)\<rparr>"
          using planned_spare(2) [OF c] Inr Some c by (simp add: harmless_def)
        then have "\<forall>pl\<in>set (plans @ [\<lparr>pl_writes = [w], pl_change = c, pl_reason = change_reason (c_Kind c)\<rparr>]). harmless p pl" using pls by simp
        from Cons.IH [OF loop keep cs this] show ?thesis using widen [of failed] by auto
      qed
    qed
  qed
qed auto

lemma kept_commit_loop:
  "commit_loop e chunk ws = (e', err) \<Longrightarrow> kept p e \<Longrightarrow> \<forall>fi\<in>set ws. Name fi = p \<longrightarrow> \<not> Deleted fi \<Longrightarrow> kept p e'"
proof (induction e chunk ws arbitrary: e' err rule: commit_loop.induct)
  case (1 e chunk ws)
  show ?case
  proof (cases "ws = [] \<or> chunk = 0")
    case True
    then show ?thesis using 1(2,3) by (auto simp: commit_loop.simps [of e chunk ws])
  next
    case False
    obtain e1 x er where put: "IxPutBatch e (take chunk ws) = (e1, x, er)" by (cases "IxPutBatch e (take chunk ws)") auto
    have k1: "kept p e1" by (rule kept_IxPutBatch [OF 1(3) put]) (use 1(4) in \<open>auto dest: in_set_takeD\<close>)
    show ?thesis
    proof (cases er)
      case None
      then have next_loop: "commit_loop e1 chunk (drop chunk ws) = (e', err)" using 1(2) False put by (simp add: commit_loop.simps [of e chunk ws])
      show ?thesis by (rule 1(1) [OF False put [symmetric] refl None next_loop k1]) (use 1(4) in \<open>auto dest: in_set_dropD\<close>)
    next
      case (Some y)
      then show ?thesis using 1(2) False put k1 by (simp add: commit_loop.simps [of e chunk ws])
    qed
  qed
qed

lemma load_again [simp]: "loadReleasesLocked (loadReleasesLocked e) = loadReleasesLocked e"
  by (simp add: loadReleasesLocked_def Let_def split: sum.split option.split meta_value.split)

lemma load_frame [simp]:
  "Ix (loadReleasesLocked e) = Ix e" "releasesLoaded (loadReleasesLocked e)"
  by (simp_all add: loadReleasesLocked_def Let_def split: sum.split option.split meta_value.split)

lemma kept_loaded: "kept p (loadReleasesLocked e) = kept p e"
  by (simp add: kept_def apart_def)

lemma apart_loaded: "releasesLoaded e \<Longrightarrow> apart p e = (\<forall>rel \<in> set (releases e). rel_From rel \<noteq> p \<and> rel_To rel \<noteq> p)"
  by (simp add: apart_def loadReleasesLocked_def)

lemma kept_record: "kept p e \<Longrightarrow> from \<noteq> p \<Longrightarrow> to_n \<noteq> p \<Longrightarrow> kept p (recordReleaseLocked from to_n sz blocks e)"
  using load_frame(2) [of e] by (auto simp: kept_def recordReleaseLocked_def Let_def apart_loaded) (auto simp: apart_def)

lemma kept_save: "kept p e \<Longrightarrow> releasesLoaded e \<Longrightarrow> saveReleasesLocked e = (e', err) \<Longrightarrow> kept p e' \<and> releasesLoaded e'"
  by (auto simp: saveReleasesLocked_def SetMeta_def kept_def apart_loaded named_def row_live_def Let_def split: if_splits)

lemma record_loaded: "releasesLoaded (recordReleaseLocked from to_n sz blocks e)"
  by (simp add: recordReleaseLocked_def Let_def)

lemma kept_RecordOutOfGateRename:
  assumes "kept p e" "from \<noteq> p" "to_n \<noteq> p"
  shows "kept p (fst (RecordOutOfGateRename e from to_n))"
proof -
  have "kept p (fst (saveReleasesLocked (recordReleaseLocked from to_n sz blocks e)))" for sz blocks
    using kept_save [OF kept_record [OF assms] record_loaded] by (metis prod.collapse)
  then show ?thesis using assms(1) by (simp add: RecordOutOfGateRename_def split: sum.split option.split)
qed

lemma kept_record_all:
  assumes "kept p e" "\<forall>pl\<in>set plans. harmless p pl"
  shows "kept p (record_all plans e)"
proof -
  have "kept p (foldl (\<lambda>e p. recordReleaseLocked (c_From (pl_change p)) (Name (c_Info (pl_change p)))
     (Size (c_Info (pl_change p))) (Blocks (c_Info (pl_change p))) e) e pls)"
    if "kept p e" "\<forall>pl\<in>set pls. harmless p pl \<and> is_gate_rename pl" for pls e
    using that
  proof (induction pls arbitrary: e)
    case (Cons pl pls)
    then show ?case using kept_record [of p e "c_From (pl_change pl)" "Name (c_Info (pl_change pl))"]
      by (auto simp: harmless_def spares_def is_gate_rename_def)
  qed simp
  then show ?thesis using assms by (simp add: record_all_def)
qed

lemma record_all_loaded: "list_ex is_gate_rename plans \<Longrightarrow> releasesLoaded (record_all plans e)"
proof -
  have loaded: "releasesLoaded (foldl (\<lambda>e p. recordReleaseLocked (c_From (pl_change p)) (Name (c_Info (pl_change p)))
     (Size (c_Info (pl_change p))) (Blocks (c_Info (pl_change p))) e) e pls)" if "pls \<noteq> [] \<or> releasesLoaded e" for pls e
    using that by (induction pls arbitrary: e) (auto simp: record_loaded)
  assume "list_ex is_gate_rename plans"
  then have "filter is_gate_rename plans \<noteq> []" by (auto simp: filter_empty_conv list_ex_iff)
  then show ?thesis unfolding record_all_def by (intro loaded disjI1)
qed

lemma kept_emit_plans [simp]: "kept p (emit_plans plans e) = kept p e"
proof -
  have "kept p (foldl (\<lambda>e pl. emit_plan pl e) e pls) = kept p e" for pls e
    by (induction pls arbitrary: e) (simp_all add: emit_plan_def)
  then show ?thesis by (simp add: emit_plans_def)
qed

lemma kept_ApplyLocalChanges:
  assumes "ApplyLocalChanges chunk e cs = (e', applied, failed, err)" "kept p e" "\<forall>c\<in>set cs. spares p c"
  shows "kept p e' \<and> set failed \<subseteq> set cs"
proof (cases "Direction e = ''receive-only'' \<or> cs = []")
  case True
  then have "ApplyLocalChanges chunk e cs = (e, 0, [], None)" by (auto simp: ApplyLocalChanges_def)
  then show ?thesis using assms by simp
next
  case False
  obtain e1 plans ap fl er where loop: "plan_loop e cs [] 0 [] = (e1, plans, ap, fl, er)" by (cases "plan_loop e cs [] 0 []") auto
  have k1: "kept p e1" "set fl \<subseteq> set cs" "\<forall>pl\<in>set plans. harmless p pl" using kept_plan_loop [OF loop assms(2,3)] by simp_all
  obtain e2 er2 where commit: "commit_loop e1 chunk (concat (map pl_writes plans)) = (e2, er2)" by (cases "commit_loop e1 chunk (concat (map pl_writes plans))")
  have k2: "kept p e2" by (rule kept_commit_loop [OF commit k1(1)]) (use k1(3) in \<open>auto simp: harmless_def\<close>)
  obtain e4 er4 where save: "(if list_ex is_gate_rename plans then saveReleasesLocked (record_all plans e2) else (e2, None)) = (e4, er4)"
    by (cases "if list_ex is_gate_rename plans then saveReleasesLocked (record_all plans e2) else (e2, None)")
  have k4: "kept p e4"
  proof (cases "list_ex is_gate_rename plans")
    case True
    then have "saveReleasesLocked (record_all plans e2) = (e4, er4)" using save by simp
    then show ?thesis using kept_save [OF kept_record_all [OF k2 k1(3)] record_all_loaded [OF True]] by blast
  next
    case False
    then show ?thesis using save k2 by simp
  qed
  have shape: "ApplyLocalChanges chunk e cs = (case er of Some x \<Rightarrow> (e1, ap, fl, Some x) | None \<Rightarrow>
      (case er2 of Some x \<Rightarrow> (e2, 0, [], Some x) | None \<Rightarrow> (case er4 of Some x \<Rightarrow> (e4, 0, [], Some x) | None \<Rightarrow> (emit_plans plans e4, ap, fl, None))))"
    using False loop commit save by (simp add: ApplyLocalChanges_def split: option.split)
  show ?thesis
    using shape assms(1) k1(1,2) k2 k4 by (cases er; cases er2; cases er4) auto
qed

lemma kept_retry_failed:
  "retry_failed e cs = (e', err) \<Longrightarrow> kept p e \<Longrightarrow> \<forall>c\<in>set cs. spares p c \<Longrightarrow> kept p e'"
proof (induction cs arbitrary: e)
  case (Cons c cs)
  have c: "spares p c" and cs: "\<forall>c\<in>set cs. spares p c" using Cons.prems(3) by simp_all
  show ?case
  proof (cases "c_Kind c = Renamed")
    case True
    obtain e1 r where ren: "ApplyLocalRename e (c_From c) (c_Info c) = (e1, r)" by (cases "ApplyLocalRename e (c_From c) (c_Info c)")
    have k1: "kept p e1" using kept_ApplyLocalRename [OF Cons.prems(2) ren] c True by (simp add: spares_def)
    show ?thesis
    proof (cases r)
      case (Inr ok)
      have k2: "kept p (if c_OutOfGate c then fst (RecordOutOfGateRename e1 (c_From c) (Name (c_Info c))) else e1)"
        using k1 kept_RecordOutOfGateRename [OF k1, of "c_From c" "Name (c_Info c)"] c True by (simp add: spares_def)
      show ?thesis by (rule Cons.IH [OF _ k2 cs]) (use Cons.prems(1) True ren Inr in simp)
    next
      case (Inl x)
      obtain e2 r2 where del: "ApplyLocalChange e1 Deleted_kind (zero_info\<lparr>Name := c_From c, Type := Type (c_Info c)\<rparr>) = (e2, r2)"
        by (cases "ApplyLocalChange e1 Deleted_kind (zero_info\<lparr>Name := c_From c, Type := Type (c_Info c)\<rparr>)")
      have k2: "kept p e2" by (rule kept_ApplyLocalChange [OF k1 del]) (use c True in \<open>simp_all add: spares_def\<close>)
      obtain e3 r3 where add: "ApplyLocalChange e2 Added (c_Info c) = (e3, r3)" by (cases "ApplyLocalChange e2 Added (c_Info c)")
      have k3: "kept p e3" by (rule kept_ApplyLocalChange [OF k2 add]) (use c in \<open>simp_all add: spares_def\<close>)
      show ?thesis using Cons.prems(1) True ren Inl del add k2 k3 Cons.IH [OF _ k3 cs] by (cases r2; cases r3) auto
    qed
  next
    case False
    obtain e1 r where ch: "ApplyLocalChange e (c_Kind c) (c_Info c) = (e1, r)" by (cases "ApplyLocalChange e (c_Kind c) (c_Info c)")
    have k1: "kept p e1" by (rule kept_ApplyLocalChange [OF Cons.prems(2) ch]) (use c in \<open>simp_all add: spares_def\<close>)
    then show ?thesis using Cons.prems(1) False ch Cons.IH [OF _ k1 cs] by (cases r) auto
  qed
qed simp

lemma kept_IxDelete:
  assumes "kept p e" "IxDelete e q = (e', err)" "q \<noteq> p"
  shows "kept p e' \<and> releases e' = releases e \<and> releasesLoaded e' = releasesLoaded e"
proof -
  obtain ix' er where del: "Delete (Ix e) q = (ix', er)" by (cases "Delete (Ix e) q")
  have ix': "(files ix' = mdelete (files (Ix e)) q \<or> files ix' = files (Ix e)) \<and> meta ix' = meta (Ix e) \<and> fault_meta ix' = fault_meta (Ix e)"
    using del by (auto simp: Delete_def bump_writes_def split: if_splits)
  have e': "e' = (if er = None then markPendingNames (touched [q]) (e\<lparr>Ix := ix'\<rparr>) else e\<lparr>Ix := ix'\<rparr>)"
    using assms(2) del by (auto simp: IxDelete_def Let_def split: if_splits)
  have rows: "named ix' \<and> row_live ix' p"
    using ix' assms(1,3) by (auto simp: kept_def named_def row_live_def mget_mdelete) (auto simp: mdelete_def)
  have "apart p e' = apart p e" by (rule apart_cong) (simp_all add: e' ix')
  then show ?thesis using rows assms(1) by (simp add: kept_def e')
qed

lemma kept_confirm_loop:
  "confirm_loop e rels keep released = (e', keep', released', err) \<Longrightarrow> kept p e \<Longrightarrow> \<forall>rel\<in>set rels. rel_From rel \<noteq> p \<and> rel_To rel \<noteq> p
     \<Longrightarrow> kept p e' \<and> set keep' \<subseteq> set keep \<union> set rels \<and> releases e' = releases e \<and> releasesLoaded e' = releasesLoaded e"
proof (induction rels arbitrary: e keep released)
  case (Cons rel rels)
  have ap: "rel_From rel \<noteq> p" "rel_To rel \<noteq> p" and rest: "\<forall>rel\<in>set rels. rel_From rel \<noteq> p \<and> rel_To rel \<noteq> p" using Cons.prems(3) by simp_all
  show ?case
  proof (cases "releaseConfirmedLocked e rel")
    case False
    then have "confirm_loop e rels (keep @ [rel]) released = (e', keep', released', err)" using Cons.prems(1) by simp
    from Cons.IH [OF this Cons.prems(2) rest] show ?thesis by auto
  next
    case True
    obtain e1 er where d1: "IxDelete e (rel_To rel) = (e1, er)" by (cases "IxDelete e (rel_To rel)")
    obtain e2 er2 where d2: "IxDelete e1 (rel_From rel) = (e2, er2)" by (cases "IxDelete e1 (rel_From rel)")
    note k1 = kept_IxDelete [OF Cons.prems(2) d1 ap(2)]
    note k2 = kept_IxDelete [OF conjunct1 [OF k1] d2 ap(1)]
    show ?thesis
    proof (cases "er = None \<and> er2 = None")
      case no_err: True
      then have "confirm_loop e2 rels keep (released @ [rel_To rel]) = (e', keep', released', err)" using Cons.prems(1) True d1 d2 by simp
      from Cons.IH [OF this conjunct1 [OF k2] rest] show ?thesis using k1 k2 by auto
    next
      case False
      then show ?thesis using Cons.prems(1) True d1 d2 k1 k2 by (cases er; cases er2) auto
    qed
  qed
qed auto

lemma kept_ConfirmReleases:
  assumes "kept p e"
  shows "kept p (fst (ConfirmReleases e))"
proof -
  define e0 where "e0 = loadReleasesLocked e"
  have k0: "kept p e0" using assms by (simp add: e0_def kept_loaded)
  have l0: "releasesLoaded e0" by (simp add: e0_def)
  have ap: "\<forall>rel\<in>set (releases e0). rel_From rel \<noteq> p \<and> rel_To rel \<noteq> p" using k0 l0 by (simp add: kept_def apart_loaded)
  obtain e1 keep rel er where loop: "confirm_loop e0 (releases e0) [] [] = (e1, keep, rel, er)" by (cases "confirm_loop e0 (releases e0) [] []") auto
  note k1 = kept_confirm_loop [OF loop k0 ap]
  have upd: "kept p (e1\<lparr>releases := keep\<rparr>)" using k1 ap l0 by (auto simp: kept_def apart_loaded)
  obtain e2 er2 where save: "(if length keep \<noteq> length (releases e0) then saveReleasesLocked (e1\<lparr>releases := keep\<rparr>) else (e1, None)) = (e2, er2)"
    by (cases "if length keep \<noteq> length (releases e0) then saveReleasesLocked (e1\<lparr>releases := keep\<rparr>) else (e1, None)")
  have k2: "kept p e2"
  proof (cases "length keep \<noteq> length (releases e0)")
    case True
    then have "saveReleasesLocked (e1\<lparr>releases := keep\<rparr>) = (e2, er2)" using save by simp
    then show ?thesis using kept_save [OF upd] k1 l0 by simp
  next
    case False
    then show ?thesis using save k1 by simp
  qed
  have "fst (ConfirmReleases e) \<in> {e0, e1, e2, emit CatSystem SevInfo [] ''released paths renamed out of gate (content confirmed on peers)'' [] 0 e2}"
    using loop save by (simp add: ConfirmReleases_def e0_def [symmetric] Let_def split: option.split)
  then show ?thesis using k0 k1 k2 by auto
qed

lemma kept_confirmGateReleases: "kept p e \<Longrightarrow> kept p (confirmGateReleases e)"
  using kept_ConfirmReleases [of p "loadReleasesLocked e"] by (simp add: confirmGateReleases_def PendingReleases_def kept_loaded Let_def)

lemma kept_apply_pass:
  assumes "apply_pass chunk e cs = (e', err)" "kept p e" "\<forall>c\<in>set cs. spares p c"
  shows "kept p e'"
proof (cases "cs = []")
  case True
  then show ?thesis using assms by (simp add: apply_pass_def)
next
  case False
  obtain e1 ap fl er where a: "ApplyLocalChanges chunk e cs = (e1, ap, fl, er)" by (cases "ApplyLocalChanges chunk e cs") auto
  have k1: "kept p e1" "\<forall>c\<in>set fl. spares p c" using kept_ApplyLocalChanges [OF a assms(2,3)] assms(3) by auto
  obtain e2 er2 where r: "retry_failed e1 fl = (e2, er2)" by (cases "retry_failed e1 fl")
  show ?thesis using assms(1) False a r k1(1) kept_retry_failed [OF r k1] by (cases er) (auto simp: apply_pass_def)
qed

section \<open>What a pass hands over\<close>

lemma scan_rows_from: "scan_rows rows = Inr fis \<Longrightarrow> fi \<in> set fis \<Longrightarrow> \<exists>row\<in>set rows. scanRow row = Inr fi"
  by (induction rows arbitrary: fis) (auto split: sum.splits)

lemma live_rows_live:
  assumes "fi \<in> set (live_rows ix)"
  shows "\<not> Deleted fi"
proof -
  obtain fis where "scan_rows (filter (\<lambda>r. r_deleted r = 0) (map snd (files ix))) = Inr fis" "fi \<in> set fis"
    using assms by (cases "fault_scan ix"; cases "scan_rows (filter (\<lambda>r. r_deleted r = 0) (map snd (files ix)))")
      (simp_all add: live_rows_def Ix_List_def select_rows_def)
  then obtain row where "r_deleted row = 0" "scanRow row = Inr fi" using scan_rows_from by fastforce
  then show ?thesis by (auto simp: scanRow_def split: sum.splits)
qed

definition offers :: "string \<Rightarrow> WalkState \<Rightarrow> bool" where
  "offers p st \<longleftrightarrow> (\<forall>c\<in>set (ws_changes st). \<not> Deleted (c_Info c) \<and> \<not> c_OutOfGate c) \<and> (\<forall>g\<in>set (ws_gateCands st). gc_rel g \<noteq> p)"

lemma offers_file [simp]: "offers p (visit_file ps q mt perm st) = offers p st"
  by (cases mt) (simp add: offers_def visit_file_def visit_changed_def offer_def Let_def split: option.split prod.split)

lemma offers_see [simp]: "offers p (see q st) = offers p st"
  by (simp add: offers_def see_def)

lemma offers_note: "offers p st \<Longrightarrow> \<not> Deleted (c_Info c) \<Longrightarrow> \<not> c_OutOfGate c \<Longrightarrow> offers p (note_change c st)"
  by (auto simp: offers_def note_change_def)

lemma offers_skipped: "offers p st \<Longrightarrow> offers p (note_change (skipped q r) st)"
  by (rule offers_note) (simp_all add: skipped_def new_change_def zero_info_def)

lemma offers_tracked: "offers p st \<Longrightarrow> offers p (visit_tracked ps q d st)"
  by (simp add: visit_tracked_def offers_note new_change_def dirInfo_def symlinkInfo_def zero_info_def split: dirent.split)

lemma offers_candidate: "offers p st \<Longrightarrow> q \<noteq> p \<Longrightarrow> offers p (gate_candidate ps q d st)"
  by (auto simp: offers_def gate_candidate_def split: dirent.split list.split)

lemma offers_visit:
  assumes "offers p st" and "in_gate (sc_include (ps_sc ps)) p False"
  shows "offers p (fst (visit w ps q d st))"
proof -
  have walked: "offers p (st\<lparr>ws_walked := n\<rparr>) = offers p st" for n st by (simp add: offers_def)
  have ruled: "offers p (fst (visit_ruled ps q d st))" if "offers p st" for st
  proof (cases "q = p \<and> \<not> is_dir d")
    case True
    then show ?thesis using that assms(2) by (auto simp: visit_ruled_def offers_tracked offers_skipped split: prod.split bool.split)
  next
    case False
    then show ?thesis using that by (auto simp: visit_ruled_def offers_tracked offers_candidate offers_skipped split: prod.split bool.split)
  qed
  have "offers p (fst (visit_reserved w q d st))" if "offers p st" for st
    using that by (simp add: visit_reserved_def offers_def)
  then show ?thesis using assms(1) ruled walked by (simp add: visit_def Let_def split: option.split go_error.split)
qed

lemma offers_walk:
  assumes "scan_walk w sc ix scope = (st, err)" and "in_gate (sc_include sc) p False"
  shows "offers p st"
proof (rule scan_walk_inv [where I = "offers p", OF assms(1)])
  show "offers p empty_walk" by (simp add: offers_def empty_walk_def)
  fix q d st assume "offers p st"
  then show "offers p (fst (visit w (start_pass w sc ix) q d st))" by (rule offers_visit) (simp add: start_pass_def assms(2))
qed

lemma collapse_fold:
  "mget (foldl (\<lambda>m c. if P c then mset_at m (gc_from c) c else m) m xs) n = Some g \<Longrightarrow> mget m n = Some g \<or> g \<in> set xs"
proof (induction xs arbitrary: m)
  case (Cons x xs)
  from Cons.IH [OF Cons.prems [simplified]] show ?case by (cases "P x"; cases "n = gc_from x") auto
qed simp

lemma collapse_in:
  assumes "mget (collapseGateCands gs) n = Some g"
  shows "g \<in> set gs"
proof -
  from collapse_fold [OF assms [unfolded collapseGateCands_def]] show ?thesis by simp
qed

definition proper :: "string \<Rightarrow> Change \<Rightarrow> bool" where
  "proper p c \<longleftrightarrow> \<not> Deleted (c_Info c) \<and> (c_OutOfGate c \<longrightarrow> Name (c_Info c) \<noteq> p)"

lemma scan_hands_over:
  assumes "scanScoped w sc ix scope = (sc', ix', cs, None)" and gate: "in_gate (sc_include sc) p False" and "c \<in> set cs"
  shows "proper p c"
proof (cases rule: scan_stages [of w sc ix scope])
  case (stopped cs0 err0)
  then show ?thesis using assms(1) by simp
next
  case (finished st renames claimed toHash hashed drifted)
  note f = finished(1-3)
  let ?found = "ws_changes st @ renames @ hashed"
  have fin: "scan_finish w sc ix scope st claimed ?found drifted = (sc', ix', cs, None)" using finished(4) assms(1) by simp
  obtain ix1 uns where conf: "confirmDeletions sc ix (deleted_pass w sc ix scope st claimed ?found) (w_now w) scope uns = (ix1, cs)"
    by (rule scan_finish_parts [OF fin]) auto
  have offer: "offers p st" by (rule offers_walk [OF f(1) gate])
  have found: "proper p x" if x: "x \<in> set ?found" for x
  proof -
    consider "x \<in> set (ws_changes st)" | "x \<in> set renames" | "x \<in> set hashed" using x by auto
    then show ?thesis
    proof cases
      case 1
      then show ?thesis using offer by (simp add: offers_def proper_def)
    next
      case 2
      then obtain q old where "x = cheap_rename (q, old)" "old \<in> set (live_rows ix)"
        using cheapRenames_facts(1) [OF f(2) 2] by (auto simp: vanished_files_def)
      then show ?thesis using live_rows_live by (simp add: cheap_rename_def new_change_def proper_def)
    next
      case 3
      then obtain q where "hash_one w q = Some (Inl x)" using hashPending_facts(1) [OF f(3)] by blast
      from hash_one_change [OF this] show ?thesis by (auto simp: hashed_info_def zero_info_def proper_def)
    qed
  qed
  have moved: "proper p x" if m: "gate_moved w (collapseGateCands (ws_gateCands st)) fi = Some x" and l: "fi \<in> set (live_rows ix)" for x fi
  proof -
    obtain g where g: "mget (collapseGateCands (ws_gateCands st)) (Name fi) = Some g" and x: "Name (c_Info x) = gc_rel g" "Deleted (c_Info x) = Deleted fi"
      using m by (auto simp: gate_moved_def new_change_def split: option.splits sum.splits if_splits)
    then show ?thesis using collapse_in [OF g] offer live_rows_live [OF l] by (auto simp: proper_def offers_def)
  qed
  consider "c \<in> set ?found"
    | fi where "fi \<in> set (live_rows ix)" "detected w sc scope (ws_seen st) claimed (collapseGateCands (ws_gateCands st)) ?found fi c"
    using detectRenames_set [OF confirmDeletions_out(1) [OF conf assms(3), unfolded deleted_pass_def]] by blast
  then show ?thesis
  proof cases
    case 1
    then show ?thesis by (rule found)
  next
    case (2 fi)
    then consider "c = new_change Deleted_kind fi" | a where "a \<in> set ?found" "c = renamed_to fi a"
      | "gate_moved w (collapseGateCands (ws_gateCands st)) fi = Some c" by (auto simp: detected_def)
    then show ?thesis
    proof cases
      case 1
      then show ?thesis using live_rows_live [OF 2(1)] by (simp add: proper_def new_change_def)
    next
      case (2 a)
      then show ?thesis using found [of a] by (simp add: proper_def renamed_to_def new_change_def)
    next
      case 3
      then show ?thesis by (rule moved) (rule 2(1))
    qed
  qed
qed

section \<open>A path that is on disk keeps its row\<close>

lemma scan_keeps_meta: "scanScoped w sc ix scope = (sc', ix', cs, err) \<Longrightarrow> meta ix' = meta ix \<and> fault_meta ix' = fault_meta ix"
proof -
  assume run: "scanScoped w sc ix scope = (sc', ix', cs, err)"
  have conf: "meta (fst (confirmDeletions sc ix c now scope u)) = meta ix \<and> fault_meta (fst (confirmDeletions sc ix c now scope u)) = fault_meta ix" for c now u
    by (simp add: confirmDeletions_def MissingReplace_def Let_def split: prod.split)
  show ?thesis
  proof (cases rule: scan_stages [of w sc ix scope])
    case (stopped cs0 err0)
    then show ?thesis using run by simp
  next
    case (finished st renames claimed toHash hashed drifted)
    then have fin: "scan_finish w sc ix scope st claimed (ws_changes st @ renames @ hashed) drifted = (sc', ix', cs, err)" using run by simp
    obtain ix1 cs2 uns where c: "confirmDeletions sc ix (deleted_pass w sc ix scope st claimed (ws_changes st @ renames @ hashed)) (w_now w) scope uns = (ix1, cs2)"
      and e: "err = None \<Longrightarrow> ix' = fst (SettleReplace ix1 (next_settle ix scope st drifted))" "err \<noteq> None \<Longrightarrow> ix' = ix1"
      by (rule scan_finish_parts [OF fin]) blast
    have "meta ix1 = meta ix \<and> fault_meta ix1 = fault_meta ix"
      using conf [of "deleted_pass w sc ix scope st claimed (ws_changes st @ renames @ hashed)" "w_now w" uns] c by simp
    then show ?thesis using e by (cases err) (simp_all add: SettleReplace_def)
  qed
qed

lemma kept_SetInFlight: "kept p (SetInFlight xs e) = kept p e"
  by (rule kept_cong) (simp_all add: SetInFlight_def Let_def split: option.split)

definition plainly_there :: "ScanWorld \<Rightarrow> Scanner \<Rightarrow> string \<Rightarrow> bool" where
  "plainly_there w sc p \<longleftrightarrow> clean_walk w \<and> mget (w_entries w) p \<noteq> None \<and> p \<noteq> ''.'' \<and> \<not> IsReserved p \<and> \<not> IsTransient p
     \<and> (\<forall>q. HasPrefix p (q @ ''/'') \<longrightarrow> \<not> pruned sc q) \<and> in_gate (sc_include sc) p False"

lemma full_scan_spares:
  assumes "scanScoped w sc ix [] = (sc', ix', cs, None)" and "plainly_there w sc p" and "c \<in> set cs"
  shows "spares p c"
  using present_path_stays [OF assms(1) [folded Scan_full_def], of p c] scan_hands_over [OF assms(1) _ assms(3), of p] assms(2,3)
  by (auto simp: plainly_there_def spares_def proper_def)

lemma scan_body_keeps:
  assumes "scan_body chunk ord now w [] late fid f nd sd n = (e', sd', n', applied, err)" and "kept p (fo_Engine f)"
    and there: "plainly_there w (sd_Scanner sd) p"
  shows "kept p e'"
proof -
  obtain sc ix cs er where scan: "scanScoped w (sd_Scanner sd) (Ix (fo_Engine f)) [] = (sc, ix, cs, er)"
    by (cases "scanScoped w (sd_Scanner sd) (Ix (fo_Engine f)) []") auto
  define e where "e = (fo_Engine f)\<lparr>Ix := ix\<rparr>"
  have ke: "kept p e" using assms(2) kept_cong [of e "fo_Engine f" p] scan_keeps_meta [OF scan] scan_keeps_files [OF scan] by (simp add: e_def)
  show ?thesis
  proof (cases "er = None \<and> \<not> late")
    case False
    then show ?thesis using assms(1) scan ke by (auto simp: scan_body_def e_def Let_def split: option.splits if_splits)
  next
    case True
    then have spare: "\<forall>c\<in>set cs. spares p c" using full_scan_spares scan there by blast
    obtain e1 er1 where a: "apply_pass chunk e cs = (e1, er1)" by (cases "apply_pass chunk e cs")
    have k1: "kept p e1" by (rule kept_apply_pass [OF a ke spare])
    then have "kept p (fst (finish_pass ord now fid f nd cs held e1 n))" for held
      by (simp add: finish_pass_def kept_confirmGateReleases kept_SetInFlight Let_def)
    then show ?thesis using assms(1) scan True a k1
      by (cases er1) (auto simp: scan_body_def e_def [symmetric] Let_def split: prod.splits, metis fst_conv)
  qed
qed


section \<open>An abandoned pass writes nothing\<close>


section \<open>Immediate second passes\<close>

text \<open>The follow-up passes of one folder, one after the other: each begins, walks, and finds the deletions that are still suspected.\<close>

definition follow_ups_after :: "ScanSide \<Rightarrow> Index list \<Rightarrow> ScanSide" where
  "follow_ups_after s ixs = foldl (\<lambda>s ix. confirmDeletionsSoon ix (follow_up_begins s)) s ixs"

definition suspected :: "Index \<Rightarrow> int" where
  "suspected ix = (case MissingList ix of Inl _ \<Rightarrow> 0 | Inr m \<Rightarrow> int (length m))"

lemma soon_step:
  assumes "suspected ix > 0" and "sd_lastDeletionsPending s \<le> suspected ix" and "0 \<le> sd_deletionsPending s" and "sd_deletionsPending s \<le> 3"
  defines "s' \<equiv> confirmDeletionsSoon ix (follow_up_begins s)"
  shows "sd_lastDeletionsPending s' = suspected ix" and "0 \<le> sd_deletionsPending s'" and "sd_deletionsPending s' \<le> 3"
    and "int (sd_followUps s') - sd_deletionsPending s' = int (sd_followUps s) - sd_deletionsPending s"
    and "sd_deletionsPending s' = min 3 (sd_deletionsPending s + 1)"
  using assms(1-4)
  by (auto simp: s'_def confirmDeletionsSoon_def follow_up_begins_def suspected_def Let_def split: sum.splits)

text \<open>C28. A set of suspected deletions that does not shrink gets at most three immediate passes in a row: from any state, a run of passes in each of which the
number of suspected deletions is positive and at least what it was before schedules at most the follow-ups left of three, and exactly that many when the run is long enough;
after that the deletions wait for the regular walk.\<close>

theorem follow_ups_bounded:
  assumes "\<forall>ix\<in>set ixs. suspected ix > 0" and "sorted (sd_lastDeletionsPending s # map suspected ixs)"
    and "0 \<le> sd_deletionsPending s" and "sd_deletionsPending s \<le> 3"
  shows "int (sd_followUps (follow_ups_after s ixs)) = int (sd_followUps s) + min (int (length ixs)) (3 - sd_deletionsPending s)"
proof -
  have "int (sd_followUps (follow_ups_after s ixs)) - sd_deletionsPending (follow_ups_after s ixs) = int (sd_followUps s) - sd_deletionsPending s
      \<and> sd_deletionsPending (follow_ups_after s ixs) = min 3 (sd_deletionsPending s + int (length ixs))"
    using assms
  proof (induction ixs arbitrary: s)
    case (Cons ix ixs)
    let ?s = "confirmDeletionsSoon ix (follow_up_begins s)"
    have step: "suspected ix > 0" "sd_lastDeletionsPending s \<le> suspected ix" using Cons.prems(1,2) by simp_all
    note st = soon_step [OF step Cons.prems(3,4)]
    have "sorted (sd_lastDeletionsPending ?s # map suspected ixs)" using Cons.prems(2) st(1) by simp
    from Cons.IH [OF _ this st(2,3)] show ?case using Cons.prems(1) st(4,5) by (simp add: follow_ups_after_def)
  qed (simp add: follow_ups_after_def)
  then show ?thesis by (auto simp: min_def split: if_splits)
qed

section \<open>Instances\<close>

definition docs_world :: ScanWorld where
  "docs_world = quiet_world [(''a.txt'', DFile 1 5 0 420)]"

definition docs_side :: ScanSide where
  "docs_side = \<lparr>sd_Scanner = New_Scanner None, sd_deletionsPending = 0, sd_lastDeletionsPending = 0, sd_followUpScheduled = False, sd_followUps = 0\<rparr>"

lemma docs_facts:
  "mget (nd_Folders events_node) ''docs'' = Some \<lparr>fo_Cfg = \<lparr>fc_Peers = [], fc_MaxDeletePct = 0, fc_MaxDeleteFiles = 0\<rparr>, fo_Root = ''/r'',
     fo_Paused = False, fo_TransfersPaused = False, fo_Engine = docs_engine\<rparr>"
  "kept ''a.txt'' docs_engine" "plainly_there docs_world (sd_Scanner docs_side) ''a.txt''"
proof -
  show "mget (nd_Folders events_node) ''docs'' = Some \<lparr>fo_Cfg = \<lparr>fc_Peers = [], fc_MaxDeletePct = 0, fc_MaxDeleteFiles = 0\<rparr>, fo_Root = ''/r'',
     fo_Paused = False, fo_TransfersPaused = False, fo_Engine = docs_engine\<rparr>" by (simp add: events_node_def)
  show "kept ''a.txt'' docs_engine"
    by (simp add: kept_def named_def row_live_def apart_def loadReleasesLocked_def docs_engine_def fresh_engine_def New_Engine_def GetMeta_def empty_index_def
      row_of_def sample_def zero_info_def boolInt_def)
  have plain: "\<not> IsReserved ''a.txt''" "\<not> IsTransient ''a.txt''" by (code_simp, code_simp)
  have no_slash: "\<not> HasPrefix ''a.txt'' (q @ ''/'')" for q
  proof
    assume "HasPrefix ''a.txt'' (q @ ''/'')"
    then have "CHR ''/'' \<in> set ''a.txt''" by (auto simp: HasPrefix_def dest!: set_mono_prefix)
    then show False by simp
  qed
  then show "plainly_there docs_world (sd_Scanner docs_side) ''a.txt''" using plain
    by (simp add: plainly_there_def clean_walk_def docs_world_def docs_side_def New_Scanner_def in_gate_def quiet_world_def)
qed



theorem follow_ups_bounded_witness:
  "int (sd_followUps (follow_ups_after docs_side (replicate 5 (empty_index\<lparr>missing := [(''a.txt'', \<lparr>ms_Count = 1, ms_First = 0\<rparr>)]\<rparr>)))) = 3"
proof -
  let ?ix = "empty_index\<lparr>missing := [(''a.txt'', \<lparr>ms_Count = 1, ms_First = 0\<rparr>)]\<rparr>"
  have "suspected ?ix = 1" by (simp add: suspected_def MissingList_def empty_index_def)
  then show ?thesis using follow_ups_bounded [of "replicate 5 ?ix" docs_side] by (simp add: docs_side_def numeral_eq_Suc)
qed

lemma inflight_emit [simp]: "inflight (emit c s q r l i e) = inflight e"
  by (simp add: emit_def)

section \<open>A release drops a file that came back\<close>

text \<open>A rename out of the include gate waits for the peers with both its paths in the index. The confirmation deletes both rows without looking at them,
so a file created again at the old path meanwhile loses its row, and with it the version that made it newer than the peers' tombstone. The next
scan finds it as a new file whose version the tombstone dominates, and the tombstone is offered as a deletion of the new file.\<close>

definition came_back :: FileInfo where
  "came_back = (sample ''a'')\<lparr>Version := Some [(1, 3)]\<rparr>"

definition moved_out :: FileInfo where
  "moved_out = (sample ''out/a'')\<lparr>Version := Some [(1, 2)]\<rparr>"

definition moved_tomb :: FileInfo where
  "moved_tomb = (sample ''a'')\<lparr>Version := Some [(1, 2)], Deleted := True\<rparr>"

definition release_engine :: Engine where
  "release_engine = fresh_engine\<lparr>Ix := empty_index\<lparr>files := [(''a'', row_of came_back), (''out/a'', row_of moved_out)]\<rparr>,
     peers := [(7, [(''a'', moved_tomb), (''out/a'', moved_out)])],
     releases := [\<lparr>rel_From = ''a'', rel_To = ''out/a'', rel_Size = Size moved_out, rel_Blocks = Blocks moved_out, rel_Peers = [7]\<rparr>], releasesLoaded := True\<rparr>"

definition released_engine :: Engine where
  "released_engine = fst (ConfirmReleases release_engine)"

lemma released_facts:
  "files (Ix released_engine) = []" "fault_scan (Ix released_engine) = False" "fault_read (Ix released_engine) = (\<lambda>_. False)"
  "fault_write (Ix released_engine) = (\<lambda>_. False)" "Direction released_engine = []" "inflight released_engine = None" "NodeID released_engine = 1"
  "peers released_engine = [(7, [(''a'', moved_tomb), (''out/a'', moved_out)])]" "snd (ConfirmReleases release_engine) = ([''out/a''], None)"
  by (simp_all add: released_engine_def release_engine_def ConfirmReleases_def loadReleasesLocked_def releaseConfirmedLocked_def IxDelete_def Let_def
    view_live_def moved_out_def equalBlocks_def Delete_def empty_index_def bump_writes_def fresh_engine_def saveReleasesLocked_def SetMeta_def mdelete_def New_Engine_def)

lemma one_row_deletions:
  assumes "Direction e = []" "inflight e = None" "peers e = [(7, [(''a'', t), (''out/a'', m)])]" "Deleted t" "\<not> fault_scan (Ix e)"
    and "files (Ix e) = [(''a'', row_of x)]" "Name x = ''a''" "\<not> Deleted x" "vwf (Version x)" "beats t (stored x)"
  shows "PendingDeletions e = Inr [''a'']"
proof -
  have "r_deleted (row_of x) = 0" using assms(8) by (simp add: row_of_def boolInt_def)
  then have "Ix_List (Ix e) = Inr [stored x]" using assms(5,6,9) by (simp add: Ix_List_def select_rows_def scanRow_row_of)
  moreover have "Name (stored x) = ''a''" "\<not> Deleted (stored x)" using assms(7,8) by (simp_all add: stored_def)
  ultimately show ?thesis using assms(1-4,10) by (simp add: PendingDeletions_def local_map_def InFlight_def globalFrom_def)
qed

lemma release_drops_recreated_file:
  "let (e1, released, err) = ConfirmReleases release_engine; (e2, r) = ApplyLocalChange e1 Added came_back
   in fst (globalFrom release_engine (Some came_back) ''a'') = Some came_back \<and> err = None \<and> released = [''out/a'']
     \<and> mget (files (Ix e1)) ''a'' = None \<and> PendingDeletions e2 = Inr [''a'']"
proof -
  have run: "ConfirmReleases release_engine = (released_engine, [''out/a''], None)"
    using released_facts(9) by (metis prod.collapse released_engine_def)
  have won: "fst (globalFrom release_engine (Some came_back) ''a'') = Some came_back"
    by (simp add: globalFrom_def release_engine_def beats_def moved_tomb_def came_back_def Compare_def ventries_def Version.Get_def)
  define fi where "fi = came_back\<lparr>Version := Some [(1, 1)]\<rparr>"
  obtain e2 r where add: "ApplyLocalChange released_engine Added came_back = (e2, r)" by (cases "ApplyLocalChange released_engine Added came_back")
  have e2: "files (Ix e2) = [(''a'', row_of (sequenced (Ix released_engine) fi))] \<and> Direction e2 = [] \<and> inflight e2 = None
      \<and> peers e2 = peers released_engine \<and> \<not> fault_scan (Ix e2)"
    using add released_facts(1-7)
    by (auto simp: ApplyLocalChange_def Ix_Get_def bumped_def Bump_def assign_def New_def Clone_def Version.Get_def IxPut_def Put_def with_sequence_eq came_back_def fi_def Let_def)
  have cmp: "vwf (Some [(1, 1)])" "Compare (Some [(1, 2)]) (Some [(1, 1)]) = 1"
    by (simp_all add: vwf_def Compare_def ventries_def Version.Get_def)
  have "PendingDeletions e2 = Inr [''a'']"
    by (rule one_row_deletions [of e2 moved_tomb moved_out "sequenced (Ix released_engine) fi"])
      (use e2 released_facts(8) cmp in \<open>simp_all add: moved_tomb_def fi_def came_back_def sequenced_def beats_def\<close>)
  then show ?thesis using run won add released_facts(1) by simp
qed

end
