(* ===== verification/Join_Identical.thy ===== *)
theory Join_Identical
  imports Local_Changes
begin

text \<open>
  \<^verbatim>\<open>JoinIdentical\<close> of \<^verbatim>\<open>engine.go\<close>: the version vectors of byte-identical copies are merged so that
  identical content is one value. The theorem says the join is pure bookkeeping: it touches only the
  version of live entries no peer has tombstoned, and what it writes dominates every identical copy.
\<close>

text \<open>
  The loop over the peer views for one entry: the merged vector, whether a view matched, and whether
  a peer disagrees about the path's existence.
\<close>

fun join_loop :: "peer_view list \<Rightarrow> FileInfo \<Rightarrow> Vector \<Rightarrow> bool \<Rightarrow> go_error + Vector \<times> bool \<times> bool" where
  "join_loop [] local merged matched = Inr (merged, matched, False)"
| "join_loop (view # views) local merged matched =
     (case mget view (Name local) of
        None \<Rightarrow> join_loop views local merged matched
      | Some p \<Rightarrow>
          if Deleted p \<or> Invalid p then Inr (merged, matched, True)
          else if \<not> identicalContent local p then join_loop views local merged matched
          else case Merge merged (Version p) of
              Inl err \<Rightarrow> Inl err
            | Inr m \<Rightarrow> join_loop views local m True)"

definition stat_matches :: "FS \<Rightarrow> FileInfo \<Rightarrow> bool" where
  "stat_matches f local =
     (case os_Stat f (Name local) of
        Inl _ \<Rightarrow> False
      | Inr NDir \<Rightarrow> False
      | Inr (NFile d s ns perm) \<Rightarrow> int (length d) = Size local \<and> s = ModifiedS local \<and> ns = ModifiedNs local)"

fun join_all :: "Engine \<Rightarrow> FileInfo list \<Rightarrow> go_error + FileInfo list" where
  "join_all e [] = Inr []"
| "join_all e (local # rest) =
     (case join_loop (ranged e (Name local)) local (Clone (Version local)) False of
        Inl err \<Rightarrow> Inl err
      | Inr (merged, matched, blocked) \<Rightarrow>
          (case join_all e rest of
             Inl err \<Rightarrow> Inl err
           | Inr joined \<Rightarrow>
               Inr (if blocked \<or> \<not> matched \<or> Compare merged (Version local) = 0 then joined
                    else if Type local \<noteq> TypeDirectory \<and> \<not> stat_matches (fs e) local then joined
                    else (CloneInfo local)\<lparr>Version := merged, Sequence := 0\<rparr> # joined)))"

definition JoinIdentical :: "Engine \<Rightarrow> Engine \<times> (go_error + int)" where
  "JoinIdentical e =
     (if length (peers e) = 0 then (e, Inr 0)
      else case Ix_ListAll (Ix e) of
          Inl err \<Rightarrow> (e, Inl err)
        | Inr fis \<Rightarrow>
            (case join_all e (filter (\<lambda>fi. \<not> (Deleted fi \<or> Invalid fi \<or> InFlight e (Name fi))) fis) of
               Inl err \<Rightarrow> (e, Inl err)
             | Inr joined \<Rightarrow>
                 if length joined = 0 then (e, Inr 0)
                 else case IxPutBatch e joined of
                     (e', _, Some err) \<Rightarrow> (e', Inl err)
                   | (e', _, None) \<Rightarrow> (e', Inr (int (length joined)))))"

section \<open>The merged vector\<close>

definition views_wf :: "Engine \<Rightarrow> bool" where
  "views_wf e \<longleftrightarrow> (\<forall>(p, v) \<in> set (peers e). \<forall>n fi. mget v n = Some fi \<longrightarrow> vwf (Version fi))"

lemma join_loop_ok:
  assumes "\<forall>v \<in> set vs. \<forall>fi. mget v (Name local) = Some fi \<longrightarrow> vwf (Version fi)"
    and "m0 \<noteq> None" and "vwf m0"
  shows "\<exists>m matched blocked. join_loop vs local m0 mt = Inr (m, matched, blocked) \<and> m \<noteq> None \<and> vwf m \<and> vle m0 m
    \<and> (blocked \<longleftrightarrow> (\<exists>v \<in> set vs. \<exists>p. mget v (Name local) = Some p \<and> (Deleted p \<or> Invalid p)))
    \<and> (\<not> blocked \<longrightarrow> (matched \<longleftrightarrow> mt \<or> (\<exists>v \<in> set vs. \<exists>p. mget v (Name local) = Some p \<and> identicalContent local p))
         \<and> (\<forall>v \<in> set vs. \<forall>p. mget v (Name local) = Some p \<longrightarrow> identicalContent local p \<longrightarrow> vle (Version p) m))"
  using assms
proof (induction vs arbitrary: m0 mt)
  case (Cons v vs)
  show ?case
  proof (cases "mget v (Name local)")
    case None
    then show ?thesis using Cons.IH [of m0 mt] Cons.prems by simp
  next
    case (Some p)
    have pw: "vwf (Version p)" using Cons.prems(1) Some by simp
    consider "Deleted p \<or> Invalid p" | "\<not> (Deleted p \<or> Invalid p)" "\<not> identicalContent local p"
      | "\<not> (Deleted p \<or> Invalid p)" "identicalContent local p" by blast
    then show ?thesis
    proof cases
      case 1
      then have "join_loop (v # vs) local m0 mt = Inr (m0, mt, True)" using Some by simp
      then show ?thesis using Cons.prems(2,3) vle_refl Some 1 by auto
    next
      case 2
      then have "join_loop (v # vs) local m0 mt = join_loop vs local m0 mt" using Some by simp
      then show ?thesis using Cons.IH [of m0 mt] Cons.prems 2 Some by simp
    next
      case 3
      obtain m1 where m1: "Merge m0 (Version p) = Inr m1" "m1 \<noteq> None" using Merge_not_panic [OF Cons.prems(2)] by blast
      have up: "vle m0 m1" "vle (Version p) m1" "vwf m1"
        using Merge_upper [OF m1(1) pw] Merge_wf [OF m1(1) Cons.prems(3)] by simp_all
      have A: "\<forall>v \<in> set vs. \<forall>fi. mget v (Name local) = Some fi \<longrightarrow> vwf (Version fi)" using Cons.prems(1) by simp
      obtain m matched blocked where IH: "join_loop vs local m1 True = Inr (m, matched, blocked) \<and> m \<noteq> None \<and> vwf m \<and> vle m1 m
        \<and> (blocked \<longleftrightarrow> (\<exists>v \<in> set vs. \<exists>p. mget v (Name local) = Some p \<and> (Deleted p \<or> Invalid p)))
        \<and> (\<not> blocked \<longrightarrow> (matched \<longleftrightarrow> True \<or> (\<exists>v \<in> set vs. \<exists>p. mget v (Name local) = Some p \<and> identicalContent local p))
             \<and> (\<forall>v \<in> set vs. \<forall>p. mget v (Name local) = Some p \<longrightarrow> identicalContent local p \<longrightarrow> vle (Version p) m))"
        using Cons.IH [OF A m1(2) up(3), of True] by (elim exE) (rule that)
      have run: "join_loop (v # vs) local m0 mt = Inr (m, matched, blocked)" using 3 Some m1(1) IH by simp
      have "vle m0 m" "vle (Version p) m" using up IH vle_trans by blast+
      then show ?thesis using IH 3 Some run by (intro exI [of _ m] exI [of _ matched] exI [of _ blocked]) auto
    qed
  qed
qed auto

text \<open>All peers that list the path have it alive; the bytes on disk are what the entry describes.\<close>

definition agreed_alive :: "Engine \<Rightarrow> string \<Rightarrow> bool" where
  "agreed_alive e n \<longleftrightarrow> (\<forall>(pid, v) \<in> set (peers e). \<forall>p. mget v n = Some p \<longrightarrow> \<not> Deleted p \<and> \<not> Invalid p)"

definition on_disk :: "FS \<Rightarrow> FileInfo \<Rightarrow> bool" where
  "on_disk f l \<longleftrightarrow> Type l = TypeDirectory
     \<or> (\<exists>d perm. os_Stat f (Name l) = Inr (NFile d (ModifiedS l) (ModifiedNs l) perm) \<and> int (length d) = Size l)"

lemma stat_matches_iff: "Type l \<noteq> TypeDirectory \<and> \<not> stat_matches f l \<longleftrightarrow> \<not> on_disk f l"
  by (auto simp: stat_matches_def on_disk_def split: sum.splits fs_node.splits)

definition joined_from :: "Engine \<Rightarrow> FileInfo \<Rightarrow> FileInfo \<Rightarrow> bool" where
  "joined_from e local out \<longleftrightarrow> (\<exists>m. out = local\<lparr>Version := m, Sequence := 0\<rparr> \<and> vwf m \<and> Compare m (Version local) = 1
     \<and> on_disk (fs e) local \<and> agreed_alive e (Name local)
     \<and> (\<exists>(pid, v) \<in> set (peers e). \<exists>p. mget v (Name local) = Some p \<and> identicalContent local p)
     \<and> (\<forall>(pid, v) \<in> set (peers e). \<forall>p. mget v (Name local) = Some p \<longrightarrow> identicalContent local p \<longrightarrow> Compare m (Version p) \<in> {0, 1}))"

text \<open>What makes an entry due for a join.\<close>

definition join_due :: "Engine \<Rightarrow> FileInfo \<Rightarrow> bool" where
  "join_due e l \<longleftrightarrow> on_disk (fs e) l \<and> agreed_alive e (Name l)
     \<and> (\<exists>(pid, v) \<in> set (peers e). \<exists>p. mget v (Name l) = Some p \<and> identicalContent l p \<and> Compare (Version l) (Version p) \<notin> {0, 1})"

lemma join_all_ok:
  assumes "views_wf e" and "\<forall>l \<in> set ls. vwf (Version l) \<and> Version l \<noteq> None"
  shows "\<exists>joined. join_all e ls = Inr joined \<and> (\<forall>out \<in> set joined. \<exists>l \<in> set ls. joined_from e l out)
    \<and> (\<forall>l \<in> set ls. join_due e l \<longrightarrow> Name l \<in> Name ` set joined)"
  using assms(2)
proof (induction ls)
  case (Cons l ls)
  then obtain joined where IH: "join_all e ls = Inr joined" "\<forall>out \<in> set joined. \<exists>l \<in> set ls. joined_from e l out"
    "\<forall>l \<in> set ls. join_due e l \<longrightarrow> Name l \<in> Name ` set joined" by auto
  have "\<forall>v \<in> set (ranged e (Name l)). \<forall>fi. mget v (Name l) = Some fi \<longrightarrow> vwf (Version fi)"
    using assms(1) by (auto simp: views_wf_def)
  note vs = this
  have v: "Version l \<noteq> None" "vwf (Version l)" using Cons.prems by simp_all
  obtain m matched blocked where J: "join_loop (ranged e (Name l)) l (Version l) False = Inr (m, matched, blocked) \<and> m \<noteq> None \<and> vwf m \<and> vle (Version l) m
    \<and> (blocked \<longleftrightarrow> (\<exists>v \<in> set (ranged e (Name l)). \<exists>p. mget v (Name l) = Some p \<and> (Deleted p \<or> Invalid p)))
    \<and> (\<not> blocked \<longrightarrow> (matched \<longleftrightarrow> False \<or> (\<exists>v \<in> set (ranged e (Name l)). \<exists>p. mget v (Name l) = Some p \<and> identicalContent l p))
         \<and> (\<forall>v \<in> set (ranged e (Name l)). \<forall>p. mget v (Name l) = Some p \<longrightarrow> identicalContent l p \<longrightarrow> vle (Version p) m))"
    using join_loop_ok [OF vs v, of False] by (elim exE) (rule that)
  have m: "join_loop (ranged e (Name l)) l (Version l) False = Inr (m, matched, blocked)" "vwf m" "vle (Version l) m" using J by blast+
  have bl: "blocked \<longleftrightarrow> (\<exists>v \<in> set (ranged e (Name l)). \<exists>p. mget v (Name l) = Some p \<and> (Deleted p \<or> Invalid p))" using J by blast
  have ma: "matched \<longleftrightarrow> (\<exists>v \<in> set (ranged e (Name l)). \<exists>p. mget v (Name l) = Some p \<and> identicalContent l p)" if "\<not> blocked"
    using J that by blast
  have le: "vle (Version p) m" if "\<not> blocked" "v \<in> set (ranged e (Name l))" "mget v (Name l) = Some p" "identicalContent l p" for v p
    using J that by blast
  have alive: "blocked \<longleftrightarrow> \<not> agreed_alive e (Name l)" unfolding bl agreed_alive_def set_ranged by fastforce
  let ?out = "l\<lparr>Version := m, Sequence := 0\<rparr>"
  let ?skip = "blocked \<or> \<not> matched \<or> Compare m (Version l) = 0 \<or> \<not> on_disk (fs e) l"
  have run: "join_all e (l # ls) = Inr (if ?skip then joined else ?out # joined)"
    using IH(1) m(1) stat_matches_iff [of l "fs e"] by auto
  have from_l: "joined_from e l ?out" if "\<not> ?skip"
  proof -
    have "Compare m (Version l) = 1" using that m(3) by (simp add: Compare_vle split: if_splits)
    moreover have "\<exists>(pid, v) \<in> set (peers e). \<exists>p. mget v (Name l) = Some p \<and> identicalContent l p" using ma that by force
    moreover have "\<forall>(pid, v) \<in> set (peers e). \<forall>p. mget v (Name l) = Some p \<longrightarrow> identicalContent l p \<longrightarrow> Compare m (Version p) \<in> {0, 1}"
    proof
      fix x assume x: "x \<in> set (peers e)"
      have nb: "\<not> blocked" using that by blast
      have v: "snd x \<in> set (ranged e (Name l))" using x by simp
      show "case x of (pid, v) \<Rightarrow> \<forall>p. mget v (Name l) = Some p \<longrightarrow> identicalContent l p \<longrightarrow> Compare m (Version p) \<in> {0, 1}"
        using le [OF nb v] by (cases x) (simp add: Compare_vle)
    qed
    moreover have "on_disk (fs e) l" "agreed_alive e (Name l)" using that alive by blast+
    ultimately show ?thesis using m(2) unfolding joined_from_def by blast
  qed
  have due: "\<not> ?skip" if d: "join_due e l"
  proof -
    obtain pid v p where p: "(pid, v) \<in> set (peers e)" "mget v (Name l) = Some p" "identicalContent l p" "Compare (Version l) (Version p) \<notin> {0, 1}"
      using d by (auto simp: join_due_def)
    then have v: "v \<in> set (ranged e (Name l))" by force
    have nb: "\<not> blocked" using d alive by (simp add: join_due_def)
    have "vle (Version p) m" using le [OF nb v p(2,3)] .
    then have "Compare m (Version l) \<noteq> 0" using p(4) vle_trans [of "Version p" m "Version l"] by (auto simp: Compare_vle split: if_splits)
    then show ?thesis using nb ma [OF nb] v p d by (auto simp: join_due_def)
  qed
  show ?case unfolding run using IH(2,3) from_l due by auto
qed simp

lemma healthy_puts: "healthy ix \<Longrightarrow> healthy (foldl put_ok ix fis)"
  by (induction fis arbitrary: ix) simp_all

lemma last_write:
  assumes "ix_wf ix" and "\<forall>fi \<in> set fis. vwf (Version fi) \<and> seq_ok ix fi" and "n \<in> Name ` set fis"
  obtains out ix0 where "out \<in> set fis" "Name out = n" "entry (foldl put_ok ix fis) n = Some (stored (sequenced ix0 out))"
proof -
  have "\<exists>x \<in> set fis. Name x = n" using assms(3) by auto
  from split_list_last_prop [OF this] obtain es out es' where
    sp: "fis = es @ out # es'" "Name out = n" "\<forall>z \<in> set es'. Name z \<noteq> n" by blast
  have "entry (foldl put_ok ix fis) (Name out) = Some (stored (sequenced (foldl put_ok ix es) out))"
    unfolding sp(1) using assms(1,2) sp by (intro ft.lookup_puts_last) auto
  then show ?thesis using that [of out "foldl put_ok ix es"] sp(1,2) by simp
qed

text \<open>The entry of a path before and after a join.\<close>

definition joined_row :: "Engine \<Rightarrow> string \<Rightarrow> FileInfo \<Rightarrow> FileInfo \<Rightarrow> bool" where
  "joined_row e n l l' \<longleftrightarrow> \<not> Deleted l \<and> \<not> InFlight e n \<and> on_disk (fs e) l \<and> agreed_alive e n
     \<and> sameContent l l' \<and> Deleted l' = Deleted l \<and> ModifiedS l' = ModifiedS l \<and> Compare (Version l') (Version l) = 1
     \<and> (\<exists>(pid, v) \<in> set (peers e). \<exists>p. mget v n = Some p \<and> identicalContent l p)
     \<and> (\<forall>(pid, v) \<in> set (peers e). \<forall>p. mget v n = Some p \<longrightarrow> identicalContent l p \<longrightarrow> Compare (Version l') (Version p) \<in> {0, 1})"

text \<open>C39. Joining identical copies is bookkeeping only, and it is done exactly where it is due. On an engine whose index works, after it
every entry is either untouched or was live, settled, described the bytes on disk (a directory aside), was listed by no peer as deleted or invalid and by some peer with
identical content; it keeps its content, and carries a version that strictly dominates the old one and contains the history of every identical copy, so a
later one-sided edit is a fast-forward and not a conflict. Conversely each such entry that some identical copy is not already covered by is joined.
The views and the disk do not change, and the round always answers.\<close>

theorem join_identical_is_bookkeeping:
  assumes "eng_wf e" and "healthy (Ix e)" and "views_wf e"
  shows "\<exists>e' k. JoinIdentical e = (e', Inr k) \<and> ix_wf (Ix e') \<and> peers e' = peers e \<and> fs e' = fs e
    \<and> (\<forall>n. entry (Ix e') n = entry (Ix e) n \<or> (\<exists>l l'. entry (Ix e) n = Some l \<and> entry (Ix e') n = Some l' \<and> joined_row e n l l'))
    \<and> (\<forall>n l. entry (Ix e) n = Some l \<and> \<not> Deleted l \<and> \<not> Invalid l \<and> \<not> InFlight e n \<and> join_due e l \<longrightarrow>
         (\<exists>l'. entry (Ix e') n = Some l' \<and> joined_row e n l l'))"
proof -
  have wf: "ix_wf (Ix e)" and ok: "read_ok e" using assms(1) by (simp_all add: eng_wf_def read_ok_def)
  let ?cands = "filter (\<lambda>fi. \<not> (Deleted fi \<or> Invalid fi \<or> InFlight e (Name fi))) (entries (Ix e))"
  have cand: "entry (Ix e) (Name l) = Some l \<and> \<not> Deleted l \<and> \<not> InFlight e (Name l)" if "l \<in> set ?cands" for l
    using that in_entries_iff [OF wf, of l] by simp
  have "\<forall>l \<in> set ?cands. vwf (Version l) \<and> Version l \<noteq> None"
    using cand entry_wf(2,3) [OF wf] by blast
  from join_all_ok [OF assms(3) this] obtain joined where
    j: "join_all e ?cands = Inr joined" "\<And>out. out \<in> set joined \<Longrightarrow> \<exists>l \<in> set ?cands. joined_from e l out"
      "\<And>l. l \<in> set ?cands \<Longrightarrow> join_due e l \<Longrightarrow> Name l \<in> Name ` set joined" by blast
  have due: "n \<in> Name ` set joined"
    if "entry (Ix e) n = Some l" "\<not> Deleted l" "\<not> Invalid l" "\<not> InFlight e n" "join_due e l" for n l
    using j(3) [of l] that entries_mem [OF wf, of l n] by auto
  show ?thesis
  proof (cases "peers e = [] \<or> joined = []")
    case True
    then have "JoinIdentical e = (e, Inr 0)" using j(1) read_ok_ListAll [OF ok] by (auto simp: JoinIdentical_def)
    moreover have "\<not> join_due e l" if l: "entry (Ix e) n = Some l" "\<not> Deleted l" "\<not> Invalid l" "\<not> InFlight e n" for n l
    proof
      assume d: "join_due e l"
      then have "peers e \<noteq> []" by (auto simp: join_due_def)
      then show False using due [OF l d] True by simp
    qed
    ultimately show ?thesis using wf by (intro exI [of _ e] exI [of _ 0]) auto
  next
    case False
    let ?ix = "foldl put_ok (Ix e) joined"
    have fresh: "\<forall>out \<in> set joined. vwf (Version out) \<and> Sequence out = 0"
      using j(2) by (fastforce simp: joined_from_def)
    obtain fis' where pb: "PutBatch (Ix e) joined = (bump_writes ?ix, fis', None)"
      using PutBatch_ok [of joined "Ix e"] healthy_simps(2) [OF assms(2)] by auto
    define e' where "e' = markPendingNames (touched (map Name joined)) (e\<lparr>Ix := bump_writes ?ix\<rparr>)"
    have run: "JoinIdentical e = (e', Inr (int (length joined)))"
      using False read_ok_ListAll [OF ok] j(1) pb by (simp add: JoinIdentical_def IxPutBatch_def e'_def)
    have wf': "ix_wf ?ix" using entry_puts_fresh [OF wf fresh] by simp
    have ent: "entry (Ix e') = entry ?ix" by (simp add: e'_def)
    have Q: "\<exists>l l'. entry (Ix e) n = Some l \<and> entry (Ix e') n = Some l' \<and> joined_row e n l l'" if n: "n \<in> Name ` set joined" for n
    proof -
      have "\<forall>fi \<in> set joined. vwf (Version fi) \<and> seq_ok (Ix e) fi" using fresh wf by (simp add: seq_ok_def ix_wf_def)
      then obtain out ix0 where out: "out \<in> set joined" "Name out = n" "entry ?ix n = Some (stored (sequenced ix0 out))"
        using last_write [OF wf _ n] by blast
      obtain l where l: "l \<in> set ?cands" "joined_from e l out" using j(2) [OF out(1)] by blast
      then obtain m where m: "out = l\<lparr>Version := m, Sequence := 0\<rparr>" "Compare m (Version l) = 1" "on_disk (fs e) l" "agreed_alive e (Name l)"
        "\<exists>(pid, v) \<in> set (peers e). \<exists>p. mget v (Name l) = Some p \<and> identicalContent l p"
        "\<forall>(pid, v) \<in> set (peers e). \<forall>p. mget v (Name l) = Some p \<longrightarrow> identicalContent l p \<longrightarrow> Compare m (Version p) \<in> {0, 1}"
        by (auto simp: joined_from_def)
      have nl: "Name l = n" using m(1) out(2) by simp
      have le: "entry (Ix e) n = Some l" "\<not> Deleted l" "\<not> InFlight e n" using cand [OF l(1)] nl by simp_all
      have sc: "sameContent l (stored (sequenced ix0 out))"
        using entry_content [OF wf le(1)] m(1) by (simp add: sameContent_iff Unflatten_Flatten)
      have l': "Version (stored (sequenced ix0 out)) = vnorm m" "Deleted (stored (sequenced ix0 out)) = Deleted l"
        "ModifiedS (stored (sequenced ix0 out)) = ModifiedS l" by (simp_all add: m(1))
      have "joined_row e n l (stored (sequenced ix0 out))"
        unfolding joined_row_def l' Compare_vnorm using m(2-6) nl le sc by simp
      then show ?thesis using le(1) out(3) ent by auto
    qed
    have frame: "entry (Ix e') n = entry (Ix e) n" if "n \<notin> Name ` set joined" for n
      using foldl_put_entry [of joined n "Ix e"] fresh that ent by simp
    have "ix_wf (Ix e')" "peers e' = peers e" "fs e' = fs e" using wf' by (simp_all add: e'_def)
    moreover have "entry (Ix e') n = entry (Ix e) n \<or> (\<exists>l l'. entry (Ix e) n = Some l \<and> entry (Ix e') n = Some l' \<and> joined_row e n l l')" for n
      using Q [of n] frame [of n] by blast
    moreover have "\<exists>l'. entry (Ix e') n = Some l' \<and> joined_row e n l l'"
      if "entry (Ix e) n = Some l \<and> \<not> Deleted l \<and> \<not> Invalid l \<and> \<not> InFlight e n \<and> join_due e l" for n l
      using Q [of n] due [of n l] that by fastforce
    ultimately show ?thesis using run by (intro exI [of _ e'] exI [of _ "int (length joined)"]) blast
  qed
qed

text \<open>A file added on two devices with the same bytes.\<close>

definition seeded_engine :: Engine where
  "seeded_engine = fresh_engine\<lparr>Ix := put_ok empty_index (sample ''f''), fs := empty_fs\<lparr>nodes := [(''f'', NFile [] 0 0 420)]\<rparr>,
     peers := [(2, [(''f'', (sample ''f'')\<lparr>Version := Some [(8, 1)]\<rparr>)])]\<rparr>"

theorem join_identical_is_bookkeeping_witness:
  "\<exists>e' k l'. JoinIdentical seeded_engine = (e', Inr k) \<and> entry (Ix e') ''f'' = Some l'
     \<and> Compare (Version l') (Some [(7, 1)]) = 1 \<and> Compare (Version l') (Some [(8, 1)]) \<in> {0, 1}"
proof -
  let ?l = "(sample ''f'')\<lparr>Sequence := 1\<rparr>" and ?p = "(sample ''f'')\<lparr>Version := Some [(8, 1)]\<rparr>"
  have "ix_wf (put_ok empty_index (sample ''f''))" by (intro ix_wf_put_ok) (simp_all add: seq_ok_def)
  then have wf: "eng_wf seeded_engine" "healthy (Ix seeded_engine)"
    by (simp_all add: eng_wf_def read_ok_def seeded_engine_def InFlight_def empty_index_no_root healthy_simps)
  have vw: "views_wf seeded_engine" by (simp add: views_wf_def seeded_engine_def vwf_def)
  have l: "entry (Ix seeded_engine) ''f'' = Some ?l" by (simp add: seeded_engine_def)
  have fl: "\<not> Deleted ?l" "\<not> Invalid ?l" "\<not> InFlight seeded_engine ''f''" "Version ?l = Some [(7, 1)]"
    by (simp_all add: sample_def zero_info_def seeded_engine_def InFlight_def)
  have p: "mget [(''f'', ?p)] ''f'' = Some ?p" "\<not> Deleted ?p" "\<not> Invalid ?p" "(2, [(''f'', ?p)]) \<in> set (peers seeded_engine)"
    by (simp_all add: sample_def zero_info_def seeded_engine_def)
  have id: "identicalContent ?l ?p" "Compare (Version ?l) (Version ?p) \<notin> {0, 1}" by code_simp+
  have "on_disk (fs seeded_engine) ?l" by (simp add: on_disk_def os_Stat_def seeded_engine_def empty_fs_def sample_def zero_info_def)
  moreover have "agreed_alive seeded_engine ''f''" using p(2,3) by (simp add: agreed_alive_def seeded_engine_def)
  ultimately have "join_due seeded_engine ?l" using p id by (fastforce simp: join_due_def)
  then obtain e' k l' where e': "JoinIdentical seeded_engine = (e', Inr k)" "entry (Ix e') ''f'' = Some l'" "joined_row seeded_engine ''f'' ?l l'"
    using join_identical_is_bookkeeping [OF wf vw] l fl(1-3) by blast
  have "Compare (Version l') (Some [(7, 1)]) = 1" using e'(3) fl(4) by (simp only: joined_row_def)
  moreover have "Compare (Version l') (Version ?p) \<in> {0, 1}" using e'(3) p(1,4) id(1) unfolding joined_row_def by blast
  moreover have "Version ?p = Some [(8, 1)]" by simp
  ultimately show ?thesis using e'(1,2) by metis
qed

end
