(* ===== verification/Versions_Area.thy ===== *)
theory Versions_Area
  imports Engine_State
begin

text \<open>
  The versions area, \<^verbatim>\<open>internal/sync/versioning.go\<close>: files that a remote change replaces or deletes are
  moved below \<^verbatim>\<open>.sfx-versions\<close> by one of three strategies. Paths are relative to the folder root, the
  clock is an argument in nanoseconds, and the removals whose errors the code ignores leave the tree
  as \<open>os_Remove\<close> does.
\<close>

definition VersionsDir :: string where
  "VersionsDir = ''.sfx-versions''"

definition node_time :: "fs_node \<Rightarrow> int" where
  "node_time n = (case n of NFile _ s ns _ \<Rightarrow> s * 1000000000 + ns | NDir \<Rightarrow> 0)"

text \<open>\<^verbatim>\<open>ParseInt\<close> with its error ignored: an unparsable name sorts as 0.\<close>

definition parseStamp :: "string \<Rightarrow> int" where
  "parseStamp n =
     (let v = (case ParseUint (TrimPrefix n ''-'') of Inl _ \<Rightarrow> 0 | Inr w \<Rightarrow> uint w)
      in if HasPrefix n ''-'' then max (- (2 ^ 63)) (- v) else min (2 ^ 63 - 1) v)"

definition pruneKeep :: "VersioningCfg \<Rightarrow> FS \<Rightarrow> string \<Rightarrow> FS" where
  "pruneKeep v f dir =
     (if v_Keep v \<le> 0 then f
      else case os_ReadDir f dir of
          Inl _ \<Rightarrow> f
        | Inr es \<Rightarrow>
            if int (length es) \<le> v_Keep v then f
            else let newest = rev (sort_key parseStamp (rev es))
                 in foldl (\<lambda>f n. fst (os_RemoveAll f (dir @ ''/'' @ n))) f (drop (nat (v_Keep v)) newest))"

definition pruneByAge :: "int \<Rightarrow> FS \<Rightarrow> int \<Rightarrow> FS" where
  "pruneByAge now f maxAge =
     (let cutoff = now - maxAge;
          old = filter (\<lambda>p. case mget (nodes f) p of
                  Some (NFile d s ns pm) \<Rightarrow> node_time (NFile d s ns pm) < cutoff | _ \<Rightarrow> False) (sort (fs_below f VersionsDir));
          f1 = foldl (\<lambda>f p. fst (os_Remove f p)) f old;
          dirs = filter (\<lambda>p. mget (nodes f1) p = Some NDir) (sort (fs_below f1 VersionsDir))
      in foldl (\<lambda>f p. case os_ReadDir f p of Inr (_ # _) \<Rightarrow> f | _ \<Rightarrow> fst (os_Remove f p)) f1 dirs)"

definition day_ns :: int where
  "day_ns = 24 * 3600 * 1000000000"

definition archiveTrashcan :: "int \<Rightarrow> VersioningCfg \<Rightarrow> FS \<Rightarrow> string \<Rightarrow> FS \<times> go_error option" where
  "archiveTrashcan now v f rel =
     (let dst = VersionsDir @ ''/'' @ rel in
      case os_MkdirAll f (path_Dir dst) of
        (f1, Some err) \<Rightarrow> (f1, Some err)
      | (f1, None) \<Rightarrow>
          (let f2 = fst (os_Remove f1 dst) in
           case os_Rename f2 rel dst of
             (f3, Some err) \<Rightarrow> (f3, Some err)
           | (f3, None) \<Rightarrow> (if v_CleanDays v > 0 then pruneByAge now f3 (v_CleanDays v * day_ns) else f3, None)))"

definition archiveSimple :: "VersioningCfg \<Rightarrow> FS \<Rightarrow> string \<Rightarrow> int \<Rightarrow> FS \<times> go_error option" where
  "archiveSimple v f rel modTime =
     (let dir = VersionsDir @ ''/'' @ rel in
      case os_MkdirAll f dir of
        (f1, Some err) \<Rightarrow> (f1, Some err)
      | (f1, None) \<Rightarrow>
          (let stamp = FormatInt (int64 modTime); dst = dir @ ''/'' @ stamp in
           case os_Rename f1 rel dst of
             (f2, Some err) \<Rightarrow> (f2, Some err)
           | (f2, None) \<Rightarrow> (pruneKeep v f2 dir, None)))"

definition archiveStaggered :: "int \<Rightarrow> VersioningCfg \<Rightarrow> FS \<Rightarrow> string \<Rightarrow> int \<Rightarrow> FS \<times> go_error option" where
  "archiveStaggered now v f rel modTime =
     (let day = format_day (modTime div 1000000000); dir = VersionsDir @ ''/'' @ rel @ ''/'' @ day in
      case os_MkdirAll f dir of
        (f1, Some err) \<Rightarrow> (f1, Some err)
      | (f1, None) \<Rightarrow>
          (let stamp = FormatInt (int64 modTime) in
           case os_Rename f1 rel (dir @ ''/'' @ stamp) of
             (f2, Some err) \<Rightarrow> (f2, Some err)
           | (f2, None) \<Rightarrow>
               (let f3 = (if v_MaxAge v > 0 then pruneByAge now f2 (v_MaxAge v * day_ns) else f2)
                in (pruneKeep v f3 dir, None))))"

definition Archive :: "int \<Rightarrow> VersioningCfg option \<Rightarrow> FS \<Rightarrow> string \<Rightarrow> int \<Rightarrow> FS \<times> go_error option" where
  "Archive now vo f rel modTime =
     (case vo of
        None \<Rightarrow> (f, None)
      | Some v \<Rightarrow>
          if v_Type v = [] \<or> v_Type v = ''none'' then (f, None)
          else if v_Type v = ''trashcan'' then archiveTrashcan now v f rel
          else if v_Type v = ''simple'' then archiveSimple v f rel modTime
          else if v_Type v = ''staggered'' then archiveStaggered now v f rel modTime
          else (f, Some (Err ''unknown versioning type'')))"

definition originalPath :: "VersioningCfg \<Rightarrow> string \<Rightarrow> string" where
  "originalPath v archiveRel =
     (let up = (\<lambda>p. case LastIndex p ''/'' of None \<Rightarrow> p | Some i \<Rightarrow> take i p) in
        if v_Type v = ''simple'' then up archiveRel
        else if v_Type v = ''staggered'' then up (up archiveRel)
        else archiveRel)"

definition archived_files :: "FS \<Rightarrow> (string \<times> fs_node) list" where
  "archived_files f = filter (\<lambda>(p, n). HasPrefix p (VersionsDir @ ''/'') \<and> n \<noteq> NDir) (nodes f)"

definition Versioning_Stats :: "FS \<Rightarrow> int \<times> int" where
  "Versioning_Stats f = (int (length (archived_files f)),
     foldl (\<lambda>a (_, n). a + int (length (node_data n))) 0 (archived_files f))"

definition Versioning_Clean :: "FS \<Rightarrow> FS \<times> (go_error + int \<times> int)" where
  "Versioning_Clean f =
     (let st = Versioning_Stats f in
      case os_RemoveAll f VersionsDir of (f', Some err) \<Rightarrow> (f', Inl err) | (f', None) \<Rightarrow> (f', Inr st))"

record VersionEntry =
  ve_ArchivePath :: string
  ve_Path :: string
  ve_Size :: int
  ve_Modified :: int

definition Versioning_List :: "VersioningCfg \<Rightarrow> FS \<Rightarrow> VersionEntry list" where
  "Versioning_List v f =
     (let es = map (\<lambda>(p, n). let rel = drop (length VersionsDir + 1) p in
                \<lparr>ve_ArchivePath = rel, ve_Path = originalPath v rel, ve_Size = int (length (node_data n)), ve_Modified = node_s n\<rparr>)
              (archived_files f)
      in sort_key ve_Path (sort_key ve_Modified es))"

section \<open>Where an archived version belongs\<close>

lemma LastIndex_slash: "CHR ''/'' \<notin> set s \<Longrightarrow> LastIndex (p @ CHR ''/'' # s) ''/'' = Some (length p)"
  using LastIndex_append [of "''/''" s p] by (simp add: sublist_def) fastforce

lemma FormatInt_no_slash: "CHR ''/'' \<notin> set (FormatInt i)"
  using FormatUint_no [of "CHR ''/''"] by (auto simp: FormatInt_def)

lemma pad_int_no_slash: "CHR ''/'' \<notin> set (pad_int w i)"
  by (rule pad_int_no) simp

lemma format_day_no_slash: "CHR ''/'' \<notin> set (format_day s)"
  using pad_int_no_slash by (auto simp: format_day_def split: prod.splits)

text \<open>The path a strategy gives the archived copy, below the versions area.\<close>

definition archive_rel :: "VersioningCfg \<Rightarrow> string \<Rightarrow> int \<Rightarrow> string" where
  "archive_rel v rel modTime =
     (if v_Type v = ''simple'' then rel @ ''/'' @ FormatInt (int64 modTime)
      else if v_Type v = ''staggered'' then rel @ ''/'' @ format_day (modTime div 1000000000) @ ''/'' @ FormatInt (int64 modTime)
      else rel)"

lemma originalPath_archive: "originalPath v (archive_rel v rel t) = rel"
proof -
  have one: "LastIndex (p @ ''/'' @ FormatInt (int64 t)) ''/'' = Some (length p)" for p
    using LastIndex_slash [OF FormatInt_no_slash] by simp
  have two: "LastIndex (p @ ''/'' @ format_day s) ''/'' = Some (length p)" for p s
    using LastIndex_slash [OF format_day_no_slash] by simp
  show ?thesis
    using one [of rel] one [of "rel @ ''/'' @ format_day (t div 1000000000)"] two [of rel]
    by (simp add: originalPath_def archive_rel_def)
qed


definition sample_fs :: "int \<Rightarrow> FS" where
  "sample_fs t = empty_fs\<lparr>nodes := [(''a'', NFile [7, 8] t 0 420)]\<rparr>"

definition sample_versioning :: "string \<Rightarrow> int \<Rightarrow> int \<Rightarrow> VersioningCfg" where
  "sample_versioning ty keep days = \<lparr>v_Type = ty, v_Keep = keep, v_MaxAge = 0, v_CleanDays = days\<rparr>"


text \<open>Age limits are measured on the modification time of the archived file, not on the time it was archived: with
an auto-clean of 30 days, a file last modified 40 days ago that a peer deletes today is moved to the
trash can and destroyed by the same call, which reports success.\<close>

theorem trashcan_destroys_old_file:
  "let now = 40 * day_ns; r = Archive now (Some (sample_versioning ''trashcan'' 0 30)) (sample_fs 0) ''a'' 0
   in snd r = None \<and> mget (nodes (sample_fs 0)) ''a'' \<noteq> None \<and> archived_files (fst r) = [] \<and> mget (nodes (fst r)) ''a'' = None"
  by code_simp

end
