(* ===== verification/FS_Frames.thy ===== *)
theory FS_Frames
  imports Versions_Area
begin

text \<open>
  What the operations on the tree leave alone. An area is a top-level directory of the program's own
  (versions, hold): archiving and holding a file change only that file and paths in the area, and
  every path of an area is reserved.
\<close>

definition area :: "string \<Rightarrow> string \<Rightarrow> bool" where
  "area p n \<longleftrightarrow> n = p \<or> prefix (p @ ''/'') n"

lemma area_refl [simp]: "area p p"
  by (simp add: area_def)

lemma area_trans: "area p q \<Longrightarrow> area q n \<Longrightarrow> area p n"
proof -
  assume a: "area p q" "area q n"
  show "area p n"
  proof (cases "n = q \<or> p = q")
    case False
    then have "prefix (p @ ''/'') q" "prefix (q @ ''/'') n" using a by (auto simp: area_def)
    then show ?thesis by (auto simp: area_def prefix_def)
  qed (use a in auto)
qed

lemma area_child [simp]: "area p (p @ ''/'' @ n)" "area p (p @ CHR ''/'' # n)"
  by (auto simp: area_def)

lemma ancestors_area:
  assumes "CHR ''/'' \<notin> set a" and "area a d" and "q \<in> set (ancestors d)"
  shows "area a q"
proof (cases "q = d")
  case False
  then obtain i where i: "q = take i d" "d ! i = CHR ''/''" "i < length d" using assms(3) by (auto simp: ancestors_def)
  have ge: "length a \<le> i"
  proof (rule ccontr)
    assume "\<not> length a \<le> i"
    then have "d ! i = a ! i" "a ! i \<in> set a" using assms(2) by (auto simp: area_def prefix_def nth_append)
    then show False using i(2) assms(1) by simp
  qed
  obtain r where r: "d = a @ CHR ''/'' # r \<or> d = a" using assms(2) by (auto simp: area_def prefix_def)
  show ?thesis
  proof (cases "i = length a")
    case True
    then show ?thesis using r i(1) by auto
  next
    case False
    then have "d = a @ CHR ''/'' # r" "length a < i" using r i(3) ge by auto
    moreover obtain j where "i = Suc (length a + j)" using less_imp_Suc_add [OF calculation(2)] by auto
    ultimately have "q = a @ CHR ''/'' # take j r" using i(1) by simp
    then show ?thesis by simp
  qed
qed (use assms(2) in simp)

section \<open>Directories\<close>

lemma mkdir_fold_other:
  "n \<notin> set qs \<Longrightarrow> mget (foldl (\<lambda>m q. if mget m q = None then mset_at m q NDir else m) m qs) n = mget m n"
  by (induction qs arbitrary: m) auto

lemma os_MkdirAll_area:
  assumes "os_MkdirAll f d = (f', err)" and "CHR ''/'' \<notin> set a" and "area a d" and "\<not> area a n"
  shows "mget (nodes f') n = mget (nodes f) n"
proof -
  have "n \<notin> set (ancestors d)" using ancestors_area [OF assms(2,3)] assms(4) by blast
  then show ?thesis using assms(1) mkdir_fold_other [of n "ancestors d"] by (auto simp: os_MkdirAll_def split: if_splits)
qed

lemma EnsureDir_loop_area:
  "EnsureDir_loop k f d = (f', err) \<Longrightarrow> CHR ''/'' \<notin> set a \<Longrightarrow> area a d \<Longrightarrow> \<not> area a n \<Longrightarrow> mget (nodes f') n = mget (nodes f) n"
proof (induction k arbitrary: f)
  case 0
  then show ?case using os_MkdirAll_area by fastforce
next
  case (Suc k)
  obtain f1 er where m: "os_MkdirAll f d = (f1, er)" by (cases "os_MkdirAll f d")
  have same: "mget (nodes f1) n = mget (nodes f) n" using os_MkdirAll_area [OF m Suc.prems(2-4)] .
  show ?case
  proof (cases "er = None \<or> os_Stat f1 d = Inr NDir")
    case True
    then have "f' = f1" using Suc.prems(1) m by (auto split: option.splits)
    then show ?thesis using same by simp
  next
    case False
    then have "EnsureDir_loop k f1 d = (f', err)" using Suc.prems(1) m by auto
    from Suc.IH [OF this Suc.prems(2-4)] show ?thesis using same by simp
  qed
qed

lemma EnsureDir_area:
  "EnsureDir f d = (f', err) \<Longrightarrow> CHR ''/'' \<notin> set a \<Longrightarrow> area a d \<Longrightarrow> \<not> area a n \<Longrightarrow> mget (nodes f') n = mget (nodes f) n"
  by (auto simp: EnsureDir_def split: if_splits dest: EnsureDir_loop_area)

lemma path_Dir_area:
  assumes "CHR ''/'' \<notin> set a"
  shows "area a (path_Dir (a @ ''/'' @ r))"
proof -
  obtain i where i: "LastIndex (a @ ''/'' @ r) ''/'' = Some i"
    using LastIndex_None_iff [of "''/''" "a @ ''/'' @ r"] by (cases "LastIndex (a @ ''/'' @ r) ''/''") (auto simp: sublist_def)
  show ?thesis
  proof (cases "CHR ''/'' \<in> set r")
    case False
    then show ?thesis using LastIndex_slash [OF False, of a] by (simp add: path_Dir_def)
  next
    case True
    then obtain x y where "r = x @ CHR ''/'' # y" "CHR ''/'' \<notin> set y" by (metis split_list_last)
    then have "path_Dir (a @ ''/'' @ r) = a @ ''/'' @ x"
      using LastIndex_slash [of y "a @ ''/'' @ x"] by (simp add: path_Dir_def)
    then show ?thesis by simp
  qed
qed

section \<open>Removing\<close>

lemma os_Remove_same: "n \<noteq> p \<Longrightarrow> mget (nodes (fst (os_Remove f p))) n = mget (nodes f) n"
  by (auto simp: os_Remove_def split: option.splits)

lemma os_Remove_self:
  "mget (nodes (fst (os_Remove f p))) p = mget (nodes f) p \<or> mget (nodes (fst (os_Remove f p))) p = None"
  by (auto simp: os_Remove_def split: option.splits)

lemma os_RemoveAll_same: "\<not> area p n \<Longrightarrow> mget (nodes (fst (os_RemoveAll f p))) n = mget (nodes f) n"
  by (auto simp: os_RemoveAll_def area_def mget_filter_key [of "\<lambda>q. q \<noteq> p \<and> \<not> prefix (p @ ''/'') q"])

lemma foldl_same:
  "(\<And>f x. x \<in> set xs \<Longrightarrow> mget (nodes (g f x)) n = mget (nodes f) n) \<Longrightarrow> mget (nodes (foldl g f xs)) n = mget (nodes f) n"
  by (induction xs arbitrary: f) auto

lemma pruneKeep_area:
  assumes "area a d" and "\<not> area a n"
  shows "mget (nodes (pruneKeep v f d)) n = mget (nodes f) n"
proof -
  have "\<not> area (d @ CHR ''/'' # x) n" for x
    using area_trans [OF assms(1), of "d @ CHR ''/'' # x"] area_trans [of a "d @ CHR ''/'' # x" n] assms(2) by auto
  then show ?thesis unfolding pruneKeep_def Let_def by (auto split: sum.splits intro!: foldl_same os_RemoveAll_same)
qed

lemma fs_below_area: "p \<in> set (fs_below f a) \<Longrightarrow> area a p"
  by (simp add: fs_below_def area_def)

lemma pruneByAge_area:
  assumes "\<not> area VersionsDir n"
  shows "mget (nodes (pruneByAge now f age)) n = mget (nodes f) n"
proof -
  have "p \<noteq> n" if "p \<in> set (fs_below f VersionsDir)" for p f using fs_below_area [OF that] assms by auto
  then show ?thesis unfolding pruneByAge_def Let_def
    by (subst foldl_same; (subst foldl_same)?) (auto intro!: os_Remove_same split: sum.splits list.splits)
qed

section \<open>Archiving a file\<close>

lemma os_Rename_file_cases:
  assumes "os_Rename f p q = (f', err)" and "is_file f p"
  shows "mget (nodes f') r = mget (nodes f) r \<or> (r = p \<and> r \<noteq> q \<and> mget (nodes f') r = None) \<or> r = q"
  using assms by (auto simp: os_Rename_def is_file_def split: option.splits if_splits fs_node.splits)

lemma VersionsDir_no_slash: "CHR ''/'' \<notin> set VersionsDir"
  by (simp add: VersionsDir_def)

lemma archive_steps:
  assumes "os_MkdirAll f d = (f1, er)" and "area VersionsDir d" and "is_file f rel" and "\<not> area VersionsDir rel"
    and "f2 = f1 \<or> f2 = fst (os_Remove f1 dst)" and "area VersionsDir dst" and "os_Rename f2 rel dst = (f3, er3)"
    and "\<not> area VersionsDir n"
  shows "mget (nodes f3) n = mget (nodes f) n \<or> (n = rel \<and> mget (nodes f3) n = None)"
proof -
  have one: "mget (nodes f1) m = mget (nodes f) m" if "\<not> area VersionsDir m" for m
    using os_MkdirAll_area [OF assms(1) VersionsDir_no_slash assms(2) that] .
  have two: "mget (nodes f2) m = mget (nodes f) m" if "\<not> area VersionsDir m" for m
    using assms(5,6) one [OF that] os_Remove_same [of m dst f1] that by auto
  have "is_file f2 rel" using is_file_keep [OF two [OF assms(4)]] assms(3) by simp
  from os_Rename_file_cases [OF assms(7) this, of n] show ?thesis using two [OF assms(8)] assms(6,8) by auto
qed

text \<open>The three strategies share one shape: make a directory, make room, rename, prune.\<close>

lemma archive_shape:
  assumes "is_file f rel" and "\<not> area VersionsDir rel" and n: "\<not> area VersionsDir n"
    and "area VersionsDir d" and "area VersionsDir dst"
    and g: "\<And>f. g f = f \<or> g f = fst (os_Remove f dst)" and post: "\<And>f. mget (nodes (post f)) n = mget (nodes f) n"
    and f': "f' = (case os_MkdirAll f d of
        (f1, Some _) \<Rightarrow> f1 | (f1, None) \<Rightarrow> (case os_Rename (g f1) rel dst of (f3, Some _) \<Rightarrow> f3 | (f3, None) \<Rightarrow> post f3))"
  shows "mget (nodes f') n = mget (nodes f) n \<or> (n = rel \<and> mget (nodes f') n = None)"
proof (cases "os_MkdirAll f d")
  case (Pair f1 er)
  obtain f3 er3 where ren: "os_Rename (g f1) rel dst = (f3, er3)" by (cases "os_Rename (g f1) rel dst")
  have "mget (nodes f1) n = mget (nodes f) n" using os_MkdirAll_area [OF Pair VersionsDir_no_slash assms(4) n] .
  moreover have "mget (nodes f3) n = mget (nodes f) n \<or> (n = rel \<and> mget (nodes f3) n = None)"
    using archive_steps [OF Pair assms(4,1,2) g assms(5) ren n] .
  ultimately show ?thesis using f' Pair ren post by (auto split: option.splits)
qed

lemma Archive_frame:
  assumes "is_file f rel" and "\<not> area VersionsDir rel" and "\<not> area VersionsDir n"
  shows "mget (nodes (fst (Archive now vo f rel t))) n = mget (nodes f) n
    \<or> (n = rel \<and> mget (nodes (fst (Archive now vo f rel t))) n = None)"
proof -
  have trash: "mget (nodes (fst (archiveTrashcan now v f rel))) n = mget (nodes f) n
      \<or> (n = rel \<and> mget (nodes (fst (archiveTrashcan now v f rel))) n = None)" for v
    by (rule archive_shape [OF assms path_Dir_area [OF VersionsDir_no_slash, of rel] area_child(1),
        where g = "\<lambda>f. fst (os_Remove f (VersionsDir @ ''/'' @ rel))"
          and post = "\<lambda>f. if v_CleanDays v > 0 then pruneByAge now f (v_CleanDays v * day_ns) else f"])
      (auto simp: archiveTrashcan_def Let_def pruneByAge_area [OF assms(3)] split: prod.splits option.splits)
  have simple: "mget (nodes (fst (archiveSimple v f rel t))) n = mget (nodes f) n
      \<or> (n = rel \<and> mget (nodes (fst (archiveSimple v f rel t))) n = None)" for v
    by (rule archive_shape [OF assms, where g = "\<lambda>f. f" and post = "\<lambda>f. pruneKeep v f (VersionsDir @ ''/'' @ rel)"
          and d = "VersionsDir @ ''/'' @ rel" and dst = "(VersionsDir @ ''/'' @ rel) @ ''/'' @ FormatInt (int64 t)"])
      (auto simp: archiveSimple_def Let_def pruneKeep_area [OF area_child(2) assms(3)] split: prod.splits option.splits)
  have stag: "mget (nodes (fst (archiveStaggered now v f rel t))) n = mget (nodes f) n
      \<or> (n = rel \<and> mget (nodes (fst (archiveStaggered now v f rel t))) n = None)" for v
    by (rule archive_shape [OF assms, where g = "\<lambda>f. f"
          and post = "\<lambda>f. pruneKeep v (if v_MaxAge v > 0 then pruneByAge now f (v_MaxAge v * day_ns) else f)
            (VersionsDir @ ''/'' @ rel @ ''/'' @ format_day (t div 1000000000))"
          and d = "VersionsDir @ ''/'' @ rel @ ''/'' @ format_day (t div 1000000000)"
          and dst = "VersionsDir @ ''/'' @ (rel @ ''/'' @ format_day (t div 1000000000) @ ''/'' @ FormatInt (int64 t))"])
      (auto simp: archiveStaggered_def Let_def pruneKeep_area [OF area_child(2) assms(3)] pruneByAge_area [OF assms(3)] split: prod.splits option.splits)
  show ?thesis using trash simple stag by (auto simp: Archive_def split: option.splits)
qed

section \<open>Holding a file\<close>

lemma HoldDir_no_slash: "CHR ''/'' \<notin> set HoldDir"
  by (simp add: HoldDir_def)

lemma hold_path_area [simp]: "area HoldDir (hold_path rel)"
  by (simp add: hold_path_def)

lemma copyFile_other: "copyFile f src dst = (f', err) \<Longrightarrow> n \<noteq> dst \<Longrightarrow> mget (nodes f') n = mget (nodes f) n"
  by (auto simp: copyFile_def os_OpenCreate_def os_modify_def split: sum.splits prod.splits option.splits fs_node.splits if_splits)

lemma movePath_file:
  assumes "is_file f src" and "movePath f src dst = (f', err)" and "n \<noteq> dst" and "src \<noteq> dst"
  shows "mget (nodes f') n = mget (nodes f) n \<or> (n = src \<and> mget (nodes f') n = None)"
proof -
  obtain f1 er where ren: "os_Rename f src dst = (f1, er)" by (cases "os_Rename f src dst")
  note one = os_Rename_file_cases [OF ren assms(1), of n]
  show ?thesis
  proof (cases er)
    case None
    then show ?thesis using assms(2,3) ren one by (auto simp: movePath_def)
  next
    case (Some x)
    then have f1: "f1 = f" using os_Rename_err [of f src dst f1 x] ren by simp
    obtain f2 er2 where cp: "hold_copyFile f src dst = (f2, er2)" by (cases "hold_copyFile f src dst")
    then have two: "mget (nodes f2) n = mget (nodes f) n" using copyFile_other assms(3) by (simp add: hold_copyFile_def)
    have "f' = f \<or> f' = f2 \<or> f' = fst (os_Remove f2 src)"
      using assms(1,2) ren f1 Some cp
      by (auto simp: movePath_def os_Stat_def is_file_def split: sum.splits option.splits fs_node.splits if_splits prod.splits)
    then show ?thesis using two os_Remove_same [of n src f2] os_Remove_self [of f2 src] by (cases "n = src") auto
  qed
qed

lemma saveLocked_area: "saveLocked f s = (f', s', err) \<Longrightarrow> \<not> area HoldDir n \<Longrightarrow> mget (nodes f') n = mget (nodes f) n"
  using EnsureDir_area [OF _ HoldDir_no_slash area_refl, of f]
  by (fastforce simp: saveLocked_def split: if_splits prod.splits option.splits)

lemma Hold_Move_frame:
  assumes "Hold_Move now f s rel = (f', s', err)" and "clean rel = rel" and "mget (nodes f) rel \<noteq> Some NDir"
    and "\<not> area HoldDir rel" and "\<not> area HoldDir n"
  shows "mget (nodes f') n = mget (nodes f) n \<or> (n = rel \<and> mget (nodes f') n = None)"
proof (cases "rel = [] \<or> IsReserved rel \<or> isl (os_Stat f rel)")
  case True
  then show ?thesis using assms(1,2) by (auto simp: Hold_Move_def split: sum.splits if_splits)
next
  case False
  then obtain st where st: "os_Stat f rel = Inr st" by (cases "os_Stat f rel") auto
  then have isf: "is_file f rel" using assms(3) by (auto simp: os_Stat_def is_file_def split: if_splits option.splits fs_node.splits)
  have rel: "rel \<noteq> []" "\<not> IsReserved rel" using False by auto
  obtain f1 e1 where ens: "EnsureDir f (path_Dir (hold_path rel)) = (f1, e1)" by (cases "EnsureDir f (path_Dir (hold_path rel))")
  have one: "mget (nodes f1) m = mget (nodes f) m" if "\<not> area HoldDir m" for m
    using EnsureDir_area [OF ens HoldDir_no_slash _ that] path_Dir_area [OF HoldDir_no_slash, of rel] rel by (simp add: hold_path_def)
  obtain f2 e2 where mv: "movePath f1 rel (hold_path rel) = (f2, e2)" by (cases "movePath f1 rel (hold_path rel)")
  have isf1: "is_file f1 rel" using is_file_keep [OF one [OF assms(4)]] isf by simp
  have ne: "n \<noteq> hold_path rel" "rel \<noteq> hold_path rel" using assms(4,5) hold_path_area by metis+
  note two = movePath_file [OF isf1 mv ne]
  have "f' = f1 \<or> f' = f2 \<or> (\<exists>s2. saveLocked f2 s2 = (f', s', err))"
    using assms(1,2) st rel ens mv by (auto simp: Hold_Move_def Let_def split: option.splits)
  then show ?thesis using one [OF assms(5)] two saveLocked_area [OF _ assms(5)] by metis
qed

section \<open>Reserved names\<close>

lemma split_on_prefix: "CHR ''/'' \<notin> set a \<Longrightarrow> \<exists>w. split_on CHR ''/'' (a @ CHR ''/'' # r) = a # w"
  by (induction a) auto

lemma split_on_single: "CHR ''/'' \<notin> set a \<Longrightarrow> split_on CHR ''/'' a = [a]"
  by (induction a) auto

lemma area_reserved:
  assumes "CHR ''/'' \<notin> set a" and "prefix TempPrefix a" and "area a n"
  shows "IsReserved n"
proof -
  obtain r where "n = a \<or> n = a @ CHR ''/'' # r" using assms(3) by (auto simp: area_def prefix_def)
  then have "\<exists>w. split_on CHR ''/'' n = a # w" using split_on_prefix [OF assms(1)] split_on_single [OF assms(1)] by auto
  moreover have "n \<noteq> []" "n \<noteq> ''.''" using assms(2) \<open>n = a \<or> _\<close> by (auto simp: TempPrefix_def prefix_def)
  ultimately show ?thesis using assms(2) by (auto simp: IsReserved_def)
qed

lemma reserved_areas:
  "\<not> IsReserved n \<Longrightarrow> \<not> area VersionsDir n" "\<not> IsReserved n \<Longrightarrow> \<not> area HoldDir n"
  using area_reserved [OF VersionsDir_no_slash, of n] area_reserved [OF HoldDir_no_slash, of n]
  by (auto simp: VersionsDir_def HoldDir_def TempPrefix_def)

end
