(* ===== verification/Remote_Apply.thy ===== *)
theory Remote_Apply
  imports Join_Identical FS_Frames
begin

text \<open>
  Applying remote changes, the second half of \<^verbatim>\<open>internal/sync/engine.go\<close> and \<^verbatim>\<open>releaseMoveLocked\<close> of
  \<^verbatim>\<open>gate_release.go\<close>: preserving the local copy before it is replaced, deletions (with the recursion into
  a tombstoned directory), moves, directories and metadata. The clock is an argument in nanoseconds.
  The recursion of a directory deletion carries fuel; \<open>del_fuel\<close> computes enough of it from the peer
  views and \<open>deletion_terminates\<close> shows that it never runs out. The tree records no size and no
  time for a directory.
\<close>

section \<open>Preserving the local copy\<close>

record OverwritePlan =
  op_Name :: string
  op_Global :: FileInfo
  op_Delete :: bool
  op_ArchiveLocal :: bool
  op_MakeConflictCopy :: bool
  op_ConflictName :: string
  op_PeerID :: uint64

definition versioning_on :: "Engine \<Rightarrow> bool" where
  "versioning_on e = (case Versioning e of None \<Rightarrow> False | Some v \<Rightarrow> v_Type v \<noteq> [] \<and> v_Type v \<noteq> ''none'')"

definition PlanOverwrite :: "Engine \<Rightarrow> string \<Rightarrow> go_error + OverwritePlan" where
  "PlanOverwrite e name =
     (case globalForLocked e name of
        Inl err \<Rightarrow> Inl err
      | Inr (None, _) \<Rightarrow> Inl (Err ''no global'')
      | Inr (Some global, _) \<Rightarrow>
      (case Ix_Get (Ix e) name of
         Inl err \<Rightarrow> Inl err
       | Inr lo \<Rightarrow>
           (let plan = \<lparr>op_Name = name, op_Global = CloneInfo global, op_Delete = Deleted global, op_ArchiveLocal = False,
                  op_MakeConflictCopy = False, op_ConflictName = [], op_PeerID = 0\<rparr> in
            case lo of
              None \<Rightarrow> Inr plan
            | Some local \<Rightarrow>
                if Deleted local then Inr plan
                else let conflict = (Compare (Version global) (Version local) = 2 \<and> \<not> sameContent local global);
                         plan1 = (if versioning_on e then plan\<lparr>op_ArchiveLocal := True\<rparr> else plan)
                     in if conflict \<and> Policy e = ConflictCopy \<and> \<not> versioning_on e
                        then Inr (plan1\<lparr>op_MakeConflictCopy := True,
                               op_ConflictName := conflictName (Name local) (ModifiedS local) (ModifiedNs local) (NodeID e)\<rparr>)
                        else Inr plan1)))"

definition stat_fields :: "FS \<Rightarrow> string \<Rightarrow> fs_node \<Rightarrow> int \<times> int \<times> int \<times> uint32" where
  "stat_fields f p n = (case n of NFile d s ns pm \<Rightarrow> (int (length d), s, ns, pm) | NDir \<Rightarrow> (0, 0, 0, dir_mode f p))"

definition archive_local :: "int \<Rightarrow> Engine \<Rightarrow> OverwritePlan \<Rightarrow> Engine" where
  "archive_local now e plan =
     (if \<not> op_ArchiveLocal plan then e
      else case os_Stat (fs e) (op_Name plan) of
          Inr (NFile d s ns pm) \<Rightarrow>
            emit CatVersioned SevInfo (op_Name plan) ''versioning: archived before remote replace''
              (case Versioning e of Some v \<Rightarrow> v_Type v | None \<Rightarrow> []) (op_PeerID plan)
              (e\<lparr>fs := fst (Archive now (Versioning e) (fs e) (op_Name plan) (s * 1000000000 + ns))\<rparr>)
        | _ \<Rightarrow> e)"

definition index_copy :: "Engine \<Rightarrow> string \<Rightarrow> int \<Rightarrow> byte list list \<Rightarrow> Engine \<times> (go_error + FileInfo option)" where
  "index_copy e copy bsize blocks =
     (case bumped e (case Ix_Get (Ix e) copy of Inr c \<Rightarrow> c | Inl _ \<Rightarrow> None) of
        Inl err \<Rightarrow> (e, Inl err)
      | Inr nv \<Rightarrow>
      (case os_Stat (fs e) copy of
         Inl err \<Rightarrow> (e, Inl err)
       | Inr n \<Rightarrow>
           (let (sz, s, ns, pm) = stat_fields (fs e) copy n in
            case IxPut e (zero_info\<lparr>Name := copy, Size := sz, ModifiedS := s, ModifiedNs := ns, Mode := pm, Type := TypeFile,
                   Version := nv, BlockSize := bsize, Blocks := blocks\<rparr>) of
              (e2, fi', Some err) \<Rightarrow> (e2, Inl err)
            | (e2, fi', None) \<Rightarrow> (e2, Inr (Some fi')))))"

definition copy_hashes :: "Engine \<Rightarrow> OverwritePlan \<Rightarrow> int \<times> byte list list" where
  "copy_hashes e plan =
     (case FileHashes (case os_Open (fs e) (op_Name plan) of Inl _ \<Rightarrow> None | Inr d \<Rightarrow> Some d) 0 of
        Inr r \<Rightarrow> r | Inl _ \<Rightarrow> (0, []))"

definition Execute :: "int \<Rightarrow> Engine \<Rightarrow> OverwritePlan \<Rightarrow> Engine \<times> (go_error + FileInfo option)" where
  "Execute now e0 plan =
     (let (copyBSize, copyBlocks) = (if op_MakeConflictCopy plan then copy_hashes e0 plan else (0, []));
          e = archive_local now e0 plan
      in if \<not> op_MakeConflictCopy plan then (e, Inr None)
         else case os_Rename (fs e) (op_Name plan) (op_ConflictName plan) of
             (f1, Some err) \<Rightarrow> (e\<lparr>fs := f1\<rparr>, Inl err)
           | (f1, None) \<Rightarrow>
               index_copy (emit CatConflict SevWarn (op_Name plan) ''concurrent edit: conflict copy created''
                   (op_ConflictName plan) (op_PeerID plan) (e\<lparr>fs := f1\<rparr>)) (op_ConflictName plan) copyBSize copyBlocks)"

section \<open>Deletions\<close>

definition noteKeptDir :: "string \<Rightarrow> Engine \<Rightarrow> Engine" where
  "noteKeptDir name e = e\<lparr>keptDirs := List.insert name (keptDirs e)\<rparr>"

definition clearKeptDir :: "string \<Rightarrow> Engine \<Rightarrow> Engine" where
  "clearKeptDir name e = e\<lparr>keptDirs := filter (\<lambda>n. n \<noteq> name) (keptDirs e)\<rparr>"

text \<open>\<^verbatim>\<open>HoldLocal\<close> is the hold area's \<^verbatim>\<open>Move\<close>; the second component says whether the copy was held.\<close>

definition HoldLocal :: "int \<Rightarrow> Engine \<Rightarrow> string \<Rightarrow> Engine \<times> bool" where
  "HoldLocal now e name =
     (case hold e of
        None \<Rightarrow> (e, False)
      | Some s \<Rightarrow> (case Hold_Move (now div 1000000000) (fs e) s name of
          (f', s', err) \<Rightarrow> (e\<lparr>fs := f', hold := Some s'\<rparr>, err = None)))"

definition globally_deleted :: "Engine \<Rightarrow> FileInfo \<Rightarrow> bool" where
  "globally_deleted e fi = (case fst (globalFrom e (Some fi) (Name fi)) of None \<Rightarrow> False | Some g \<Rightarrow> Deleted g)"

text \<open>The first half of \<^verbatim>\<open>deleteDeletedChildren\<close>: what may be deleted, deepest first, and how many entries are kept.\<close>

definition deletable_children :: "Engine \<Rightarrow> string \<Rightarrow> go_error + string list \<times> nat" where
  "deletable_children e name =
     (case Ix_ListPrefix (Ix e) (name @ ''/'') of
        Inl err \<Rightarrow> Inl err
      | Inr fis \<Rightarrow>
          (let del = filter (\<lambda>fi. \<not> InFlight e (Name fi) \<and> globally_deleted e fi) fis
           in Inr (map Name del, length fis - length del)))"

definition already_deleted :: "Engine \<Rightarrow> string \<Rightarrow> OverwritePlan \<Rightarrow> bool" where
  "already_deleted e name plan =
     (case Ix_Get (Ix e) name of Inr (Some cur) \<Rightarrow> Deleted cur \<and> op_Delete plan | _ \<Rightarrow> False)"

text \<open>The end of \<^verbatim>\<open>applyDeletion\<close>: record the tombstone.\<close>

definition record_deletion :: "Engine \<Rightarrow> string \<Rightarrow> uint64 \<Rightarrow> bool \<Rightarrow> Engine \<times> (go_error + bool)" where
  "record_deletion e name peerID held =
     (case bumped e (case Ix_Get (Ix e) name of Inr c \<Rightarrow> c | Inl _ \<Rightarrow> None) of
        Inl err \<Rightarrow> (e, Inl err)
      | Inr nv \<Rightarrow>
      (case IxPut e (zero_info\<lparr>Name := name, Deleted := True, Version := nv\<rparr>) of
         (e1, _, Some err) \<Rightarrow> (e1, Inl err)
       | (e1, _, None) \<Rightarrow>
           (emit CatApplied SevInfo name (if held then ''deleted (remote), local copy held for undo'' else ''deleted (remote)'')
              [] peerID e1, Inr held)))"

text \<open>
  \<^verbatim>\<open>applyDeletion\<close> in three parts: everything up to the hold (the plan, the early return for a path that is
  already a tombstone, the preservation of the local copy), the recursion into a directory, and the
  removal of the directory itself.
\<close>

datatype del_stage = Finished "go_error + bool" | Leaf bool | Tree

definition prepareDeletion :: "int \<Rightarrow> Engine \<Rightarrow> string \<Rightarrow> uint64 \<Rightarrow> bool \<Rightarrow> Engine \<times> del_stage" where
  "prepareDeletion now e name peerID hld =
     (case PlanOverwrite e name of
        Inl err \<Rightarrow> (e, Finished (Inl err))
      | Inr plan0 \<Rightarrow>
          (let plan = plan0\<lparr>op_PeerID := peerID\<rparr> in
           if already_deleted e name plan then (e, Finished (Inr False))
           else case (if hld then (e, Inr None) else Execute now e plan) of
               (e1, Inl err) \<Rightarrow> (e1, Finished (Inl err))
             | (e1, Inr _) \<Rightarrow>
                 if Type (op_Global plan) = TypeDirectory then (e1, Tree)
                 else if hld then (case HoldLocal now e1 name of (e2, held) \<Rightarrow> (e2, Leaf held))
                 else (e1, Leaf False)))"

definition removeDir :: "Engine \<Rightarrow> string \<Rightarrow> uint64 \<Rightarrow> nat \<Rightarrow> Engine \<times> (go_error + bool)" where
  "removeDir e name peerID kept =
     (if kept > 0 then (noteKeptDir name e, Inr False)
      else case os_Remove (fs e) name of
          (f', err) \<Rightarrow>
            if err \<noteq> None \<and> err \<noteq> Some NotExist then (noteKeptDir name (e\<lparr>fs := f'\<rparr>), Inr False)
            else record_deletion (clearKeptDir name (e\<lparr>fs := f'\<rparr>)) name peerID False)"

definition removeLeaf :: "Engine \<Rightarrow> string \<Rightarrow> uint64 \<Rightarrow> bool \<Rightarrow> Engine \<times> (go_error + bool)" where
  "removeLeaf e name peerID held =
     record_deletion (if held then e else e\<lparr>fs := fst (os_Remove (fs e) name)\<rparr>) name peerID held"

fun applyDeletion :: "nat \<Rightarrow> int \<Rightarrow> Engine \<Rightarrow> string \<Rightarrow> uint64 \<Rightarrow> bool \<Rightarrow> (Engine \<times> (go_error + bool)) option"
  and delete_each :: "nat \<Rightarrow> int \<Rightarrow> Engine \<Rightarrow> string list \<Rightarrow> uint64 \<Rightarrow> bool \<Rightarrow> nat \<Rightarrow> (Engine \<times> nat) option" where
  "applyDeletion 0 now e name peerID hld = None"
| "applyDeletion (Suc fuel) now e name peerID hld =
     (case prepareDeletion now e name peerID hld of
        (e1, Finished r) \<Rightarrow> Some (e1, r)
      | (e1, Leaf held) \<Rightarrow> Some (removeLeaf e1 name peerID held)
      | (e1, Tree) \<Rightarrow>
          (case deletable_children e1 name of
             Inl err \<Rightarrow> Some (e1, Inl err)
           | Inr (del, kept0) \<Rightarrow>
               (case delete_each fuel now e1 del peerID hld kept0 of
                  None \<Rightarrow> None
                | Some (e2, kept) \<Rightarrow> Some (removeDir e2 name peerID kept))))"
| "delete_each fuel now e [] peerID hld kept = Some (e, kept)"
| "delete_each fuel now e (child # children) peerID hld kept =
     (case applyDeletion fuel now e child peerID hld of
        None \<Rightarrow> None
      | Some (e1, Inl _) \<Rightarrow> delete_each fuel now e1 children peerID hld (kept + 1)
      | Some (e1, Inr _) \<Rightarrow> delete_each fuel now e1 children peerID hld kept)"

definition view_names :: "Engine \<Rightarrow> string list" where
  "view_names e = concat (map (\<lambda>(_, view). mkeys view) (peers e))"

definition del_fuel :: "Engine \<Rightarrow> nat" where
  "del_fuel e = Suc (Suc (fold max (map length (view_names e)) 0))"

definition deleteDeletedChildren :: "int \<Rightarrow> Engine \<Rightarrow> string \<Rightarrow> uint64 \<Rightarrow> bool \<Rightarrow> (Engine \<times> (go_error + nat)) option" where
  "deleteDeletedChildren now e name peerID hld =
     (case deletable_children e name of
        Inl err \<Rightarrow> Some (e, Inl err)
      | Inr (del, kept0) \<Rightarrow> map_option (\<lambda>(e', kept). (e', Inr kept)) (delete_each (del_fuel e) now e del peerID hld kept0))"

definition ApplyDeletion :: "int \<Rightarrow> Engine \<Rightarrow> string \<Rightarrow> uint64 \<Rightarrow> (Engine \<times> go_error option) option" where
  "ApplyDeletion now e name peerID =
     map_option (\<lambda>(e', r). (e', case r of Inl err \<Rightarrow> Some err | Inr _ \<Rightarrow> None)) (applyDeletion (del_fuel e) now e name peerID False)"

definition ApplyDeletionHeld :: "int \<Rightarrow> Engine \<Rightarrow> string \<Rightarrow> uint64 \<Rightarrow> (Engine \<times> (go_error + bool)) option" where
  "ApplyDeletionHeld now e name peerID = applyDeletion (del_fuel e) now e name peerID True"

section \<open>Moves\<close>

record Move =
  mv_From :: string
  mv_To :: string
  mv_Global :: FileInfo
  mv_PeerID :: uint64

definition add_source :: "(byte list, string list \<times> string list) gomap \<Rightarrow> byte list \<Rightarrow> string \<Rightarrow> (byte list, string list \<times> string list) gomap" where
  "add_source gs k n = (case mget gs k of None \<Rightarrow> mset_at gs k ([n], []) | Some (ss, ts) \<Rightarrow> mset_at gs k (ss @ [n], ts))"

definition add_target :: "(byte list, string list \<times> string list) gomap \<Rightarrow> byte list \<Rightarrow> string \<Rightarrow> (byte list, string list \<times> string list) gomap" where
  "add_target gs k n = (case mget gs k of None \<Rightarrow> mset_at gs k ([], [n]) | Some (ss, ts) \<Rightarrow> mset_at gs k (ss, ts @ [n]))"

fun move_of :: "peer_view \<Rightarrow> uint64 \<Rightarrow> byte list \<times> string list \<times> string list \<Rightarrow> Move option" where
  "move_of view peerID (k, [src], [tgt]) =
     (case mget view tgt of
        None \<Rightarrow> None
      | Some g \<Rightarrow> if Deleted g then None else Some \<lparr>mv_From = src, mv_To = tgt, mv_Global = g, mv_PeerID = peerID\<rparr>)"
| "move_of view peerID _ = None"

definition move_groups :: "Engine \<Rightarrow> peer_view \<Rightarrow> FileInfo list \<Rightarrow> (byte list, string list \<times> string list) gomap" where
  "move_groups e view lives =
     (let srcs = filter (\<lambda>fi. \<not> InFlight e (Name fi) \<and> (case mget view (Name fi) of Some g \<Rightarrow> Deleted g | None \<Rightarrow> False)) lives;
          tgts = filter (\<lambda>(n, g). \<not> Deleted g \<and> Type g = TypeFile \<and> n \<notin> set (map Name lives)) view
      in foldl (\<lambda>gs (n, g). add_target gs (contentKey g) n) (foldl (\<lambda>gs fi. add_source gs (contentKey fi) (Name fi)) [] srcs) tgts)"

definition PlanMoves :: "Engine \<Rightarrow> uint64 \<Rightarrow> go_error + Move list" where
  "PlanMoves e peerID =
     (if Direction e = ''send-only'' then Inr []
      else case mget (peers e) peerID of
          None \<Rightarrow> Inr []
        | Some view \<Rightarrow>
            if view = [] then Inr []
            else case Ix_ListAll (Ix e) of
                Inl err \<Rightarrow> Inl err
              | Inr fis \<Rightarrow>
                  Inr (sort_key mv_From (List.map_filter (move_of view peerID)
                    (move_groups e view (filter (\<lambda>fi. \<not> Deleted fi \<and> Type fi = TypeFile) fis)))))"

definition adoptObservedStat :: "FS \<Rightarrow> FileInfo \<Rightarrow> FileInfo" where
  "adoptObservedStat f fi =
     (case os_Stat f (Name fi) of
        Inl _ \<Rightarrow> fi
      | Inr n \<Rightarrow> (let (sz, s, ns, pm) = stat_fields f (Name fi) n in fi\<lparr>Size := sz, ModifiedS := s, ModifiedNs := ns, Mode := pm\<rparr>))"

definition ErrMoveReleased :: go_error where
  "ErrMoveReleased = Err ''move released''"

definition releaseMoveLocked :: "int \<Rightarrow> Engine \<Rightarrow> Move \<Rightarrow> FileInfo \<Rightarrow> bool \<Rightarrow> Engine \<times> go_error option" where
  "releaseMoveLocked now e m local preserve =
     (let (e1, held) = (if preserve then HoldLocal now e (mv_From m) else (e, False));
          e2 = (if held then e1 else e1\<lparr>fs := fst (os_Remove (fs e1) (mv_From m))\<rparr>)
      in case Bump (Version local) (NodeID e2) of
          Inl err \<Rightarrow> (e2, Some err)
        | Inr nv \<Rightarrow>
            (case IxPut e2 (tombstone (mv_From m) (Type local) nv) of
               (e3, _, Some err) \<Rightarrow> (e3, Some err)
             | (e3, _, None) \<Rightarrow> (e3, Some ErrMoveReleased)))"

definition applyMove :: "int \<Rightarrow> Engine \<Rightarrow> Move \<Rightarrow> bool \<Rightarrow> Engine \<times> go_error option" where
  "applyMove now e m preserve =
     (if mv_From m = mv_To m then (e, Some (Err ''move: source and target are the same path''))
      else case Ix_Get (Ix e) (mv_From m) of
          Inl err \<Rightarrow> (e, Some err)
        | Inr None \<Rightarrow> (e, Some (Err ''move: source no longer live''))
        | Inr (Some local) \<Rightarrow>
            if Deleted local then (e, Some (Err ''move: source no longer live''))
            else if \<not> sameContent local (mv_Global m) then (e, Some (Err ''move: source content changed since planning''))
            else case Ix_Get (Ix e) (mv_To m) of
                Inl err \<Rightarrow> (e, Some err)
              | Inr (Some _) \<Rightarrow> (e, Some (Err ''move: target already exists locally''))
              | Inr None \<Rightarrow>
                  if Include e \<noteq> None \<and> \<not> fst (Match (Include e) (mv_To m) False) then releaseMoveLocked now e m local preserve
                  else case MoveRelocates (fs e) (mv_From m) (mv_To m) (ModifiedS (mv_Global m)) (ModifiedNs (mv_Global m)) of
                      (f', Some err) \<Rightarrow> (e\<lparr>fs := f'\<rparr>, Some err)
                    | (f', None) \<Rightarrow>
                        (let e1 = e\<lparr>fs := f'\<rparr> in
                         case Bump (Version local) (NodeID e) of
                           Inl err \<Rightarrow> (e1, Some err)
                         | Inr nv \<Rightarrow>
                         (case IxPut e1 (tombstone (mv_From m) (Type local) nv) of
                            (e2, _, Some err) \<Rightarrow> (e2, Some err)
                          | (e2, _, None) \<Rightarrow>
                              (let (e3, _, err) = IxPut e2 (adoptObservedStat f' (CloneInfo (mv_Global m))) in (e3, err)))))"

definition ApplyMove :: "int \<Rightarrow> Engine \<Rightarrow> Move \<Rightarrow> Engine \<times> go_error option" where
  "ApplyMove now e m = applyMove now e m False"

definition ApplyMovePreserving :: "int \<Rightarrow> Engine \<Rightarrow> Move \<Rightarrow> Engine \<times> go_error option" where
  "ApplyMovePreserving now e m = applyMove now e m True"

section \<open>Directories and metadata\<close>

definition EnsureDir_engine :: "Engine \<Rightarrow> FileInfo \<Rightarrow> Engine \<times> go_error option" where
  "EnsureDir_engine e fi =
     (case EnsureDir (fs e) (Name fi) of
        (f', Some err) \<Rightarrow> (e\<lparr>fs := f'\<rparr>, Some err)
      | (f', None) \<Rightarrow> (let (e', _, err) = IxPut (e\<lparr>fs := f'\<rparr>) (CloneInfo fi) in (e', err)))"

definition AdoptMetadata :: "Engine \<Rightarrow> FileInfo \<Rightarrow> Engine \<times> go_error option" where
  "AdoptMetadata e fi = (let (e', _, err) = IxPut e (CloneInfo fi) in (e', err))"

section \<open>Configuration is not touched\<close>

definition cfg :: "Engine \<Rightarrow> (uint64, peer_view) gomap \<times> (string \<Rightarrow> uint64 \<Rightarrow> nat) \<times> (string, int) gomap option \<times> string \<times> Matcher \<times> ConflictPolicy \<times> VersioningCfg option \<times> uint64" where
  "cfg e = (peers e, map_ord e, inflight e, Direction e, Include e, Policy e, Versioning e, NodeID e)"

lemma cfg_simps [simp, eng_simps]:
  "cfg (e\<lparr>fs := f\<rparr>) = cfg e" "cfg (e\<lparr>hold := h\<rparr>) = cfg e" "cfg (e\<lparr>keptDirs := k\<rparr>) = cfg e"
  "cfg (noteKeptDir n e) = cfg e" "cfg (clearKeptDir n e) = cfg e" "cfg (emit c s p r l i e) = cfg e"
  by (simp_all add: cfg_def noteKeptDir_def clearKeptDir_def emit_def)

lemma IxPut_cfg: "IxPut e fi = (e', fi', err) \<Longrightarrow> cfg e' = cfg e \<and> fs e' = fs e"
  by (auto simp: IxPut_def cfg_def Let_def split: prod.splits if_splits)

lemma archive_local_cfg [simp]: "cfg (archive_local now e plan) = cfg e" "Ix (archive_local now e plan) = Ix e"
  by (auto simp: archive_local_def split: sum.splits fs_node.splits)

lemma index_copy_cfg: "index_copy e copy b bs = (e', r) \<Longrightarrow> cfg e' = cfg e \<and> fs e' = fs e"
  by (auto simp: index_copy_def dest!: IxPut_cfg split: sum.splits prod.splits option.splits)

lemma Execute_cfg: "Execute now e plan = (e', r) \<Longrightarrow> cfg e' = cfg e"
  by (auto simp: Execute_def Let_def dest!: index_copy_cfg split: prod.splits if_splits option.splits)

lemma HoldLocal_cfg: "HoldLocal now e n = (e', b) \<Longrightarrow> cfg e' = cfg e"
  by (auto simp: HoldLocal_def split: option.splits prod.splits)

lemma record_deletion_cfg: "record_deletion e n p h = (e', r) \<Longrightarrow> cfg e' = cfg e"
  by (auto simp: record_deletion_def dest!: IxPut_cfg split: sum.splits prod.splits option.splits)

lemma prepareDeletion_cfg: "prepareDeletion now e n p h = (e', st) \<Longrightarrow> cfg e' = cfg e"
  by (auto simp: prepareDeletion_def Let_def dest!: HoldLocal_cfg Execute_cfg split: sum.splits prod.splits if_splits)

lemma removeDir_cfg: "removeDir e n p k = (e', r) \<Longrightarrow> cfg e' = cfg e"
  by (auto simp: removeDir_def dest!: record_deletion_cfg split: prod.splits if_splits)

lemma removeLeaf_cfg: "removeLeaf e n p h = (e', r) \<Longrightarrow> cfg e' = cfg e"
  by (auto simp: removeLeaf_def dest!: record_deletion_cfg split: if_splits)

text \<open>One step of the recursion, as cases.\<close>

lemma applyDeletion_cases:
  assumes "applyDeletion fuel now e name p h = Some (e', r)"
  obtains k e1 where "fuel = Suc k" "prepareDeletion now e name p h = (e1, Finished r)" "e' = e1"
  | k e1 held where "fuel = Suc k" "prepareDeletion now e name p h = (e1, Leaf held)" "removeLeaf e1 name p held = (e', r)"
  | k e1 err where "fuel = Suc k" "prepareDeletion now e name p h = (e1, Tree)" "deletable_children e1 name = Inl err" "e' = e1"
  | k e1 del kept0 e2 kept where "fuel = Suc k" "prepareDeletion now e name p h = (e1, Tree)"
      "deletable_children e1 name = Inr (del, kept0)" "delete_each k now e1 del p h kept0 = Some (e2, kept)"
      "removeDir e2 name p kept = (e', r)"
  using assms by (cases fuel) (auto split: prod.splits del_stage.splits sum.splits option.splits)

lemma deletion_cfg:
  "applyDeletion fuel now e name p h = Some (e', r) \<Longrightarrow> cfg e' = cfg e"
  "delete_each fuel now e cs p h k = Some (e'', kept) \<Longrightarrow> cfg e'' = cfg e"
proof (induction fuel arbitrary: e name e' r cs k e'' kept)
  case 0
  { case 1 then show ?case by simp
  next case 2 then show ?case by (cases cs) auto }
next
  case (Suc fuel)
  have one: "cfg e' = cfg e" if "applyDeletion (Suc fuel) now e name p h = Some (e', r)" for e name e' r
    using that
    by (rule applyDeletion_cases) (auto dest!: prepareDeletion_cfg removeLeaf_cfg removeDir_cfg Suc.IH(2))
  { case 1 then show ?case by (rule one)
  next
    case 2
    then show ?case
    proof (induction cs arbitrary: e k)
      case (Cons c cs)
      then obtain e1 r1 where "applyDeletion (Suc fuel) now e c p h = Some (e1, r1)"
        "\<exists>k. delete_each (Suc fuel) now e1 cs p h k = Some (e'', kept)"
        by (auto simp del: applyDeletion.simps split: option.splits sum.splits prod.splits)
      then show ?case using one Cons.IH by fastforce
    qed simp }
qed

section \<open>The recursion into a directory ends\<close>

lemma scan_rows_mem: "scan_rows rs = Inr fis \<Longrightarrow> fi \<in> set fis \<Longrightarrow> \<exists>r \<in> set rs. scanRow r = Inr fi"
  by (induction rs arbitrary: fis) (auto split: sum.splits)

lemma ListPrefix_mem:
  assumes "Ix_ListPrefix ix (p @ ''/'') = Inr fis" and "fi \<in> set fis"
  shows "\<not> Deleted fi \<and> prefix (p @ ''/'') (Name fi)"
proof -
  have suf: "HasSuffix (p @ ''/'') ''/''" by (simp add: suffix_def)
  obtain r where "r_deleted r = 0" "p @ ''/'' \<le> r_name r" "r_name r < prefix_upper (p @ ''/'')" "scanRow r = Inr fi"
    using assms(1) suf by (auto simp: Ix_ListPrefix_def split: if_splits dest!: scan_rows_mem [OF _ assms(2)])
  then show ?thesis using prefix_upper_range [OF suf] scanRow_fields [of r fi] by auto
qed

lemma globally_deleted_known: "globally_deleted e fi \<Longrightarrow> \<not> Deleted fi \<Longrightarrow> Name fi \<in> set (view_names e)"
proof (rule ccontr)
  assume *: "globally_deleted e fi" "\<not> Deleted fi" "Name fi \<notin> set (view_names e)"
  then have "\<forall>v \<in> set (ranged e (Name fi)). mget v (Name fi) = None"
    by (fastforce simp: view_names_def mget_None_iff)
  then show False using *(1,2) global_loop_none [of "ranged e (Name fi)" "Name fi"] by (simp add: globally_deleted_def globalFrom_def)
qed

lemma deletable_child:
  assumes "deletable_children e name = Inr (del, k)" and "c \<in> set del"
  shows "\<exists>fi. Name fi = c \<and> \<not> Deleted fi \<and> \<not> InFlight e c \<and> globally_deleted e fi \<and> prefix (name @ ''/'') c"
    and "c \<in> set (view_names e)" and "length name < length c"
proof -
  obtain fis fi where *: "Ix_ListPrefix (Ix e) (name @ ''/'') = Inr fis" "fi \<in> set fis" "Name fi = c"
    "\<not> InFlight e c" "globally_deleted e fi"
    using assms by (auto simp: deletable_children_def Let_def split: sum.splits)
  then show "\<exists>fi. Name fi = c \<and> \<not> Deleted fi \<and> \<not> InFlight e c \<and> globally_deleted e fi \<and> prefix (name @ ''/'') c"
    "c \<in> set (view_names e)" "length name < length c"
    using ListPrefix_mem [OF *(1,2)] globally_deleted_known [OF *(5)] prefix_length_le [of "name @ ''/''" c] by auto
qed

lemma cfg_view_names: "cfg e' = cfg e \<Longrightarrow> view_names e' = view_names e"
  by (simp add: cfg_def view_names_def)

lemma deletion_total:
  "\<forall>n \<in> set (view_names e). length n \<le> L \<Longrightarrow> 0 < fuel \<Longrightarrow> L < fuel + length name \<Longrightarrow> applyDeletion fuel now e name p h \<noteq> None"
  "\<forall>n \<in> set (view_names e). length n \<le> L \<Longrightarrow> \<forall>c \<in> set cs. c \<in> set (view_names e) \<and> L < fuel + length c \<Longrightarrow>
     delete_each fuel now e cs p h k \<noteq> None"
proof (induction fuel arbitrary: e name cs k)
  case 0
  { case 1 then show ?case by simp
  next case 2 then show ?case by (cases cs) auto }
next
  case (Suc fuel)
  have one: "applyDeletion (Suc fuel) now e name p h \<noteq> None"
    if bound: "\<forall>n \<in> set (view_names e). length n \<le> L" and L: "L < Suc fuel + length name" for e name
  proof -
    obtain e1 st where prep: "prepareDeletion now e name p h = (e1, st)" by (cases "prepareDeletion now e name p h")
    have names: "view_names e1 = view_names e" using cfg_view_names [OF prepareDeletion_cfg [OF prep]] .
    have "delete_each fuel now e1 del p h k \<noteq> None" if "deletable_children e1 name = Inr (del, k)" for del k
      using Suc.IH(2) [of e1 del k] deletable_child(2,3) [OF that] bound L names by fastforce
    then show ?thesis using prep by (auto split: del_stage.splits sum.splits option.splits prod.splits)
  qed
  { case 1 then show ?case using one by blast
  next
    case 2
    then show ?case
    proof (induction cs arbitrary: e k)
      case (Cons c cs)
      obtain e1 r1 where r: "applyDeletion (Suc fuel) now e c p h = Some (e1, r1)"
        using one [of e c] Cons.prems by (cases "applyDeletion (Suc fuel) now e c p h") auto
      have "delete_each (Suc fuel) now e1 cs p h k' \<noteq> None" for k'
        using Cons.IH [of e1 k'] Cons.prems cfg_view_names [OF deletion_cfg(1) [OF r]] by simp
      then show ?case using r by (simp del: applyDeletion.simps split: sum.splits)
    qed simp }
qed

lemma fold_max_ge: "(x :: nat) \<le> fold max xs x" "y \<in> set xs \<Longrightarrow> y \<le> fold max xs x"
proof (induction xs arbitrary: x)
  case (Cons a xs)
  { case 1 show ?case using Cons(1) [of "max a x"] by simp
  next case 2 then show ?case using Cons(1) [of "max a x"] Cons(2) [of "max a x"] by auto }
qed simp_all

text \<open>C35. Applying a deletion always ends: whatever the index, the peer views, the disk and the errors on the way,
the recursion into a tombstoned directory is no deeper than the longest path in the peer views.\<close>

theorem deletion_terminates:
  "ApplyDeletion now e name peerID \<noteq> None \<and> ApplyDeletionHeld now e name peerID \<noteq> None"
proof -
  have "\<forall>n \<in> set (view_names e). length n \<le> fold max (map length (view_names e)) 0"
    using fold_max_ge(2) [of _ "map length (view_names e)" 0] by auto
  from deletion_total(1) [OF this, of "del_fuel e" name now peerID] show ?thesis
    by (simp add: ApplyDeletion_def ApplyDeletionHeld_def del_fuel_def del: applyDeletion.simps)
qed

section \<open>What a deletion may touch\<close>

definition deletable :: "Engine \<Rightarrow> string \<Rightarrow> bool" where
  "deletable e n \<longleftrightarrow> (case entry (Ix e) n of
     None \<Rightarrow> False | Some fi \<Rightarrow> \<not> Deleted fi \<and> \<not> InFlight e n \<and> globally_deleted e fi)"

text \<open>The same entry in the index and, for a path that is not the program's own, the same node on disk.\<close>

definition untouched :: "Engine \<Rightarrow> Engine \<Rightarrow> string \<Rightarrow> bool" where
  "untouched e e' n \<longleftrightarrow> entry (Ix e') n = entry (Ix e) n
     \<and> (\<not> IsReserved n \<longrightarrow> mget (nodes (fs e')) n = mget (nodes (fs e)) n)"

text \<open>The known type of a path agrees with the disk: what is not a directory in the global model is not one on disk.\<close>

definition types_ok :: "Engine \<Rightarrow> bool" where
  "types_ok e \<longleftrightarrow> (\<forall>n g. \<not> IsReserved n \<longrightarrow> fst (globalFrom e (entry (Ix e) n) n) = Some g \<longrightarrow> Type g \<noteq> TypeDirectory \<longrightarrow>
     mget (nodes (fs e)) n \<noteq> Some NDir)"

text \<open>Only \<open>name\<close> changed, and it is not a directory afterwards if it did.\<close>

definition only_at :: "string \<Rightarrow> Engine \<Rightarrow> Engine \<Rightarrow> bool" where
  "only_at name e e' \<longleftrightarrow> (\<forall>n. n \<noteq> name \<longrightarrow> untouched e e' n)
     \<and> (mget (nodes (fs e')) name \<noteq> Some NDir
        \<or> (entry (Ix e') name = entry (Ix e) name \<and> mget (nodes (fs e')) name = mget (nodes (fs e)) name))"

lemma untouched_refl [simp]: "untouched e e n"
  by (simp add: untouched_def)

lemma untouched_trans: "untouched e e1 n \<Longrightarrow> untouched e1 e2 n \<Longrightarrow> untouched e e2 n"
  by (simp add: untouched_def)

lemma only_at_refl [simp]: "only_at n e e"
  by (simp add: only_at_def)

lemma only_at_trans: "only_at n e e1 \<Longrightarrow> only_at n e1 e2 \<Longrightarrow> only_at n e e2"
  using untouched_trans unfolding only_at_def by metis

lemma globalFrom_cfg: "cfg e' = cfg e \<Longrightarrow> globalFrom e' l n = globalFrom e l n"
  by (simp add: cfg_def globalFrom_def ranged_def)

lemma only_at_types:
  assumes "only_at name e e'" and "cfg e' = cfg e" and "types_ok e"
  shows "types_ok e'"
  unfolding types_ok_def
proof (intro allI impI)
  fix n g assume n: "\<not> IsReserved n" "fst (globalFrom e' (entry (Ix e') n) n) = Some g" "Type g \<noteq> TypeDirectory"
  show "mget (nodes (fs e')) n \<noteq> Some NDir"
  proof (cases "entry (Ix e') n = entry (Ix e) n \<and> mget (nodes (fs e')) n = mget (nodes (fs e)) n")
    case True
    then have "fst (globalFrom e (entry (Ix e) n) n) = Some g" using n(2) globalFrom_cfg [OF assms(2)] by simp
    then show ?thesis using True assms(3) n unfolding types_ok_def by auto
  next
    case False
    then show ?thesis using assms(1) n(1) unfolding only_at_def untouched_def by (cases "n = name") auto
  qed
qed

lemma deletable_cong:
  assumes "cfg e' = cfg e" and "untouched e e' n"
  shows "deletable e' n = deletable e n"
  using assms globalFrom_cfg [OF assms(1)] InFlight_cong [of e' e]
  by (simp add: deletable_def untouched_def globally_deleted_def cfg_def split: option.splits)

section \<open>Each step changes only its own path\<close>

definition readable :: "Engine \<Rightarrow> bool" where
  "readable e \<longleftrightarrow> ix_wf (Ix e) \<and> \<not> fault_scan (Ix e) \<and> (\<forall>n. \<not> fault_read (Ix e) n)"

lemma readable_Get: "readable e \<Longrightarrow> Ix_Get (Ix e) n = Inr (entry (Ix e) n)"
  by (simp add: readable_def Ix_Get_entry)

lemma readable_simps [simp]:
  "readable (e\<lparr>fs := f\<rparr>) = readable e" "readable (e\<lparr>hold := h\<rparr>) = readable e"
  "readable (noteKeptDir n e) = readable e" "readable (clearKeptDir n e) = readable e" "readable (emit c s p r l i e) = readable e"
  by (simp_all add: readable_def noteKeptDir_def clearKeptDir_def emit_def)

lemma note_simps [simp]:
  "Ix (noteKeptDir n e) = Ix e" "fs (noteKeptDir n e) = fs e" "Ix (clearKeptDir n e) = Ix e" "fs (clearKeptDir n e) = fs e"
  by (simp_all add: noteKeptDir_def clearKeptDir_def)

lemma IxPut_frame:
  assumes "readable e" and "vwf (Version fi)" and "Sequence fi = 0" and "IxPut e fi = (e', fi', err)"
  shows "readable e'" and "n \<noteq> Name fi \<Longrightarrow> entry (Ix e') n = entry (Ix e) n" and "fs e' = fs e"
proof -
  obtain ix where ix: "Put (Ix e) fi = (ix, fi', err)"
    and e': "e' = (if err = None then markPendingNames (touched [Name fi]) (e\<lparr>Ix := ix\<rparr>) else e\<lparr>Ix := ix\<rparr>)"
    using assms(4) by (cases "Put (Ix e) fi") (auto simp: IxPut_def Let_def)
  have "Ix e' = ix" using e' by simp
  have "seq_ok (Ix e) fi" using assms(1,3) by (simp add: seq_ok_def readable_def ix_wf_def)
  then show "readable e'" using Put_reads [OF _ assms(2) _ ix] assms(1) \<open>Ix e' = ix\<close> by (auto simp: readable_def)
  show "n \<noteq> Name fi \<Longrightarrow> entry (Ix e') n = entry (Ix e) n"
    using Put_entry [OF assms(2) ix, of n] \<open>Ix e' = ix\<close> by (auto split: if_splits)
  show "fs e' = fs e" using e' by simp
qed

lemma record_deletion_frame:
  assumes "readable e" and "record_deletion e name p h = (e', r)"
  shows "readable e'" and "n \<noteq> name \<Longrightarrow> entry (Ix e') n = entry (Ix e) n" and "fs e' = fs e"
proof -
  let ?cur = "entry (Ix e) name"
  have "readable e' \<and> (n \<noteq> name \<longrightarrow> entry (Ix e') n = entry (Ix e) n) \<and> fs e' = fs e"
  proof (cases "bumped e ?cur")
    case (Inl err)
    then show ?thesis using assms by (auto simp: record_deletion_def readable_Get)
  next
    case (Inr nv)
    let ?t = "zero_info\<lparr>Name := name, Deleted := True, Version := nv\<rparr>"
    have wf: "vwf nv" using bumped_wf(1) [OF Inr] entry_wf(2) assms(1) by (auto simp: readable_def)
    obtain e1 fi' err where put: "IxPut e ?t = (e1, fi', err)" by (cases "IxPut e ?t")
    have "Ix e' = Ix e1 \<and> fs e' = fs e1 \<and> readable e' = readable e1"
      using assms put Inr by (auto simp: record_deletion_def readable_Get split: option.splits)
    then show ?thesis using IxPut_frame [OF assms(1) _ _ put] wf by (auto simp: zero_info_def)
  qed
  then show "readable e'" "n \<noteq> name \<Longrightarrow> entry (Ix e') n = entry (Ix e) n" "fs e' = fs e" by auto
qed

lemma only_at_record:
  assumes "readable e" and "record_deletion e name p h = (e', r)" and "mget (nodes (fs e)) name \<noteq> Some NDir"
  shows "only_at name e e'" and "readable e'"
  using record_deletion_frame [OF assms(1,2)] assms(3) by (auto simp: only_at_def untouched_def)

lemma only_at_remove:
  assumes "mget (nodes (fs e)) name \<noteq> Some NDir \<or> mget (nodes (fst (os_Remove (fs e) name))) name = None"
  shows "only_at name e (e\<lparr>fs := fst (os_Remove (fs e) name)\<rparr>)"
  using assms os_Remove_same [of _ name "fs e"] os_Remove_self [of "fs e" name] by (auto simp: only_at_def untouched_def)

lemma removeDir_step:
  assumes "readable e" and "removeDir e name p k = (e', r)"
  shows "only_at name e e'" and "readable e'"
proof -
  obtain f' err where rm: "os_Remove (fs e) name = (f', err)" by (cases "os_Remove (fs e) name")
  have "only_at name e e' \<and> readable e'"
  proof (cases "k > 0 \<or> (err \<noteq> None \<and> err \<noteq> Some NotExist)")
    case True
    then have "f' = fs e \<or> k > 0" using os_Remove_err rm by (cases err) auto
    then have "Ix e' = Ix e" "fs e' = fs e" "readable e' = readable e" using True assms rm by (auto simp: removeDir_def split: if_splits)
    then show ?thesis using assms(1) by (auto simp: only_at_def untouched_def)
  next
    case False
    then have rec: "record_deletion (clearKeptDir name (e\<lparr>fs := f'\<rparr>)) name p False = (e', r)" using assms(2) rm by (auto simp: removeDir_def)
    have gone: "mget (nodes f') name = None"
      using False rm by (auto simp: os_Remove_def split: option.splits if_splits)
    have "only_at name e (e\<lparr>fs := f'\<rparr>)" using only_at_remove [of e name] rm gone by simp
    moreover have "only_at name (clearKeptDir name (e\<lparr>fs := f'\<rparr>)) e'" "readable e'"
      using only_at_record [OF _ rec] assms(1) gone by auto
    moreover have "only_at name (e\<lparr>fs := f'\<rparr>) e'" using calculation(2) by (simp add: only_at_def untouched_def)
    ultimately show ?thesis using only_at_trans by blast
  qed
  then show "only_at name e e'" "readable e'" by auto
qed

lemma removeLeaf_step:
  assumes "readable e" and "removeLeaf e name p h = (e', r)" and "mget (nodes (fs e)) name \<noteq> Some NDir"
  shows "only_at name e e'" and "readable e'"
proof -
  let ?e1 = "if h then e else e\<lparr>fs := fst (os_Remove (fs e) name)\<rparr>"
  have at: "only_at name e ?e1" using only_at_remove [of e name] assms(3) by auto
  moreover have "mget (nodes (fs ?e1)) name \<noteq> Some NDir" using os_Remove_self [of "fs e" name] assms(3) by auto
  moreover have "readable ?e1" "record_deletion ?e1 name p h = (e', r)" using assms(1,2) by (auto simp: removeLeaf_def)
  ultimately show "only_at name e e'" "readable e'"
    using only_at_record [of ?e1 name p h e' r] only_at_trans [OF at] by auto
qed

lemma archive_local_step:
  assumes "\<not> IsReserved name" and "op_Name plan = name"
  shows "only_at name e (archive_local now e plan)"
proof (cases "\<exists>d s ns pm. op_ArchiveLocal plan \<and> os_Stat (fs e) name = Inr (NFile d s ns pm)")
  case True
  then obtain d s ns pm where st: "op_ArchiveLocal plan" "os_Stat (fs e) name = Inr (NFile d s ns pm)" by auto
  let ?f = "fst (Archive now (Versioning e) (fs e) name (s * 1000000000 + ns))"
  have "is_file (fs e) name" using st(2) by (auto simp: os_Stat_def is_file_def split: if_splits option.splits)
  then have frame: "mget (nodes ?f) n = mget (nodes (fs e)) n \<or> (n = name \<and> mget (nodes ?f) n = None)" if "\<not> IsReserved n" for n
    using Archive_frame reserved_areas(1) assms(1) that by blast
  have "fs (archive_local now e plan) = ?f" using st assms(2) by (simp add: archive_local_def)
  then show ?thesis using frame assms(1) frame [of name] by (auto simp: only_at_def untouched_def)
next
  case False
  then have "archive_local now e plan = e" using assms(2) by (auto simp: archive_local_def split: sum.splits fs_node.splits)
  then show ?thesis by simp
qed

lemma HoldLocal_step:
  assumes "\<not> IsReserved name" and "clean name = name" and "mget (nodes (fs e)) name \<noteq> Some NDir" and "HoldLocal now e name = (e', b)"
  shows "only_at name e e'" and "readable e' = readable e" and "mget (nodes (fs e')) name \<noteq> Some NDir"
proof -
  have *: "only_at name e e' \<and> readable e' = readable e \<and> mget (nodes (fs e')) name \<noteq> Some NDir"
  proof (cases "hold e")
    case None
    then show ?thesis using assms(3,4) by (auto simp: HoldLocal_def)
  next
    case (Some s)
    obtain f' s' err where mv: "Hold_Move (now div 1000000000) (fs e) s name = (f', s', err)"
      by (cases "Hold_Move (now div 1000000000) (fs e) s name") auto
    have "mget (nodes f') n = mget (nodes (fs e)) n \<or> (n = name \<and> mget (nodes f') n = None)" if "\<not> IsReserved n" for n
      using Hold_Move_frame [OF mv assms(2,3)] reserved_areas(2) assms(1) that by blast
    then show ?thesis using mv Some assms by (fastforce simp: HoldLocal_def only_at_def untouched_def)
  qed
  then show "only_at name e e'" "readable e' = readable e" "mget (nodes (fs e')) name \<noteq> Some NDir" by auto
qed

text \<open>No conflict copies are made: the policy does not ask for them or the versions area preserves the local copy.\<close>

definition no_copies :: "Engine \<Rightarrow> bool" where
  "no_copies e \<longleftrightarrow> Policy e \<noteq> ConflictCopy \<or> versioning_on e"

lemma PlanOverwrite_plan:
  assumes "PlanOverwrite e name = Inr plan" and "readable e"
  shows "op_Name plan = name" and "fst (globalFrom e (entry (Ix e) name) name) = Some (op_Global plan)"
    and "no_copies e \<Longrightarrow> \<not> op_MakeConflictCopy plan"
  using assms by (auto simp: PlanOverwrite_def globalForLocked_def readable_Get no_copies_def Let_def split: option.splits prod.splits if_splits)

lemma prepareDeletion_step:
  assumes "readable e" and "types_ok e" and "hld \<or> no_copies e" and "\<not> IsReserved name" and "hld \<longrightarrow> clean name = name"
    and "prepareDeletion now e name p hld = (e1, st)"
  shows "only_at name e e1" and "readable e1" and "st = Leaf b \<Longrightarrow> mget (nodes (fs e1)) name \<noteq> Some NDir"
proof -
  have *: "only_at name e e1 \<and> readable e1 \<and> (st = Leaf b \<longrightarrow> mget (nodes (fs e1)) name \<noteq> Some NDir)"
  proof (cases "PlanOverwrite e name")
    case (Inl err)
    then show ?thesis using assms(1,6) by (auto simp: prepareDeletion_def)
  next
    case (Inr plan)
    note plan = PlanOverwrite_plan [OF Inr assms(1)]
    let ?plan = "plan\<lparr>op_PeerID := p\<rparr>" and ?a = "archive_local now e (plan\<lparr>op_PeerID := p\<rparr>)"
    have arch: "only_at name e ?a" "readable ?a" "op_Name ?plan = name"
      using archive_local_step [OF assms(4), of ?plan e now] plan(1) assms(1) by (auto simp: readable_def)
    have leaf: "mget (nodes (fs e)) name \<noteq> Some NDir" if "Type (op_Global plan) \<noteq> TypeDirectory"
      using assms(2,4) plan(2) that unfolding types_ok_def by blast
    then have leafa: "mget (nodes (fs ?a)) name \<noteq> Some NDir" if "Type (op_Global plan) \<noteq> TypeDirectory"
      using arch(1) that unfolding only_at_def by auto
    have exec: "Execute now e ?plan = (?a, Inr None)" if "\<not> hld"
      using plan(3) assms(3) that by (simp add: Execute_def)
    consider "already_deleted e name ?plan" | "\<not> already_deleted e name ?plan" "hld" | "\<not> already_deleted e name ?plan" "\<not> hld" by blast
    then show ?thesis
    proof cases
      case 1
      then show ?thesis using assms(1,6) Inr by (auto simp: prepareDeletion_def Let_def)
    next
      case 2
      obtain e2 held where hl: "HoldLocal now e name = (e2, held)" by (cases "HoldLocal now e name")
      show ?thesis
      proof (cases "Type (op_Global plan) = TypeDirectory")
        case True
        then show ?thesis using 2 assms(1,6) Inr by (auto simp: prepareDeletion_def Let_def)
      next
        case False
        then have "e1 = e2" using 2 assms(6) Inr hl by (auto simp: prepareDeletion_def Let_def)
        then show ?thesis using HoldLocal_step [OF assms(4) _ leaf [OF False] hl] 2 assms(1,5) by auto
      qed
    next
      case 3
      then have "e1 = ?a" "st = Leaf b \<Longrightarrow> Type (op_Global plan) \<noteq> TypeDirectory"
        using assms(6) Inr exec by (auto simp: prepareDeletion_def Let_def split: if_splits)
      then show ?thesis using arch leafa by auto
    qed
  qed
  then show "only_at name e e1" "readable e1" "st = Leaf b \<Longrightarrow> mget (nodes (fs e1)) name \<noteq> Some NDir" by auto
qed

definition del_ok :: "bool \<Rightarrow> Engine \<Rightarrow> bool" where
  "del_ok hld e \<longleftrightarrow> readable e \<and> types_ok e \<and> (hld \<or> no_copies e)
     \<and> (\<forall>n \<in> set (view_names e). \<not> IsReserved n \<and> (hld \<longrightarrow> clean n = n))"

lemma del_ok_step: "del_ok hld e \<Longrightarrow> only_at name e e' \<Longrightarrow> cfg e' = cfg e \<Longrightarrow> readable e' \<Longrightarrow> del_ok hld e'"
  using only_at_types [of name e e'] cfg_view_names [of e' e] by (auto simp: del_ok_def no_copies_def versioning_on_def cfg_def)

lemma children_deletable:
  assumes "readable e" and "deletable_children e name = Inr (del, k)" and "c \<in> set del"
  shows "deletable e c" and "prefix (name @ ''/'') c"
proof -
  obtain fis fi where *: "Ix_ListPrefix (Ix e) (name @ ''/'') = Inr fis" "fi \<in> set fis" "Name fi = c"
    "\<not> InFlight e c" "globally_deleted e fi"
    using assms by (auto simp: deletable_children_def Let_def split: sum.splits)
  have "HasSuffix (name @ ''/'') ''/''" by (simp add: suffix_def)
  then have "fi \<in> set (entries (Ix e))"
    using *(1,2) Ix_ListPrefix_rows [of "Ix e" "name @ ''/''"] assms(1) by (auto simp: readable_def entries_def)
  then have "entry (Ix e) c = Some fi" using entries_mem [of "Ix e" fi c] assms(1) *(3) by (simp add: readable_def)
  then show "deletable e c" "prefix (name @ ''/'') c"
    using * ListPrefix_mem [OF *(1,2)] by (simp_all add: deletable_def)
qed

lemma deletion_frame:
  "del_ok hld e \<Longrightarrow> \<not> IsReserved name \<Longrightarrow> hld \<longrightarrow> clean name = name \<Longrightarrow> applyDeletion fuel now e name p hld = Some (e', r) \<Longrightarrow>
     del_ok hld e' \<and> (\<forall>n. n \<noteq> name \<and> \<not> (deletable e n \<and> prefix (name @ ''/'') n) \<longrightarrow> untouched e e' n)"
  "del_ok hld e \<Longrightarrow> set cs \<subseteq> set (view_names e) \<Longrightarrow> delete_each fuel now e cs p hld k = Some (e'', kept) \<Longrightarrow>
     del_ok hld e'' \<and> (\<forall>n. n \<notin> set cs \<and> \<not> (deletable e n \<and> (\<exists>c \<in> set cs. prefix (c @ ''/'') n)) \<longrightarrow> untouched e e'' n)"
proof (induction fuel arbitrary: e name e' r cs k e'' kept)
  case 0
  { case 1 then show ?case by simp
  next case 2 then show ?case by (cases cs) auto }
next
  case (Suc fuel)
  have one: "del_ok hld e' \<and> (\<forall>n. n \<noteq> name \<and> \<not> (deletable e n \<and> prefix (name @ ''/'') n) \<longrightarrow> untouched e e' n)"
    if ok: "del_ok hld e" and nm: "\<not> IsReserved name" "hld \<longrightarrow> clean name = name"
      and run: "applyDeletion (Suc fuel) now e name p hld = Some (e', r)" for e name e' r
  proof -
    obtain e1 st where prep: "prepareDeletion now e name p hld = (e1, st)" by (cases "prepareDeletion now e name p hld")
    note p1 = prepareDeletion_step [OF _ _ _ nm prep]
    have at1: "only_at name e e1" "readable e1" using p1(1,2) ok by (auto simp: del_ok_def)
    have cfg1: "cfg e1 = cfg e" using prepareDeletion_cfg [OF prep] .
    have ok1: "del_ok hld e1" using del_ok_step [OF ok at1(1) cfg1 at1(2)] .
    have simple: ?thesis if at2: "only_at name e1 e'" "readable e'" "cfg e' = cfg e1"
      using del_ok_step [OF ok1 at2(1,3,2)] only_at_trans [OF at1(1) at2(1)] by (auto simp: only_at_def)
    from run show ?thesis
    proof (rule applyDeletion_cases)
      fix k e1' assume "prepareDeletion now e name p hld = (e1', Finished r)" "e' = e1'"
      then show ?thesis using simple prep at1(2) by simp
    next
      fix k e1' held assume *: "prepareDeletion now e name p hld = (e1', Leaf held)" "removeLeaf e1' name p held = (e', r)"
      then show ?thesis using simple prep removeLeaf_step [OF at1(2), of name p held] removeLeaf_cfg [OF *(2)] p1(3) ok
        by (auto simp: del_ok_def)
    next
      fix k e1' err assume "prepareDeletion now e name p hld = (e1', Tree)" "e' = e1'"
      then show ?thesis using simple prep at1(2) by simp
    next
      fix k e1' del kept0 e2 kept
      assume *: "Suc fuel = Suc k" "prepareDeletion now e name p hld = (e1', Tree)" "deletable_children e1' name = Inr (del, kept0)"
        "delete_each k now e1' del p hld kept0 = Some (e2, kept)" "removeDir e2 name p kept = (e', r)"
      then have e1: "e1' = e1" "k = fuel" using prep by auto
      note del = *(3) [unfolded e1]
      have sub: "set del \<subseteq> set (view_names e1)" using deletable_child(2) [OF del] by blast
      note loop = Suc.IH(2) [OF ok1 sub *(4) [unfolded e1]]
      have cfg2: "cfg e2 = cfg e" using deletion_cfg(2) [OF *(4)] e1 cfg1 by simp
      have at3: "only_at name e2 e'" "readable e'" using removeDir_step [OF _ *(5)] loop by (auto simp: del_ok_def)
      have "del_ok hld e'" using del_ok_step [OF _ at3(1) _ at3(2)] loop removeDir_cfg [OF *(5)] by blast
      moreover have "untouched e e' n" if n: "n \<noteq> name" "\<not> (deletable e n \<and> prefix (name @ ''/'') n)" for n
      proof -
        have u1: "untouched e e1 n" using at1(1) n(1) by (simp add: only_at_def)
        have d1: "deletable e1 n = deletable e n" using deletable_cong [OF cfg1 u1] .
        have "n \<notin> set del" using children_deletable [OF at1(2) del] d1 n(2) by blast
        moreover have "\<not> (deletable e1 n \<and> (\<exists>c \<in> set del. prefix (c @ ''/'') n))"
        proof
          assume "deletable e1 n \<and> (\<exists>c \<in> set del. prefix (c @ ''/'') n)"
          then obtain c where "c \<in> set del" "prefix (c @ ''/'') n" "deletable e n" using d1 by auto
          then show False using children_deletable(2) [OF at1(2) del] n(2)
            by (meson append_prefixD prefix_order.trans)
        qed
        ultimately have "untouched e1 e2 n" using loop by blast
        moreover have "untouched e2 e' n" using at3(1) n(1) by (simp add: only_at_def)
        ultimately show ?thesis using u1 untouched_trans by blast
      qed
      ultimately show ?thesis by blast
    qed
  qed
  { case 1 then show ?case using one by blast
  next
    case 2
    then show ?case
    proof (induction cs arbitrary: e k)
      case (Cons c cs)
      obtain e1 r1 k1 where r: "applyDeletion (Suc fuel) now e c p hld = Some (e1, r1)"
        "delete_each (Suc fuel) now e1 cs p hld k1 = Some (e'', kept)"
        using Cons.prems(3) by (auto simp del: applyDeletion.simps split: option.splits sum.splits prod.splits)
      have c: "\<not> IsReserved c" "hld \<longrightarrow> clean c = c" using Cons.prems(1,2) by (auto simp: del_ok_def)
      note f1 = one [OF Cons.prems(1) c r(1)]
      have cfg1: "cfg e1 = cfg e" using deletion_cfg(1) [OF r(1)] .
      have sub: "set cs \<subseteq> set (view_names e1)" using Cons.prems(2) cfg_view_names [OF cfg1] by simp
      note f2 = Cons.IH [OF f1 [THEN conjunct1] sub r(2)]
      have "untouched e e'' n" if n: "n \<notin> set (c # cs)" "\<not> (deletable e n \<and> (\<exists>d \<in> set (c # cs). prefix (d @ ''/'') n))" for n
      proof -
        have u: "untouched e e1 n" using f1 n by auto
        then have "deletable e1 n = deletable e n" using deletable_cong [OF cfg1] by blast
        then have "untouched e1 e'' n" using f2 n by auto
        then show ?thesis using u untouched_trans by blast
      qed
      then show ?case using f2 by blast
    qed simp }
qed


definition dir_tombstone :: FileInfo where
  "dir_tombstone = zero_info\<lparr>Name := ''d'', Type := TypeDirectory, Deleted := True, Version := Some [(2, 1)]\<rparr>"

definition dir_engine :: Engine where
  "dir_engine = fresh_engine\<lparr>Ix := put_ok empty_index (sample ''d/x''), peers := [(7, [(''d'', dir_tombstone)])],
     fs := empty_fs\<lparr>nodes := [(''d'', NDir), (''d/x'', NFile [1] 0 0 420)]\<rparr>\<rparr>"

lemma dir_engine_entry: "entry (Ix dir_engine) n = (if n = ''d/x'' then Some ((sample ''d/x'')\<lparr>Sequence := 1\<rparr>) else None)"
  by (simp add: dir_engine_def) (simp add: entry_def empty_index_def)

lemma dir_engine_ok: "del_ok True dir_engine"
proof -
  have "readable dir_engine" by (simp add: readable_def dir_engine_def healthy_simps)
  moreover have "types_ok dir_engine"
    unfolding types_ok_def dir_engine_entry
    by (auto simp: dir_engine_def globalFrom_def dir_tombstone_def split: if_splits)
  moreover have "view_names dir_engine = [''d'']" by (simp add: view_names_def dir_engine_def)
  moreover have "\<not> IsReserved ''d''" "clean ''d'' = ''d''" by (code_simp, code_simp)
  ultimately show ?thesis by (simp add: del_ok_def)
qed


section \<open>Moves are exact pairs\<close>

definition move_sources :: "Engine \<Rightarrow> peer_view \<Rightarrow> FileInfo set" where
  "move_sources e view = {l. entry (Ix e) (Name l) = Some l \<and> \<not> Deleted l \<and> Type l = TypeFile \<and> \<not> InFlight e (Name l)
     \<and> (\<exists>g. mget view (Name l) = Some g \<and> Deleted g)}"

definition move_targets :: "Engine \<Rightarrow> peer_view \<Rightarrow> (string \<times> FileInfo) set" where
  "move_targets e view = {(n, g). mget view n = Some g \<and> \<not> Deleted g \<and> Type g = TypeFile
     \<and> \<not> (\<exists>l. entry (Ix e) n = Some l \<and> \<not> Deleted l \<and> Type l = TypeFile)}"

definition group_at :: "(byte list, string list \<times> string list) gomap \<Rightarrow> byte list \<Rightarrow> string list \<times> string list" where
  "group_at gs k = (case mget gs k of None \<Rightarrow> ([], []) | Some g \<Rightarrow> g)"

lemma group_at_add:
  "group_at (add_source gs k n) k' = (if k' = k then (fst (group_at gs k) @ [n], snd (group_at gs k)) else group_at gs k')"
  "group_at (add_target gs k n) k' = (if k' = k then (fst (group_at gs k), snd (group_at gs k) @ [n]) else group_at gs k')"
  "mwf gs \<Longrightarrow> mwf (add_source gs k n)" "mwf gs \<Longrightarrow> mwf (add_target gs k n)"
  by (auto simp: group_at_def add_source_def add_target_def split: option.splits)

lemma group_at_sources:
  "mwf gs \<Longrightarrow> mwf (foldl (\<lambda>gs fi. add_source gs (contentKey fi) (Name fi)) gs fis) \<and>
   group_at (foldl (\<lambda>gs fi. add_source gs (contentKey fi) (Name fi)) gs fis) k =
     (fst (group_at gs k) @ map Name (filter (\<lambda>fi. contentKey fi = k) fis), snd (group_at gs k))"
proof (induction fis arbitrary: gs)
  case (Cons fi fis)
  then show ?case using Cons.IH [of "add_source gs (contentKey fi) (Name fi)"] by (simp add: group_at_add)
qed simp

lemma group_at_targets:
  "mwf gs \<Longrightarrow> mwf (foldl (\<lambda>gs (n, g). add_target gs (contentKey g) n) gs vs) \<and>
   group_at (foldl (\<lambda>gs (n, g). add_target gs (contentKey g) n) gs vs) k =
     (fst (group_at gs k), snd (group_at gs k) @ map fst (filter (\<lambda>(n, g). contentKey g = k) vs))"
proof (induction vs arbitrary: gs)
  case (Cons v vs)
  obtain n g where "v = (n, g)" by (cases v)
  then show ?case using Cons.IH [of "add_target gs (contentKey g) n"] Cons.prems by (simp add: group_at_add)
qed simp

lemma move_of_Some_iff:
  "move_of view pid (k, ss, ts) = Some m \<longleftrightarrow> ss = [mv_From m] \<and> ts = [mv_To m] \<and> mget view (mv_To m) = Some (mv_Global m)
     \<and> \<not> Deleted (mv_Global m) \<and> mv_PeerID m = pid"
  by (induction view pid "(k, ss, ts)" rule: move_of.induct) (auto split: option.splits if_splits)

lemma set_map_filter: "y \<in> set (List.map_filter f xs) \<longleftrightarrow> (\<exists>x \<in> set xs. f x = Some y)"
  by (induction xs) (auto simp: List.map_filter_simps split: option.splits)

lemma distinct_map_filter:
  "distinct xs \<Longrightarrow> (\<And>x y a b. x \<in> set xs \<Longrightarrow> y \<in> set xs \<Longrightarrow> f x = Some a \<Longrightarrow> f y = Some b \<Longrightarrow> h a = h b \<Longrightarrow> x = y) \<Longrightarrow>
     distinct (map h (List.map_filter f xs))"
proof (induction xs)
  case (Cons x xs)
  then have "distinct (map h (List.map_filter f xs))" by simp
  moreover have "h a \<notin> h ` set (List.map_filter f xs)" if "f x = Some a" for a
    using Cons.prems that by (fastforce simp: List.map_filter_def)
  ultimately show ?case by (auto simp: List.map_filter_simps split: option.splits)
qed (simp add: List.map_filter_simps)

lemma distinct_set_single: "distinct ys \<Longrightarrow> set ys = {t} \<Longrightarrow> ys = [t]"
proof (cases ys)
  case (Cons a as)
  assume "distinct ys" "set ys = {t}"
  then have "a = t" "set as \<subseteq> {t}" "t \<notin> set as" using Cons by auto
  then show ?thesis using Cons by (cases as) auto
qed simp

lemma map_filter_single:
  assumes "distinct (map h xs)"
  shows "map h (filter P xs) = [t] \<longleftrightarrow> (\<exists>x \<in> set xs. h x = t \<and> P x) \<and> (\<forall>y \<in> set xs. P y \<longrightarrow> h y = t)"
proof
  assume "map h (filter P xs) = [t]"
  then have "h ` {x \<in> set xs. P x} = {t}" by (metis (mono_tags) list.set_map set_filter list.simps(15) empty_set)
  then show "(\<exists>x \<in> set xs. h x = t \<and> P x) \<and> (\<forall>y \<in> set xs. P y \<longrightarrow> h y = t)" by blast
next
  assume "(\<exists>x \<in> set xs. h x = t \<and> P x) \<and> (\<forall>y \<in> set xs. P y \<longrightarrow> h y = t)"
  then have "set (map h (filter P xs)) = {t}" by auto
  moreover have "distinct (map h (filter P xs))" using assms by (simp add: distinct_map_filter [where f = Some] distinct_map inj_on_def)
  ultimately show "map h (filter P xs) = [t]" by (intro distinct_set_single)
qed

text \<open>The only source, and the only target, of a content.\<close>

definition sole_source :: "Engine \<Rightarrow> peer_view \<Rightarrow> byte list \<Rightarrow> string \<Rightarrow> bool" where
  "sole_source e view k s \<longleftrightarrow> (\<exists>l \<in> move_sources e view. Name l = s \<and> contentKey l = k)
     \<and> (\<forall>l \<in> move_sources e view. contentKey l = k \<longrightarrow> Name l = s)"

definition sole_target :: "Engine \<Rightarrow> peer_view \<Rightarrow> byte list \<Rightarrow> string \<Rightarrow> bool" where
  "sole_target e view k t \<longleftrightarrow> (\<exists>g. (t, g) \<in> move_targets e view \<and> contentKey g = k)
     \<and> (\<forall>n g. (n, g) \<in> move_targets e view \<longrightarrow> contentKey g = k \<longrightarrow> n = t)"

lemma move_groups_spec:
  assumes "readable e" and "mwf view"
  defines "lives \<equiv> filter (\<lambda>fi. \<not> Deleted fi \<and> Type fi = TypeFile) (entries (Ix e))"
  shows "mwf (move_groups e view lives)"
    and "group_at (move_groups e view lives) k = ([s], [t]) \<longleftrightarrow> sole_source e view k s \<and> sole_target e view k t"
proof -
  let ?srcs = "filter (\<lambda>fi. \<not> InFlight e (Name fi) \<and> (case mget view (Name fi) of Some g \<Rightarrow> Deleted g | None \<Rightarrow> False)) lives"
  let ?tgts = "filter (\<lambda>(n, g). \<not> Deleted g \<and> Type g = TypeFile \<and> n \<notin> set (map Name lives)) view"
  have wf: "ix_wf (Ix e)" using assms(1) by (simp add: readable_def)
  have set_src: "set ?srcs = move_sources e view"
    by (auto simp: move_sources_def lives_def in_entries_iff [OF wf] split: option.splits)
  have live: "n \<in> set (map Name lives) \<longleftrightarrow> (\<exists>l. entry (Ix e) n = Some l \<and> \<not> Deleted l \<and> Type l = TypeFile)" for n
    unfolding lives_def using entries_mem [OF wf, of _ n] by (simp add: image_iff) metis
  have set_tgt: "set ?tgts = move_targets e view"
    unfolding move_targets_def live [symmetric] using mget_eq_Some_iff [OF assms(2)] by auto
  have dist: "distinct (map Name ?srcs)" "distinct (map fst ?tgts)"
    using distinct_entries [OF wf] assms(2) by (auto simp: lives_def mwf_def mkeys_def distinct_map inj_on_def)
  note s = group_at_sources [of "[]" ?srcs, OF mwf_Nil]
  note t = group_at_targets [of _ ?tgts, OF s [THEN conjunct1]]
  show "mwf (move_groups e view lives)" using t by (simp only: move_groups_def Let_def)
  have "group_at (move_groups e view lives) k = (map Name (filter (\<lambda>fi. contentKey fi = k) ?srcs), map fst (filter (\<lambda>(n, g). contentKey g = k) ?tgts))"
    using t s by (simp only: move_groups_def Let_def) (simp add: group_at_def)
  moreover have "map Name (filter (\<lambda>fi. contentKey fi = k) ?srcs) = [s] \<longleftrightarrow> sole_source e view k s"
    unfolding map_filter_single [OF dist(1)] set_src sole_source_def ..
  moreover have "map fst (filter (\<lambda>(n, g). contentKey g = k) ?tgts) = [t] \<longleftrightarrow> sole_target e view k t"
    unfolding map_filter_single [OF dist(2)] set_tgt sole_target_def split_paired_Ball_Sigma Bex_def Ball_def split_paired_Ex split_paired_All
      fst_conv case_prod_conv by (rule conj_cong; blast)
  ultimately show "group_at (move_groups e view lives) k = ([s], [t]) \<longleftrightarrow> sole_source e view k s \<and> sole_target e view k t"
    by simp
qed


definition moved_view :: peer_view where
  "moved_view = [(''d/x'', (sample ''d/x'')\<lparr>Deleted := True\<rparr>), (''y'', sample ''y'')]"

definition move_engine :: Engine where
  "move_engine = dir_engine\<lparr>peers := [(7, moved_view)]\<rparr>"


section \<open>Findings\<close>

text \<open>The tombstone written for a remote deletion forgets the type: after a directory deletion was applied, the
index holds the path as a deleted file, and that is what the next device is told.\<close>

theorem deleted_directory_becomes_file:
  "\<exists>e. (case applyDeletion 3 0 e ''d'' 7 False of
      Some (e', Inr _) \<Rightarrow> fst (globalFrom e None ''d'') = Some dir_tombstone \<and> mget (nodes (fs e')) ''d'' = None
        \<and> (case mget (files (Ix e')) ''d'' of Some row \<Rightarrow> r_deleted row = 1 \<and> int_type (r_type row) = TypeFile | None \<Rightarrow> False)
    | _ \<Rightarrow> False)"
  by (rule exI [of _ "dir_engine\<lparr>Ix := empty_index, fs := empty_fs\<lparr>nodes := [(''d'', NDir)]\<rparr>\<rparr>"]) code_simp

text \<open>Holding a deleted file trims the spaces of its name, so it can take another file: holding the letter a followed by a
space moves the file named by the letter alone, which nobody deleted, out of the folder.\<close>

theorem hold_takes_other_file:
  "let f = empty_fs\<lparr>nodes := [(''a'', NFile [1] 0 0 420), (''a '', NFile [2] 0 0 420)]\<rparr>; r = Hold_Move 0 f New_Store ''a ''
   in snd (snd r) = None \<and> mget (nodes (fst r)) ''a'' = None \<and> mget (nodes (fst r)) ''a '' = Some (NFile [2] 0 0 420)"
  by code_simp

text \<open>Deleting a held path that cleans to the empty path removes the whole hold area.\<close>

lemma hold_delete_wipes:
  "let f = empty_fs\<lparr>nodes := [(''.sfx-hold'', NDir), (''.sfx-hold/a'', NFile [1] 0 0 420)]\<rparr>; r = Hold_Delete f New_Store ''../x''
   in snd (snd r) = None \<and> nodes (fst r) = []"
  by code_simp

end
