(* ===== verification/Pull.thy ===== *)
theory Pull
  imports Remote_Apply
begin

text \<open>
  Downloading one file: the pull of \<^verbatim>\<open>internal/sync/engine.go\<close> (\<^verbatim>\<open>StartPull\<close> to \<^verbatim>\<open>Finish\<close>), runs of blocks
  (\<^verbatim>\<open>pull_run.go\<close>) and the reuse of local blocks (\<^verbatim>\<open>block_reuse.go\<close>). The open temporary file is its path, so
  writes go to the tree of the engine; a failing \<^verbatim>\<open>Sync\<close> is a failing write to it. An index query that
  fails reports no rows.
\<close>

section \<open>State\<close>

record Pull =
  pl_name :: string
  pl_info :: FileInfo
  pl_tmp :: string
  pl_written :: "bool list"
  pl_peerID :: uint64
  pl_donor :: string
  pl_reused :: int

record BlockNeed =
  bn_Index :: nat
  bn_Offset :: int
  bn_Size :: int
  bn_Hash :: "byte list"

section \<open>Blocks still missing\<close>

definition NeedBlocks :: "Pull \<Rightarrow> BlockNeed list" where
  "NeedBlocks p =
     map (\<lambda>i. \<lparr>bn_Index = i, bn_Offset = int64 (int i * BlockSize (pl_info p)), bn_Size = blockSizeAt (pl_info p) i,
            bn_Hash = Blocks (pl_info p) ! i\<rparr>)
       (filter (\<lambda>i. \<not> pl_written p ! i) [0..<length (Blocks (pl_info p))])"

definition write_temp :: "Engine \<Rightarrow> string \<Rightarrow> byte list \<Rightarrow> int \<Rightarrow> Engine \<times> go_error option" where
  "write_temp e tmp data off =
     (if off < 0 then (e, Some (Err ''negative offset''))
      else case os_modify (fs e) tmp (written_at data (nat off)) of (f', err) \<Rightarrow> (e\<lparr>fs := f'\<rparr>, err))"

definition read_file :: "FS \<Rightarrow> string \<Rightarrow> int \<Rightarrow> int \<Rightarrow> go_error + byte list" where
  "read_file f path n off = (if off < 0 then Inl (Err ''negative offset'') else os_ReadAt f path (nat n) (nat off))"

definition add_down :: "int \<Rightarrow> Engine \<Rightarrow> Engine" where
  "add_down n e = e\<lparr>Stats := (Stats e)\<lparr>BytesDown := BytesDown (Stats e) + n\<rparr>\<rparr>"

definition mark_written :: "nat \<Rightarrow> Pull \<Rightarrow> Pull" where
  "mark_written i p = p\<lparr>pl_written := (pl_written p)[i := True]\<rparr>"

definition ReceiveBlock :: "Engine \<Rightarrow> Pull \<Rightarrow> int \<Rightarrow> byte list \<Rightarrow> Engine \<times> Pull \<times> go_error option" where
  "ReceiveBlock e p idx data =
     (if idx < 0 \<or> idx \<ge> int (length (Blocks (pl_info p))) then (e, p, Some (Err ''block index out of range''))
      else if HashBytes data \<noteq> Blocks (pl_info p) ! nat idx then (e, p, Some (Err ''block hash mismatch (bad transfer)''))
      else case write_temp e (pl_tmp p) data (int64 (idx * BlockSize (pl_info p))) of
          (e1, Some err) \<Rightarrow> (e1, p, Some err)
        | (e1, None) \<Rightarrow> (add_down (int (length data)) e1, mark_written (nat idx) p, None))"

text \<open>The checking loop of \<^verbatim>\<open>ReceiveBlocks\<close>: the rest of the data from block \<open>idx\<close> on, giving the first index after the run.\<close>

function check_run :: "FileInfo \<Rightarrow> byte list \<Rightarrow> nat \<Rightarrow> go_error + nat" where
  "check_run info data idx =
     (if data = [] then Inr idx
      else if idx \<ge> length (Blocks info) then Inl (Err ''run overruns the block list'')
      else let size = nat (blockSizeAt info idx) in
        if size > length data then Inl (Err ''run is short of a block'')
        else if HashBytes (take size data) \<noteq> Blocks info ! idx then Inl (Err ''block hash mismatch (bad transfer)'')
        else check_run info (drop size data) (Suc idx))"
  by pat_completeness auto

termination
  by (relation "measure (\<lambda>(info, data, idx). length (Blocks info) - idx)") auto

declare check_run.simps [simp del]

definition ReceiveBlocks :: "Engine \<Rightarrow> Pull \<Rightarrow> int \<Rightarrow> byte list \<Rightarrow> Engine \<times> Pull \<times> go_error option" where
  "ReceiveBlocks e p first data =
     (if first < 0 \<or> first \<ge> int (length (Blocks (pl_info p))) then (e, p, Some (Err ''run start out of range''))
      else case check_run (pl_info p) data (nat first) of
          Inl err \<Rightarrow> (e, p, Some err)
        | Inr stop \<Rightarrow>
            (case write_temp e (pl_tmp p) data (int64 (first * block_unit (pl_info p))) of
               (e1, Some err) \<Rightarrow> (e1, p, Some err)
             | (e1, None) \<Rightarrow> (add_down (int (length data)) e1, foldl (\<lambda>p i. mark_written i p) p [nat first..<stop], None)))"

section \<open>Whole-file reuse\<close>

definition reusable :: "FileInfo \<Rightarrow> bool" where
  "reusable fi \<longleftrightarrow> \<not> Deleted fi \<and> Type fi = TypeFile \<and> Size fi > 0 \<and> Blocks fi \<noteq> []"

definition reuseCandidates :: "Engine \<Rightarrow> byte list \<Rightarrow> Engine \<times> string list" where
  "reuseCandidates e key =
     (let m = (case reuseByKey e of
                 Some m \<Rightarrow> m
               | None \<Rightarrow>
                   (case Ix_ListAll (Ix e) of
                      Inl _ \<Rightarrow> []
                    | Inr fis \<Rightarrow>
                        map (\<lambda>(k, ns). (k, sort ns))
                          (foldl (\<lambda>m fi. let k = contentKey fi in mset_at m k ((case mget m k of Some ns \<Rightarrow> ns | None \<Rightarrow> []) @ [Name fi]))
                            [] (filter reusable fis))))
      in (e\<lparr>reuseByKey := Some m\<rparr>, case mget m key of Some ns \<Rightarrow> ns | None \<Rightarrow> []))"

definition comparable_unit :: "FileInfo \<Rightarrow> int" where
  "comparable_unit fi = (if BlockSize fi \<le> 0 then BlockSizeForSize (Size fi) else BlockSize fi)"

definition donor_usable :: "Engine \<Rightarrow> FileInfo \<Rightarrow> string \<Rightarrow> bool" where
  "donor_usable e want name =
     (if name = Name want \<or> InFlight e name then False
      else case Ix_Get (Ix e) name of
          Inr (Some fi) \<Rightarrow>
            \<not> Deleted fi \<and> Type fi = TypeFile \<and> Size fi = Size want \<and> length (Blocks fi) = length (Blocks want)
            \<and> comparable_unit fi = comparable_unit want
            \<and> (case os_Stat (fs e) name of Inr (NFile d _ _ _) \<Rightarrow> int (length d) = Size want | _ \<Rightarrow> False)
        | _ \<Rightarrow> False)"

definition localCopyDonor :: "Engine \<Rightarrow> FileInfo \<Rightarrow> Engine \<times> string" where
  "localCopyDonor e want =
     (if Type want \<noteq> TypeFile \<or> Size want \<le> 0 \<or> Blocks want = [] then (e, [])
      else let (e1, names) = reuseCandidates e (contentKey want)
           in (e1, case find (donor_usable e1 want) names of Some n \<Rightarrow> n | None \<Rightarrow> []))"

fun fill_loop :: "Engine \<Rightarrow> Pull \<Rightarrow> string \<Rightarrow> nat \<Rightarrow> BlockNeed list \<Rightarrow> Engine \<times> Pull \<times> nat" where
  "fill_loop e p donor filled [] = (e, p, filled)"
| "fill_loop e p donor filled (need # needs) =
     (case read_file (fs e) donor (bn_Size need) (bn_Offset need) of
        Inl _ \<Rightarrow> (e, p, filled)
      | Inr buf \<Rightarrow>
          if HashBytes buf \<noteq> bn_Hash need then (e, p, filled)
          else case write_temp e (pl_tmp p) buf (bn_Offset need) of
              (e1, Some _) \<Rightarrow> (e1, p, filled)
            | (e1, None) \<Rightarrow>
                fill_loop e1 ((mark_written (bn_Index need) p)\<lparr>pl_reused := pl_reused p + int (length buf)\<rparr>) donor (Suc filled) needs)"

definition fillFromLocalCopy :: "Engine \<Rightarrow> Pull \<Rightarrow> Engine \<times> Pull" where
  "fillFromLocalCopy e p =
     (let info = pl_info p; needs = NeedBlocks p in
        if Type info \<noteq> TypeFile \<or> Size info \<le> 0 \<or> Blocks info = [] \<or> needs = [] then (e, p)
        else let (e1, donor) = localCopyDonor e info in
          if donor = [] \<or> isl (os_Open (fs e1) donor) then (e1, p)
          else let (e2, p2, filled) = fill_loop e1 p donor 0 needs in
            if filled = 0 then (e2, p2)
            else (e2\<lparr>Stats := (Stats e2)\<lparr>BytesLocalCopy := BytesLocalCopy (Stats e2) + pl_reused p2\<rparr>\<rparr>,
                  if filled = length needs then p2\<lparr>pl_donor := donor\<rparr> else p2))"

definition preparePull :: "Engine \<Rightarrow> Pull \<Rightarrow> Engine \<times> Pull" where
  "preparePull e p = fillFromLocalCopy e p"

section \<open>Starting\<close>

fun verify_loop :: "FS \<Rightarrow> string \<Rightarrow> FileInfo \<Rightarrow> bool list \<Rightarrow> nat list \<Rightarrow> bool list" where
  "verify_loop f tmp info written [] = written"
| "verify_loop f tmp info written (i # is) =
     (case read_file f tmp (blockSizeAt info i) (int64 (int i * block_unit info)) of
        Inl _ \<Rightarrow> written
      | Inr buf \<Rightarrow> if HashBytes buf \<noteq> Blocks info ! i then written else verify_loop f tmp info (written[i := True]) is)"

definition new_pull :: "string \<Rightarrow> FileInfo \<Rightarrow> string \<Rightarrow> bool list \<Rightarrow> uint64 \<Rightarrow> Pull" where
  "new_pull name info tmp written peerID =
     \<lparr>pl_name = name, pl_info = CloneInfo info, pl_tmp = tmp, pl_written = written, pl_peerID = peerID, pl_donor = [], pl_reused = 0\<rparr>"

text \<open>The staged file: a leftover of the right size is resumed from its valid prefix, otherwise the file is created and
given the size. The marks say which blocks are already valid.\<close>

definition open_temp :: "FS \<Rightarrow> string \<Rightarrow> FileInfo \<Rightarrow> FS \<times> (go_error + bool list)" where
  "open_temp f tmp info =
     (let n = length (Blocks info); none = replicate n False in
        if (case os_Stat f tmp of Inr (NFile d _ _ _) \<Rightarrow> int (length d) = Size info \<and> \<not> open_fault f tmp | _ \<Rightarrow> False)
        then (f, Inr (verify_loop f tmp info none [0..<n]))
        else case os_OpenCreate f tmp 420 of
            (f1, Some err) \<Rightarrow> (f1, Inl err)
          | (f1, None) \<Rightarrow>
              if Size info < 0 then (f1, Inl (Err ''invalid argument''))
              else case os_modify f1 tmp (truncated (nat (Size info))) of
                  (f2, Some err) \<Rightarrow> (f2, Inl err)
                | (f2, None) \<Rightarrow> (f2, Inr none))"

definition StartPull :: "Engine \<Rightarrow> string \<Rightarrow> uint64 \<Rightarrow> Engine \<times> (go_error + Pull)" where
  "StartPull e name peerID =
     (case GlobalFor e name of
        Inl err \<Rightarrow> (e, Inl err)
      | Inr (None, _) \<Rightarrow> (e, Inl (Err ''no global''))
      | Inr (Some global, _) \<Rightarrow>
          if Deleted global then (e, Inl (Err ''is a deletion; use ApplyDeletion''))
          else case TempPathFor (stager e) (fs e) name of
              (f1, Inl err) \<Rightarrow> (e\<lparr>fs := f1\<rparr>, Inl err)
            | (f1, Inr tmp) \<Rightarrow>
                (case open_temp f1 tmp global of
                   (f2, Inl err) \<Rightarrow> (e\<lparr>fs := f2\<rparr>, Inl err)
                 | (f2, Inr written) \<Rightarrow>
                     (let (e2, p) = preparePull (e\<lparr>fs := f2\<rparr>) (new_pull name global tmp written peerID) in (e2, Inr p))))"

section \<open>Finishing\<close>

definition Finish :: "Engine \<Rightarrow> Pull \<Rightarrow> Engine \<times> (go_error + FileInfo)" where
  "Finish e p =
     (if list_ex Not (pl_written p) then (e, Inl (Err ''missing block''))
      else if write_fault (fs e) (pl_tmp p) then (e, Inl IOError)
      else let info = pl_info p in
        case Commit (stager e) (fs e) (pl_tmp p) (pl_name p) (ModifiedS info) (ModifiedNs info) (Mode info) of
          (f1, Some err) \<Rightarrow> (e\<lparr>fs := f1\<rparr>, Inl err)
        | (f1, None) \<Rightarrow>
            (case IxPut (e\<lparr>fs := f1\<rparr>) (adoptObservedStat f1 (CloneInfo info)) of
               (e1, out, Some err) \<Rightarrow> (e1, Inl err)
             | (e1, out, None) \<Rightarrow>
                 if pl_donor p \<noteq> []
                 then (emit CatApplied SevInfo (pl_name p) ''copied from local copy'' (pl_donor p) (pl_peerID p)
                         (e1\<lparr>Stats := (Stats e1)\<lparr>FilesLocalCopy := FilesLocalCopy (Stats e1) + 1\<rparr>\<rparr>), Inr out)
                 else (emit CatApplied SevInfo (pl_name p) ''pulled from peer'' [] (pl_peerID p)
                         (e1\<lparr>Stats := (Stats e1)\<lparr>FilesDown := FilesDown (Stats e1) + 1\<rparr>\<rparr>), Inr out)))"

definition Abort :: "Engine \<Rightarrow> Pull \<Rightarrow> Engine" where
  "Abort e p = e"

section \<open>Block reuse inside a directory\<close>

definition maxDonorFilesPerDir :: nat where "maxDonorFilesPerDir = 500"
definition maxDonorBlocksPerDir :: nat where "maxDonorBlocksPerDir = 20000"
definition maxOwnersPerBlock :: nat where "maxOwnersPerBlock = 2"
definition maxDonorDirs :: nat where "maxDonorDirs = 64"

definition lastSlash :: "string \<Rightarrow> int" where
  "lastSlash name = (case LastIndex name ''/'' of None \<Rightarrow> -1 | Some i \<Rightarrow> int i)"

definition parentDir :: "string \<Rightarrow> string" where
  "parentDir name = (if lastSlash name > 0 then take (nat (lastSlash name)) name else [])"

type_synonym donor_map = "(byte list, donorLoc list) gomap"

text \<open>The blocks of one file; the flag says that the map is full.\<close>

fun add_donor_blocks :: "FileInfo \<Rightarrow> donor_map \<Rightarrow> nat \<Rightarrow> nat list \<Rightarrow> donor_map \<times> nat \<times> bool" where
  "add_donor_blocks fi locs blocks [] = (locs, blocks, False)"
| "add_donor_blocks fi locs blocks (i # is) =
     (let key = Blocks fi ! i; owners = (case mget locs key of Some os \<Rightarrow> os | None \<Rightarrow> []) in
        if length owners \<ge> maxOwnersPerBlock \<or> list_ex (\<lambda>o1. dl_name o1 = Name fi) owners then add_donor_blocks fi locs blocks is
        else let locs1 = mset_at locs key (owners @ [\<lparr>dl_name = Name fi, dl_index = i, dl_size = blockSizeAt fi i\<rparr>]) in
          if Suc blocks \<ge> maxDonorBlocksPerDir then (locs1, Suc blocks, True) else add_donor_blocks fi locs1 (Suc blocks) is)"

fun donor_walk :: "Engine \<Rightarrow> string \<Rightarrow> FileInfo list \<Rightarrow> donor_map \<Rightarrow> nat \<Rightarrow> nat \<Rightarrow> donor_map" where
  "donor_walk e dir [] locs fls blocks = locs"
| "donor_walk e dir (fi # fis) locs fls blocks =
     (if \<not> reusable fi \<or> parentDir (Name fi) \<noteq> dir then donor_walk e dir fis locs fls blocks
      else if fls \<ge> maxDonorFilesPerDir \<or> blocks \<ge> maxDonorBlocksPerDir then locs
      else if InFlight e (Name fi) then donor_walk e dir fis locs fls blocks
      else case add_donor_blocks fi locs blocks [0..<length (Blocks fi)] of
          (locs1, blocks1, True) \<Rightarrow> locs1
        | (locs1, blocks1, False) \<Rightarrow> donor_walk e dir fis locs1 (Suc fls) blocks1)"

fun drop_oldest :: "(string, donor_map) gomap \<Rightarrow> string list \<Rightarrow> (string, donor_map) gomap \<times> string list" where
  "drop_oldest dirs [] = (dirs, [])"
| "drop_oldest dirs (d # order) =
     (if length (d # order) > maxDonorDirs then drop_oldest (mdelete dirs d) order else (dirs, d # order))"

definition dirDonors :: "Engine \<Rightarrow> string \<Rightarrow> Engine \<times> donor_map" where
  "dirDonors e dir =
     (case mget (donor_dirs e) dir of
        Some locs \<Rightarrow> (e\<lparr>donor_order := (if dir \<in> set (donor_order e) then remove1 dir (donor_order e) @ [dir] else donor_order e)\<rparr>, locs)
      | None \<Rightarrow>
          (let fis = (case (if dir = [] then Ix_ListAll (Ix e) else Ix_ListPrefix (Ix e) (dir @ ''/'')) of Inl _ \<Rightarrow> [] | Inr fis \<Rightarrow> fis);
               locs = donor_walk e dir fis [] 0 0;
               (dirs, order) = drop_oldest (mset_at (donor_dirs e) dir locs) (donor_order e @ [dir])
           in (e\<lparr>donor_dirs := dirs, donor_order := order\<rparr>, locs)))"

definition resetDonorIndex :: "Engine \<Rightarrow> Engine" where
  "resetDonorIndex e = e\<lparr>donor_dirs := [], donor_order := []\<rparr>"

definition ResetLocalReuse :: "Engine \<Rightarrow> Engine" where
  "ResetLocalReuse e = resetDonorIndex (e\<lparr>reuseByKey := None\<rparr>)"

definition writeLocalBlock :: "Engine \<Rightarrow> Pull \<Rightarrow> nat \<Rightarrow> byte list \<Rightarrow> Engine \<times> Pull \<times> go_error option" where
  "writeLocalBlock e p idx data =
     (if idx \<ge> length (Blocks (pl_info p)) then (e, p, Some (Err ''block out of range''))
      else if HashBytes data \<noteq> Blocks (pl_info p) ! idx then (e, p, Some (Err ''local block does not match the hash of the peer''))
      else case write_temp e (pl_tmp p) data (int64 (int idx * block_unit (pl_info p))) of
          (e1, Some err) \<Rightarrow> (e1, p, Some err)
        | (e1, None) \<Rightarrow> (e1, mark_written idx p, None))"

text \<open>The handle of the donor opened last is kept: its name and whether it is open. After a failed open the name
still is the previous donor's but the handle is gone, so reads for that donor fail from then on.\<close>

definition donor_handle :: "FS \<Rightarrow> string \<times> bool \<Rightarrow> string \<Rightarrow> (string \<times> bool) \<times> bool" where
  "donor_handle f cur name =
     (if name = fst cur then (cur, True)
      else case os_Open f name of Inl _ \<Rightarrow> ((fst cur, False), False) | Inr _ \<Rightarrow> ((name, True), True))"

definition read_donor :: "FS \<Rightarrow> string \<times> bool \<Rightarrow> string \<Rightarrow> int \<Rightarrow> int \<Rightarrow> go_error + byte list" where
  "read_donor f cur name n off = (if snd cur then read_file f name n off else Inl (Err ''invalid argument''))"

fun reuse_loop :: "Engine \<Rightarrow> Pull \<Rightarrow> donor_map \<Rightarrow> string \<times> bool \<Rightarrow> nat \<Rightarrow> int \<Rightarrow> BlockNeed list \<Rightarrow> Engine \<times> Pull \<times> nat \<times> int" where
  "reuse_loop e p locs cur reused bytes [] = (e, p, reused, bytes)"
| "reuse_loop e p locs cur reused bytes (need # needs) =
     (case find (\<lambda>l. dl_name l \<noteq> pl_name p) (case mget locs (bn_Hash need) of Some os \<Rightarrow> os | None \<Rightarrow> []) of
        None \<Rightarrow> reuse_loop e p locs cur reused bytes needs
      | Some loc \<Rightarrow>
          (let (cur1, ok) = donor_handle (fs e) cur (dl_name loc) in
             if \<not> ok then reuse_loop e p locs cur1 reused bytes needs
             else case read_donor (fs e) cur1 (dl_name loc) (dl_size loc) (int64 (int (dl_index loc) * block_unit (pl_info p))) of
                 Inl _ \<Rightarrow> reuse_loop e p locs cur1 reused bytes needs
               | Inr buf \<Rightarrow>
                   (case writeLocalBlock e p (bn_Index need) buf of
                      (e1, p1, Some _) \<Rightarrow> reuse_loop e1 p1 locs cur1 reused bytes needs
                    | (e1, p1, None) \<Rightarrow> reuse_loop e1 p1 locs cur1 (Suc reused) (bytes + int (length buf)) needs)))"

definition FillBlocksFromLocal :: "Engine \<Rightarrow> Pull \<Rightarrow> Engine \<times> Pull \<times> nat \<times> int" where
  "FillBlocksFromLocal e p =
     (let needs = NeedBlocks p in
        if needs = [] then (e, p, 0, 0)
        else let (e1, locs) = dirDonors e (parentDir (pl_name p)) in
          if locs = [] then (e1, p, 0, 0)
          else let (e2, p2, reused, bytes) = reuse_loop e1 p locs ([], False) 0 0 needs in
            (if reused > 0
             then e2\<lparr>Stats := (Stats e2)\<lparr>BlocksReused := BlocksReused (Stats e2) + int reused, BytesReused := BytesReused (Stats e2) + bytes\<rparr>\<rparr>
             else e2, p2, reused, bytes))"

definition PeerSizes :: "Engine \<Rightarrow> uint64 \<Rightarrow> string list \<Rightarrow> (string, int) gomap" where
  "PeerSizes e peerID names =
     (let view = (case mget (peers e) peerID of Some v \<Rightarrow> v | None \<Rightarrow> []) in
        foldl (\<lambda>m n. case mget view n of Some fi \<Rightarrow> mset_at m n (Size fi) | None \<Rightarrow> m) [] names)"

end
