(* ===== verification/Pull_Integrity.thy ===== *)
theory Pull_Integrity
  imports Pull
begin

text \<open>
  What a finished pull leaves on disk. A pull is a run of steps on the engine and the pull: received
  runs of blocks, received single blocks, local reuse, and anything else the program does that leaves
  the temporary file alone. The invariant says that the temporary file has the size of the file and
  that every block marked as written hashes to the recorded hash.
\<close>

section \<open>Block geometry\<close>

text \<open>The block list covers the file: one hash per block of \<open>BlockSize\<close> bytes, the last block possibly shorter.\<close>

definition geometry :: "FileInfo \<Rightarrow> bool" where
  "geometry info \<longleftrightarrow> 0 < BlockSize info \<and> 0 \<le> Size info \<and> Size info < 2 ^ 63
     \<and> int (length (Blocks info)) = (Size info + BlockSize info - 1) div BlockSize info"

definition blk :: "FileInfo \<Rightarrow> nat \<Rightarrow> byte list \<Rightarrow> byte list" where
  "blk info i d = take (nat (blockSizeAt info i)) (drop (i * nat (BlockSize info)) d)"

lemma geometry_block:
  assumes "geometry info" and "i < length (Blocks info)"
  shows "int i * BlockSize info < Size info"
proof -
  let ?a = "Size info + BlockSize info - 1" and ?b = "BlockSize info"
  have b: "0 < ?b" using assms(1) by (simp add: geometry_def)
  have "int i + 1 \<le> ?a div ?b" using assms by (simp add: geometry_def)
  then have "(int i + 1) * ?b \<le> (?a div ?b) * ?b" using b by (intro mult_right_mono) auto
  also have "\<dots> = ?a - ?a mod ?b" by (simp only: minus_mod_eq_div_mult)
  also have "\<dots> \<le> ?a" using pos_mod_sign [OF b, of ?a] by linarith
  finally show ?thesis by (simp add: distrib_right)
qed

lemma geometry_offset:
  assumes "geometry info" and "i < length (Blocks info)"
  shows "int64 (int i * BlockSize info) = int i * BlockSize info" and "block_unit info = BlockSize info"
    and "blockSizeAt info i = min (BlockSize info) (Size info - int i * BlockSize info)"
    and "0 < blockSizeAt info i"
    and "i * nat (BlockSize info) + nat (blockSizeAt info i) \<le> nat (Size info)"
proof -
  have s: "int i * BlockSize info < Size info" using geometry_block [OF assms] .
  have g: "0 < BlockSize info" "Size info < 2 ^ 63" using assms(1) by (auto simp: geometry_def)
  have pos: "0 \<le> int i * BlockSize info" using g(1) by simp
  show off: "int64 (int i * BlockSize info) = int i * BlockSize info" using s g(2) pos by (intro int64_id) auto
  show bu: "block_unit info = BlockSize info" using g(1) by (simp add: block_unit_def)
  have "int64 (Size info - int i * BlockSize info) = Size info - int i * BlockSize info"
    using s g(2) pos by (intro int64_id) auto
  then show sz: "blockSizeAt info i = min (BlockSize info) (Size info - int i * BlockSize info)"
    using off bu s by (simp add: blockSizeAt_def Let_def min_def)
  show "0 < blockSizeAt info i" using sz s g(1) by simp
  have "int (i * nat (BlockSize info) + nat (blockSizeAt info i)) = int i * BlockSize info + blockSizeAt info i"
    using g(1) \<open>0 < blockSizeAt info i\<close> by simp
  also have "\<dots> \<le> Size info" using sz by simp
  finally show "i * nat (BlockSize info) + nat (blockSizeAt info i) \<le> nat (Size info)"
    using assms(1) by (simp add: le_nat_iff geometry_def)
qed

lemma blocks_disjoint:
  assumes "geometry info" and "i < length (Blocks info)" and "j < length (Blocks info)" and "i < j"
  shows "i * nat (BlockSize info) + nat (blockSizeAt info i) \<le> j * nat (BlockSize info)"
    and "nat (blockSizeAt info i) = nat (BlockSize info)"
proof -
  let ?b = "BlockSize info"
  have b: "0 < ?b" using assms(1) by (simp add: geometry_def)
  have "(int i + 1) * ?b \<le> int j * ?b" using assms(4) b by (intro mult_right_mono) auto
  moreover have "int j * ?b < Size info" using geometry_block [OF assms(1,3)] .
  ultimately have "?b \<le> Size info - int i * ?b" by (simp add: algebra_simps)
  then show eq: "nat (blockSizeAt info i) = nat ?b" using geometry_offset(3) [OF assms(1,2)] by simp
  have "i * nat ?b + nat ?b = Suc i * nat ?b" by simp
  also have "\<dots> \<le> j * nat ?b" using assms(4) by (intro mult_right_mono) auto
  finally show "i * nat ?b + nat (blockSizeAt info i) \<le> j * nat ?b" using eq by simp
qed

section \<open>Contents that match the marks\<close>

definition good :: "FileInfo \<Rightarrow> bool list \<Rightarrow> byte list \<Rightarrow> bool" where
  "good info w d \<longleftrightarrow> length w = length (Blocks info) \<and> int (length d) = Size info
     \<and> (\<forall>i < length w. w ! i \<longrightarrow> HashBytes (blk info i d) = Blocks info ! i)"

lemma good_block:
  assumes "geometry info" and "good info w d" and i: "i < length (Blocks info)"
    and len: "length data = nat (blockSizeAt info i)" and hash: "HashBytes data = Blocks info ! i"
  shows "good info (w[i := True]) (written_at data (i * nat (BlockSize info)) d)"
proof -
  let ?off = "i * nat (BlockSize info)"
  have fits: "?off + length data \<le> length d"
    using geometry_offset(5) [OF assms(1) i] assms(2) len by (simp add: good_def nat_le_iff) linarith
  have "blk info i (written_at data ?off d) = data" using written_at_read [OF fits] len by (simp add: blk_def)
  moreover have "blk info j (written_at data ?off d) = blk info j d" if "j < length (Blocks info)" "j \<noteq> i" for j
    unfolding blk_def
  proof (rule written_at_other [OF fits])
    show "j * nat (BlockSize info) + nat (blockSizeAt info j) \<le> ?off \<or> ?off + length data \<le> j * nat (BlockSize info)"
      using blocks_disjoint(1) [OF assms(1)] that i len by (cases "j < i") auto
  qed
  ultimately have "HashBytes (blk info j (written_at data ?off d)) = Blocks info ! j" if "j < length w" "w[i := True] ! j" for j
    using assms(2) hash that by (cases "j = i") (auto simp: good_def)
  then show ?thesis using assms(2) written_at_length [OF fits] by (simp add: good_def)
qed

lemma written_at_append:
  assumes "off + length (a @ b) \<le> length d"
  shows "written_at (a @ b) off d = written_at b (off + length a) (written_at a off d)"
proof -
  have w: "written_at x k d' = take k d' @ x @ drop (k + length x) d'" if "k + length x \<le> length d'" for x k and d' :: "byte list"
    using that by (cases "x = []") (simp_all add: written_at_def truncated_def max_def)
  have fa: "off + length a \<le> length d" using assms by simp
  have fb: "off + length a + length b \<le> length (written_at a off d)" using assms written_at_length [OF fa] by simp
  show ?thesis using w [OF assms] w [OF fb] w [OF fa] assms by (simp add: ac_simps)
qed

lemma good_run:
  "geometry info \<Longrightarrow> good info w d \<Longrightarrow> idx \<le> length (Blocks info) \<Longrightarrow> check_run info data idx = Inr stop \<Longrightarrow>
    good info (foldl (\<lambda>w i. w[i := True]) w [idx..<stop]) (written_at data (idx * nat (BlockSize info)) d)
    \<and> idx \<le> stop \<and> (data \<noteq> [] \<longrightarrow> idx * nat (BlockSize info) + length data \<le> length d)"
proof (induction info data idx arbitrary: w d rule: check_run.induct)
  case (1 info data idx)
  note assms = 1(2) and ok = 1(3) and run = 1(5)
  show ?case
  proof (cases "data = []")
    case True
    then show ?thesis using ok run by (simp add: check_run.simps [of info "[]" idx] written_at_def)
  next
    case False
    let ?size = "nat (blockSizeAt info idx)" and ?b = "nat (BlockSize info)"
    have r: "idx < length (Blocks info)" "?size \<le> length data" "HashBytes (take ?size data) = Blocks info ! idx"
      "check_run info (drop ?size data) (Suc idx) = Inr stop"
      using run False by (auto simp: check_run.simps [of info data idx] Let_def split: if_splits)
    let ?d1 = "written_at (take ?size data) (idx * ?b) d"
    have fit1: "idx * ?b + length (take ?size data) \<le> length d"
      using geometry_offset(5) [OF assms r(1)] ok r(2) by (simp add: good_def nat_le_iff) linarith
    have g1: "good info (w[idx := True]) ?d1" using good_block [OF assms ok r(1) _ r(3)] r(2) by simp
    have ih: "good info (foldl (\<lambda>w i. w[i := True]) (w[idx := True]) [Suc idx..<stop]) (written_at (drop ?size data) (Suc idx * ?b) ?d1)
      \<and> Suc idx \<le> stop \<and> (drop ?size data \<noteq> [] \<longrightarrow> Suc idx * ?b + length (drop ?size data) \<le> length ?d1)"
      using 1(1) [OF False _ refl _ _ assms g1] r by (simp add: not_le)
    have step: "Suc idx * ?b = idx * ?b + ?size" if "drop ?size data \<noteq> []"
    proof -
      have "Suc idx < length (Blocks info)" using r(4) that by (auto simp: check_run.simps [of info "drop ?size data"] split: if_splits)
      then show ?thesis using blocks_disjoint(2) [OF assms r(1), of "Suc idx"] by simp
    qed
    have fit: "idx * ?b + length data \<le> length d"
    proof (cases "drop ?size data = []")
      case True
      then show ?thesis using fit1 r(2) by simp
    next
      case False
      then show ?thesis using ih step [OF False] written_at_length [OF fit1] r(2) by auto
    qed
    have "written_at data (idx * ?b) d = written_at (drop ?size data) (Suc idx * ?b) ?d1"
    proof (cases "drop ?size data = []")
      case True
      then show ?thesis using r(2) by (simp add: written_at_def)
    next
      case False
      have "written_at (take ?size data @ drop ?size data) (idx * ?b) d = written_at (drop ?size data) (idx * ?b + length (take ?size data)) ?d1"
        by (rule written_at_append) (use fit in simp)
      moreover have "length (take ?size data) = ?size" using r(2) by simp
      ultimately show ?thesis unfolding append_take_drop_id step [OF False] by argo
    qed
    moreover have "[idx..<stop] = idx # [Suc idx..<stop]" using ih by (simp add: upt_rec)
    ultimately show ?thesis using ih fit by simp
  qed
qed

section \<open>The invariant of a pull\<close>

definition temp_data :: "Engine \<Rightarrow> Pull \<Rightarrow> byte list option" where
  "temp_data e p = (case mget (nodes (fs e)) (pl_tmp p) of Some (NFile d _ _ _) \<Rightarrow> Some d | _ \<Rightarrow> None)"

definition pull_inv :: "Engine \<Rightarrow> Pull \<Rightarrow> bool" where
  "pull_inv e p \<longleftrightarrow> geometry (pl_info p) \<and> (\<exists>d. temp_data e p = Some d \<and> good (pl_info p) (pl_written p) d)"

lemma write_temp_cases:
  assumes "write_temp e tmp data off = (e', err)" and "mget (nodes (fs e)) tmp = Some (NFile d s ns pm)"
  shows "err \<noteq> None \<and> e' = e \<or> err = None \<and> 0 \<le> off \<and> mget (nodes (fs e')) tmp = Some (NFile (written_at data (nat off) d) s ns pm)"
  using assms by (auto simp: write_temp_def os_modify_def split: if_splits)

lemma temp_data_Some: "temp_data e p = Some d \<longleftrightarrow> (\<exists>s ns pm. mget (nodes (fs e)) (pl_tmp p) = Some (NFile d s ns pm))"
  by (auto simp: temp_data_def split: option.splits fs_node.splits)

lemma temp_data_cong: "mget (nodes (fs e')) (pl_tmp p') = mget (nodes (fs e)) (pl_tmp p) \<Longrightarrow> temp_data e' p' = temp_data e p"
  by (simp add: temp_data_def)

lemma pull_inv_block:
  assumes "pull_inv e p" and i: "i < length (Blocks (pl_info p))" and "length data = nat (blockSizeAt (pl_info p) i)"
    and "HashBytes data = Blocks (pl_info p) ! i" and w: "write_temp e (pl_tmp p) data (int i * BlockSize (pl_info p)) = (e', err)"
  shows "pull_inv e' (if err = None then mark_written i p else p)"
proof -
  obtain d s ns pm where d: "mget (nodes (fs e)) (pl_tmp p) = Some (NFile d s ns pm)" "good (pl_info p) (pl_written p) d" "geometry (pl_info p)"
    using assms(1) by (auto simp: pull_inv_def temp_data_Some)
  have off: "nat (int i * BlockSize (pl_info p)) = i * nat (BlockSize (pl_info p))"
    using d(3) by (simp add: geometry_def nat_mult_distrib)
  show ?thesis
  proof (cases "err = None")
    case True
    then have "mget (nodes (fs e')) (pl_tmp p) = Some (NFile (written_at data (i * nat (BlockSize (pl_info p))) d) s ns pm)"
      using write_temp_cases [OF w d(1)] off by simp
    then show ?thesis using good_block [OF d(3,2) i assms(3,4)] d(3) True
      by (auto simp: pull_inv_def temp_data_Some mark_written_def)
  next
    case False
    then show ?thesis using write_temp_cases [OF w d(1)] assms(1) by auto
  qed
qed

lemma foldl_mark:
  "pl_info (foldl (\<lambda>p i. mark_written i p) p is) = pl_info p \<and> pl_tmp (foldl (\<lambda>p i. mark_written i p) p is) = pl_tmp p
   \<and> pl_name (foldl (\<lambda>p i. mark_written i p) p is) = pl_name p
   \<and> pl_written (foldl (\<lambda>p i. mark_written i p) p is) = foldl (\<lambda>w i. w[i := True]) (pl_written p) is"
  by (induction "is" arbitrary: p) (simp_all add: mark_written_def)

lemma add_down_fs [simp]: "fs (add_down n e) = fs e"
  by (simp add: add_down_def)

lemma pull_inv_cong: "pull_inv e p \<Longrightarrow> fs e' = fs e \<Longrightarrow> pull_inv e' p"
  by (simp add: pull_inv_def temp_data_def)

lemma ReceiveBlocks_inv:
  assumes "pull_inv e p" and "ReceiveBlocks e p first data = (e', p', err)"
  shows "pull_inv e' p'" and "pl_info p' = pl_info p \<and> pl_name p' = pl_name p \<and> pl_tmp p' = pl_tmp p"
proof -
  obtain d s ns pm where d: "mget (nodes (fs e)) (pl_tmp p) = Some (NFile d s ns pm)" "good (pl_info p) (pl_written p) d" "geometry (pl_info p)"
    using assms(1) by (auto simp: pull_inv_def temp_data_Some)
  have *: "pull_inv e' p' \<and> pl_info p' = pl_info p \<and> pl_name p' = pl_name p \<and> pl_tmp p' = pl_tmp p"
  proof (cases "first < 0 \<or> first \<ge> int (length (Blocks (pl_info p))) \<or> isl (check_run (pl_info p) data (nat first))")
    case True
    then show ?thesis using assms by (auto simp: ReceiveBlocks_def split: sum.splits if_splits)
  next
    case False
    then obtain stop where run: "check_run (pl_info p) data (nat first) = Inr stop" by (cases "check_run (pl_info p) data (nat first)") auto
    have i: "nat first < length (Blocks (pl_info p))" "int (nat first) = first" using False by auto
    have off: "int64 (first * block_unit (pl_info p)) = first * BlockSize (pl_info p)"
      using geometry_offset(1,2) [OF d(3) i(1)] i(2) by simp
    then have noff: "nat (first * BlockSize (pl_info p)) = nat first * nat (BlockSize (pl_info p))"
      using False by (simp add: nat_mult_distrib)
    obtain e1 er where w: "write_temp e (pl_tmp p) data (first * BlockSize (pl_info p)) = (e1, er)"
      by (cases "write_temp e (pl_tmp p) data (first * BlockSize (pl_info p))")
    show ?thesis
    proof (cases er)
      case None
      then have res: "e' = add_down (int (length data)) e1" "p' = foldl (\<lambda>p i. mark_written i p) p [nat first..<stop]"
        using assms(2) False run off w by (auto simp: ReceiveBlocks_def)
      have "mget (nodes (fs e1)) (pl_tmp p) = Some (NFile (written_at data (nat first * nat (BlockSize (pl_info p))) d) s ns pm)"
        using write_temp_cases [OF w d(1)] None noff by simp
      then show ?thesis using good_run [OF d(3,2) _ run] i(1) res foldl_mark [of p "[nat first..<stop]"] d(3)
        by (auto simp: pull_inv_def temp_data_Some)
    next
      case (Some x)
      then show ?thesis using assms False run off w write_temp_cases [OF w d(1)] by (auto simp: ReceiveBlocks_def)
    qed
  qed
  then show "pull_inv e' p'" "pl_info p' = pl_info p \<and> pl_name p' = pl_name p \<and> pl_tmp p' = pl_tmp p" by auto
qed

lemma ReceiveBlock_inv:
  assumes "pull_inv e p" and "ReceiveBlock e p idx data = (e', p', err)" and "int (length data) = blockSizeAt (pl_info p) (nat idx)"
  shows "pull_inv e' p' \<and> pl_info p' = pl_info p \<and> pl_name p' = pl_name p \<and> pl_tmp p' = pl_tmp p"
proof (cases "idx < 0 \<or> idx \<ge> int (length (Blocks (pl_info p))) \<or> HashBytes data \<noteq> Blocks (pl_info p) ! nat idx")
  case True
  then show ?thesis using assms(1,2) by (auto simp: ReceiveBlock_def split: if_splits)
next
  case False
  have g: "geometry (pl_info p)" using assms(1) by (simp add: pull_inv_def)
  have i: "nat idx < length (Blocks (pl_info p))" "int (nat idx) = idx" using False by auto
  have off: "int64 (idx * BlockSize (pl_info p)) = idx * BlockSize (pl_info p)" using geometry_offset(1) [OF g i(1)] i(2) by simp
  obtain e1 er where w: "write_temp e (pl_tmp p) data (idx * BlockSize (pl_info p)) = (e1, er)"
    by (cases "write_temp e (pl_tmp p) data (idx * BlockSize (pl_info p))")
  have len: "length data = nat (blockSizeAt (pl_info p) (nat idx))" using assms(3) by simp
  have "pull_inv e1 (if er = None then mark_written (nat idx) p else p)"
    using pull_inv_block [OF assms(1) i(1) len] False w i(2) by simp
  then show ?thesis using assms(2) False off w by (auto simp: ReceiveBlock_def mark_written_def intro: pull_inv_cong split: option.splits)
qed

section \<open>Local reuse\<close>

definition need_ok :: "FileInfo \<Rightarrow> BlockNeed \<Rightarrow> bool" where
  "need_ok info need \<longleftrightarrow> bn_Index need < length (Blocks info) \<and> bn_Offset need = int (bn_Index need) * BlockSize info
     \<and> bn_Size need = blockSizeAt info (bn_Index need) \<and> bn_Hash need = Blocks info ! bn_Index need"

lemma NeedBlocks_ok: "geometry (pl_info p) \<Longrightarrow> need \<in> set (NeedBlocks p) \<Longrightarrow> need_ok (pl_info p) need"
  using geometry_offset(1) by (auto simp: NeedBlocks_def need_ok_def)

lemma read_file_length: "read_file f path n off = Inr buf \<Longrightarrow> length buf = nat n"
  by (auto simp: read_file_def os_ReadAt_def split: if_splits sum.splits)

definition same_pull :: "Pull \<Rightarrow> Pull \<Rightarrow> bool" where
  "same_pull p p' \<longleftrightarrow> pl_info p' = pl_info p \<and> pl_name p' = pl_name p \<and> pl_tmp p' = pl_tmp p"

lemma same_pull_simps [simp]:
  "same_pull p p" "same_pull p (mark_written i p)" "same_pull p (q\<lparr>pl_reused := n\<rparr>) = same_pull p q" "same_pull p (q\<lparr>pl_donor := d\<rparr>) = same_pull p q"
  by (simp_all add: same_pull_def mark_written_def)

lemma same_pull_trans: "same_pull p q \<Longrightarrow> same_pull q r \<Longrightarrow> same_pull p r"
  by (simp add: same_pull_def)

lemma pull_inv_fields [simp]: "pull_inv e (p\<lparr>pl_reused := n\<rparr>) = pull_inv e p" "pull_inv e (p\<lparr>pl_donor := d\<rparr>) = pull_inv e p"
  by (simp_all add: pull_inv_def temp_data_def)

lemma fill_loop_inv:
  "pull_inv e p \<Longrightarrow> \<forall>need \<in> set needs. need_ok (pl_info p) need \<Longrightarrow> fill_loop e p donor k needs = (e', p', k') \<Longrightarrow>
     pull_inv e' p' \<and> same_pull p p'"
proof (induction needs arbitrary: e p k)
  case (Cons need needs)
  have ok: "need_ok (pl_info p) need" using Cons.prems(2) by simp
  show ?case
  proof (cases "read_file (fs e) donor (bn_Size need) (bn_Offset need)")
    case (Inl err)
    then show ?thesis using Cons.prems by simp
  next
    case (Inr buf)
    obtain e1 er where w: "write_temp e (pl_tmp p) buf (bn_Offset need) = (e1, er)" by (cases "write_temp e (pl_tmp p) buf (bn_Offset need)")
    show ?thesis
    proof (cases "HashBytes buf = bn_Hash need")
      case True
      let ?i = "bn_Index need" and ?p1 = "(mark_written (bn_Index need) p)\<lparr>pl_reused := pl_reused p + int (length buf)\<rparr>"
      have inv1: "pull_inv e1 (if er = None then mark_written ?i p else p)"
        using pull_inv_block [OF Cons.prems(1), of ?i buf e1 er] ok True w read_file_length [OF Inr] by (simp add: need_ok_def)
      show ?thesis
      proof (cases er)
        case None
        then have "fill_loop e1 ?p1 donor (Suc k) needs = (e', p', k')" using Cons.prems(3) Inr True w by simp
        moreover have "pull_inv e1 ?p1" using inv1 None by simp
        ultimately have "pull_inv e' p' \<and> same_pull ?p1 p'"
          using Cons.IH [of e1 ?p1] Cons.prems(2) by (simp add: mark_written_def)
        then show ?thesis using same_pull_trans [of p ?p1 p'] by simp
      next
        case (Some x)
        then show ?thesis using Cons.prems(3) Inr True w inv1 by auto
      qed
    next
      case False
      then show ?thesis using Cons.prems Inr by simp
    qed
  qed
qed simp

lemma fill_loop_same: "fill_loop e p donor k needs = (e', p', k') \<Longrightarrow> same_pull p p'"
proof (induction needs arbitrary: e p k)
  case (Cons need needs)
  then show ?case
    by (auto split: sum.splits if_splits prod.splits option.splits)
      (metis same_pull_simps(2,3) same_pull_trans)
qed simp

lemma localCopyDonor_fs: "localCopyDonor e info = (e', d) \<Longrightarrow> fs e' = fs e"
  by (auto simp: localCopyDonor_def reuseCandidates_def Let_def split: if_splits)

lemma fillFromLocalCopy_inv:
  assumes "pull_inv e p" and "fillFromLocalCopy e p = (e', p')"
  shows "pull_inv e' p' \<and> same_pull p p'"
proof -
  obtain e1 donor where don: "localCopyDonor e (pl_info p) = (e1, donor)" by (cases "localCopyDonor e (pl_info p)")
  obtain e2 p2 k where fl: "fill_loop e1 p donor 0 (NeedBlocks p) = (e2, p2, k)" by (cases "fill_loop e1 p donor 0 (NeedBlocks p)")
  have inv1: "pull_inv e1 p" using pull_inv_cong [OF assms(1) localCopyDonor_fs [OF don]] .
  have "\<forall>need \<in> set (NeedBlocks p). need_ok (pl_info p) need" using NeedBlocks_ok assms(1) by (auto simp: pull_inv_def)
  from fill_loop_inv [OF inv1 this fl] have inv2: "pull_inv e2 p2 \<and> same_pull p p2" .
  have st: "pull_inv (e2\<lparr>Stats := s\<rparr>) q = pull_inv e2 q" for s q by (simp add: pull_inv_def temp_data_def)
  have "(e', p') = (e, p) \<or> (e', p') = (e1, p) \<or> (e', p') = (e2, p2)
      \<or> (\<exists>s q. e' = e2\<lparr>Stats := s\<rparr> \<and> p' = q \<and> (q = p2 \<or> q = p2\<lparr>pl_donor := donor\<rparr>))"
    using assms(2) don fl unfolding fillFromLocalCopy_def Let_def by (auto split: if_splits)
  then show ?thesis using assms(1) inv1 inv2 st by auto
qed

text \<open>The donor locations of the blocks a pull needs record the size of that block: no two indexed blocks of different
sizes share a hash.\<close>

definition donors_sized :: "Engine \<Rightarrow> Pull \<Rightarrow> bool" where
  "donors_sized e p \<longleftrightarrow> (\<forall>need \<in> set (NeedBlocks p). \<forall>l \<in> set (case mget (snd (dirDonors e (parentDir (pl_name p)))) (bn_Hash need) of
     Some os \<Rightarrow> os | None \<Rightarrow> []). dl_size l = bn_Size need)"

lemma writeLocalBlock_inv:
  assumes "pull_inv e p" and "length data = nat (blockSizeAt (pl_info p) i)" and "writeLocalBlock e p i data = (e', p', err)"
  shows "pull_inv e' p' \<and> same_pull p p'"
proof (cases "i \<ge> length (Blocks (pl_info p)) \<or> HashBytes data \<noteq> Blocks (pl_info p) ! i")
  case True
  then show ?thesis using assms(1,3) by (auto simp: writeLocalBlock_def split: if_splits)
next
  case False
  have g: "geometry (pl_info p)" using assms(1) by (simp add: pull_inv_def)
  have i: "i < length (Blocks (pl_info p))" using False by simp
  obtain e1 er where w: "write_temp e (pl_tmp p) data (int i * BlockSize (pl_info p)) = (e1, er)"
    by (cases "write_temp e (pl_tmp p) data (int i * BlockSize (pl_info p))")
  have "pull_inv e1 (if er = None then mark_written i p else p)"
    using pull_inv_block [OF assms(1) i assms(2)] False w by simp
  then show ?thesis using assms(3) False w geometry_offset(1,2) [OF g i]
    by (auto simp: writeLocalBlock_def split: option.splits)
qed

lemma find_in: "find P xs = Some x \<Longrightarrow> x \<in> set xs"
  by (induction xs) (auto split: if_splits)

lemma read_donor_length: "read_donor f cur name n off = Inr buf \<Longrightarrow> length buf = nat n"
  using read_file_length by (auto simp: read_donor_def split: if_splits)

lemma reuse_loop_inv:
  "pull_inv e p \<Longrightarrow> \<forall>need \<in> set needs. need_ok (pl_info p) need \<Longrightarrow>
   \<forall>need \<in> set needs. \<forall>l \<in> set (case mget locs (bn_Hash need) of Some os \<Rightarrow> os | None \<Rightarrow> []). dl_size l = bn_Size need \<Longrightarrow>
   reuse_loop e p locs cur k b needs = (e', p', k', b') \<Longrightarrow> pull_inv e' p' \<and> same_pull p p'"
proof (induction needs arbitrary: e p cur k b)
  case (Cons need needs)
  let ?os = "case mget locs (bn_Hash need) of Some os \<Rightarrow> os | None \<Rightarrow> []"
  have keep: ?case if "reuse_loop e1 p1 locs cur1 k1 b1 needs = (e', p', k', b')" "pull_inv e1 p1 \<and> same_pull p p1" for e1 p1 cur1 k1 b1
    using Cons.IH [of e1 p1 cur1 k1 b1] that Cons.prems(2,3) same_pull_trans [of p p1 p'] by (simp add: same_pull_def)
  show ?case
  proof (cases "find (\<lambda>l. dl_name l \<noteq> pl_name p) ?os")
    case None
    then show ?thesis using keep [of e p] Cons.prems(1,4) by simp
  next
    case (Some loc)
    then have loc: "loc \<in> set ?os" by (rule find_in)
    obtain cur1 ok where h: "donor_handle (fs e) cur (dl_name loc) = (cur1, ok)" by (cases "donor_handle (fs e) cur (dl_name loc)")
    show ?thesis
    proof (cases "if ok then read_donor (fs e) cur1 (dl_name loc) (dl_size loc) (int64 (int (dl_index loc) * block_unit (pl_info p))) else Inl NotExist")
      case (Inl err)
      then have "reuse_loop e p locs cur1 k b needs = (e', p', k', b')" using Cons.prems(4) Some h by (cases ok) simp_all
      then show ?thesis using keep [of e p cur1 k b] Cons.prems(1) by simp
    next
      case (Inr buf)
      then have rd: ok "read_donor (fs e) cur1 (dl_name loc) (dl_size loc) (int64 (int (dl_index loc) * block_unit (pl_info p))) = Inr buf"
        by (auto split: if_splits)
      obtain e1 p1 er where w: "writeLocalBlock e p (bn_Index need) buf = (e1, p1, er)"
        by (cases "writeLocalBlock e p (bn_Index need) buf") auto
      have "need_ok (pl_info p) need" "dl_size loc = bn_Size need" using Cons.prems(2,3) loc by auto
      then have "length buf = nat (blockSizeAt (pl_info p) (bn_Index need))" using read_donor_length [OF rd(2)] by (simp add: need_ok_def)
      from writeLocalBlock_inv [OF Cons.prems(1) this w] have "pull_inv e1 p1 \<and> same_pull p p1" .
      then show ?thesis using keep [of e1 p1 cur1] Cons.prems(4) Some h rd w by (auto split: option.splits)
    qed
  qed
qed simp

lemma dirDonors_fs: "dirDonors e d = (e', locs) \<Longrightarrow> fs e' = fs e"
  by (auto simp: dirDonors_def Let_def split: option.splits prod.splits)

lemma FillBlocksFromLocal_inv:
  assumes "pull_inv e p" and "donors_sized e p" and "FillBlocksFromLocal e p = (e', p', k, b)"
  shows "pull_inv e' p' \<and> same_pull p p'"
proof -
  obtain e1 locs where don: "dirDonors e (parentDir (pl_name p)) = (e1, locs)" by (cases "dirDonors e (parentDir (pl_name p))")
  obtain e2 p2 k2 b2 where lp: "reuse_loop e1 p locs ([], False) 0 0 (NeedBlocks p) = (e2, p2, k2, b2)" by (cases "reuse_loop e1 p locs ([], False) 0 0 (NeedBlocks p)")
  have inv1: "pull_inv e1 p" using pull_inv_cong [OF assms(1) dirDonors_fs [OF don]] .
  have ok: "\<forall>need \<in> set (NeedBlocks p). need_ok (pl_info p) need" using NeedBlocks_ok assms(1) by (auto simp: pull_inv_def)
  have sz: "\<forall>need \<in> set (NeedBlocks p). \<forall>l \<in> set (case mget locs (bn_Hash need) of Some os \<Rightarrow> os | None \<Rightarrow> []). dl_size l = bn_Size need"
    using assms(2) don by (simp add: donors_sized_def)
  from reuse_loop_inv [OF inv1 ok sz lp] have inv2: "pull_inv e2 p2 \<and> same_pull p p2" .
  have st: "pull_inv (e2\<lparr>Stats := s\<rparr>) q = pull_inv e2 q" for s q by (simp add: pull_inv_def temp_data_def)
  have "(e', p') = (e, p) \<or> (e', p') = (e1, p) \<or> (\<exists>s. (e' = e2\<lparr>Stats := s\<rparr> \<or> e' = e2) \<and> p' = p2)"
    using assms(3) don lp unfolding FillBlocksFromLocal_def Let_def by (auto split: if_splits)
  then show ?thesis using assms(1) inv1 inv2 st by auto
qed

section \<open>Starting\<close>

lemma verify_loop_good:
  assumes "geometry info" and "mget (nodes f) tmp = Some (NFile d s ns pm)"
  shows "good info w d \<Longrightarrow> \<forall>i \<in> set is. i < length (Blocks info) \<Longrightarrow> good info (verify_loop f tmp info w is) d"
proof (induction "is" arbitrary: w)
  case (Cons i "is")
  have i: "i < length (Blocks info)" using Cons.prems(2) by simp
  show ?case
  proof (cases "read_file f tmp (blockSizeAt info i) (int64 (int i * block_unit info))")
    case (Inr buf)
    have "nat (int i * BlockSize info) = i * nat (BlockSize info)" using assms(1) by (simp add: geometry_def nat_mult_distrib)
    then have "buf = blk info i d"
      using Inr assms(2) geometry_offset(1,2) [OF assms(1) i]
      by (auto simp: read_file_def os_ReadAt_def os_Open_def blk_def split: if_splits)
    moreover have "good info (w[i := True]) d" if "HashBytes (blk info i d) = Blocks info ! i"
      using Cons.prems(1) that unfolding good_def by (simp, metis nth_list_update_neq)
    ultimately show ?thesis using Cons Inr by simp
  qed (use Cons in simp)
qed simp

lemma new_pull_simps [simp]:
  "pl_info (new_pull n info tmp w pid) = info" "pl_tmp (new_pull n info tmp w pid) = tmp"
  "pl_name (new_pull n info tmp w pid) = n" "pl_written (new_pull n info tmp w pid) = w"
  by (simp_all add: new_pull_def)

lemma open_temp_good:
  assumes "open_temp f tmp info = (f', Inr w)" and "geometry info"
  shows "\<exists>d s ns pm. mget (nodes f') tmp = Some (NFile d s ns pm) \<and> good info w d"
proof -
  let ?none = "replicate (length (Blocks info)) False"
  have none: "good info ?none d" if "int (length d) = Size info" for d using that by (simp add: good_def)
  show ?thesis
  proof (cases "case os_Stat f tmp of Inr (NFile d _ _ _) \<Rightarrow> int (length d) = Size info \<and> \<not> open_fault f tmp | _ \<Rightarrow> False")
    case True
    then obtain d s ns pm where d: "mget (nodes f) tmp = Some (NFile d s ns pm)" "int (length d) = Size info"
      by (auto simp: os_Stat_def split: sum.splits if_splits option.splits fs_node.splits)
    have "f' = f" "w = verify_loop f tmp info ?none [0..<length (Blocks info)]"
      using assms(1) True by (auto simp: open_temp_def Let_def)
    then show ?thesis using verify_loop_good [OF assms(2) d(1) none [OF d(2)]] d(1) by auto
  next
    case False
    then obtain f1 where f1: "os_modify f1 tmp (truncated (nat (Size info))) = (f', None)" "w = ?none" "0 \<le> Size info"
      using assms(1) by (auto simp: open_temp_def Let_def split: prod.splits option.splits if_splits)
    then obtain d s ns pm where "mget (nodes f') tmp = Some (NFile (truncated (nat (Size info)) d) s ns pm)"
      by (auto simp: os_modify_def split: option.splits fs_node.splits if_splits)
    moreover have "good info ?none (truncated (nat (Size info)) d)" using none f1(3) by (simp add: truncated_def)
    ultimately show ?thesis using f1(2) by blast
  qed
qed

lemma fillFromLocalCopy_same: "fillFromLocalCopy e p = (e', p') \<Longrightarrow> same_pull p p'"
  unfolding fillFromLocalCopy_def Let_def by (auto dest: fill_loop_same split: if_splits prod.splits)

lemma StartPull_inv:
  assumes "StartPull e name pid = (e', Inr p)" and "geometry (pl_info p)"
  shows "pull_inv e' p" and "pl_name p = name"
    and "\<exists>f1. TempPathFor (stager e) (fs e) name = (f1, Inr (pl_tmp p))"
proof -
  obtain global f1 tmp f2 w where st: "TempPathFor (stager e) (fs e) name = (f1, Inr tmp)" "open_temp f1 tmp global = (f2, Inr w)"
    "preparePull (e\<lparr>fs := f2\<rparr>) (new_pull name global tmp w pid) = (e', p)"
    using assms(1) unfolding StartPull_def by (auto split: sum.splits prod.splits option.splits if_splits)
  have same: "same_pull (new_pull name global tmp w pid) p" using fillFromLocalCopy_same st(3) by (simp add: preparePull_def)
  then have "geometry global" using assms(2) by (simp add: same_pull_def)
  then have "pull_inv (e\<lparr>fs := f2\<rparr>) (new_pull name global tmp w pid)"
    using open_temp_good [OF st(2)] by (auto simp: pull_inv_def temp_data_Some)
  from fillFromLocalCopy_inv [OF this] st(3) show "pull_inv e' p" by (simp add: preparePull_def)
  show "pl_name p = name" "\<exists>f1. TempPathFor (stager e) (fs e) name = (f1, Inr (pl_tmp p))"
    using same st(1) by (auto simp: same_pull_def)
qed

section \<open>Committing\<close>

definition holds_at :: "FS \<Rightarrow> string \<Rightarrow> byte list \<Rightarrow> bool" where
  "holds_at f p d \<longleftrightarrow> (\<exists>s ns pm. mget (nodes f) p = Some (NFile d s ns pm))"

definition stamped_at :: "FS \<Rightarrow> string \<Rightarrow> byte list \<Rightarrow> int \<Rightarrow> int \<Rightarrow> bool" where
  "stamped_at f p d s ns \<longleftrightarrow> (\<exists>pm. mget (nodes f) p = Some (NFile d s ns pm))"

lemma stamped_holds: "stamped_at f p d s ns \<Longrightarrow> holds_at f p d"
  by (auto simp: stamped_at_def holds_at_def)

lemma holds_file: "holds_at f p d \<Longrightarrow> is_file f p"
  by (auto simp: holds_at_def is_file_def)

lemma EnsureDir_loop_file: "EnsureDir_loop k f d = (f', err) \<Longrightarrow> is_file f p \<Longrightarrow> mget (nodes f') p = mget (nodes f) p"
proof (induction k arbitrary: f)
  case 0
  then show ?case using os_MkdirAll_file by simp
next
  case (Suc k)
  obtain f1 er where m: "os_MkdirAll f d = (f1, er)" by (cases "os_MkdirAll f d")
  have "mget (nodes f1) p = mget (nodes f) p" using os_MkdirAll_file [OF m Suc.prems(2)] .
  then show ?case using Suc.IH [of f1] Suc.prems m is_file_keep [of f1 p f] by (auto split: option.splits if_splits)
qed

lemma EnsureDir_file: "EnsureDir f d = (f', err) \<Longrightarrow> is_file f p \<Longrightarrow> mget (nodes f') p = mget (nodes f) p"
  by (auto simp: EnsureDir_def dest: EnsureDir_loop_file split: if_splits)

lemma Chmod_stamped [simp]: "stamped_at (fst (os_Chmod f q m)) p d s ns = stamped_at f p d s ns"
  by (auto simp: stamped_at_def os_Chmod_def split: option.splits fs_node.splits)

lemma Chmod_holds [simp]: "holds_at (fst (os_Chmod f q m)) p d = holds_at f p d"
  by (auto simp: holds_at_def os_Chmod_def split: option.splits fs_node.splits)

lemma applyAttrs_keeps [simp]:
  "stamped_at (applyAttrs st f q m) p d s ns = stamped_at f p d s ns" "holds_at (applyAttrs st f q m) p d = holds_at f p d"
  by (simp_all add: applyAttrs_def Let_def)

lemma Chtimes_stamps: "os_Chtimes f p s ns = (f', None) \<Longrightarrow> holds_at f p d \<Longrightarrow> stamped_at f' p d s ns"
  by (auto simp: os_Chtimes_def holds_at_def stamped_at_def split: if_splits)

lemma Rename_stamped: "os_Rename f p q = (f', None) \<Longrightarrow> stamped_at f p d s ns \<Longrightarrow> stamped_at f' q d s ns"
  by (auto simp: os_Rename_def stamped_at_def split: if_splits)

lemma copyFile_holds: "copyFile f src dst = (f', None) \<Longrightarrow> holds_at f src d \<Longrightarrow> holds_at f' dst d"
  by (auto simp: copyFile_def os_Open_def os_OpenCreate_def os_modify_def holds_at_def
    split: if_splits option.splits fs_node.splits prod.splits)

lemma commitCopyFallback_stamped:
  assumes "commitCopyFallback f tmp rel s ns = (f', None)" and "holds_at f tmp d" and "rel \<noteq> tmp"
  shows "stamped_at f' rel d s ns"
proof -
  let ?copy = "path_Join (path_Dir rel) (tempName rel @ ''.copy'')"
  obtain f1 f2 f3 f4 where f: "EnsureDir f (path_Dir rel) = (f1, None)" "copyFile f1 tmp ?copy = (f2, None)"
    "os_Chtimes f2 ?copy s ns = (f3, None)" "os_Rename f3 ?copy rel = (f4, None)" "f' = fst (os_Remove f4 tmp)"
    using assms(1) unfolding commitCopyFallback_def Let_def by (auto split: prod.splits option.splits)
  have "holds_at f1 tmp d" using EnsureDir_file [OF f(1) holds_file [OF assms(2)]] assms(2) by (simp add: holds_at_def)
  then have "stamped_at f4 rel d s ns" using f Rename_stamped Chtimes_stamps copyFile_holds by blast
  then show ?thesis using f(5) os_Remove_same [OF assms(3), of f4] by (simp add: stamped_at_def)
qed

lemma Commit_stamped:
  assumes "Commit st f tmp rel s ns m = (f', None)" and "holds_at f tmp d" and "rel \<noteq> tmp"
  shows "stamped_at f' rel d s ns"
proof -
  obtain f1 where f1: "ensureDir st f (path_Dir rel) = (f1, None)" using assms(1) by (auto simp: Commit_def split: prod.splits option.splits)
  then obtain f0 where "EnsureDir f (path_Dir rel) = (f0, None)" "f1 = fst (os_Chmod f0 (path_Dir rel) (if DirMode st = 0 then 509 else DirMode st))"
    by (auto simp: ensureDir_def split: prod.splits option.splits)
  then have h1: "holds_at f1 tmp d" using EnsureDir_file [OF _ holds_file [OF assms(2)]] assms(2) by (auto simp: holds_at_def [of f0] holds_at_def [of f])
  obtain f2 where f2: "os_Chtimes (applyAttrs st f1 tmp m) tmp s ns = (f2, None)"
    using assms(1) f1 by (auto simp: Commit_def split: prod.splits option.splits)
  have s2: "stamped_at f2 tmp d s ns" using Chtimes_stamps [OF f2] h1 by simp
  obtain f3 er where r: "os_Rename f2 tmp rel = (f3, er)" by (cases "os_Rename f2 tmp rel")
  show ?thesis
  proof (cases er)
    case None
    then have "f' = applyAttrs st f3 rel m" using assms(1) f1 f2 r by (simp add: Commit_def)
    then show ?thesis using Rename_stamped [OF r [unfolded None] s2] by simp
  next
    case (Some x)
    then have f3: "f3 = f2" using os_Rename_err r by blast
    then obtain f4 f5 er5 where f4: "os_Chtimes f2 tmp s ns = (f4, None)" "os_Rename f4 tmp rel = (f5, er5)"
      "(er5 = None \<and> f' = f5) \<or> commitCopyFallback f5 tmp rel s ns = (f', None) \<and> er5 \<noteq> None"
      using assms(1) f1 f2 r Some by (auto simp: Commit_def split: prod.splits option.splits if_splits)
    have s4: "stamped_at f4 tmp d s ns" using Chtimes_stamps [OF f4(1) stamped_holds [OF s2]] .
    show ?thesis
    proof (cases er5)
      case None
      then show ?thesis using f4 Rename_stamped [OF _ s4] by auto
    next
      case (Some y)
      then have "f5 = f4" using os_Rename_err f4(2) by blast
      then show ?thesis using commitCopyFallback_stamped [OF _ stamped_holds [OF s4] assms(3)] f4(3) Some by auto
    qed
  qed
qed

section \<open>Temporary files are not user files\<close>

lemma tempName_no_slash: "CHR ''/'' \<notin> set (tempName rel)"
proof -
  have nib: "unat (b :: byte) div 16 < 16" for b
  proof -
    have "unat b < 2 ^ LENGTH(8)" by (rule unsigned_less)
    then show ?thesis by simp
  qed
  have hd: "CHR ''/'' \<noteq> hex_digit d" if "d < 16" for d
  proof
    assume "CHR ''/'' = hex_digit d"
    then have "of_char (hex_digit d) = (47 :: nat)" by (simp add: eq_commute [of "CHR ''/''"])
    then show False using that by (simp add: hex_digit_def split: if_splits)
  qed
  have "CHR ''/'' \<noteq> hex_digit (unat b div 16)" "CHR ''/'' \<noteq> hex_digit (unat b mod 16)" for b :: byte
    using hd [OF nib] hd [of "unat b mod 16"] by simp_all
  then have "CHR ''/'' \<notin> set (hex_of bs)" for bs by (simp add: hex_of_def)
  then show ?thesis by (auto simp: tempName_def TempPrefix_def)
qed

lemma split_on_last: "CHR ''/'' \<notin> set a \<Longrightarrow> \<exists>w ws. split_on CHR ''/'' (p @ CHR ''/'' # a) = w # ws @ [a]"
  by (induction p) (auto simp: split_on_single)

lemma tempName_reserved: "IsReserved (path_Join d (tempName rel))"
proof -
  have t: "prefix TempPrefix (tempName rel)" by (simp add: tempName_def)
  have ne: "path_Join d (tempName rel) \<noteq> []" "path_Join d (tempName rel) \<noteq> ''.''"
    by (auto simp: path_Join_def tempName_def TempPrefix_def append_eq_Cons_conv)
  have "tempName rel \<in> set (split_on CHR ''/'' (path_Join d (tempName rel)))"
    using split_on_last [OF tempName_no_slash [of rel], of d] split_on_single [OF tempName_no_slash, of rel] by (fastforce simp: path_Join_def)
  then show ?thesis using t ne by (auto simp: IsReserved_def list_ex_iff)
qed

lemma TempPathFor_reserved: "TempPathFor st f rel = (f', Inr tmp) \<Longrightarrow> IsReserved tmp"
  using tempName_reserved by (auto simp: TempPathFor_def Let_def split: if_splits prod.splits option.splits)

section \<open>Only verified content is committed\<close>

inductive pull_step :: "Engine \<times> Pull \<Rightarrow> Engine \<times> Pull \<Rightarrow> bool" where
  step_run: "ReceiveBlocks e p first data = (e', p', err) \<Longrightarrow> pull_step (e, p) (e', p')"
| step_block: "ReceiveBlock e p idx data = (e', p', err) \<Longrightarrow> int (length data) = blockSizeAt (pl_info p) (nat idx) \<Longrightarrow> pull_step (e, p) (e', p')"
| step_reuse: "FillBlocksFromLocal e p = (e', p', k, b) \<Longrightarrow> donors_sized e p \<Longrightarrow> pull_step (e, p) (e', p')"
| step_other: "mget (nodes (fs e')) (pl_tmp p) = mget (nodes (fs e)) (pl_tmp p) \<Longrightarrow> pull_step (e, p) (e', p)"

lemma pull_step_inv: "pull_step s s' \<Longrightarrow> pull_inv (fst s) (snd s) \<Longrightarrow> pull_inv (fst s') (snd s') \<and> same_pull (snd s) (snd s')"
proof (induction rule: pull_step.induct)
  case (step_run e p first data e' p' err)
  then show ?case using ReceiveBlocks_inv [OF _ step_run(1)] by (simp add: same_pull_def)
next
  case (step_block e p idx data e' p' err)
  then show ?case using ReceiveBlock_inv [OF _ step_block(1,2)] by (simp add: same_pull_def)
next
  case (step_reuse e p e' p' k b)
  then show ?case using FillBlocksFromLocal_inv [OF _ step_reuse(2,1)] by simp
next
  case (step_other e' p e)
  then show ?case using temp_data_cong [of e' p e p] by (simp add: pull_inv_def)
qed

lemma pull_run_inv:
  "pull_step\<^sup>*\<^sup>* s s' \<Longrightarrow> pull_inv (fst s) (snd s) \<Longrightarrow> pull_inv (fst s') (snd s') \<and> same_pull (snd s) (snd s')"
  by (induction rule: rtranclp_induct) (use pull_step_inv same_pull_trans in auto)

lemma blocks_of_nth:
  assumes "0 < bs"
  shows "i * bs < length d \<Longrightarrow> i < length (blocks_of bs d) \<and> blocks_of bs d ! i = take bs (drop (i * bs) d)"
    and "i < length (blocks_of bs d) \<Longrightarrow> i * bs < length d"
proof (induction i arbitrary: d)
  case 0
  { case 1 then show ?case using assms by (subst (1 2) blocks_of.simps) auto
  next case 2 then show ?case by (cases d) auto }
next
  case (Suc i)
  { case 1
    then have "d \<noteq> []" "i * bs < length (drop bs d)" by auto
    then show ?case using assms Suc.IH(1) [of "drop bs d"] by (subst (1 2) blocks_of.simps) (auto simp: add.commute)
  next
    case 2
    then have "d \<noteq> []" "i < length (blocks_of bs (drop bs d))" using assms by (auto simp: blocks_of.simps [of bs d] split: if_splits)
    then show ?case using Suc.IH(2) [of "drop bs d"] by simp }
qed

lemma good_hashes:
  assumes "geometry info" and "good info w d" and "\<not> list_ex Not w"
  shows "map HashBytes (blocks_of (nat (BlockSize info)) d) = Blocks info"
proof (rule nth_equalityI)
  let ?b = "nat (BlockSize info)"
  have b: "0 < ?b" "0 < BlockSize info" using assms(1) by (auto simp: geometry_def)
  have len: "int (length d) = Size info" using assms(2) by (simp add: good_def)
  have lt: "i * ?b < length d \<longleftrightarrow> i < length (Blocks info)" for i
  proof
    assume "i * ?b < length d"
    then have "int (i * ?b) < Size info" using len by linarith
    then have "int i * BlockSize info + BlockSize info \<le> Size info + BlockSize info - 1" using b(2) by simp
    then have "(int i + 1) * BlockSize info \<le> Size info + BlockSize info - 1" by (simp add: distrib_right)
    then have "int i + 1 \<le> (Size info + BlockSize info - 1) div BlockSize info"
      using zdiv_mono1 [of "(int i + 1) * BlockSize info" _ "BlockSize info"] b(2) by simp
    then show "i < length (Blocks info)" using assms(1) by (simp add: geometry_def)
  next
    assume "i < length (Blocks info)"
    then have "int i * BlockSize info < int (length d)" using geometry_block [OF assms(1)] len by simp
    then have "int (i * ?b) < int (length d)" using b(2) by simp
    then show "i * ?b < length d" by linarith
  qed
  then have "i < length (blocks_of ?b d) \<longleftrightarrow> i < length (Blocks info)" for i using blocks_of_nth [OF b(1)] by blast
  then show "length (map HashBytes (blocks_of ?b d)) = length (Blocks info)" by (metis length_map less_not_refl linorder_neqE_nat)
  fix i assume "i < length (map HashBytes (blocks_of ?b d))"
  then have i: "i < length (blocks_of ?b d)" "i < length (Blocks info)" using \<open>\<And>i. i < length (blocks_of ?b d) \<longleftrightarrow> _\<close> by auto
  have "i * ?b \<le> length d" using lt [of i] i(2) by simp
  then have "int (length (drop (i * ?b) d)) = Size info - int i * BlockSize info" using len b(2) by (simp add: of_nat_diff)
  then have "nat (Size info - int i * BlockSize info) = length (drop (i * ?b) d)" by (metis nat_int)
  then have "length (drop (i * ?b) d) \<le> nat (blockSizeAt info i) \<or> nat (blockSizeAt info i) = ?b"
    using geometry_offset(3) [OF assms(1) i(2)] by (auto simp: min_def)
  moreover have "nat (blockSizeAt info i) \<le> ?b" using geometry_offset(3) [OF assms(1) i(2)] by simp
  ultimately have "take ?b (drop (i * ?b) d) = blk info i d" by (auto simp: blk_def)
  moreover have "w ! i" "i < length w" using assms(2,3) i(2) by (auto simp: good_def list_ex_length)
  ultimately show "map HashBytes (blocks_of ?b d) ! i = Blocks info ! i"
    using i blocks_of_nth [OF b(1)] assms(2) by (simp add: good_def)
qed

lemma FileHashes_good:
  assumes "geometry info" and "good info w d" and "\<not> list_ex Not w"
  shows "FileHashes (Some d) (BlockSize info) = Inr (BlockSize info, Blocks info)"
proof -
  have b: "0 < BlockSize info" using assms(1) by (simp add: geometry_def)
  have "BlockHashes ([d], EOF) (BlockSize info) = Inr (Blocks info)"
    using BlockHashes_EOF [OF b, of "[d]"] good_hashes [OF assms] by (simp add: HashBytes_def [abs_def])
  then show ?thesis using b by (simp add: FileHashes_def Let_def)
qed

lemma Finish_Commit:
  assumes "Finish e p = (e', Inr out)"
  shows "\<not> list_ex Not (pl_written p)"
    and "Commit (stager e) (fs e) (pl_tmp p) (pl_name p) (ModifiedS (pl_info p)) (ModifiedNs (pl_info p)) (Mode (pl_info p)) = (fs e', None)"
proof -
  show "\<not> list_ex Not (pl_written p)" using assms by (auto simp: Finish_def split: if_splits)
  show "Commit (stager e) (fs e) (pl_tmp p) (pl_name p) (ModifiedS (pl_info p)) (ModifiedNs (pl_info p)) (Mode (pl_info p)) = (fs e', None)"
    using assms by (auto simp: Finish_def Let_def emit_def dest!: IxPut_cfg split: if_splits prod.splits option.splits)
qed

text \<open>C2. A pull that finishes leaves at the path exactly the content the peers advertised: from the start of the pull,
through any sequence of received blocks, received runs, local reuse and other activity that leaves the staged file
alone, a successful Finish implies that the file at the name hashes block by block to the recorded block list and
carries the recorded modification time.\<close>

theorem pull_commits_verified_content:
  assumes "StartPull e name peerID = (e0, Inr p0)" and "geometry (pl_info p0)" and "\<not> IsReserved name"
    and "pull_step\<^sup>*\<^sup>* (e0, p0) (e1, p1)" and "Finish e1 p1 = (e2, Inr out)"
  shows "\<exists>d pm. mget (nodes (fs e2)) name = Some (NFile d (ModifiedS (pl_info p0)) (ModifiedNs (pl_info p0)) pm)
    \<and> FileHashes (Some d) (BlockSize (pl_info p0)) = Inr (BlockSize (pl_info p0), Blocks (pl_info p0))"
proof -
  note start = StartPull_inv [OF assms(1,2)]
  have run: "pull_inv e1 p1" "same_pull p0 p1" using pull_run_inv [OF assms(4)] start(1) by auto
  then obtain d where d: "temp_data e1 p1 = Some d" "good (pl_info p1) (pl_written p1) d" by (auto simp: pull_inv_def)
  have tmp: "name \<noteq> pl_tmp p1" using start(3) TempPathFor_reserved assms(3) run(2) by (auto simp: same_pull_def)
  have "holds_at (fs e1) (pl_tmp p1) d" using d(1) by (simp add: temp_data_Some holds_at_def)
  from Commit_stamped [OF Finish_Commit(2) [OF assms(5)] this] tmp start(2) run(2)
  have "stamped_at (fs e2) name d (ModifiedS (pl_info p0)) (ModifiedNs (pl_info p0))" by (simp add: same_pull_def)
  moreover have "FileHashes (Some d) (BlockSize (pl_info p0)) = Inr (BlockSize (pl_info p0), Blocks (pl_info p0))"
    using FileHashes_good [OF assms(2) _ Finish_Commit(1) [OF assms(5)]] d(2) run(2) by (simp add: same_pull_def)
  ultimately show ?thesis unfolding stamped_at_def by blast
qed

definition one_block :: FileInfo where
  "one_block = (sample ''f'')\<lparr>Size := 1, BlockSize := 131072, Blocks := [HashBytes [7]], Version := Some [(2, 1)]\<rparr>"

definition pull_engine :: Engine where
  "pull_engine = fresh_engine\<lparr>peers := [(7, [(''f'', one_block)])], fs := empty_fs\<rparr>"

lemma one_block_simps [simp]:
  "Name one_block = ''f''" "Size one_block = 1" "BlockSize one_block = 131072" "Blocks one_block = [HashBytes [7]]"
  "\<not> Deleted one_block" "Type one_block = TypeFile" "Version one_block = Some [(2, 1)]" "Sequence one_block = 0"
  by (simp_all add: one_block_def sample_def zero_info_def)

lemma one_block_geometry: "geometry one_block" "blockSizeAt one_block 0 = 1"
  by (simp_all add: geometry_def blockSizeAt_def block_unit_def Let_def int64_id)

definition part_path :: string where
  "part_path = path_Join ReservedDir (tempName ''f'')"

lemma pull_engine_start:
  "StartPull pull_engine ''f'' 7 =
     (pull_engine\<lparr>fs := empty_fs\<lparr>nodes := [(part_path, NFile [0] 0 0 420)]\<rparr>, reuseByKey := Some []\<rparr>,
      Inr (new_pull ''f'' one_block part_path [False] 7))"
proof -
  have g: "GlobalFor pull_engine ''f'' = Inr (Some one_block, False)"
    by (simp add: GlobalFor_def globalForLocked_def globalFrom_def pull_engine_def fresh_engine_def New_Engine_def Ix_Get_def empty_index_def)
  have t: "TempPathFor (stager pull_engine) (fs pull_engine) ''f'' = (empty_fs, Inr part_path)"
    by (simp add: TempPathFor_def pull_engine_def fresh_engine_def New_Engine_def default_stager_def sameDevice_def part_path_def empty_fs_def)
  have o: "open_temp empty_fs part_path one_block = (empty_fs\<lparr>nodes := [(part_path, NFile [0] 0 0 420)]\<rparr>, Inr [False])"
    by (simp add: open_temp_def os_Stat_def os_OpenCreate_def os_modify_def truncated_def empty_fs_def)
  have "NeedBlocks (new_pull ''f'' one_block part_path [False] 7) \<noteq> []" by (simp add: NeedBlocks_def)
  moreover have "reuseCandidates (pull_engine\<lparr>fs := f\<rparr>) k = (pull_engine\<lparr>fs := f, reuseByKey := Some []\<rparr>, [])" for f k
    by (simp add: reuseCandidates_def pull_engine_def fresh_engine_def New_Engine_def Ix_ListAll_def select_rows_def empty_index_def Let_def)
  ultimately show ?thesis
    by (simp add: StartPull_def g t o preparePull_def fillFromLocalCopy_def localCopyDonor_def)
qed

definition started :: Engine where
  "started = pull_engine\<lparr>fs := empty_fs\<lparr>nodes := [(part_path, NFile [0] 0 0 420)]\<rparr>, reuseByKey := Some []\<rparr>"

definition received :: Engine where
  "received = add_down 1 (started\<lparr>fs := empty_fs\<lparr>nodes := [(part_path, NFile [7] 0 0 420)]\<rparr>\<rparr>)"

lemma pull_engine_receive:
  "ReceiveBlocks started (new_pull ''f'' one_block part_path [False] 7) 0 [7] =
     (received, mark_written 0 (new_pull ''f'' one_block part_path [False] 7), None)"
proof -
  have "check_run one_block [7] 0 = Inr 1"
    by (simp add: check_run.simps [of _ "[7]"] check_run.simps [of _ "[]"] one_block_geometry)
  then show ?thesis
    by (simp add: ReceiveBlocks_def write_temp_def os_modify_def written_at_def truncated_def received_def started_def empty_fs_def int64_def block_unit_def)
qed

lemma pull_engine_finish:
  "\<exists>e2 out. Finish received (mark_written 0 (new_pull ''f'' one_block part_path [False] 7)) = (e2, Inr out)"
proof -
  let ?f = "empty_fs\<lparr>nodes := [(part_path, NFile [7] 0 0 420)]\<rparr>"
  have "\<not> IsReserved ''f''" by code_simp
  moreover have "IsReserved part_path" using tempName_reserved by (simp add: part_path_def)
  ultimately have ne: "part_path \<noteq> ''f''" by metis
  have d: "path_Dir ''f'' = ''.''" by code_simp
  have "\<exists>f'. Commit default_stager ?f part_path ''f'' s ns m = (f', None)" for s ns m
    using ne by (simp add: Commit_def ensureDir_def EnsureDir_def d os_Chmod_def applyAttrs_def os_Chtimes_def os_Rename_def empty_fs_def Let_def)
  then obtain f' where c: "Commit default_stager ?f part_path ''f'' (ModifiedS one_block) (ModifiedNs one_block) (Mode one_block) = (f', None)" by blast
  have ix: "\<not> fault_write (Ix (received\<lparr>fs := f'\<rparr>)) n" for n
    by (simp add: received_def started_def pull_engine_def add_down_def fresh_engine_def New_Engine_def empty_index_def)
  have "stager received = default_stager" "fs received = ?f"
    by (simp_all add: received_def started_def pull_engine_def add_down_def fresh_engine_def New_Engine_def)
  then show ?thesis using c ix by (simp add: Finish_def mark_written_def IxPut_ok new_pull_def empty_fs_def)
qed

theorem pull_commits_verified_content_witness:
  "\<exists>p0 e0 e1 p1 e2 out d pm. StartPull pull_engine ''f'' 7 = (e0, Inr p0) \<and> pull_step\<^sup>*\<^sup>* (e0, p0) (e1, p1) \<and> Finish e1 p1 = (e2, Inr out)
     \<and> mget (nodes (fs e2)) ''f'' = Some (NFile d 0 0 pm) \<and> FileHashes (Some d) 131072 = Inr (131072, [HashBytes [7]])"
proof -
  let ?p = "new_pull ''f'' one_block part_path [False] 7"
  have run: "pull_step\<^sup>*\<^sup>* (started, ?p) (received, mark_written 0 ?p)" using step_run [OF pull_engine_receive] by (rule r_into_rtranclp)
  obtain e2 out where fin: "Finish received (mark_written 0 ?p) = (e2, Inr out)" using pull_engine_finish by blast
  have start: "StartPull pull_engine ''f'' 7 = (started, Inr ?p)" using pull_engine_start by (simp add: started_def)
  have "\<not> IsReserved ''f''" by code_simp
  from pull_commits_verified_content [OF start _ this run fin] one_block_geometry(1)
  obtain d pm where "mget (nodes (fs e2)) ''f'' = Some (NFile d (ModifiedS one_block) (ModifiedNs one_block) pm)"
    "FileHashes (Some d) 131072 = Inr (131072, [HashBytes [7]])" by auto
  moreover have "ModifiedS one_block = 0" "ModifiedNs one_block = 0" by (simp_all add: one_block_def sample_def zero_info_def)
  ultimately show ?thesis using run fin start by metis
qed

text \<open>A record without a block size: \<^verbatim>\<open>ReceiveBlocks\<close> and \<^verbatim>\<open>blockSizeAt\<close> fall back to the smallest block size, but
\<^verbatim>\<open>NeedBlocks\<close> and \<^verbatim>\<open>ReceiveBlock\<close> compute offsets from the recorded value, so every block is asked for and written at offset 0.\<close>

theorem blockless_record_offsets:
  assumes "BlockSize (pl_info p) = 0" and "need \<in> set (NeedBlocks p)"
  shows "bn_Offset need = 0 \<and> block_unit (pl_info p) = MinBlockSize"
  using assms by (auto simp: NeedBlocks_def block_unit_def int64_def)

end
