(* ===== verification/Pull_Batch.thy ===== *)
theory Pull_Batch
  imports Pull_Integrity Exchange "HOL-Library.Product_Lexorder"
begin

text \<open>
  Concurrent pulling over one connection, \<^verbatim>\<open>internal/node/pull_batch.go\<close>: runs of consecutive blocks, up to \<^verbatim>\<open>k\<close> files in
  flight each with a window of requests, a budget for the bytes the peer owes, and the attribution of a response to
  the request that asked for it. The jobs a batch has created are kept in a list, and a pointer to a job is its position there.
  Problems reported to and cleared from the node's list are collected. The clock and the answers to the question whether the
  folder is paused are arguments; log lines are not modelled.
\<close>

section \<open>Configuration\<close>

record PullTuning =
  pt_PullConcurrency :: int
  pt_PullRunKB :: int
  pt_PullInFlightMB :: int
  pt_PullDisableBlockReuse :: bool
  pt_PullOrder :: string

definition PullFiles :: "PullTuning \<Rightarrow> int" where
  "PullFiles c = (if pt_PullConcurrency c \<le> 0 then 4 else if pt_PullConcurrency c > 8 then 8 else pt_PullConcurrency c)"

definition ReuseLocalBlocks :: "PullTuning \<Rightarrow> bool" where
  "ReuseLocalBlocks c \<longleftrightarrow> \<not> pt_PullDisableBlockReuse c"

definition PullOrderOrDefault :: "PullTuning \<Rightarrow> string" where
  "PullOrderOrDefault c =
     (let s = ToLower (TrimSpace (pt_PullOrder c)) in
        if s \<in> {[], ''smallest'', ''small''} then ''smallest''
        else if s \<in> {''largest'', ''large''} then ''largest''
        else if s \<in> {''index'', ''name'', ''none''} then ''index''
        else ''smallest'')"

text \<open>The shifts of the configured values wrap at 64 bits.\<close>

definition PullRunBytesOrDefault :: "PullTuning \<Rightarrow> int" where
  "PullRunBytesOrDefault c =
     (if pt_PullRunKB c \<le> 0 then 4 * 1024 * 1024
      else let n = int64 (pt_PullRunKB c * 1024) in if n > 16 * 1024 * 1024 then 16 * 1024 * 1024 else n)"

definition PullInFlightBytesOrDefault :: "PullTuning \<Rightarrow> int" where
  "PullInFlightBytesOrDefault c =
     (if pt_PullInFlightMB c \<le> 0 then 16 * 1024 * 1024
      else let n = int64 (pt_PullInFlightMB c * 1048576) in if n < 256 * 1024 then 256 * 1024 else n)"

definition pullWindowSize :: nat where
  "pullWindowSize = 8"

section \<open>Runs\<close>

record pullRun =
  pr_needs :: "BlockNeed list"
  pr_offset :: int
  pr_size :: int

definition run_of :: "BlockNeed \<Rightarrow> pullRun" where
  "run_of need = \<lparr>pr_needs = [need], pr_offset = bn_Offset need, pr_size = bn_Size need\<rparr>"

fun coalesce_loop :: "int \<Rightarrow> pullRun \<Rightarrow> BlockNeed list \<Rightarrow> pullRun list" where
  "coalesce_loop maxRun cur [] = [cur]"
| "coalesce_loop maxRun cur (need # needs) =
     (if bn_Index need = bn_Index (last (pr_needs cur)) + 1 \<and> pr_size cur + bn_Size need \<le> maxRun
         \<and> pr_size cur + bn_Size need \<le> MaxBlockSize
      then coalesce_loop maxRun (cur\<lparr>pr_needs := pr_needs cur @ [need], pr_size := pr_size cur + bn_Size need\<rparr>) needs
      else cur # coalesce_loop maxRun (run_of need) needs)"

definition planPulls :: "BlockNeed list \<Rightarrow> int \<Rightarrow> pullRun list" where
  "planPulls needs maxRun =
     (case needs of
        [] \<Rightarrow> []
      | need # rest \<Rightarrow> coalesce_loop (if maxRun \<le> 0 then MaxBlockSize else maxRun) (run_of need) rest)"

text \<open>\<^verbatim>\<open>sort.SliceStable\<close> with the code's comparison, which ends with the name.\<close>

definition orderPulls :: "PullTuning \<Rightarrow> Engine \<Rightarrow> uint64 \<Rightarrow> string list \<Rightarrow> string list" where
  "orderPulls c e peerID names =
     (let order = PullOrderOrDefault c in
        if order = ''index'' \<or> length names < 2 then names
        else let sizes = PeerSizes e peerID names; sz = (\<lambda>n. case mget sizes n of Some s \<Rightarrow> s | None \<Rightarrow> 0) in
          if order = ''largest'' then sort_key (\<lambda>n. (- sz n, n)) names
          else sort_key (\<lambda>n. (mget sizes n = None, sz n, n)) names)"

section \<open>State\<close>

record pullJob =
  pj_name :: string
  pj_pull :: Pull
  pj_runs :: "pullRun list"
  pj_sent :: nat
  pj_received :: nat
  pj_total :: nat
  pj_dead :: bool

datatype problem = Reported string go_error | Cleared string

record pullBatch =
  pb_node :: Node
  pb_conn :: Conn
  pb_folder :: string
  pb_k :: int
  pb_all :: "pullJob list"
  pb_jobs :: "nat list"
  pb_inflightBytes :: int
  pb_inFlight :: "(uint64, nat \<times> nat) gomap"
  pb_runBytes :: int
  pb_budget :: int
  pb_reuse :: bool
  pb_reqSeq :: uint64
  pb_problems :: "problem list"

text \<open>\<^verbatim>\<open>f.Engine\<close>, with the effect of a call on it stored back.\<close>

definition b_engine :: "pullBatch \<Rightarrow> Engine" where
  "b_engine b = (case mget (nd_Folders (pb_node b)) (pb_folder b) of Some f \<Rightarrow> fo_Engine f | None \<Rightarrow> fresh_engine)"

definition with_engine :: "Engine \<Rightarrow> pullBatch \<Rightarrow> pullBatch" where
  "with_engine e b = b\<lparr>pb_node := set_engine (pb_folder b) e (pb_node b)\<rparr>"

definition reportProblem :: "string \<Rightarrow> go_error \<Rightarrow> pullBatch \<Rightarrow> pullBatch" where
  "reportProblem name err b = b\<lparr>pb_problems := pb_problems b @ [Reported name err]\<rparr>"

definition clearProblem :: "string \<Rightarrow> pullBatch \<Rightarrow> pullBatch" where
  "clearProblem name b = b\<lparr>pb_problems := pb_problems b @ [Cleared name]\<rparr>"

definition set_job :: "nat \<Rightarrow> pullJob \<Rightarrow> pullBatch \<Rightarrow> pullBatch" where
  "set_job j job b = b\<lparr>pb_all := (pb_all b)[j := job]\<rparr>"

definition send_msg :: "Message \<Rightarrow> pullBatch \<Rightarrow> pullBatch \<times> go_error option" where
  "send_msg m b = (let (c, err) = Send m (pb_conn b) in (b\<lparr>pb_conn := c\<rparr>, err))"

definition b_sendIndexUpdate :: "string \<Rightarrow> pullBatch \<Rightarrow> pullBatch \<times> go_error option" where
  "b_sendIndexUpdate name b = (let (c, err) = sendIndexUpdate (pb_node b) (pb_folder b) name (pb_conn b) in (b\<lparr>pb_conn := c\<rparr>, err))"

section \<open>Operations\<close>

definition active :: "pullBatch \<Rightarrow> string \<Rightarrow> bool" where
  "active b name = list_ex (\<lambda>j. pj_name (pb_all b ! j) = name) (pb_jobs b)"

definition remove_job :: "nat \<Rightarrow> pullBatch \<Rightarrow> pullBatch" where
  "remove_job j b = b\<lparr>pb_jobs := remove1 j (pb_jobs b)\<rparr>"

definition request_of :: "pullBatch \<Rightarrow> uint64 \<Rightarrow> string \<Rightarrow> pullRun \<Rightarrow> Message" where
  "request_of b rid name run =
     (bare MsgRequest)\<lparr>m_Request := Some \<lparr>rq_ID = rid, rq_Folder = pb_folder b, rq_Name = name, rq_Offset = pr_offset run, rq_Size = pr_size run\<rparr>\<rparr>"

definition sendNext :: "nat \<Rightarrow> pullBatch \<Rightarrow> pullBatch \<times> go_error option" where
  "sendNext j b =
     (let job = pb_all b ! j in
        if pj_dead job \<or> pj_sent job \<ge> length (pj_runs job) then (b, None)
        else let run = pj_runs job ! pj_sent job in
          if pb_inflightBytes b > 0 \<and> pb_inflightBytes b + pr_size run > pb_budget b then (b, None)
          else let rid = pb_reqSeq b + 1; b1 = b\<lparr>pb_reqSeq := rid\<rparr> in
            case send_msg (request_of b rid (pj_name job) run) b1 of
              (b2, Some err) \<Rightarrow> (b2, Some err)
            | (b2, None) \<Rightarrow>
                (set_job j (job\<lparr>pj_sent := pj_sent job + 1\<rparr>)
                  (b2\<lparr>pb_inFlight := mset_at (pb_inFlight b2) rid (j, pj_sent job), pb_inflightBytes := pb_inflightBytes b2 + pr_size run\<rparr>), None))"

definition complete :: "nat \<Rightarrow> pullBatch \<Rightarrow> pullBatch \<times> go_error option" where
  "complete j b =
     (let job = pb_all b ! j; b1 = remove_job j (set_job j (job\<lparr>pj_dead := True\<rparr>) b);
          (e, r) = Finish (b_engine b1) (pj_pull job); b2 = with_engine e b1 in
        case r of
          Inl err \<Rightarrow> (reportProblem (pj_name job) err b2, None)
        | Inr _ \<Rightarrow> b_sendIndexUpdate (pj_name job) (clearProblem (pj_name job) b2))"

definition abandon :: "nat \<Rightarrow> pullBatch \<Rightarrow> pullBatch" where
  "abandon j b =
     (let job = pb_all b ! j in
        if pj_dead job then b
        else remove_job j (with_engine (Abort (b_engine b) (pj_pull job)) (set_job j (job\<lparr>pj_dead := True\<rparr>) b)))"

definition abortAll :: "pullBatch \<Rightarrow> pullBatch" where
  "abortAll b = (foldl (\<lambda>b j. with_engine (Abort (b_engine b) (pj_pull (pb_all b ! j))) (set_job j ((pb_all b ! j)\<lparr>pj_dead := True\<rparr>) b)) b (pb_jobs b))
     \<lparr>pb_jobs := []\<rparr>"

text \<open>The first requests of a job, until the window or the budget is used up.\<close>

fun fill_window :: "nat \<Rightarrow> nat \<Rightarrow> pullBatch \<Rightarrow> pullBatch \<times> go_error option" where
  "fill_window 0 j b = (b, None)"
| "fill_window (Suc k) j b =
     (if pj_sent (pb_all b ! j) \<ge> pullWindowSize \<or> pj_sent (pb_all b ! j) \<ge> length (pj_runs (pb_all b ! j)) then (b, None)
      else case sendNext j b of
          (b1, Some err) \<Rightarrow> (b1, Some err)
        | (b1, None) \<Rightarrow> if pj_sent (pb_all b1 ! j) = pj_sent (pb_all b ! j) then (b1, None) else fill_window k j b1)"

text \<open>What \<^verbatim>\<open>start\<close> does before a job exists: the plan is carried out, and a name without content is finished. \<open>None\<close> stands for a
name that goes on to a pull.\<close>

definition finish_name :: "string \<Rightarrow> pullBatch \<Rightarrow> Engine \<times> go_error option \<Rightarrow> pullBatch \<times> go_error option option" where
  "finish_name name b r =
     (case r of
        (e, Some err) \<Rightarrow> (reportProblem name err (with_engine e b), Some None)
      | (e, None) \<Rightarrow> (case b_sendIndexUpdate name (clearProblem name (with_engine e b)) of (b', er) \<Rightarrow> (b', Some er)))"

definition start_plan :: "int \<Rightarrow> string \<Rightarrow> pullBatch \<Rightarrow> pullBatch \<times> go_error option option" where
  "start_plan now name b =
     (let peerID = cn_PeerID (pb_conn b); e = b_engine b in
      case PlanOverwrite e name of
        Inl err \<Rightarrow> (reportProblem name err b, Some None)
      | Inr plan0 \<Rightarrow>
          (let plan = plan0\<lparr>op_PeerID := peerID\<rparr>; (e1, r) = Execute now e plan in
           case r of
             Inl err \<Rightarrow> (reportProblem name err (with_engine e1 b), Some None)
           | Inr _ \<Rightarrow>
               if op_Delete plan then
                 (case ApplyDeletion now e1 name peerID of
                    None \<Rightarrow> (b, Some (Some Panic)) \<comment> \<open>does not occur: the recursion ends\<close>
                  | Some res \<Rightarrow> finish_name name b res)
               else if Type (op_Global plan) = TypeDirectory then finish_name name b (EnsureDir_engine e1 (op_Global plan))
               else if Type (op_Global plan) = TypeSymlink then finish_name name b (AdoptMetadata e1 (op_Global plan))
               else (with_engine e1 b, None)))"

text \<open>The rest of \<^verbatim>\<open>start\<close>; the position of the job is returned when it takes a slot.\<close>

definition start_pull :: "string \<Rightarrow> pullBatch \<Rightarrow> pullBatch \<times> (go_error + nat option)" where
  "start_pull name b =
     (case StartPull (b_engine b) name (cn_PeerID (pb_conn b)) of
        (e, Inl err) \<Rightarrow> (reportProblem name err (with_engine e b), Inr None)
      | (e, Inr pull0) \<Rightarrow>
          (let (e1, pull) = (if pb_reuse b then (case FillBlocksFromLocal e pull0 of (e1, p1, _, _) \<Rightarrow> (e1, p1)) else (e, pull0));
               needs = NeedBlocks pull; j = length (pb_all b);
               job = \<lparr>pj_name = name, pj_pull = pull, pj_runs = planPulls needs (pb_runBytes b), pj_sent = 0, pj_received = 0,
                 pj_total = length needs, pj_dead = False\<rparr>;
               b1 = (with_engine e1 b)\<lparr>pb_all := pb_all b @ [job]\<rparr> in
             if length needs = 0 then
               (case complete j b1 of (b2, Some err) \<Rightarrow> (b2, Inl err) | (b2, None) \<Rightarrow> (b2, Inr None))
             else
               (case fill_window pullWindowSize j b1 of
                  (b2, Some err) \<Rightarrow> (with_engine (Abort (b_engine b2) pull) b2, Inl err)
                | (b2, None) \<Rightarrow> (b2, Inr (Some j)))))"

definition start_name :: "int \<Rightarrow> string \<Rightarrow> pullBatch \<Rightarrow> pullBatch \<times> (go_error + nat option)" where
  "start_name now name b =
     (case start_plan now name b of
        (b1, Some (Some err)) \<Rightarrow> (b1, Inl err)
      | (b1, Some None) \<Rightarrow> (b1, Inr None)
      | (b1, None) \<Rightarrow> start_pull name b1)"

definition handle_response :: "Response \<Rightarrow> pullBatch \<Rightarrow> pullBatch \<times> go_error option" where
  "handle_response resp b =
     (case mget (pb_inFlight b) (rs_ID resp) of
        None \<Rightarrow> (b, None)
      | Some (j, r) \<Rightarrow>
          (let b1 = b\<lparr>pb_inFlight := mdelete (pb_inFlight b) (rs_ID resp)\<rparr>; job = pb_all b ! j in
             if pj_dead job then (b1, None)
             else case rs_Code resp of
                 RespInvalidFile \<Rightarrow> (abandon j b1, None)
               | RespNoSuchFile \<Rightarrow> (abandon j b1, None)
               | RespNoError \<Rightarrow>
                   (let run = pj_runs job ! r; b2 = b1\<lparr>pb_inflightBytes := max 0 (pb_inflightBytes b1 - pr_size run)\<rparr> in
                      if int (length (rs_Data resp)) \<noteq> pr_size run
                      then (abandon j (reportProblem (pj_name job) (Err ''run came back short'') b2), None)
                      else case ReceiveBlocks (b_engine b2) (pj_pull job) (int (bn_Index (hd (pr_needs run)))) (rs_Data resp) of
                          (e, p, Some err) \<Rightarrow> (abandon j (reportProblem (pj_name job) err (set_job j (job\<lparr>pj_pull := p\<rparr>) (with_engine e b2))), None)
                        | (e, p, None) \<Rightarrow>
                            (let job' = job\<lparr>pj_pull := p, pj_received := pj_received job + length (pr_needs run)\<rparr>;
                                 b3 = set_job j job' (with_engine e b2) in
                               if pj_received job' = pj_total job' then complete j b3 else sendNext j b3))
               | _ \<Rightarrow> (abandon j (reportProblem (pj_name job) (Err ''block request failed'') b1), None)))"

definition handle :: "int \<Rightarrow> Message \<Rightarrow> pullBatch \<Rightarrow> pullBatch \<times> go_error option" where
  "handle now m b =
     (case m_Type m of
        MsgResponse \<Rightarrow> (case m_Response m of None \<Rightarrow> (b, None) | Some resp \<Rightarrow> handle_response resp b)
      | MsgIndex \<Rightarrow> (case m_Index m of None \<Rightarrow> (b, None)
          | Some msg \<Rightarrow> (b\<lparr>pb_node := mergeIndex now (cn_PeerID (pb_conn b)) msg None (pb_node b)\<rparr>, None))
      | MsgIndexUpdate \<Rightarrow> (case m_Index m of None \<Rightarrow> (b, None)
          | Some msg \<Rightarrow> (b\<lparr>pb_node := mergeIndex now (cn_PeerID (pb_conn b)) msg None (pb_node b)\<rparr>, None))
      | _ \<Rightarrow> (b, None))"

section \<open>The loop\<close>

text \<open>Admission; \<open>paused\<close> answers the question for the number of names left. The names not yet started are returned.\<close>

fun admit :: "int \<Rightarrow> (nat \<Rightarrow> bool) \<Rightarrow> string list \<Rightarrow> pullBatch \<Rightarrow> pullBatch \<times> string list \<times> go_error option" where
  "admit now paused [] b = (b, [], None)"
| "admit now paused (name # names) b =
     (if int (length (pb_jobs b)) \<ge> pb_k b then (b, name # names, None)
      else if paused (length (name # names)) then (b, [], None)
      else if active b name then admit now paused names b
      else case start_name now name b of
          (b1, Inl err) \<Rightarrow> (b1, names, Some err)
        | (b1, Inr None) \<Rightarrow> admit now paused names b1
        | (b1, Inr (Some j)) \<Rightarrow> admit now paused names (b1\<lparr>pb_jobs := pb_jobs b1 @ [j]\<rparr>))"

text \<open>\<^verbatim>\<open>run\<close> over the messages the peer will send; at their end \<^verbatim>\<open>Recv\<close> fails.\<close>

fun batch_run :: "int \<Rightarrow> (nat \<Rightarrow> bool) \<Rightarrow> string list \<Rightarrow> Message list \<Rightarrow> pullBatch \<Rightarrow> pullBatch \<times> go_error option" where
  "batch_run now paused names ms b =
     (case admit now paused names b of
        (b1, _, Some err) \<Rightarrow> (abortAll b1, Some err)
      | (b1, names1, None) \<Rightarrow>
          if length (pb_jobs b1) = 0 \<and> length (pb_inFlight b1) = 0 then (b1, None)
          else (case ms of
              [] \<Rightarrow> (abortAll b1, Some IOError)
            | m # ms' \<Rightarrow>
                (case handle now m b1 of
                   (b2, Some err) \<Rightarrow> (abortAll b2, Some err)
                 | (b2, None) \<Rightarrow> batch_run now paused names1 ms' b2)))"

declare batch_run.simps [simp del]

definition new_batch :: "PullTuning \<Rightarrow> Node \<Rightarrow> Conn \<Rightarrow> string \<Rightarrow> uint64 \<Rightarrow> pullBatch" where
  "new_batch c n conn fid seq = \<lparr>pb_node = n, pb_conn = conn, pb_folder = fid, pb_k = PullFiles c, pb_all = [], pb_jobs = [], pb_inflightBytes = 0,
     pb_inFlight = [], pb_runBytes = PullRunBytesOrDefault c, pb_budget = PullInFlightBytesOrDefault c, pb_reuse = ReuseLocalBlocks c,
     pb_reqSeq = seq, pb_problems = []\<rparr>"

definition pullFiles :: "PullTuning \<Rightarrow> int \<Rightarrow> (nat \<Rightarrow> bool) \<Rightarrow> string list \<Rightarrow> Message list \<Rightarrow> Node \<Rightarrow> Conn \<Rightarrow> string \<Rightarrow> uint64 \<Rightarrow> pullBatch \<times> go_error option" where
  "pullFiles c now paused names ms n conn fid seq = batch_run now paused names ms (new_batch c n conn fid seq)"

section \<open>Runs cover the needs\<close>

definition run_ok :: "int \<Rightarrow> pullRun \<Rightarrow> bool" where
  "run_ok cap r \<longleftrightarrow> pr_needs r \<noteq> [] \<and> pr_offset r = bn_Offset (hd (pr_needs r)) \<and> pr_size r = sum_list (map bn_Size (pr_needs r))
     \<and> map bn_Index (pr_needs r) = [bn_Index (hd (pr_needs r)) ..< bn_Index (hd (pr_needs r)) + length (pr_needs r)]
     \<and> (length (pr_needs r) = 1 \<or> pr_size r \<le> cap \<and> pr_size r \<le> MaxBlockSize)"

lemma run_ok_single: "run_ok cap (run_of need)"
  by (simp add: run_ok_def run_of_def)

lemma run_ok_extend:
  assumes "run_ok cap r" and "bn_Index need = bn_Index (last (pr_needs r)) + 1" and "pr_size r + bn_Size need \<le> cap"
    and "pr_size r + bn_Size need \<le> MaxBlockSize"
  shows "run_ok cap (r\<lparr>pr_needs := pr_needs r @ [need], pr_size := pr_size r + bn_Size need\<rparr>)"
proof -
  let ?i = "bn_Index (hd (pr_needs r))" and ?n = "length (pr_needs r)"
  have ne: "pr_needs r \<noteq> []" and idx: "map bn_Index (pr_needs r) = [?i ..< ?i + ?n]" using assms(1) by (simp_all add: run_ok_def)
  have "bn_Index (last (pr_needs r)) = last (map bn_Index (pr_needs r))" using ne by (simp add: last_map)
  then have "bn_Index (last (pr_needs r)) = ?i + ?n - 1" using ne unfolding idx by (cases "pr_needs r") simp_all
  then have "bn_Index need = ?i + ?n" using assms(2) ne by (cases "pr_needs r") simp_all
  then have "map bn_Index (pr_needs r @ [need]) = [?i ..< ?i + Suc ?n]" using idx by simp
  then show ?thesis using assms ne by (simp add: run_ok_def)
qed

lemma coalesce_exact:
  "run_ok cap cur \<Longrightarrow> concat (map pr_needs (coalesce_loop cap cur needs)) = pr_needs cur @ needs \<and> (\<forall>r \<in> set (coalesce_loop cap cur needs). run_ok cap r)"
proof (induction needs arbitrary: cur)
  case (Cons need needs)
  show ?case
  proof (cases "bn_Index need = bn_Index (last (pr_needs cur)) + 1 \<and> pr_size cur + bn_Size need \<le> cap \<and> pr_size cur + bn_Size need \<le> MaxBlockSize")
    case True
    then have "run_ok cap (cur\<lparr>pr_needs := pr_needs cur @ [need], pr_size := pr_size cur + bn_Size need\<rparr>)"
      using run_ok_extend [OF Cons.prems] by blast
    then show ?thesis using Cons.IH True by simp
  next
    case False
    then show ?thesis using Cons.IH [OF run_ok_single, of need] Cons.prems by (auto simp: run_of_def)
  qed
qed simp

text \<open>C15. Coalescing changes nothing but the number of requests: the runs planned for a list of missing blocks contain
exactly these blocks in this order; every run is a range of consecutive blocks that begins at the offset of its first block,
its size is the sum of the sizes of its blocks, and a run of more than one block stays within the configured and the
protocol's limit.\<close>

theorem plan_pulls_exact:
  "concat (map pr_needs (planPulls needs maxRun)) = needs
   \<and> (\<forall>r \<in> set (planPulls needs maxRun). run_ok (if maxRun \<le> 0 then MaxBlockSize else maxRun) r)"
proof (cases needs)
  case (Cons need rest)
  then show ?thesis using coalesce_exact [OF run_ok_single, of "if maxRun \<le> 0 then MaxBlockSize else maxRun" need rest]
    by (simp add: planPulls_def) (simp add: run_of_def)
qed (simp add: planPulls_def)

theorem plan_pulls_exact_witness:
  "\<exists>run. planPulls [\<lparr>bn_Index = 2, bn_Offset = 6, bn_Size = 3, bn_Hash = []\<rparr>, \<lparr>bn_Index = 3, bn_Offset = 9, bn_Size = 1, bn_Hash = []\<rparr>] 4 = [run]
     \<and> length (pr_needs run) = 2 \<and> run_ok 4 run"
proof -
  let ?needs = "[\<lparr>bn_Index = 2, bn_Offset = 6, bn_Size = 3, bn_Hash = []\<rparr>, \<lparr>bn_Index = 3, bn_Offset = 9, bn_Size = 1, bn_Hash = []\<rparr>]"
  have "planPulls ?needs 4 = [\<lparr>pr_needs = ?needs, pr_offset = 6, pr_size = 4\<rparr>]"
    by (simp add: planPulls_def run_of_def MaxBlockSize_def)
  then show ?thesis using plan_pulls_exact [of ?needs 4] by simp
qed

section \<open>What operations leave alone\<close>

text \<open>The part of the state that the accounting depends on.\<close>

definition core :: "pullBatch \<Rightarrow> pullJob list \<times> nat list \<times> (uint64, nat \<times> nat) gomap \<times> int \<times> int \<times> int" where
  "core b = (pb_all b, pb_jobs b, pb_inFlight b, pb_inflightBytes b, pb_k b, pb_budget b)"

lemma core_simps [simp]:
  "core (with_engine e b) = core b" "core (reportProblem n err b) = core b" "core (clearProblem n b) = core b"
  "core (b\<lparr>pb_node := nd\<rparr>) = core b" "core (b\<lparr>pb_conn := c\<rparr>) = core b" "core (b\<lparr>pb_reqSeq := q\<rparr>) = core b"
  by (simp_all add: core_def with_engine_def reportProblem_def clearProblem_def)

lemma core_send [simp]: "core (fst (send_msg m b)) = core b" "core (fst (b_sendIndexUpdate n b)) = core b"
  by (simp_all add: send_msg_def b_sendIndexUpdate_def split: prod.splits)

lemma core_eqD: "core b' = core b \<Longrightarrow> pb_all b' = pb_all b \<and> pb_jobs b' = pb_jobs b \<and> pb_inFlight b' = pb_inFlight b
    \<and> pb_inflightBytes b' = pb_inflightBytes b \<and> pb_k b' = pb_k b \<and> pb_budget b' = pb_budget b"
  by (simp add: core_def)

lemma core_sent: "send_msg m b = (b', r) \<Longrightarrow> core b' = core b" "b_sendIndexUpdate n b = (b', r) \<Longrightarrow> core b' = core b"
  using core_send(1) [of m b] core_send(2) [of n b] by simp_all

lemma finish_name_core: "finish_name name b res = (b', r) \<Longrightarrow> core b' = core b"
  by (cases res; cases "snd res") (auto simp: finish_name_def dest: core_sent(2) split: prod.splits)

lemma start_plan_core: "start_plan now name b = (b', r) \<Longrightarrow> core b' = core b"
  by (auto simp: start_plan_def Let_def dest: finish_name_core split: prod.splits sum.splits option.splits if_splits)

lemma complete_core:
  "complete j b = (b', r) \<Longrightarrow> core b' = core (remove_job j (set_job j ((pb_all b ! j)\<lparr>pj_dead := True\<rparr>) b))"
  by (auto simp: complete_def Let_def dest: core_sent(2) split: prod.splits sum.splits)

lemma abandon_core:
  "core (abandon j b) = (if pj_dead (pb_all b ! j) then core b else core (remove_job j (set_job j ((pb_all b ! j)\<lparr>pj_dead := True\<rparr>) b)))"
  by (simp add: abandon_def Let_def core_def remove_job_def with_engine_def)

lemma sendNext_core:
  assumes "sendNext j b = (b', err)"
  shows "core b' = core b \<or> (let job = pb_all b ! j; run = pj_runs job ! pj_sent job in err = None \<and> \<not> pj_dead job \<and> pj_sent job < length (pj_runs job)
     \<and> (pb_inflightBytes b \<le> 0 \<or> pb_inflightBytes b + pr_size run \<le> pb_budget b)
     \<and> (\<exists>rid. core b' = core (set_job j (job\<lparr>pj_sent := pj_sent job + 1\<rparr>)
          (b\<lparr>pb_inFlight := mset_at (pb_inFlight b) rid (j, pj_sent job), pb_inflightBytes := pb_inflightBytes b + pr_size run\<rparr>))))"
  using assms by (auto simp: sendNext_def send_msg_def core_def set_job_def Let_def split: prod.splits option.splits if_splits)

section \<open>Accounting\<close>

definition runs_of :: "pullBatch \<Rightarrow> nat \<Rightarrow> pullRun list" where
  "runs_of b j = pj_runs (pb_all b ! j)"

definition ref_size :: "pullBatch \<Rightarrow> uint64 \<times> nat \<times> nat \<Rightarrow> int" where
  "ref_size b x = pr_size (runs_of b (fst (snd x)) ! snd (snd x))"

text \<open>The bytes the peer owes, and the requests a job has in flight.\<close>

definition outstanding :: "pullBatch \<Rightarrow> int" where
  "outstanding b = sum_list (map (ref_size b) (pb_inFlight b))"

definition refs_to :: "nat \<Rightarrow> pullBatch \<Rightarrow> nat" where
  "refs_to j b = length (filter (\<lambda>x. fst (snd x) = j) (pb_inFlight b))"

text \<open>Requests in flight belong to jobs and to runs these have sent; the jobs that hold a slot are live and have different names.\<close>

definition batch_wf :: "pullBatch \<Rightarrow> bool" where
  "batch_wf b \<longleftrightarrow> (\<forall>x \<in> set (pb_inFlight b). fst (snd x) < length (pb_all b) \<and> snd (snd x) < pj_sent (pb_all b ! fst (snd x)))
     \<and> (\<forall>job \<in> set (pb_all b). pj_sent job \<le> length (pj_runs job))
     \<and> (\<forall>j \<in> set (pb_jobs b). j < length (pb_all b) \<and> \<not> pj_dead (pb_all b ! j))
     \<and> distinct (map (\<lambda>j. pj_name (pb_all b ! j)) (pb_jobs b)) \<and> int (length (pb_jobs b)) \<le> pb_k b"

definition sizes_ok :: "int \<Rightarrow> pullBatch \<Rightarrow> bool" where
  "sizes_ok M b \<longleftrightarrow> (\<forall>job \<in> set (pb_all b). \<forall>run \<in> set (pj_runs job). 0 \<le> pr_size run \<and> pr_size run \<le> M)"

definition bounded :: "int \<Rightarrow> pullBatch \<Rightarrow> bool" where
  "bounded M b \<longleftrightarrow> outstanding b \<le> pb_inflightBytes b \<and> 0 \<le> pb_inflightBytes b \<and> pb_inflightBytes b \<le> max (pb_budget b) M
     \<and> (\<forall>j. refs_to j b \<le> pullWindowSize)"

lemma acc_cong:
  assumes "core b' = core b"
  shows "batch_wf b' = batch_wf b" and "sizes_ok M b' = sizes_ok M b" and "bounded M b' = bounded M b" and "refs_to j b' = refs_to j b"
  using core_eqD [OF assms]
  by (simp_all add: batch_wf_def sizes_ok_def bounded_def outstanding_def refs_to_def ref_size_def [abs_def] runs_of_def [abs_def])

text \<open>Changing a job without touching its runs or its name.\<close>

definition job_change :: "pullJob \<Rightarrow> pullJob \<Rightarrow> bool" where
  "job_change job job' \<longleftrightarrow> pj_runs job' = pj_runs job \<and> pj_name job' = pj_name job \<and> pj_sent job \<le> pj_sent job' \<and> pj_sent job' \<le> length (pj_runs job)"

lemma nth_update: "xs[j := y] ! i = (if i = j \<and> j < length xs then y else xs ! i)"
  by (cases "j < length xs") (auto simp: list_update_beyond)

lemma set_job_runs: "pj_runs job' = pj_runs (pb_all b ! j) \<Longrightarrow> runs_of (set_job j job' b) = runs_of b"
  by (rule ext) (auto simp: runs_of_def set_job_def nth_update)

lemma set_job_sizes: "pj_runs job' = pj_runs (pb_all b ! j) \<Longrightarrow> sizes_ok M (set_job j job' b) = sizes_ok M b"
  by (cases "j < length (pb_all b)") (auto simp: sizes_ok_def set_job_def all_set_conv_all_nth nth_list_update)

lemma set_job_bounded: "pj_runs job' = pj_runs (pb_all b ! j) \<Longrightarrow> bounded M (set_job j job' b) = bounded M b"
  using set_job_runs [of job' b j] by (simp add: bounded_def outstanding_def refs_to_def ref_size_def [abs_def]) (simp add: set_job_def)

lemma set_job_wf:
  assumes "batch_wf b" and "job_change (pb_all b ! j) job'" and "pj_dead job' \<Longrightarrow> j \<notin> set (pb_jobs b)" and "pj_sent (pb_all b ! j) \<le> length (pj_runs (pb_all b ! j))"
  shows "batch_wf (set_job j job' b)"
proof -
  have n: "pj_name ((pb_all b)[j := job'] ! i) = pj_name (pb_all b ! i)" for i
    using assms(2) by (simp add: job_change_def nth_update)
  have r: "(pb_all b)[j := job'] ! i = (if i = j \<and> j < length (pb_all b) then job' else pb_all b ! i)" for i by (rule nth_update)
  have "\<forall>job \<in> set ((pb_all b)[j := job']). pj_sent job \<le> length (pj_runs job)"
    using assms(1,2) set_update_subset_insert [of "pb_all b" j job'] by (fastforce simp: batch_wf_def job_change_def)
  moreover have "\<forall>x \<in> set (pb_inFlight b). fst (snd x) < length (pb_all b) \<and> snd (snd x) < pj_sent ((pb_all b)[j := job'] ! fst (snd x))"
    using assms(1,2) by (fastforce simp: batch_wf_def job_change_def r)
  moreover have "\<forall>i \<in> set (pb_jobs b). i < length (pb_all b) \<and> \<not> pj_dead ((pb_all b)[j := job'] ! i)"
    using assms(1,3) by (auto simp: batch_wf_def r)
  ultimately show ?thesis using assms(1) by (simp add: batch_wf_def set_job_def n)
qed

lemma wf_sent: "batch_wf b \<Longrightarrow> j < length (pb_all b) \<Longrightarrow> pj_sent (pb_all b ! j) \<le> length (pj_runs (pb_all b ! j))"
  by (auto simp: batch_wf_def)

lemma kill_wf:
  assumes "batch_wf b" and "j < length (pb_all b)"
  shows "batch_wf (remove_job j (set_job j ((pb_all b ! j)\<lparr>pj_dead := True\<rparr>) b))"
    and "sizes_ok M (remove_job j (set_job j ((pb_all b ! j)\<lparr>pj_dead := True\<rparr>) b)) = sizes_ok M b"
    and "bounded M (remove_job j (set_job j ((pb_all b ! j)\<lparr>pj_dead := True\<rparr>) b)) = bounded M b"
proof -
  let ?job = "(pb_all b ! j)\<lparr>pj_dead := True\<rparr>" and ?b = "remove_job j b"
  have swap: "remove_job j (set_job j ?job b) = set_job j ?job ?b" by (simp add: remove_job_def set_job_def)
  have all: "pb_all ?b = pb_all b" by (simp add: remove_job_def)
  have d: "distinct (pb_jobs b)" using assms(1) distinct_map by (auto simp: batch_wf_def)
  have "distinct (map (\<lambda>j. pj_name (pb_all b ! j)) (remove1 j (pb_jobs b)))"
    using assms(1) set_remove1_subset [of j "pb_jobs b"] d unfolding batch_wf_def distinct_map by (auto intro: inj_on_subset)
  moreover have "length (remove1 j (pb_jobs b)) \<le> length (pb_jobs b)" by (simp add: length_remove1)
  ultimately have wf: "batch_wf ?b" using assms(1) set_remove1_subset [of j "pb_jobs b"] by (fastforce simp: batch_wf_def remove_job_def)
  have "j \<notin> set (pb_jobs ?b)" using d by (simp add: remove_job_def)
  then show "batch_wf (remove_job j (set_job j ?job b))"
    unfolding swap using set_job_wf [OF wf, of j ?job] wf_sent [OF assms] all by (simp add: job_change_def)
  have "sizes_ok M ?b = sizes_ok M b" "bounded M ?b = bounded M b"
    by (simp_all add: sizes_ok_def bounded_def remove_job_def outstanding_def refs_to_def ref_size_def [abs_def] runs_of_def [abs_def])
  then show "sizes_ok M (remove_job j (set_job j ?job b)) = sizes_ok M b" "bounded M (remove_job j (set_job j ?job b)) = bounded M b"
    unfolding swap using set_job_sizes [of ?job ?b j M] set_job_bounded [of ?job ?b j M] all by simp_all
qed

lemma sum_mset_at:
  fixes f :: "'k \<times> 'v \<Rightarrow> int"
  shows "\<forall>x \<in> set m. 0 \<le> f x \<Longrightarrow> sum_list (map f (mset_at m k v)) \<le> sum_list (map f m) + f (k, v)"
  by (induction m k v rule: mset_at.induct) auto

lemma length_filter_mset_at: "length (filter P (mset_at m k v)) \<le> length (filter P m) + (if P (k, v) then 1 else 0)"
  by (induction m k v rule: mset_at.induct) auto

lemma sum_mdelete:
  fixes f :: "'k \<times> 'v \<Rightarrow> int"
  shows "\<forall>x \<in> set m. 0 \<le> f x \<Longrightarrow> sum_list (map f (mdelete m k)) \<le> sum_list (map f m)"
    and "\<forall>x \<in> set m. 0 \<le> f x \<Longrightarrow> mget m k = Some v \<Longrightarrow> sum_list (map f (mdelete m k)) + f (k, v) \<le> sum_list (map f m)"
proof -
  show le: "\<forall>x \<in> set m. 0 \<le> f x \<Longrightarrow> sum_list (map f (mdelete m k)) \<le> sum_list (map f m)" for m
    by (induction m) (auto simp: mdelete_def)
  show "\<forall>x \<in> set m. 0 \<le> f x \<Longrightarrow> mget m k = Some v \<Longrightarrow> sum_list (map f (mdelete m k)) + f (k, v) \<le> sum_list (map f m)"
  proof (induction m)
    case (Cons kv m)
    then show ?case using le [of m] by (cases kv) (auto simp: mdelete_def split: if_splits)
  qed simp
qed

lemma length_filter_mdelete: "length (filter P (mdelete m k)) \<le> length (filter P m)"
  "mget m k = Some v \<Longrightarrow> P (k, v) \<Longrightarrow> length (filter P (mdelete m k)) < length (filter P m)"
proof -
  show le: "length (filter P (mdelete m k)) \<le> length (filter P m)" for m by (induction m) (auto simp: mdelete_def)
  show "mget m k = Some v \<Longrightarrow> P (k, v) \<Longrightarrow> length (filter P (mdelete m k)) < length (filter P m)"
  proof (induction m)
    case (Cons kv m)
    then show ?case using le [of m] by (cases kv) (auto simp: mdelete_def split: if_splits)
  qed simp
qed

lemma ref_size_bounds:
  assumes "batch_wf b" and "sizes_ok M b" and "x \<in> set (pb_inFlight b)"
  shows "0 \<le> ref_size b x"
proof -
  let ?job = "pb_all b ! fst (snd x)"
  have x: "fst (snd x) < length (pb_all b)" "snd (snd x) < pj_sent ?job" using assms(1,3) by (simp_all add: batch_wf_def)
  then have "?job \<in> set (pb_all b)" "snd (snd x) < length (pj_runs ?job)" using wf_sent [OF assms(1) x(1)] by simp_all
  then show ?thesis using assms(2) by (simp add: sizes_ok_def ref_size_def runs_of_def)
qed

text \<open>A request is added.\<close>

lemma add_ref:
  fixes rid :: uint64
  assumes "batch_wf b" and "j < length (pb_all b)" and "\<not> pj_dead (pb_all b ! j)" and "pj_sent (pb_all b ! j) < length (pj_runs (pb_all b ! j))"
  defines "job \<equiv> pb_all b ! j"
  defines "run \<equiv> pj_runs job ! pj_sent job"
  defines "b' \<equiv> set_job j (job\<lparr>pj_sent := pj_sent job + 1\<rparr>)
     (b\<lparr>pb_inFlight := mset_at (pb_inFlight b) rid (j, pj_sent job), pb_inflightBytes := pb_inflightBytes b + pr_size run\<rparr>)"
  shows "batch_wf b'" and "sizes_ok M b' = sizes_ok M b" and "refs_to i b' \<le> refs_to i b + (if i = j then 1 else 0)"
    and "sizes_ok M b \<Longrightarrow> bounded M b \<Longrightarrow> refs_to j b < pullWindowSize \<Longrightarrow> pb_inflightBytes b \<le> 0 \<or> pb_inflightBytes b + pr_size run \<le> pb_budget b \<Longrightarrow> bounded M b'"
proof -
  let ?job = "job\<lparr>pj_sent := pj_sent job + 1\<rparr>" and ?b1 = "set_job j (job\<lparr>pj_sent := pj_sent job + 1\<rparr>) b"
  let ?fl = "mset_at (pb_inFlight b) rid (j, pj_sent job)"
  have b': "b' = ?b1\<lparr>pb_inFlight := ?fl, pb_inflightBytes := pb_inflightBytes b + pr_size run\<rparr>" by (simp add: b'_def set_job_def)
  have wf1: "batch_wf ?b1" using set_job_wf [OF assms(1), of j ?job] assms(3,4) by (simp add: job_change_def job_def)
  have new: "pb_all ?b1 ! j = ?job" "length (pb_all ?b1) = length (pb_all b)" "pb_inFlight ?b1 = pb_inFlight b" using assms(2) by (simp_all add: set_job_def)
  show "batch_wf b'" using wf1 new assms(2) unfolding b' batch_wf_def by (auto dest!: in_set_mset_at)
  have sz: "sizes_ok M ?b1 = sizes_ok M b" by (rule set_job_sizes) (simp add: job_def)
  then show "sizes_ok M b' = sizes_ok M b" by (simp add: b' sizes_ok_def)
  have refs: "refs_to i b' \<le> refs_to i b + (if i = j then 1 else 0)" for i
    using length_filter_mset_at [of "\<lambda>x. fst (snd x) = i" "pb_inFlight b" rid "(j, pj_sent job)"] by (simp add: refs_to_def b' eq_commute [of i])
  then show "refs_to i b' \<le> refs_to i b + (if i = j then 1 else 0)" .
  assume a: "sizes_ok M b" "bounded M b" "refs_to j b < pullWindowSize" "pb_inflightBytes b \<le> 0 \<or> pb_inflightBytes b + pr_size run \<le> pb_budget b"
  have "runs_of b' = runs_of ?b1" by (simp add: runs_of_def [abs_def] b')
  also have "\<dots> = runs_of b" by (rule set_job_runs) (simp add: job_def)
  finally have rs: "ref_size b' = ref_size b" by (simp add: ref_size_def [abs_def])
  have "job \<in> set (pb_all b)" "run \<in> set (pj_runs job)" using assms(2,4) by (simp_all add: job_def run_def)
  then have size: "0 \<le> pr_size run" "pr_size run \<le> M" using a(1) by (simp_all add: sizes_ok_def)
  have "outstanding b' \<le> outstanding b + ref_size b (rid, j, pj_sent job)"
    using sum_mset_at [of "pb_inFlight b" "ref_size b"] ref_size_bounds [OF assms(1) a(1)] by (simp add: outstanding_def rs) (simp add: b')
  moreover have "ref_size b (rid, j, pj_sent job) = pr_size run" by (simp add: ref_size_def runs_of_def run_def job_def)
  moreover have "refs_to i b' \<le> pullWindowSize" for i using refs [of i] a(2,3) by (cases "i = j") (auto simp: bounded_def dest!: spec [of _ i])
  moreover have "pb_inflightBytes b' = pb_inflightBytes b + pr_size run" "pb_budget b' = pb_budget b" by (simp_all add: b' set_job_def)
  ultimately show "bounded M b'" using a(2,4) size by (auto simp: bounded_def)
qed

lemma sendNext_acc:
  assumes "batch_wf b" and "j < length (pb_all b)" and "sendNext j b = (b', err)"
  shows "batch_wf b' \<and> sizes_ok M b' = sizes_ok M b \<and> refs_to j b' \<le> refs_to j b + (if pj_sent (pb_all b' ! j) = pj_sent (pb_all b ! j) then 0 else 1)
    \<and> length (pb_all b') = length (pb_all b) \<and> pb_jobs b' = pb_jobs b \<and> pb_k b' = pb_k b
    \<and> (\<forall>i. pj_name (pb_all b' ! i) = pj_name (pb_all b ! i) \<and> pj_dead (pb_all b' ! i) = pj_dead (pb_all b ! i))
    \<and> pj_sent (pb_all b ! j) \<le> pj_sent (pb_all b' ! j)
    \<and> (sizes_ok M b \<and> bounded M b \<and> refs_to j b < pullWindowSize \<longrightarrow> bounded M b')"
proof (cases "core b' = core b")
  case True
  then show ?thesis using assms acc_cong [OF True] core_eqD [OF True] by simp
next
  case False
  let ?job = "pb_all b ! j"
  let ?run = "pj_runs ?job ! pj_sent ?job"
  obtain rid where s: "\<not> pj_dead ?job" "pj_sent ?job < length (pj_runs ?job)" "pb_inflightBytes b \<le> 0 \<or> pb_inflightBytes b + pr_size ?run \<le> pb_budget b"
    "core b' = core (set_job j (?job\<lparr>pj_sent := pj_sent ?job + 1\<rparr>)
       (b\<lparr>pb_inFlight := mset_at (pb_inFlight b) rid (j, pj_sent ?job), pb_inflightBytes := pb_inflightBytes b + pr_size ?run\<rparr>))"
    using sendNext_core [OF assms(3)] False by (auto simp: Let_def)
  let ?b = "set_job j (?job\<lparr>pj_sent := pj_sent ?job + 1\<rparr>)
       (b\<lparr>pb_inFlight := mset_at (pb_inFlight b) rid (j, pj_sent ?job), pb_inflightBytes := pb_inflightBytes b + pr_size ?run\<rparr>)"
  note ar = add_ref [OF assms(1,2) s(1,2), where rid = rid]
  have all: "pb_all b' = (pb_all b)[j := ?job\<lparr>pj_sent := pj_sent ?job + 1\<rparr>]" "pb_jobs b' = pb_jobs b" "pb_k b' = pb_k b"
    using core_eqD [OF s(4)] by (simp_all add: set_job_def)
  have "pj_sent (pb_all b' ! j) = Suc (pj_sent ?job)" using assms(2) by (simp add: all)
  moreover have "\<forall>i. pj_name (pb_all b' ! i) = pj_name (pb_all b ! i) \<and> pj_dead (pb_all b' ! i) = pj_dead (pb_all b ! i)"
    by (simp add: all nth_update)
  moreover have "refs_to j b' \<le> refs_to j b + 1" using ar(3) [of j] acc_cong(4) [OF s(4), of j] by simp
  ultimately show ?thesis using ar(1) ar(2,4) [of M] s(3) all acc_cong(1) [OF s(4)] acc_cong(2,3) [OF s(4), of M] by auto
qed

lemma fill_window_acc:
  assumes "batch_wf b" and "j < length (pb_all b)" and "refs_to j b \<le> pj_sent (pb_all b ! j)" and "fill_window k j b = (b', err)"
  shows "batch_wf b' \<and> sizes_ok M b' = sizes_ok M b \<and> length (pb_all b') = length (pb_all b) \<and> pb_jobs b' = pb_jobs b \<and> pb_k b' = pb_k b
    \<and> (\<forall>i. pj_name (pb_all b' ! i) = pj_name (pb_all b ! i) \<and> pj_dead (pb_all b' ! i) = pj_dead (pb_all b ! i))
    \<and> (sizes_ok M b \<and> bounded M b \<longrightarrow> bounded M b')"
  using assms
proof (induction k arbitrary: b)
  case (Suc k)
  show ?case
  proof (cases "pj_sent (pb_all b ! j) \<ge> pullWindowSize \<or> pj_sent (pb_all b ! j) \<ge> length (pj_runs (pb_all b ! j))")
    case True
    then show ?thesis using Suc.prems by auto
  next
    case False
    obtain b1 e1 where s: "sendNext j b = (b1, e1)" by (cases "sendNext j b")
    note a = sendNext_acc [OF Suc.prems(1,2) s, of M]
    have room: "refs_to j b < pullWindowSize" using False Suc.prems(3) by simp
    show ?thesis
    proof (cases "e1 = None \<and> pj_sent (pb_all b1 ! j) \<noteq> pj_sent (pb_all b ! j)")
      case True
      have "refs_to j b1 \<le> pj_sent (pb_all b1 ! j)"
        using a True Suc.prems(3) by simp
      moreover have "fill_window k j b1 = (b', err)" using Suc.prems(4) False s True by simp
      ultimately show ?thesis using Suc.IH [of b1] a room Suc.prems(2) by auto
    next
      case f: False
      then have "b' = b1" using Suc.prems(4) False s by (auto split: option.splits if_splits)
      then show ?thesis using a room by auto
    qed
  qed
qed simp

text \<open>An answer takes a request out of flight.\<close>

lemma drop_ref:
  assumes "batch_wf b" and "mget (pb_inFlight b) rid = Some (j, r)"
  defines "b1 \<equiv> b\<lparr>pb_inFlight := mdelete (pb_inFlight b) rid\<rparr>"
  shows "batch_wf b1" and "j < length (pb_all b)" and "sizes_ok M b1 = sizes_ok M b" and "sizes_ok M b \<Longrightarrow> bounded M b \<Longrightarrow> bounded M b1"
    and "sizes_ok M b \<Longrightarrow> bounded M b \<Longrightarrow> bounded M (b1\<lparr>pb_inflightBytes := max 0 (pb_inflightBytes b1 - pr_size (pj_runs (pb_all b ! j) ! r))\<rparr>)"
    and "bounded M b \<Longrightarrow> refs_to j b1 < pullWindowSize"
proof -
  have sub: "set (mdelete (pb_inFlight b) rid) \<subseteq> set (pb_inFlight b)" by (auto simp: mdelete_def)
  then show "batch_wf b1" using assms(1) by (auto simp: batch_wf_def b1_def)
  have "(rid, j, r) \<in> set (pb_inFlight b)" using mget_Some_in [OF assms(2)] .
  then show "j < length (pb_all b)" using assms(1) by (force simp: batch_wf_def)
  show "sizes_ok M b1 = sizes_ok M b" by (simp add: sizes_ok_def b1_def)
  have refs: "refs_to i b1 \<le> refs_to i b" for i using length_filter_mdelete(1) by (simp add: refs_to_def b1_def)
  have rs: "ref_size b1 = ref_size b" by (simp add: ref_size_def [abs_def] runs_of_def [abs_def] b1_def)
  show "refs_to j b1 < pullWindowSize" if "bounded M b"
  proof -
    have "refs_to j b1 < refs_to j b" using length_filter_mdelete(2) [OF assms(2), of "\<lambda>x. fst (snd x) = j"] by (simp add: refs_to_def b1_def)
    then show ?thesis using that by (auto simp: bounded_def dest!: spec [of _ j])
  qed
  assume a: "sizes_ok M b" "bounded M b"
  have nn: "\<forall>x \<in> set (pb_inFlight b). 0 \<le> ref_size b x" using ref_size_bounds [OF assms(1) a(1)] by blast
  have sz: "ref_size b (rid, j, r) = pr_size (pj_runs (pb_all b ! j) ! r)" by (simp add: ref_size_def runs_of_def)
  have o: "outstanding b1 + pr_size (pj_runs (pb_all b ! j) ! r) \<le> outstanding b" "outstanding b1 \<le> outstanding b"
    using sum_mdelete(2) [OF nn assms(2)] sum_mdelete(1) [OF nn, of rid] unfolding outstanding_def rs sz [symmetric] by (simp_all add: b1_def)
  have w: "refs_to i b1 \<le> pullWindowSize" for i using refs [of i] a(2) by (auto simp: bounded_def dest!: spec [of _ i])
  show "bounded M b1" using a(2) o w by (auto simp: bounded_def b1_def)
  let ?b2 = "b1\<lparr>pb_inflightBytes := max 0 (pb_inflightBytes b1 - pr_size (pj_runs (pb_all b ! j) ! r))\<rparr>"
  have "outstanding ?b2 = outstanding b1" "refs_to i ?b2 = refs_to i b1" for i
    by (simp_all add: outstanding_def refs_to_def ref_size_def [abs_def] runs_of_def [abs_def])
  moreover have "0 \<le> pr_size (pj_runs (pb_all b ! j) ! r)" using nn \<open>(rid, j, r) \<in> set (pb_inFlight b)\<close> by (force simp: ref_size_def runs_of_def)
  ultimately show "bounded M ?b2" using a(2) o w by (auto simp: bounded_def b1_def)
qed

text \<open>The accounting as one predicate, and the three ways an operation keeps it.\<close>

definition accounted :: "pullBatch \<Rightarrow> pullBatch \<Rightarrow> bool" where
  "accounted b b' \<longleftrightarrow> (batch_wf b \<longrightarrow> batch_wf b') \<and> (\<forall>M. batch_wf b \<and> sizes_ok M b' \<longrightarrow> sizes_ok M b \<and> (bounded M b \<longrightarrow> bounded M b'))"

lemma accounted_refl: "accounted b b"
  by (simp add: accounted_def)

lemma accounted_core: "accounted b b1 \<Longrightarrow> core b2 = core b1 \<Longrightarrow> accounted b b2"
  using acc_cong(1-3) [of b2 b1] by (simp add: accounted_def)

lemma accounted_trans: "accounted a b \<Longrightarrow> accounted b c \<Longrightarrow> accounted a c"
  by (simp add: accounted_def)

lemma accounted_kill:
  "batch_wf b \<Longrightarrow> j < length (pb_all b) \<Longrightarrow> accounted b (remove_job j (set_job j ((pb_all b ! j)\<lparr>pj_dead := True\<rparr>) b))"
  using kill_wf [of b j] by (simp add: accounted_def)

lemma accounted_complete: "batch_wf b \<Longrightarrow> j < length (pb_all b) \<Longrightarrow> complete j b = (b', r) \<Longrightarrow> accounted b b'"
  by (rule accounted_core [OF accounted_kill complete_core])

lemma accounted_abandon: "batch_wf b \<Longrightarrow> j < length (pb_all b) \<Longrightarrow> accounted b (abandon j b)"
proof -
  assume a: "batch_wf b" "j < length (pb_all b)"
  show ?thesis
  proof (cases "pj_dead (pb_all b ! j)")
    case True
    then show ?thesis using accounted_core [OF accounted_refl] abandon_core [of j b] by simp
  next
    case False
    then show ?thesis using accounted_core [OF accounted_kill [OF a]] abandon_core [of j b] by simp
  qed
qed

lemma accounted_response:
  assumes "batch_wf b" and "handle_response resp b = (b', err)"
  shows "accounted b b'"
proof (cases "mget (pb_inFlight b) (rs_ID resp)")
  case None
  then show ?thesis using assms(2) by (simp add: handle_response_def accounted_refl)
next
  case (Some ref)
  obtain j r where ref: "ref = (j, r)" by (cases ref)
  let ?b1 = "b\<lparr>pb_inFlight := mdelete (pb_inFlight b) (rs_ID resp)\<rparr>" and ?job = "pb_all b ! j"
  let ?run = "pj_runs ?job ! r"
  let ?b2 = "?b1\<lparr>pb_inflightBytes := max 0 (pb_inflightBytes ?b1 - pr_size ?run)\<rparr>"
  note d = drop_ref [OF assms(1) Some [unfolded ref]]
  have a1: "accounted b ?b1" using d(1,3,4) by (simp add: accounted_def)
  have wf2: "batch_wf ?b2" using d(1) by (simp add: batch_wf_def)
  have a2: "accounted b ?b2" using d(3,5) wf2 by (simp add: accounted_def sizes_ok_def)
  have ab: "accounted b (abandon j c)" if "core c = core c0" "accounted b c0" "batch_wf c0" "length (pb_all c0) = length (pb_all b)" for c c0
    using accounted_trans [OF accounted_core [OF that(2,1)] accounted_abandon [of c j]] that acc_cong(1) [OF that(1)] core_eqD [OF that(1)] d(2) by simp
  show ?thesis
  proof (cases "pj_dead ?job \<or> rs_Code resp \<noteq> RespNoError")
    case True
    then show ?thesis using assms(2) Some ref a1 ab [OF _ a1 d(1)]
      by (auto simp: handle_response_def Let_def split: RespCode.splits if_splits)
  next
    case ok: False
    obtain e p er where rb: "ReceiveBlocks (b_engine ?b2) (pj_pull ?job) (int (bn_Index (hd (pr_needs ?run)))) (rs_Data resp) = (e, p, er)"
      by (cases "ReceiveBlocks (b_engine ?b2) (pj_pull ?job) (int (bn_Index (hd (pr_needs ?run)))) (rs_Data resp)") auto
    have setj: "accounted b (set_job j job' (with_engine e ?b2)) \<and> batch_wf (set_job j job' (with_engine e ?b2))"
      if "pj_runs job' = pj_runs ?job" "pj_name job' = pj_name ?job" "pj_sent job' = pj_sent ?job" "pj_dead job' = pj_dead ?job" for job'
    proof -
      have c: "core (with_engine e ?b2) = core ?b2" by simp
      have "batch_wf (set_job j job' (with_engine e ?b2))"
        using set_job_wf [of "with_engine e ?b2" j job'] acc_cong(1) [OF c] wf2 core_eqD [OF c] that ok wf_sent [OF wf2, of j] d(2)
        by (auto simp: job_change_def)
      moreover have "sizes_ok M (set_job j job' (with_engine e ?b2)) = sizes_ok M ?b2" "bounded M (set_job j job' (with_engine e ?b2)) = bounded M ?b2" for M
        using set_job_sizes [of job' "with_engine e ?b2" j M] set_job_bounded [of job' "with_engine e ?b2" j M] acc_cong(2,3) [OF c, of M] core_eqD [OF c] that(1)
        by simp_all
      ultimately show ?thesis using a2 by (simp add: accounted_def)
    qed
    let ?job2 = "?job\<lparr>pj_pull := p, pj_received := pj_received ?job + length (pr_needs ?run)\<rparr>"
    let ?b3 = "set_job j ?job2 (with_engine e ?b2)" and ?b3' = "set_job j (?job\<lparr>pj_pull := p\<rparr>) (with_engine e ?b2)"
    have s3: "accounted b ?b3" "batch_wf ?b3" "accounted b ?b3'" "batch_wf ?b3'" using setj [of ?job2] setj [of "?job\<lparr>pj_pull := p\<rparr>"] by simp_all
    have len: "length (pb_all ?b3) = length (pb_all b)" "length (pb_all ?b3') = length (pb_all b)" by (simp_all add: set_job_def with_engine_def)
    consider (short) "int (length (rs_Data resp)) \<noteq> pr_size ?run" "b' = abandon j (reportProblem (pj_name ?job) (Err ''run came back short'') ?b2)"
      | (bad) "er \<noteq> None" "b' = abandon j (reportProblem (pj_name ?job) (the er) ?b3')"
      | (finish) "complete j ?b3 = (b', err)" | (more) "sendNext j ?b3 = (b', err)"
      using assms(2) Some ref ok rb by (auto simp: handle_response_def Let_def split: if_splits option.splits)
    then show ?thesis
    proof cases
      case short
      then show ?thesis using ab [OF _ a2 wf2] by simp
    next
      case bad
      then show ?thesis using ab [OF _ s3(3,4) len(2)] by simp
    next
      case finish
      then show ?thesis using accounted_trans [OF s3(1) accounted_complete [OF s3(2) _ finish]] len(1) d(2) by simp
    next
      case more
      have j3: "j < length (pb_all ?b3)" using len(1) d(2) by simp
      have "refs_to j ?b3 = refs_to j ?b1" by (simp add: refs_to_def set_job_def with_engine_def)
      then have "bounded M b \<Longrightarrow> refs_to j ?b3 < pullWindowSize" for M using d(6) [of M] by simp
      then show ?thesis using s3(1,2) sendNext_acc [OF s3(2) j3 more] by (auto simp: accounted_def)
    qed
  qed
qed

lemma accounted_handle:
  assumes "batch_wf b" and "handle now m b = (b', err)"
  shows "accounted b b'"
proof (cases "m_Type m = MsgResponse \<and> m_Response m \<noteq> None")
  case True
  then show ?thesis using assms accounted_response [OF assms(1)] by (auto simp: handle_def)
next
  case False
  then have "core b' = core b" using assms(2) by (auto simp: handle_def split: MsgType.splits option.splits)
  then show ?thesis by (rule accounted_core [OF accounted_refl])
qed

lemma add_job:
  assumes "batch_wf b" and "pj_sent job = 0"
  defines "b' \<equiv> b\<lparr>pb_all := pb_all b @ [job]\<rparr>"
  shows "batch_wf b'" and "accounted b b'" and "refs_to (length (pb_all b)) b' = 0"
proof -
  have fl: "fst (snd x) < length (pb_all b)" if "x \<in> set (pb_inFlight b)" for x using assms(1) that by (simp add: batch_wf_def)
  have j: "j < length (pb_all b)" if "j \<in> set (pb_jobs b)" for j using assms(1) that by (simp add: batch_wf_def)
  have names: "map (\<lambda>j. pj_name ((pb_all b @ [job]) ! j)) (pb_jobs b) = map (\<lambda>j. pj_name (pb_all b ! j)) (pb_jobs b)"
    using j by (simp add: nth_append)
  have at: "(pb_all b @ [job]) ! i = pb_all b ! i" if "i < length (pb_all b)" for i using that by (simp add: nth_append)
  show wf: "batch_wf b'"
    unfolding batch_wf_def
  proof (intro conjI ballI)
    fix x assume x: "x \<in> set (pb_inFlight b')"
    then have "x \<in> set (pb_inFlight b)" by (simp add: b'_def)
    then show "fst (snd x) < length (pb_all b')" "snd (snd x) < pj_sent (pb_all b' ! fst (snd x))"
      using fl [of x] assms(1) at by (auto simp: batch_wf_def b'_def)
  next
    fix i assume i: "i \<in> set (pb_jobs b')"
    then show "i < length (pb_all b')" "\<not> pj_dead (pb_all b' ! i)" using j [of i] assms(1) at by (auto simp: batch_wf_def b'_def)
  next
    have pa: "pb_all b' = pb_all b @ [job]" "pb_jobs b' = pb_jobs b" by (simp_all add: b'_def)
    show "distinct (map (\<lambda>j. pj_name (pb_all b' ! j)) (pb_jobs b'))" unfolding pa names using assms(1) by (simp add: batch_wf_def)
  qed (use assms(1,2) in \<open>auto simp: batch_wf_def b'_def\<close>)
  have "ref_size b' x = ref_size b x" if "x \<in> set (pb_inFlight b)" for x
    using fl [OF that] by (cases x) (simp add: ref_size_def runs_of_def b'_def nth_append)
  then have m: "map (ref_size b') (pb_inFlight b) = map (ref_size b) (pb_inFlight b)" by (intro map_cong refl)
  have fl': "pb_inFlight b' = pb_inFlight b" by (simp add: b'_def)
  have o: "outstanding b' = outstanding b" unfolding outstanding_def fl' m by (rule refl)
  have r: "refs_to i b' = refs_to i b" for i by (simp add: refs_to_def b'_def)
  have "filter (\<lambda>x. fst (snd x) = length (pb_all b)) (pb_inFlight b) = []" using fl by (metis (mono_tags, lifting) filter_empty_conv less_irrefl)
  then show "refs_to (length (pb_all b)) b' = 0" unfolding r by (simp add: refs_to_def)
  show "accounted b b'" using wf o r by (auto simp: accounted_def sizes_ok_def bounded_def b'_def)
qed

lemma start_pull_acc:
  assumes "batch_wf b" and "start_pull name b = (b', Inr r)"
  shows "accounted b b' \<and> pb_jobs b' = pb_jobs b \<and> pb_k b' = pb_k b \<and> (\<forall>j \<in> set (pb_jobs b). pj_name (pb_all b' ! j) = pj_name (pb_all b ! j))
    \<and> (\<forall>j. r = Some j \<longrightarrow> j < length (pb_all b') \<and> j \<ge> length (pb_all b) \<and> pj_name (pb_all b' ! j) = name \<and> \<not> pj_dead (pb_all b' ! j))"
proof -
  obtain e res where sp: "StartPull (b_engine b) name (cn_PeerID (pb_conn b)) = (e, res)" by (cases "StartPull (b_engine b) name (cn_PeerID (pb_conn b))")
  show ?thesis
  proof (cases res)
    case (Inl er)
    then have c: "core b' = core b" "r = None" using assms(2) sp by (auto simp: start_pull_def)
    then show ?thesis using accounted_core [OF accounted_refl c(1)] core_eqD [OF c(1)] by simp
  next
    case (Inr pull0)
    obtain e1 pull where fp: "(if pb_reuse b then (case FillBlocksFromLocal e pull0 of (e1, p1, _, _) \<Rightarrow> (e1, p1)) else (e, pull0)) = (e1, pull)" by fastforce
    let ?j = "length (pb_all b)"
    let ?job = "\<lparr>pj_name = name, pj_pull = pull, pj_runs = planPulls (NeedBlocks pull) (pb_runBytes b), pj_sent = 0, pj_received = 0,
       pj_total = length (NeedBlocks pull), pj_dead = False\<rparr>"
    let ?b1 = "(with_engine e1 b)\<lparr>pb_all := pb_all b @ [?job]\<rparr>"
    have c1: "core ?b1 = core (b\<lparr>pb_all := pb_all b @ [?job]\<rparr>)" by (simp add: core_def with_engine_def)
    note aj = add_job [OF assms(1), of ?job]
    have wf1: "batch_wf ?b1" using aj(1) acc_cong(1) [OF c1] by simp
    have a1: "accounted b ?b1" using accounted_core [OF aj(2) c1] by simp
    have refs: "refs_to ?j ?b1 = 0" using aj(3) acc_cong(4) [OF c1] by simp
    have all: "pb_all ?b1 = pb_all b @ [?job]" "pb_jobs ?b1 = pb_jobs b" "pb_k ?b1 = pb_k b" using core_eqD [OF c1] by simp_all
    have jl: "\<And>j. j \<in> set (pb_jobs b) \<Longrightarrow> j < ?j" using assms(1) by (simp add: batch_wf_def)
    have eq: "start_pull name b = (if length (NeedBlocks pull) = 0 then
               (case complete ?j ?b1 of (b2, Some err) \<Rightarrow> (b2, Inl err) | (b2, None) \<Rightarrow> (b2, Inr None))
             else (case fill_window pullWindowSize ?j ?b1 of
                  (b2, Some err) \<Rightarrow> (with_engine (Abort (b_engine b2) pull) b2, Inl err) | (b2, None) \<Rightarrow> (b2, Inr (Some ?j))))"
      by (simp only: start_pull_def sp Inr prod.case sum.case Let_def fp)
    consider (fin) "complete ?j ?b1 = (b', None)" "r = None" | (win) "fill_window pullWindowSize ?j ?b1 = (b', None)" "r = Some ?j"
      using assms(2) unfolding eq by (auto split: if_splits prod.splits option.splits)
    then show ?thesis
    proof cases
      case fin
      have acc: "accounted b b'" using accounted_trans [OF a1 accounted_complete [OF wf1 _ fin(1)]] all by simp
      have "pb_all b' = (pb_all b @ [?job])[?j := ?job\<lparr>pj_dead := True\<rparr>]" "pb_jobs b' = remove1 ?j (pb_jobs b)" "pb_k b' = pb_k b"
        using core_eqD [OF complete_core [OF fin(1)]] all by (simp_all add: remove_job_def set_job_def)
      moreover have "remove1 ?j (pb_jobs b) = pb_jobs b" using jl by (intro remove1_idem) auto
      ultimately show ?thesis using acc fin(2) jl by (auto simp: nth_append)
    next
      case win
      have pre: "?j < length (pb_all ?b1)" "refs_to ?j ?b1 \<le> pj_sent (pb_all ?b1 ! ?j)" using refs all by simp_all
      note fw = fill_window_acc [OF wf1 pre win(1)]
      have acc: "accounted b b'" using a1 fw wf1 by (auto simp: accounted_def)
      have "pj_name (pb_all b' ! i) = pj_name ((pb_all b @ [?job]) ! i) \<and> pj_dead (pb_all b' ! i) = pj_dead ((pb_all b @ [?job]) ! i)" for i
        using fw unfolding all(1) by blast
      then show ?thesis using acc fw win(2) all jl by (auto simp: nth_append)
    qed
  qed
qed

section \<open>Every state of a batch\<close>

text \<open>The states in which the loop looks for a free slot or waits for the next message.\<close>

inductive batch_reach :: "pullBatch \<Rightarrow> bool" where
  begin_batch: "batch_reach (new_batch c n conn fid seq)"
| admitted: "batch_reach b \<Longrightarrow> int (length (pb_jobs b)) < pb_k b \<Longrightarrow> \<not> active b name \<Longrightarrow> start_name now name b = (b', Inr r) \<Longrightarrow>
    batch_reach (case r of None \<Rightarrow> b' | Some j \<Rightarrow> b'\<lparr>pb_jobs := pb_jobs b' @ [j]\<rparr>)"
| handled: "batch_reach b \<Longrightarrow> handle now m b = (b', None) \<Longrightarrow> batch_reach b'"

lemma take_slot:
  assumes "batch_wf b" and "int (length (pb_jobs b)) < pb_k b" and "\<not> active b name" and "start_name now name b = (b', Inr r)"
  shows "accounted b (case r of None \<Rightarrow> b' | Some j \<Rightarrow> b'\<lparr>pb_jobs := pb_jobs b' @ [j]\<rparr>)"
proof -
  obtain b1 pr where pl: "start_plan now name b = (b1, pr)" by (cases "start_plan now name b")
  note c = start_plan_core [OF pl]
  note wf1 = assms(1) [folded acc_cong(1) [OF c]]
  have a1: "accounted b b1" by (rule accounted_core [OF accounted_refl c])
  show ?thesis
  proof (cases pr)
    case (Some x)
    then have "b' = b1" "r = None" using assms(4) pl by (auto simp: start_name_def split: option.splits)
    then show ?thesis using a1 by simp
  next
    case None
    then have sp: "start_pull name b1 = (b', Inr r)" using assms(4) pl by (simp add: start_name_def)
    note s = start_pull_acc [OF wf1 sp]
    have ab: "accounted b b'" using accounted_trans [OF a1] s by blast
    show ?thesis
    proof (cases r)
      case None
      then show ?thesis using ab by simp
    next
      case (Some j)
      let ?b = "b'\<lparr>pb_jobs := pb_jobs b' @ [j]\<rparr>"
      have wf': "batch_wf b'" using ab assms(1) by (simp add: accounted_def)
      have "\<forall>i \<in> set (pb_jobs b'). pj_name (pb_all b' ! i) \<noteq> name" using s core_eqD [OF c] assms(3) by (auto simp: active_def list_ex_iff)
      then have "batch_wf ?b" using wf' s Some core_eqD [OF c] assms(2) by (auto simp: batch_wf_def)
      moreover have "sizes_ok M ?b = sizes_ok M b'" "bounded M ?b = bounded M b'" for M
        by (simp_all add: sizes_ok_def bounded_def outstanding_def refs_to_def ref_size_def [abs_def] runs_of_def [abs_def])
      ultimately show ?thesis using ab Some by (simp add: accounted_def)
    qed
  qed
qed

lemma batch_reach_acc: "batch_reach b \<Longrightarrow> batch_wf b \<and> (\<forall>M. sizes_ok M b \<longrightarrow> bounded M b)"
proof (induction rule: batch_reach.induct)
  case (begin_batch c n conn fid seq)
  have "0 < PullInFlightBytesOrDefault c" "0 < PullFiles c" by (simp_all add: PullInFlightBytesOrDefault_def PullFiles_def Let_def)
  then show ?case by (auto simp: batch_wf_def bounded_def new_batch_def outstanding_def refs_to_def)
next
  case (admitted b name now b' r)
  then show ?case using take_slot [of b name now b' r] unfolding accounted_def by blast
next
  case (handled b now m b')
  then show ?case using accounted_handle [of b now m b'] unfolding accounted_def by blast
qed

text \<open>C14. Answers are attributed to the file that asked: in every state of a batch a request in flight belongs to a job and to
one of the runs this job has sent; the jobs that hold a slot are live, have pairwise different names, so that no two of them
stage into one file, and are no more than the configured number.\<close>

theorem batch_well_formed:
  assumes "batch_reach b"
  shows "(\<forall>rid j r. mget (pb_inFlight b) rid = Some (j, r) \<longrightarrow> j < length (pb_all b) \<and> r < length (pj_runs (pb_all b ! j)))
    \<and> (\<forall>j \<in> set (pb_jobs b). j < length (pb_all b) \<and> \<not> pj_dead (pb_all b ! j))
    \<and> distinct (map (\<lambda>j. pj_name (pb_all b ! j)) (pb_jobs b)) \<and> int (length (pb_jobs b)) \<le> pb_k b"
proof -
  have wf: "batch_wf b" using batch_reach_acc [OF assms] by simp
  have "j < length (pb_all b) \<and> r < length (pj_runs (pb_all b ! j))" if "mget (pb_inFlight b) rid = Some (j, r)" for rid j r
  proof -
    have "j < length (pb_all b)" "r < pj_sent (pb_all b ! j)" using wf mget_Some_in [OF that] by (force simp: batch_wf_def)+
    then show ?thesis using wf_sent [OF wf, of j] by simp
  qed
  then show ?thesis using wf by (simp add: batch_wf_def)
qed

text \<open>C13. The memory a peer can make a pull hold is bounded: in every state of a batch the bytes of all requests in flight are at
most the configured budget, or one run where a single run is larger, and no file has more than the window of eight
requests in flight.\<close>

theorem outstanding_bounded:
  assumes "batch_reach b" and "\<forall>job \<in> set (pb_all b). \<forall>run \<in> set (pj_runs job). 0 \<le> pr_size run \<and> pr_size run \<le> M"
  shows "outstanding b \<le> max (pb_budget b) M \<and> refs_to j b \<le> pullWindowSize"
proof -
  have "bounded M b" using batch_reach_acc [OF assms(1)] assms(2) by (simp add: sizes_ok_def)
  then show ?thesis by (auto simp: bounded_def)
qed

section \<open>A batch with one request in flight\<close>

definition demo_batch :: pullBatch where
  "demo_batch = new_batch \<lparr>pt_PullConcurrency = 1, pt_PullRunKB = 0, pt_PullInFlightMB = 0, pt_PullDisableBlockReuse = True, pt_PullOrder = []\<rparr>
     \<lparr>nd_ID = 1, nd_Name = ''n'', nd_SessionID = ''s'',
       nd_Folders = [(''d'', \<lparr>fo_Cfg = \<lparr>fc_Peers = [], fc_MaxDeletePct = 0, fc_MaxDeleteFiles = 0\<rparr>, fo_Root = ''/r'', fo_Paused = False, fo_TransfersPaused = False, fo_Engine = pull_engine\<rparr>)],
       nd_SentEntries = 0\<rparr>
     \<lparr>cn_PeerID = 7, cn_PeerName = ''p'', cn_PeerSession = ''s'', cn_PeerProtocol = 2, cn_in = [], cn_out = [], cn_left = 9\<rparr> ''d'' 0"

definition demo_run :: pullRun where
  "demo_run = run_of \<lparr>bn_Index = 0, bn_Offset = 0, bn_Size = 1, bn_Hash = HashBytes [7]\<rparr>"

lemma demo_batch_simps:
  "pb_jobs demo_batch = []" "pb_all demo_batch = []" "pb_inFlight demo_batch = []" "pb_k demo_batch = 1" "pb_inflightBytes demo_batch = 0"
  "pb_reqSeq demo_batch = 0" "\<not> pb_reuse demo_batch" "b_engine demo_batch = pull_engine" "cn_PeerID (pb_conn demo_batch) = 7" "cn_left (pb_conn demo_batch) = 9"
  "pb_runBytes demo_batch = 4194304" "pb_budget demo_batch = 16777216"
  by (simp_all add: demo_batch_def new_batch_def PullFiles_def ReuseLocalBlocks_def b_engine_def PullRunBytesOrDefault_def PullInFlightBytesOrDefault_def)

lemma demo_started:
  "\<exists>b. start_name 0 ''f'' demo_batch = (b, Inr (Some 0)) \<and> pb_jobs b = [] \<and> mget (pb_inFlight b) 1 = Some (0, 0) \<and> pb_budget b = 16777216
     \<and> map pj_runs (pb_all b) = [[demo_run]]"
proof -
  have g: "globalForLocked pull_engine ''f'' = Inr (Some one_block, False)"
    by (simp add: globalForLocked_def globalFrom_def pull_engine_def fresh_engine_def New_Engine_def Ix_Get_def empty_index_def)
  have l: "Ix_Get (Ix pull_engine) ''f'' = Inr None" by (simp add: pull_engine_def fresh_engine_def New_Engine_def Ix_Get_def empty_index_def)
  have "start_plan 0 ''f'' demo_batch = (with_engine pull_engine demo_batch, None)"
    by (simp add: start_plan_def PlanOverwrite_def Execute_def archive_local_def demo_batch_simps g l Let_def CloneInfo_def)
  moreover have "with_engine pull_engine demo_batch = demo_batch"
    by (simp add: with_engine_def demo_batch_def new_batch_def set_engine_def)
  ultimately have sn: "start_name 0 ''f'' demo_batch = start_pull ''f'' demo_batch" by (simp add: start_name_def)
  have nb: "NeedBlocks (new_pull ''f'' one_block part_path [False] 7) = [\<lparr>bn_Index = 0, bn_Offset = 0, bn_Size = 1, bn_Hash = HashBytes [7]\<rparr>]"
    by (simp add: NeedBlocks_def one_block_geometry int64_id)
  show ?thesis unfolding sn
    by (simp add: start_pull_def demo_batch_simps pull_engine_start nb planPulls_def demo_run_def run_of_def pullWindowSize_def eval_nat_numeral sendNext_def send_msg_def
        Send_def with_engine_def set_job_def Let_def)
qed

lemma demo_reached:
  "\<exists>b. batch_reach b \<and> pb_jobs b = [0] \<and> mget (pb_inFlight b) 1 = Some (0, 0) \<and> pb_budget b = 16777216
     \<and> map pj_runs (pb_all b) = [[demo_run]]"
proof -
  obtain b where b: "start_name 0 ''f'' demo_batch = (b, Inr (Some 0))" "pb_jobs b = []" "mget (pb_inFlight b) 1 = Some (0, 0)" "pb_budget b = 16777216"
    "map pj_runs (pb_all b) = [[demo_run]]"
    using demo_started by (elim exE conjE) (rule that; assumption)
  have "batch_reach demo_batch" unfolding demo_batch_def by (rule begin_batch)
  from admitted [OF this _ _ b(1)] have "batch_reach (b\<lparr>pb_jobs := pb_jobs b @ [0]\<rparr>)" by (simp add: demo_batch_simps active_def)
  then show ?thesis using b(2-5) by (intro exI [of _ "b\<lparr>pb_jobs := pb_jobs b @ [0]\<rparr>"]) simp
qed

theorem batch_well_formed_witness:
  "\<exists>b. batch_reach b \<and> pb_jobs b = [0] \<and> mget (pb_inFlight b) 1 = Some (0, 0) \<and> 0 < length (pj_runs (pb_all b ! 0)) \<and> \<not> pj_dead (pb_all b ! 0)"
proof -
  obtain b where b: "batch_reach b" "pb_jobs b = [0]" "mget (pb_inFlight b) 1 = Some (0, 0)"
    using demo_reached by (elim exE conjE) (rule that; assumption)
  from batch_well_formed [OF b(1)] b show ?thesis by (intro exI [of _ b]) auto
qed

theorem outstanding_bounded_witness: "\<exists>b. batch_reach b \<and> pb_jobs b = [0] \<and> outstanding b \<le> 16777216 \<and> refs_to 0 b \<le> 8"
proof -
  obtain b where b: "batch_reach b" "pb_jobs b = [0]" "pb_budget b = 16777216"
    "map pj_runs (pb_all b) = [[demo_run]]"
    using demo_reached by (elim exE conjE) (rule that; assumption)
  have "\<forall>job \<in> set (pb_all b). \<forall>run \<in> set (pj_runs job). 0 \<le> pr_size run \<and> pr_size run \<le> 1" using b(4) by (auto simp: map_eq_Cons_conv demo_run_def run_of_def)
  from outstanding_bounded [OF b(1) this, of 0] b show ?thesis by (intro exI [of _ b]) (simp add: pullWindowSize_def)
qed

section \<open>A job without a request\<close>

lemma sendNext_other:
  "sendNext j b = (b', err) \<Longrightarrow> i \<noteq> j \<Longrightarrow> refs_to i b' \<le> refs_to i b \<and> pb_jobs b' = pb_jobs b \<and> length (pb_all b') = length (pb_all b)"
  using sendNext_core [of j b b' err] length_filter_mset_at [of "\<lambda>x. fst (snd x) = i" "pb_inFlight b" _ "(j, pj_sent (pb_all b ! j))"]
  by (auto simp: Let_def core_def set_job_def refs_to_def)

lemma fill_window_other:
  "fill_window k j b = (b', err) \<Longrightarrow> i \<noteq> j \<Longrightarrow> refs_to i b' \<le> refs_to i b \<and> pb_jobs b' = pb_jobs b \<and> length (pb_all b') = length (pb_all b)"
proof (induction k arbitrary: b)
  case (Suc k)
  obtain b1 e1 where s: "sendNext j b = (b1, e1)" by (cases "sendNext j b")
  note o = sendNext_other [OF s Suc.prems(2)]
  have "(b', err) = (b, None) \<or> b' = b1 \<or> fill_window k j b1 = (b', err)"
    using Suc.prems(1) s by (auto split: if_splits option.splits)
  then show ?case using o Suc.IH [of b1] Suc.prems(2) by auto
qed simp

text \<open>A job that waits for an answer it never asked for.\<close>

definition starved :: "nat \<Rightarrow> pullBatch \<Rightarrow> bool" where
  "starved i b \<longleftrightarrow> i \<in> set (pb_jobs b) \<and> refs_to i b = 0 \<and> i < length (pb_all b)"

lemma starved_core: "core b' = core b \<Longrightarrow> starved i b' = starved i b"
  using core_eqD [of b' b] acc_cong(4) [of b' b i] by (simp add: starved_def)

lemma starved_kill: "starved i b \<Longrightarrow> i \<noteq> j \<Longrightarrow> starved i (remove_job j (set_job j job b))"
  by (simp add: starved_def remove_job_def set_job_def refs_to_def)

lemma starved_handle:
  assumes "starved i b" and "handle now m b = (b', err)"
  shows "starved i b'"
proof (cases "m_Type m = MsgResponse \<and> m_Response m \<noteq> None")
  case False
  then have "core b' = core b" using assms(2) by (auto simp: handle_def split: MsgType.splits option.splits)
  then show ?thesis using starved_core [of b' b i] assms(1) by simp
next
  case True
  then obtain resp where mr: "m_Type m = MsgResponse" "m_Response m = Some resp" by blast
  have h: "handle_response resp b = (b', err)" using assms(2) by (simp add: handle_def mr)
  show ?thesis
  proof (cases "mget (pb_inFlight b) (rs_ID resp)")
    case None
    then show ?thesis using h assms(1) by (simp add: handle_response_def)
  next
    case (Some ref)
    obtain j r where ref: "ref = (j, r)" by (cases ref)
    let ?b1 = "b\<lparr>pb_inFlight := mdelete (pb_inFlight b) (rs_ID resp)\<rparr>"
    have ij: "i \<noteq> j" using assms(1) mget_Some_in [OF Some [unfolded ref]] by (auto simp: starved_def refs_to_def filter_empty_conv)
    have s1: "starved i ?b1" using assms(1) length_filter_mdelete(1) [of "\<lambda>x. fst (snd x) = i" "pb_inFlight b" "rs_ID resp"] by (simp add: starved_def refs_to_def)
    have s2: "starved i (?b1\<lparr>pb_inflightBytes := v\<rparr>)" for v using s1 by (simp add: starved_def refs_to_def)
    have ab: "starved i (abandon j c)" if "starved i c" for c
      using abandon_core [of j c] starved_core [of "abandon j c" c i] starved_core [of "abandon j c" "remove_job j (set_job j ((pb_all c ! j)\<lparr>pj_dead := True\<rparr>) c)" i]
        starved_kill [OF that ij] that by (auto split: if_splits)
    have rp: "starved i (reportProblem n er c) = starved i c" "starved i (with_engine e c) = starved i c" "starved i (set_job j jb c) = starved i c" for n er c e jb
      using starved_core [of "reportProblem n er c" c] starved_core [of "with_engine e c" c] by (simp_all add: starved_def set_job_def refs_to_def)
    have co: "starved i c'" if "complete j c = (c', er)" "starved i c" for c c' er
      using starved_core [OF complete_core [OF that(1)]] starved_kill [OF that(2) ij] by simp
    have sn: "starved i c'" if "sendNext j c = (c', er)" "starved i c" for c c' er
      using sendNext_other [OF that(1) ij] that(2) sendNext_core [OF that(1)] by (auto simp: starved_def Let_def core_def set_job_def)
    let ?job = "pb_all b ! j"
    let ?run = "pj_runs ?job ! r"
    let ?b2 = "?b1\<lparr>pb_inflightBytes := max 0 (pb_inflightBytes ?b1 - pr_size ?run)\<rparr>"
    show ?thesis
    proof (cases "pj_dead ?job \<or> rs_Code resp \<noteq> RespNoError")
      case True
      then show ?thesis using h Some ref s1 ab [OF s1] ab [of "reportProblem (pj_name ?job) (Err ''block request failed'') ?b1"] rp(1)
        by (auto simp: handle_response_def Let_def split: RespCode.splits if_splits)
    next
      case ok: False
      obtain e p er where rb: "ReceiveBlocks (b_engine ?b2) (pj_pull ?job) (int (bn_Index (hd (pr_needs ?run)))) (rs_Data resp) = (e, p, er)"
        by (cases "ReceiveBlocks (b_engine ?b2) (pj_pull ?job) (int (bn_Index (hd (pr_needs ?run)))) (rs_Data resp)") auto
      consider n where "b' = abandon j (reportProblem (pj_name ?job) n ?b2)"
        | jb n where "b' = abandon j (reportProblem (pj_name ?job) n (set_job j jb (with_engine e ?b2)))"
        | jb where "complete j (set_job j jb (with_engine e ?b2)) = (b', err)"
        | jb where "sendNext j (set_job j jb (with_engine e ?b2)) = (b', err)"
        using h Some ref ok rb by (auto simp: handle_response_def Let_def split: if_splits option.splits)
      then show ?thesis
      proof cases
        case 1
        then show ?thesis using ab rp(1) s2 by simp
      next
        case 2
        then show ?thesis using ab rp s2 by simp
      next
        case 3
        then show ?thesis using co rp s2 by blast
      next
        case 4
        then show ?thesis using sn rp s2 by blast
      qed
    qed
  qed
qed

lemma starved_start:
  assumes "starved i b" and "start_name now name b = (b', Inr r)"
  shows "starved i b'"
proof -
  obtain b1 pr where pl: "start_plan now name b = (b1, pr)" by (cases "start_plan now name b")
  have s1: "starved i b1" using starved_core [OF start_plan_core [OF pl]] assms(1) by simp
  show ?thesis
  proof (cases "pr = None")
    case False
    then show ?thesis using assms(2) pl s1 by (auto simp: start_name_def split: option.splits)
  next
    case True
    then have sp: "start_pull name b1 = (b', Inr r)" using assms(2) pl by (simp add: start_name_def)
    let ?j = "length (pb_all b1)"
    have ij: "i \<noteq> ?j" using s1 by (simp add: starved_def)
    have add: "starved i ((with_engine e b1)\<lparr>pb_all := pb_all b1 @ [job]\<rparr>)" for e job
      using s1 by (simp add: starved_def with_engine_def refs_to_def)
    consider e er where "b' = reportProblem name er (with_engine e b1)"
      | e job where "complete ?j ((with_engine e b1)\<lparr>pb_all := pb_all b1 @ [job]\<rparr>) = (b', None)"
      | e job where "fill_window pullWindowSize ?j ((with_engine e b1)\<lparr>pb_all := pb_all b1 @ [job]\<rparr>) = (b', None)"
      using sp unfolding start_pull_def Let_def by (auto split: if_splits prod.splits sum.splits option.splits)
    then show ?thesis
    proof cases
      case 1
      then show ?thesis using starved_core [of b' b1 i] s1 by simp
    next
      case 2
      then show ?thesis using starved_core [OF complete_core [OF 2]] starved_kill [OF add ij] by simp
    next
      case 3
      then show ?thesis using fill_window_other [OF 3 ij] add [of job e] by (auto simp: starved_def)
    qed
  qed
qed

lemma starved_admit: "starved i b \<Longrightarrow> admit now paused names b = (b', names', None) \<Longrightarrow> starved i b'"
proof (induction names arbitrary: b)
  case (Cons name names)
  obtain b1 r where s: "start_name now name b = (b1, r)" by (cases "start_name now name b")
  have st: "starved i b1" if "r = Inr x" for x using starved_start [OF Cons.prems(1)] s that by simp
  have add: "starved i (b1\<lparr>pb_jobs := pb_jobs b1 @ [j]\<rparr>)" if "starved i b1" for j using that by (simp add: starved_def refs_to_def)
  consider "b' = b" | "admit now paused names b = (b', names', None)" | x where "r = Inr x" "admit now paused names b1 = (b', names', None)"
    | x j where "r = Inr x" "admit now paused names (b1\<lparr>pb_jobs := pb_jobs b1 @ [j]\<rparr>) = (b', names', None)"
    using Cons.prems(2) s by (auto split: if_splits sum.splits option.splits)
  then show ?case using Cons.IH Cons.prems(1) st add by cases blast+
qed simp

lemma starved_run: "starved i b \<Longrightarrow> snd (batch_run now paused names ms b) \<noteq> None"
proof (induction ms arbitrary: b names)
  case Nil
  obtain b1 names1 e1 where a: "admit now paused names b = (b1, names1, e1)" by (cases "admit now paused names b")
  have "pb_jobs b1 \<noteq> []" if "e1 = None" using starved_admit [OF Nil a [unfolded that]] by (auto simp: starved_def)
  then show ?case using a by (subst batch_run.simps) (auto split: option.splits)
next
  case (Cons m ms)
  obtain b1 names1 e1 where a: "admit now paused names b = (b1, names1, e1)" by (cases "admit now paused names b")
  obtain b2 e2 where h: "handle now m b1 = (b2, e2)" by (cases "handle now m b1")
  show ?case
  proof (cases "e1 = None \<and> e2 = None")
    case True
    then have s1: "starved i b1" using starved_admit [OF Cons.prems] a by simp
    then have "pb_jobs b1 \<noteq> []" by (auto simp: starved_def)
    then show ?thesis using Cons.IH [OF starved_handle [OF s1 h]] a h True by (subst batch_run.simps) simp
  next
    case False
    have "pb_jobs b1 \<noteq> []" if "e1 = None" using starved_admit [OF Cons.prems a [unfolded that]] by (auto simp: starved_def)
    then show ?thesis using a h False by (subst batch_run.simps) (auto split: option.splits)
  qed
qed

definition new_job :: "string \<Rightarrow> Pull \<Rightarrow> pullBatch \<Rightarrow> pullJob" where
  "new_job name pull b = \<lparr>pj_name = name, pj_pull = pull, pj_runs = planPulls (NeedBlocks pull) (pb_runBytes b), pj_sent = 0, pj_received = 0,
     pj_total = length (NeedBlocks pull), pj_dead = False\<rparr>"

lemma start_pull_window:
  assumes "start_pull name b = (b', Inr (Some j))"
  obtains e pull where "fill_window pullWindowSize j ((with_engine e b)\<lparr>pb_all := pb_all b @ [new_job name pull b]\<rparr>) = (b', None)" and "j = length (pb_all b)"
proof -
  obtain e res where sp: "StartPull (b_engine b) name (cn_PeerID (pb_conn b)) = (e, res)" by (cases "StartPull (b_engine b) name (cn_PeerID (pb_conn b))")
  then obtain pull0 where r: "res = Inr pull0" using assms by (cases res) (auto simp: start_pull_def)
  obtain e1 pull where fp: "(if pb_reuse b then (case FillBlocksFromLocal e pull0 of (e1, p1, _, _) \<Rightarrow> (e1, p1)) else (e, pull0)) = (e1, pull)" by fastforce
  let ?b1 = "(with_engine e1 b)\<lparr>pb_all := pb_all b @ [new_job name pull b]\<rparr>" and ?j = "length (pb_all b)"
  have "start_pull name b = (if length (NeedBlocks pull) = 0 then
               (case complete ?j ?b1 of (b2, Some err) \<Rightarrow> (b2, Inl err) | (b2, None) \<Rightarrow> (b2, Inr None))
             else (case fill_window pullWindowSize ?j ?b1 of
                  (b2, Some err) \<Rightarrow> (with_engine (Abort (b_engine b2) pull) b2, Inl err) | (b2, None) \<Rightarrow> (b2, Inr (Some ?j))))"
    by (simp only: start_pull_def sp r prod.case sum.case Let_def fp new_job_def)
  then have "fill_window pullWindowSize ?j ?b1 = (b', None) \<and> j = ?j"
    unfolding assms by (auto split: if_splits prod.splits option.splits)
  then show thesis using that [of pull e1] by blast
qed

lemma sendNext_runs: "sendNext j b = (b', err) \<Longrightarrow> runs_of b' = runs_of b"
  using sendNext_core [of j b b' err] by (auto simp: Let_def core_def set_job_def runs_of_def fun_eq_iff nth_update)

lemma fill_window_runs: "fill_window k j b = (b', err) \<Longrightarrow> runs_of b' = runs_of b"
proof (induction k arbitrary: b)
  case (Suc k)
  obtain b1 e1 where s: "sendNext j b = (b1, e1)" by (cases "sendNext j b")
  have "b' = b \<or> b' = b1 \<or> fill_window k j b1 = (b', err)" using Suc.prems s by (auto split: if_splits option.splits)
  then show ?case using sendNext_runs [OF s] Suc.IH [of b1] by auto
qed simp

lemma fill_window_stuck: "sendNext j b = (b, None) \<Longrightarrow> fill_window k j b = (b, None)"
  by (cases k) simp_all

text \<open>Only the job that was answered sends again. A file admitted while the answers owed leave no room for its first run sends
nothing, and no later message makes it send: whatever the peer answers from then on, the batch never ends by itself.\<close>

theorem unfunded_job_never_ends:
  assumes "batch_wf b" and "start_pull name b = (b', Inr (Some j))"
    and "0 < pb_inflightBytes b" and "pb_inflightBytes b + pr_size (hd (pj_runs (pb_all b' ! j))) > pb_budget b"
  shows "snd (batch_run now paused names ms (b'\<lparr>pb_jobs := pb_jobs b' @ [j]\<rparr>)) \<noteq> None"
proof -
  obtain e1 pull where fw: "fill_window pullWindowSize j ((with_engine e1 b)\<lparr>pb_all := pb_all b @ [new_job name pull b]\<rparr>) = (b', None)"
    and j: "j = length (pb_all b)" using start_pull_window [OF assms(2)] .
  let ?job = "new_job name pull b"
  let ?b1 = "(with_engine e1 b)\<lparr>pb_all := pb_all b @ [?job]\<rparr>"
  have jf: "pb_all ?b1 ! j = ?job" using j by simp
  have pre: "batch_wf ?b1" "j < length (pb_all ?b1)" "refs_to j ?b1 \<le> pj_sent (pb_all ?b1 ! j)"
    unfolding j using add_job [OF assms(1), of ?job] acc_cong(1,4) [of ?b1 "b\<lparr>pb_all := pb_all b @ [?job]\<rparr>"] by (simp_all add: core_def with_engine_def new_job_def)
  have runs: "pj_runs (pb_all b' ! j) = pj_runs ?job" using fun_cong [OF fill_window_runs [OF fw], of j] jf by (simp add: runs_of_def)
  have "sendNext j ?b1 = (?b1, None)"
  proof (cases "pj_runs ?job = []")
    case True
    then show ?thesis using jf by (simp add: sendNext_def)
  next
    case False
    then show ?thesis using assms(3,4) runs jf by (simp add: sendNext_def Let_def with_engine_def hd_conv_nth new_job_def)
  qed
  then have "b' = ?b1" using fill_window_stuck fw by simp
  then have "starved j (b'\<lparr>pb_jobs := pb_jobs b' @ [j]\<rparr>)" using pre(3) j by (simp add: starved_def refs_to_def new_job_def)
  then show ?thesis by (rule starved_run)
qed

end
