(* ===== verification/Serve.thy ===== *)
theory Serve
  imports Pull_Batch
begin

text \<open>
  The serving side of a pull: \<^verbatim>\<open>serveBlock\<close> of \<^verbatim>\<open>internal/node/session.go\<close> and the cache of open files behind it,
  \<^verbatim>\<open>internal/node/serve_cache.go\<close>. The disk is a map from absolute paths to files, so a path can come to name another file
  while an open file keeps reading the old one; a pointer to an open file is its position in the list of all files opened so far.
  Times are nanoseconds. Whether a call on a path fails is part of the disk.
\<close>

section \<open>Paths\<close>

text \<open>\<^verbatim>\<open>filepath.Clean\<close> and \<^verbatim>\<open>filepath.Join\<close> of two parts on Unix.\<close>

fun path_parts :: "string \<Rightarrow> string \<Rightarrow> string list" where
  "path_parts acc [] = [rev acc]"
| "path_parts acc (c # cs) = (if c = CHR ''/'' then rev acc # path_parts [] cs else path_parts (c # acc) cs)"

fun clean_parts :: "bool \<Rightarrow> string list \<Rightarrow> string list \<Rightarrow> string list" where
  "clean_parts rooted acc [] = rev acc"
| "clean_parts rooted acc (x # xs) =
     (if x = [] \<or> x = ''.'' then clean_parts rooted acc xs
      else if x = ''..'' then
        (if acc \<noteq> [] \<and> hd acc \<noteq> ''..'' then clean_parts rooted (tl acc) xs
         else if rooted then clean_parts rooted acc xs
         else clean_parts rooted (x # acc) xs)
      else clean_parts rooted (x # acc) xs)"

fun with_slashes :: "string list \<Rightarrow> string" where
  "with_slashes [] = []"
| "with_slashes [x] = x"
| "with_slashes (x # y # xs) = x @ ''/'' @ with_slashes (y # xs)"

definition filepath_Clean :: "string \<Rightarrow> string" where
  "filepath_Clean p =
     (let rooted = HasPrefix p ''/''; parts = clean_parts rooted [] (path_parts [] p) in
        if rooted then ''/'' @ with_slashes parts else if parts = [] then ''.'' else with_slashes parts)"

definition filepath_Join :: "string \<Rightarrow> string \<Rightarrow> string" where
  "filepath_Join a b =
     (if a = [] \<and> b = [] then [] else if a = [] then filepath_Clean b else if b = [] then filepath_Clean a
      else filepath_Clean (a @ ''/'' @ b))"

section \<open>The disk\<close>

record Inode =
  in_data :: "byte list"
  in_mtime :: int
  in_dir :: bool

record Disk =
  dk_names :: "(string, nat) gomap"
  dk_inode :: "nat \<Rightarrow> Inode"
  dk_stat_fault :: "string \<Rightarrow> bool"
  dk_open_fault :: "string \<Rightarrow> bool"
  dk_fstat_fault :: "nat \<Rightarrow> bool"
  dk_read_fault :: "nat \<Rightarrow> bool"

definition disk_Stat :: "Disk \<Rightarrow> string \<Rightarrow> go_error + nat" where
  "disk_Stat d p = (if dk_stat_fault d p then Inl IOError else case mget (dk_names d) p of None \<Rightarrow> Inl NotExist | Some i \<Rightarrow> Inr i)"

definition disk_Open :: "Disk \<Rightarrow> string \<Rightarrow> go_error + nat" where
  "disk_Open d p = (if dk_open_fault d p then Inl IOError else case mget (dk_names d) p of None \<Rightarrow> Inl NotExist | Some i \<Rightarrow> Inr i)"

text \<open>\<^verbatim>\<open>ReadAt\<close> on an open file: what was read, and whether fewer bytes than asked for were there.\<close>

datatype read_result = Read "byte list" | ReadEOF "byte list" | ReadFailed go_error

definition ReadAt :: "Disk \<Rightarrow> nat \<Rightarrow> nat \<Rightarrow> nat \<Rightarrow> read_result" where
  "ReadAt d i off len =
     (if dk_read_fault d i \<or> in_dir (dk_inode d i) then ReadFailed IOError
      else let got = take len (drop off (in_data (dk_inode d i))) in if length got < len then ReadEOF got else Read got)"

section \<open>The cache\<close>

definition maxServeHandles :: nat where "maxServeHandles = 32"
definition serveHandleIdleTTL :: int where "serveHandleIdleTTL = 60 * 1000000000"

record OsFile =
  of_inode :: nat
  of_closed :: bool

text \<open>\<^verbatim>\<open>st\<close> is what the stat at open time said of the size and the modification time.\<close>

record serveHandle =
  sh_f :: nat
  sh_size :: nat
  sh_mtime :: int
  sh_lastUsed :: int

record serveHandleCache =
  byPath :: "(string, serveHandle) gomap"
  opened :: "OsFile list"

definition newServeHandleCache :: serveHandleCache where
  "newServeHandleCache = \<lparr>byPath = [], opened = []\<rparr>"

definition close_file :: "nat \<Rightarrow> serveHandleCache \<Rightarrow> serveHandleCache" where
  "close_file k c = c\<lparr>opened := (opened c)[k := (opened c ! k)\<lparr>of_closed := True\<rparr>]\<rparr>"

definition drop_handle :: "string \<Rightarrow> serveHandle \<Rightarrow> serveHandleCache \<Rightarrow> serveHandleCache" where
  "drop_handle path h c = (close_file (sh_f h) c)\<lparr>byPath := mdelete (byPath c) path\<rparr>"

definition validLocked :: "Disk \<Rightarrow> string \<Rightarrow> serveHandle \<Rightarrow> serveHandleCache \<Rightarrow> bool" where
  "validLocked d pth h c =
     (case disk_Stat d pth of
        Inl _ \<Rightarrow> False
      | Inr i \<Rightarrow>
          let f = opened c ! sh_f h in
            if of_closed f \<or> dk_fstat_fault d (of_inode f) then False
            else if i \<noteq> of_inode f then False
            else \<not> (length (in_data (dk_inode d i)) \<noteq> sh_size h \<or> in_mtime (dk_inode d i) \<noteq> sh_mtime h))"

definition closeIdleLocked :: "int \<Rightarrow> serveHandleCache \<Rightarrow> serveHandleCache" where
  "closeIdleLocked now c =
     foldl (\<lambda>c (path, h). if sh_lastUsed h < now - serveHandleIdleTTL then drop_handle path h c else c) c (byPath c)"

text \<open>Which handle the iteration over the map yields first is the number \<open>pick\<close>.\<close>

definition evictOneLocked :: "nat \<Rightarrow> serveHandleCache \<Rightarrow> serveHandleCache" where
  "evictOneLocked pick c =
     (if byPath c = [] then c else let (path, h) = byPath c ! (pick mod length (byPath c)) in drop_handle path h c)"

definition open_new :: "Disk \<Rightarrow> int \<Rightarrow> nat \<Rightarrow> string \<Rightarrow> serveHandleCache \<Rightarrow> serveHandleCache \<times> (go_error + nat)" where
  "open_new d now pick pth c0 =
     (let c = closeIdleLocked now c0 in
      case disk_Open d pth of
        Inl err \<Rightarrow> (c, Inl err)
      | Inr i \<Rightarrow>
          if dk_fstat_fault d i then (c\<lparr>opened := opened c @ [\<lparr>of_inode = i, of_closed = True\<rparr>]\<rparr>, Inl IOError)
          else
          (let k = length (opened c); c1 = c\<lparr>opened := opened c @ [\<lparr>of_inode = i, of_closed = False\<rparr>]\<rparr>;
               c2 = (if length (byPath c1) \<ge> maxServeHandles then evictOneLocked pick c1 else c1) in
             (c2\<lparr>byPath := mset_at (byPath c2) pth
                 \<lparr>sh_f = k, sh_size = length (in_data (dk_inode d i)), sh_mtime = in_mtime (dk_inode d i), sh_lastUsed = now\<rparr>\<rparr>, Inr k)))"

definition cache_open :: "Disk \<Rightarrow> int \<Rightarrow> nat \<Rightarrow> string \<Rightarrow> serveHandleCache \<Rightarrow> serveHandleCache \<times> (go_error + nat)" where
  "cache_open d now pick pth c =
     (case mget (byPath c) pth of
        None \<Rightarrow> open_new d now pick pth c
      | Some h \<Rightarrow>
          if validLocked d pth h c then (c\<lparr>byPath := mset_at (byPath c) pth (h\<lparr>sh_lastUsed := now\<rparr>)\<rparr>, Inr (sh_f h))
          else open_new d now pick pth (drop_handle pth h c))"

text \<open>\<open>enabled\<close> is \<^verbatim>\<open>serveCacheEnabled\<close>. The read happens after the lock was released, so it is a step of its own.\<close>

definition read_handle :: "Disk \<Rightarrow> serveHandleCache \<Rightarrow> nat \<Rightarrow> nat \<Rightarrow> nat \<Rightarrow> read_result" where
  "read_handle d c k off len = (if of_closed (opened c ! k) then ReadFailed (Err ''file already closed'') else ReadAt d (of_inode (opened c ! k)) off len)"

definition readBlock :: "bool \<Rightarrow> Disk \<Rightarrow> int \<Rightarrow> nat \<Rightarrow> string \<Rightarrow> nat \<Rightarrow> nat \<Rightarrow> serveHandleCache \<Rightarrow> serveHandleCache \<times> read_result" where
  "readBlock enabled d now pick pth off len c =
     (if \<not> enabled then (c, case disk_Open d pth of Inl err \<Rightarrow> ReadFailed err | Inr i \<Rightarrow> ReadAt d i off len)
      else case cache_open d now pick pth c of
        (c1, Inl err) \<Rightarrow> (c1, ReadFailed err)
      | (c1, Inr k) \<Rightarrow> (c1, read_handle d c1 k off len))"

definition forget_handles :: "Disk \<Rightarrow> bool \<Rightarrow> serveHandleCache \<Rightarrow> serveHandleCache" where
  "forget_handles d all c =
     foldl (\<lambda>c (path, h). if all \<or> (case disk_Stat d path of Inl _ \<Rightarrow> True | Inr _ \<Rightarrow> False) then drop_handle path h c else c) c (byPath c)"

section \<open>Serving a request\<close>

definition TransfersPaused :: "Folder \<Rightarrow> bool" where
  "TransfersPaused f \<longleftrightarrow> fo_TransfersPaused f \<or> fo_Paused f"

definition resp_code :: "Request \<Rightarrow> RespCode \<Rightarrow> Response" where
  "resp_code req code = \<lparr>rs_ID = rq_ID req, rs_Data = [], rs_Code = code\<rparr>"

text \<open>A request message without a body makes the process panic.\<close>

definition serveBlock :: "bool \<Rightarrow> Disk \<Rightarrow> int \<Rightarrow> nat \<Rightarrow> Request option \<Rightarrow> Node \<Rightarrow> serveHandleCache \<Rightarrow> Node \<times> serveHandleCache \<times> (go_error + Response)" where
  "serveBlock enabled d now pick request n c =
     (case request of
        None \<Rightarrow> (n, c, Inl Panic)
      | Some req \<Rightarrow>
          (case mget (nd_Folders n) (rq_Folder req) of
             None \<Rightarrow> (n, c, Inr (resp_code req RespNoSuchFile))
           | Some f \<Rightarrow>
               if TransfersPaused f then (n, c, Inr (resp_code req RespGeneric))
               else if rq_Size req \<le> 0 \<or> rq_Size req > MaxBlockSize \<or> rq_Offset req < 0 then (n, c, Inr (resp_code req RespGeneric))
               else if InFlight (fo_Engine f) (rq_Name req) then (n, c, Inr (resp_code req RespInvalidFile))
               else
                 (case readBlock enabled d now pick (filepath_Join (fo_Root f) (rq_Name req)) (nat (rq_Offset req)) (nat (rq_Size req)) c of
                    (c1, ReadFailed NotExist) \<Rightarrow> (n, c1, Inr (resp_code req RespNoSuchFile))
                  | (c1, ReadFailed _) \<Rightarrow> (n, c1, Inr (resp_code req RespGeneric))
                  | (c1, ReadEOF _) \<Rightarrow> (n, c1, Inr (resp_code req RespNoSuchFile))
                  | (c1, Read buf) \<Rightarrow>
                      (let e = fo_Engine f; e1 = e\<lparr>Stats := (Stats e)\<lparr>BytesUp := int64 (BytesUp (Stats e) + int (length buf))\<rparr>\<rparr> in
                         (set_engine (rq_Folder req) e1 n, c1, Inr \<lparr>rs_ID = rq_ID req, rs_Data = buf, rs_Code = RespNoError\<rparr>)))))"

section \<open>The serving loop\<close>

text \<open>\<^verbatim>\<open>serveBlock\<close> up to the moment the lock of the cache is released, and the rest of it.\<close>

definition serve_open :: "Disk \<Rightarrow> int \<Rightarrow> nat \<Rightarrow> Request \<Rightarrow> Node \<Rightarrow> serveHandleCache \<Rightarrow> serveHandleCache \<times> (Response + nat)" where
  "serve_open d now pick req n c =
     (case mget (nd_Folders n) (rq_Folder req) of
        None \<Rightarrow> (c, Inl (resp_code req RespNoSuchFile))
      | Some f \<Rightarrow>
          if TransfersPaused f then (c, Inl (resp_code req RespGeneric))
          else if rq_Size req \<le> 0 \<or> rq_Size req > MaxBlockSize \<or> rq_Offset req < 0 then (c, Inl (resp_code req RespGeneric))
          else if InFlight (fo_Engine f) (rq_Name req) then (c, Inl (resp_code req RespInvalidFile))
          else (case cache_open d now pick (filepath_Join (fo_Root f) (rq_Name req)) c of
              (c1, Inl NotExist) \<Rightarrow> (c1, Inl (resp_code req RespNoSuchFile))
            | (c1, Inl _) \<Rightarrow> (c1, Inl (resp_code req RespGeneric))
            | (c1, Inr k) \<Rightarrow> (c1, Inr k)))"

definition serve_read :: "Disk \<Rightarrow> Request \<Rightarrow> nat \<Rightarrow> Node \<Rightarrow> serveHandleCache \<Rightarrow> Node \<times> Response" where
  "serve_read d req k n c =
     (case read_handle d c k (nat (rq_Offset req)) (nat (rq_Size req)) of
        ReadFailed NotExist \<Rightarrow> (n, resp_code req RespNoSuchFile)
      | ReadFailed _ \<Rightarrow> (n, resp_code req RespGeneric)
      | ReadEOF _ \<Rightarrow> (n, resp_code req RespNoSuchFile)
      | Read buf \<Rightarrow>
          (case mget (nd_Folders n) (rq_Folder req) of
             None \<Rightarrow> (n, \<lparr>rs_ID = rq_ID req, rs_Data = buf, rs_Code = RespNoError\<rparr>)
           | Some f \<Rightarrow>
               (let e = fo_Engine f; e1 = e\<lparr>Stats := (Stats e)\<lparr>BytesUp := int64 (BytesUp (Stats e) + int (length buf))\<rparr>\<rparr> in
                  (set_engine (rq_Folder req) e1 n, \<lparr>rs_ID = rq_ID req, rs_Data = buf, rs_Code = RespNoError\<rparr>))))"

lemma serveBlock_staged:
  "serveBlock True d now pick (Some req) n c =
     (case serve_open d now pick req n c of
        (c1, Inl resp) \<Rightarrow> (n, c1, Inr resp)
      | (c1, Inr k) \<Rightarrow> (case serve_read d req k n c1 of (n1, resp) \<Rightarrow> (n1, c1, Inr resp)))"
  by (simp add: serveBlock_def serve_open_def serve_read_def readBlock_def Let_def split: option.split prod.split sum.split go_error.split read_result.split)

definition serveWorkers :: nat where "serveWorkers = 4"

datatype worker = Started Request | Opened Request nat | Answering Response

record serveState =
  ss_node :: Node
  ss_cache :: serveHandleCache
  ss_conn :: Conn
  ss_workers :: "worker list"
  ss_sendErr :: bool
  ss_over :: bool

fun worker_id :: "worker \<Rightarrow> uint64" where
  "worker_id (Started req) = rq_ID req"
| "worker_id (Opened req k) = rq_ID req"
| "worker_id (Answering resp) = rs_ID resp"

text \<open>\<^verbatim>\<open>serveUntil\<close>: the loop receives a message when no response failed to be sent, a request waits for a free slot, and each
worker moves on its own; other sessions may change the cache at any moment through \<open>cache_open\<close>. The request message that kills
the process is not a step.\<close>

inductive serve_step :: "MsgType \<Rightarrow> serveState \<Rightarrow> serveState \<Rightarrow> bool" for terminal where
  recv_request: "\<not> ss_over s \<Longrightarrow> \<not> ss_sendErr s \<Longrightarrow> cn_in (ss_conn s) = m # ms \<Longrightarrow> m_Type m = MsgRequest \<Longrightarrow> m_Request m = Some req \<Longrightarrow>
    length (ss_workers s) < serveWorkers \<Longrightarrow>
    serve_step terminal s (s\<lparr>ss_conn := (ss_conn s)\<lparr>cn_in := ms\<rparr>, ss_workers := ss_workers s @ [Started req]\<rparr>)"
| recv_index: "\<not> ss_over s \<Longrightarrow> \<not> ss_sendErr s \<Longrightarrow> cn_in (ss_conn s) = m # ms \<Longrightarrow> m_Type m = MsgIndex \<or> m_Type m = MsgIndexUpdate \<Longrightarrow>
    serve_step terminal s (s\<lparr>ss_conn := (ss_conn s)\<lparr>cn_in := ms\<rparr>,
      ss_node := (case m_Index m of None \<Rightarrow> ss_node s | Some msg \<Rightarrow> mergeIndex now (cn_PeerID (ss_conn s)) msg None (ss_node s))\<rparr>)"
| recv_terminal: "\<not> ss_over s \<Longrightarrow> \<not> ss_sendErr s \<Longrightarrow> cn_in (ss_conn s) = m # ms \<Longrightarrow> m_Type m = terminal \<Longrightarrow> terminal \<notin> {MsgRequest, MsgIndex, MsgIndexUpdate} \<Longrightarrow>
    serve_step terminal s (s\<lparr>ss_conn := (ss_conn s)\<lparr>cn_in := ms\<rparr>, ss_over := True\<rparr>)"
| recv_other: "\<not> ss_over s \<Longrightarrow> \<not> ss_sendErr s \<Longrightarrow> cn_in (ss_conn s) = m # ms \<Longrightarrow> m_Type m \<notin> {MsgRequest, MsgIndex, MsgIndexUpdate, terminal} \<Longrightarrow>
    serve_step terminal s (s\<lparr>ss_conn := (ss_conn s)\<lparr>cn_in := ms\<rparr>\<rparr>)"
| worker_open: "i < length (ss_workers s) \<Longrightarrow> ss_workers s ! i = Started req \<Longrightarrow> serve_open d now pick req (ss_node s) (ss_cache s) = (c, r) \<Longrightarrow>
    serve_step terminal s (s\<lparr>ss_cache := c, ss_workers := (ss_workers s)[i := (case r of Inl resp \<Rightarrow> Answering resp | Inr k \<Rightarrow> Opened req k)]\<rparr>)"
| worker_read: "i < length (ss_workers s) \<Longrightarrow> ss_workers s ! i = Opened req k \<Longrightarrow> serve_read d req k (ss_node s) (ss_cache s) = (n, resp) \<Longrightarrow>
    serve_step terminal s (s\<lparr>ss_node := n, ss_workers := (ss_workers s)[i := Answering resp]\<rparr>)"
| worker_send: "i < length (ss_workers s) \<Longrightarrow> ss_workers s ! i = Answering resp \<Longrightarrow>
    Send ((bare MsgResponse)\<lparr>m_Response := Some resp\<rparr>) (ss_conn s) = (c, err) \<Longrightarrow>
    serve_step terminal s (s\<lparr>ss_conn := c, ss_sendErr := ss_sendErr s \<or> err \<noteq> None, ss_workers := take i (ss_workers s) @ drop (Suc i) (ss_workers s)\<rparr>)"
| other_session: "cache_open d now pick p (ss_cache s) = (c, r) \<Longrightarrow> serve_step terminal s (s\<lparr>ss_cache := c\<rparr>)"

section \<open>The open files\<close>

definition open_files :: "serveHandleCache \<Rightarrow> nat set" where
  "open_files c = {k. k < length (opened c) \<and> \<not> of_closed (opened c ! k)}"

definition handles_ok :: "serveHandleCache \<Rightarrow> bool" where
  "handles_ok c \<longleftrightarrow> mwf (byPath c) \<and> distinct (map (\<lambda>x. sh_f (snd x)) (byPath c)) \<and> open_files c = (\<lambda>x. sh_f (snd x)) ` set (byPath c)"

lemma handles_ok_handle: "handles_ok c \<Longrightarrow> (p, h) \<in> set (byPath c) \<Longrightarrow> sh_f h < length (opened c) \<and> \<not> of_closed (opened c ! sh_f h)"
  using image_eqI [of "sh_f h" "\<lambda>x. sh_f (snd x)" "(p, h)" "set (byPath c)"] by (simp add: handles_ok_def open_files_def set_eq_iff)

lemma handles_ok_new: "handles_ok newServeHandleCache"
  by (simp add: handles_ok_def newServeHandleCache_def open_files_def mwf_def mkeys_def)

lemma mdelete_filter: "mdelete m k = filter (\<lambda>x. fst x \<noteq> k) m"
  by (induction m) (auto simp: mdelete_def)

lemma drop_handle_simps [simp]:
  "byPath (drop_handle p h c) = mdelete (byPath c) p"
  "length (opened (drop_handle p h c)) = length (opened c)"
  "open_files (drop_handle p h c) = open_files c - {sh_f h}"
  "of_inode (opened (drop_handle p h c) ! k) = of_inode (opened c ! k)"
  by (auto simp: drop_handle_def close_file_def open_files_def nth_update split: if_splits)

lemma drop_handle_ok:
  assumes "handles_ok c" and "(p, h) \<in> set (byPath c)"
  shows "handles_ok (drop_handle p h c)"
proof -
  have d: "distinct (map (\<lambda>x. sh_f (snd x)) (byPath c))" "distinct (map fst (byPath c))" "open_files c = (\<lambda>x. sh_f (snd x)) ` set (byPath c)"
    using assms(1) by (simp_all add: handles_ok_def mwf_def mkeys_def)
  have inj: "inj_on (\<lambda>x. sh_f (snd x)) (set (byPath c))" "inj_on fst (set (byPath c))" using d(1,2) by (simp_all add: distinct_map)
  have "(fst x \<noteq> p) = (x \<noteq> (p, h))" if "x \<in> set (byPath c)" for x using inj_onD [OF inj(2), of x "(p, h)"] assms(2) that by fastforce
  then have "filter (\<lambda>x. fst x \<noteq> p) (byPath c) = filter (\<lambda>x. x \<noteq> (p, h)) (byPath c)" by (rule filter_cong [OF refl])
  then have "set (mdelete (byPath c) p) = set (byPath c) - {(p, h)}" by (simp add: mdelete_filter set_diff_eq)
  then have "(\<lambda>x. sh_f (snd x)) ` set (byPath c) - {sh_f h} = (\<lambda>x. sh_f (snd x)) ` set (mdelete (byPath c) p)"
    using inj_on_image_set_diff [OF inj(1), of "set (byPath c)" "{(p, h)}"] assms(2) by simp
  moreover have "distinct (map (\<lambda>x. sh_f (snd x)) (mdelete (byPath c) p))" using d(1) unfolding mdelete_filter distinct_map by (auto intro: inj_on_subset)
  ultimately show ?thesis using assms(1) d(3) by (simp add: handles_ok_def mwf_mdelete)
qed

text \<open>Dropping some of the handles of the map, one after the other.\<close>

lemma drop_some:
  fixes P :: "string \<Rightarrow> serveHandle \<Rightarrow> bool"
  assumes "handles_ok c" and "set xs \<subseteq> set (byPath c)" and "distinct (map fst xs)"
  defines "c' \<equiv> foldl (\<lambda>c (p, h). if P p h then drop_handle p h c else c) c xs"
  shows "handles_ok c' \<and> set (byPath c') \<subseteq> set (byPath c) \<and> length (byPath c') \<le> length (byPath c) \<and> length (opened c') = length (opened c)"
  unfolding c'_def using assms(1-3)
proof (induction xs arbitrary: c)
  case (Cons x xs)
  obtain p h where x: "x = (p, h)" by (cases x)
  let ?c = "if P p h then drop_handle p h c else c"
  have "handles_ok ?c" using drop_handle_ok Cons.prems x by simp
  moreover have "set xs \<subseteq> set (byPath ?c)" using Cons.prems x by (auto simp: mdelete_filter)
  ultimately have "let c' = foldl (\<lambda>c (p, h). if P p h then drop_handle p h c else c) ?c xs in
     handles_ok c' \<and> set (byPath c') \<subseteq> set (byPath ?c) \<and> length (byPath c') \<le> length (byPath ?c) \<and> length (opened c') = length (opened ?c)"
    using Cons.IH [of ?c] Cons.prems(3) by (simp add: Let_def)
  moreover have "length (mdelete (byPath c) p) \<le> length (byPath c)" "set (mdelete (byPath c) p) \<subseteq> set (byPath c)"
    by (auto simp: mdelete_filter)
  ultimately show ?case by (auto simp: x Let_def split: if_splits)
qed simp

lemma mwf_keys: "mwf m \<Longrightarrow> distinct (map fst m)"
  by (simp add: mwf_def mkeys_def)

lemmas drop_all = drop_some [OF _ order_refl mwf_keys]

lemma close_idle_ok:
  assumes "handles_ok c"
  shows "handles_ok (closeIdleLocked now c) \<and> length (byPath (closeIdleLocked now c)) \<le> length (byPath c)"
  unfolding closeIdleLocked_def using drop_all [OF assms, of "\<lambda>p h. sh_lastUsed h < now - serveHandleIdleTTL"] assms
  by (auto simp: handles_ok_def)

lemma forget_ok:
  assumes "handles_ok c"
  shows "handles_ok (forget_handles d all c) \<and> length (byPath (forget_handles d all c)) \<le> length (byPath c)"
  unfolding forget_handles_def using drop_all [OF assms, of "\<lambda>p h. all \<or> (case disk_Stat d p of Inl _ \<Rightarrow> True | Inr _ \<Rightarrow> False)"] assms
  by (auto simp: handles_ok_def)

lemma add_handle_ok:
  assumes "handles_ok c" and "p \<notin> set (mkeys (byPath c))"
  shows "handles_ok (c\<lparr>opened := opened c @ [\<lparr>of_inode = i, of_closed = False\<rparr>],
      byPath := mset_at (byPath c) p \<lparr>sh_f = length (opened c), sh_size = s, sh_mtime = t, sh_lastUsed = now\<rparr>\<rparr>)"
proof -
  have lt: "sh_f (snd x) < length (opened c)" if "x \<in> set (byPath c)" for x using handles_ok_handle [OF assms(1), of "fst x" "snd x"] that by simp
  have new: "mset_at (byPath c) p v = byPath c @ [(p, v)]" for v by (rule mset_at_new [OF assms(2)])
  have "open_files (c\<lparr>opened := opened c @ [\<lparr>of_inode = i, of_closed = False\<rparr>]\<rparr>) = insert (length (opened c)) (open_files c)"
    by (auto simp: open_files_def nth_append)
  then show ?thesis using assms lt unfolding handles_ok_def new by (auto simp: open_files_def mwf_def mkeys_def)
qed

lemma touch_ok:
  assumes "handles_ok c" and "mget (byPath c) p = Some h"
  shows "handles_ok (c\<lparr>byPath := mset_at (byPath c) p (h\<lparr>sh_lastUsed := now\<rparr>)\<rparr>)" and "length (mset_at (byPath c) p (h\<lparr>sh_lastUsed := now\<rparr>)) = length (byPath c)"
proof -
  have "map (\<lambda>x. sh_f (snd x)) (mset_at m p (h\<lparr>sh_lastUsed := now\<rparr>)) = map (\<lambda>x. sh_f (snd x)) m \<and> map fst (mset_at m p (h\<lparr>sh_lastUsed := now\<rparr>)) = map fst m"
    if "mget m p = Some h" for m using that by (induction m) (auto split: if_splits)
  note m = this [OF assms(2)]
  have "(\<lambda>x. sh_f (snd x)) ` set (mset_at (byPath c) p (h\<lparr>sh_lastUsed := now\<rparr>)) = (\<lambda>x. sh_f (snd x)) ` set (byPath c)"
    using arg_cong [OF conjunct1 [OF m], of set] by simp
  then show "handles_ok (c\<lparr>byPath := mset_at (byPath c) p (h\<lparr>sh_lastUsed := now\<rparr>)\<rparr>)"
    using assms(1) m by (simp add: handles_ok_def mwf_def mkeys_def open_files_def)
  show "length (mset_at (byPath c) p (h\<lparr>sh_lastUsed := now\<rparr>)) = length (byPath c)" using arg_cong [OF conjunct2 [OF m], of length] by simp
qed

lemma evict_drops:
  assumes "byPath c \<noteq> []"
  shows "\<exists>p h. (p, h) \<in> set (byPath c) \<and> evictOneLocked pick c = drop_handle p h c
    \<and> (\<forall>fs. evictOneLocked pick (c\<lparr>opened := fs\<rparr>) = drop_handle p h (c\<lparr>opened := fs\<rparr>))"
proof -
  obtain p h where ph: "byPath c ! (pick mod length (byPath c)) = (p, h)" by (cases "byPath c ! (pick mod length (byPath c))")
  have "pick mod length (byPath c) < length (byPath c)" using assms by simp
  then have "(p, h) \<in> set (byPath c)" using nth_mem ph by metis
  then show ?thesis using assms ph by (intro exI [of _ p] exI [of _ h]) (simp add: evictOneLocked_def)
qed

lemma evict_append:
  assumes "handles_ok c" and "byPath c \<noteq> []"
  shows "evictOneLocked pick (c\<lparr>opened := opened c @ [f]\<rparr>) = (evictOneLocked pick c)\<lparr>opened := opened (evictOneLocked pick c) @ [f]\<rparr>"
proof -
  obtain p h where m: "(p, h) \<in> set (byPath c)" and eq: "evictOneLocked pick c = drop_handle p h c"
    and eq': "evictOneLocked pick (c\<lparr>opened := opened c @ [f]\<rparr>) = drop_handle p h (c\<lparr>opened := opened c @ [f]\<rparr>)"
    using evict_drops [OF assms(2)] by blast
  have "sh_f h < length (opened c)" using handles_ok_handle [OF assms(1) m] by simp
  then show ?thesis by (simp add: eq eq' drop_handle_def close_file_def list_update_append1 nth_append)
qed

lemma evict_ok:
  assumes "handles_ok c" and "byPath c \<noteq> []"
  shows "handles_ok (evictOneLocked pick c)" and "length (byPath (evictOneLocked pick c)) < length (byPath c)"
    and "set (mkeys (byPath (evictOneLocked pick c))) \<subseteq> set (mkeys (byPath c))" and "length (opened (evictOneLocked pick c)) = length (opened c)"
proof -
  obtain p h where m: "(p, h) \<in> set (byPath c)" and eq: "evictOneLocked pick c = drop_handle p h c" using evict_drops [OF assms(2)] by blast
  show "handles_ok (evictOneLocked pick c)" unfolding eq by (rule drop_handle_ok [OF assms(1) m])
  show "length (byPath (evictOneLocked pick c)) < length (byPath c)" using length_filter_less [OF m, of "\<lambda>x. fst x \<noteq> p"] by (simp add: eq mdelete_filter)
  show "set (mkeys (byPath (evictOneLocked pick c))) \<subseteq> set (mkeys (byPath c))" "length (opened (evictOneLocked pick c)) = length (opened c)"
    by (auto simp: eq)
qed

definition room :: "serveHandleCache \<Rightarrow> bool" where
  "room c \<longleftrightarrow> handles_ok c \<and> length (byPath c) \<le> maxServeHandles"

lemma close_idle_keys: "handles_ok c \<Longrightarrow> set (mkeys (byPath (closeIdleLocked now c))) \<subseteq> set (mkeys (byPath c))"
  using drop_all [where c = c and P = "\<lambda>p h. sh_lastUsed h < now - serveHandleIdleTTL"] unfolding closeIdleLocked_def mkeys_def
  by (auto simp: handles_ok_def)

lemma open_new_ok:
  assumes "room c" and "p \<notin> set (mkeys (byPath c))" and "open_new d now pick p c = (c', r)"
  shows "room c'" and "r = Inr k \<Longrightarrow> disk_Open d p = Inr (of_inode (opened c' ! k)) \<and> \<not> of_closed (opened c' ! k)"
    and "r = Inl err \<Longrightarrow> disk_Open d p = Inl err \<or> (\<exists>i. dk_fstat_fault d i)"
proof -
  let ?c = "closeIdleLocked now c"
  have c: "handles_ok ?c" "length (byPath ?c) \<le> maxServeHandles" "p \<notin> set (mkeys (byPath ?c))"
    using close_idle_ok [of c now] close_idle_keys [of c now] assms(1,2) by (auto simp: room_def)
  show "r = Inl err \<Longrightarrow> disk_Open d p = Inl err \<or> (\<exists>i. dk_fstat_fault d i)" using assms(3) by (auto simp: open_new_def Let_def split: sum.splits if_splits)
  have "room c' \<and> (r = Inr k \<longrightarrow> disk_Open d p = Inr (of_inode (opened c' ! k)) \<and> \<not> of_closed (opened c' ! k))"
  proof (cases "disk_Open d p")
    case (Inl e)
    then show ?thesis using assms(3) c by (auto simp: open_new_def room_def)
  next
    case (Inr i)
    show ?thesis
    proof (cases "dk_fstat_fault d i")
      case True
      have "open_files (?c\<lparr>opened := opened ?c @ [\<lparr>of_inode = i, of_closed = True\<rparr>]\<rparr>) = open_files ?c"
        by (auto simp: open_files_def nth_append less_Suc_eq)
      then show ?thesis using True Inr assms(3) c by (auto simp: open_new_def room_def handles_ok_def Let_def)
    next
    case stat_ok: False
    let ?v = "\<lambda>c2. \<lparr>sh_f = length (opened c2), sh_size = length (in_data (dk_inode d i)), sh_mtime = in_mtime (dk_inode d i), sh_lastUsed = now\<rparr>"
    let ?full = "length (byPath ?c) \<ge> maxServeHandles"
    define c2 where "c2 = (if ?full then evictOneLocked pick ?c else ?c)"
    have ne: "byPath ?c \<noteq> []" if ?full using that by (auto simp: maxServeHandles_def)
    have c2: "handles_ok c2" "length (byPath c2) < maxServeHandles" "p \<notin> set (mkeys (byPath c2))" "length (opened c2) = length (opened ?c)"
      using evict_ok [OF c(1) ne, of pick] c by (auto simp: c2_def)
    have swap: "(if ?full then evictOneLocked pick (?c\<lparr>opened := opened ?c @ [f]\<rparr>) else ?c\<lparr>opened := opened ?c @ [f]\<rparr>) = c2\<lparr>opened := opened c2 @ [f]\<rparr>" for f
      using evict_append [OF c(1)] ne by (simp add: c2_def)
    have r: "c' = c2\<lparr>opened := opened c2 @ [\<lparr>of_inode = i, of_closed = False\<rparr>], byPath := mset_at (byPath c2) p (?v c2)\<rparr>" "r = Inr (length (opened c2))"
      using assms(3) Inr stat_ok c2(4) swap by (auto simp: open_new_def Let_def)
    show ?thesis using add_handle_ok [OF c2(1,3)] c2(2) r Inr by (auto simp: room_def mset_at_new [OF c2(3)])
    qed
  qed
  then show "room c'" "r = Inr k \<Longrightarrow> disk_Open d p = Inr (of_inode (opened c' ! k)) \<and> \<not> of_closed (opened c' ! k)" by blast+
qed

lemma cache_open_ok:
  assumes "room c" and "cache_open d now pick p c = (c', r)"
  shows "room c'" and "r = Inr k \<Longrightarrow> mget (dk_names d) p = Some (of_inode (opened c' ! k)) \<and> \<not> of_closed (opened c' ! k)"
    and "r = Inl err \<Longrightarrow> disk_Open d p = Inl err \<or> (\<exists>i. dk_fstat_fault d i)"
proof -
  have "room c' \<and> (r = Inr k \<longrightarrow> mget (dk_names d) p = Some (of_inode (opened c' ! k)) \<and> \<not> of_closed (opened c' ! k)) \<and> (r = Inl err \<longrightarrow> disk_Open d p = Inl err \<or> (\<exists>i. dk_fstat_fault d i))"
  proof -
    consider h where "mget (byPath c) p = Some h" "validLocked d p h c" | c0 where "room c0" "p \<notin> set (mkeys (byPath c0))" "open_new d now pick p c0 = (c', r)"
    proof (cases "mget (byPath c) p")
      case None
      then have "p \<notin> set (mkeys (byPath c))" by (simp add: mget_None_iff)
      then show thesis using that(2) [of c] assms None by (simp add: cache_open_def)
    next
      case (Some h)
      have m: "(p, h) \<in> set (byPath c)" by (rule mget_Some_in [OF Some])
      have "room (drop_handle p h c)" using drop_handle_ok [OF _ m] assms(1) le_trans [OF length_filter_le [of "\<lambda>x. fst x \<noteq> p" "byPath c"]]
        by (auto simp: room_def mdelete_filter)
      then show thesis using that(1) [of h] that(2) [of "drop_handle p h c"] assms(2) Some by (cases "validLocked d p h c") (simp_all add: cache_open_def)
    qed
    then show ?thesis
    proof cases
      case 1
      have m: "(p, h) \<in> set (byPath c)" by (rule mget_Some_in [OF 1(1)])
      have r: "c' = c\<lparr>byPath := mset_at (byPath c) p (h\<lparr>sh_lastUsed := now\<rparr>)\<rparr>" "r = Inr (sh_f h)" using assms(2) 1 by (simp_all add: cache_open_def)
      have "room c'" using touch_ok [OF _ 1(1), of now] assms(1) r by (simp add: room_def)
      moreover have "mget (dk_names d) p = Some (of_inode (opened c ! sh_f h))" "\<not> of_closed (opened c ! sh_f h)"
        using 1(2) by (auto simp: validLocked_def disk_Stat_def Let_def split: if_splits option.splits)
      ultimately show ?thesis using r by auto
    next
      case 2
      show ?thesis using open_new_ok [OF 2] by (auto simp: disk_Open_def split: if_splits option.splits)
    qed
  qed
  then show "room c'" "r = Inr k \<Longrightarrow> mget (dk_names d) p = Some (of_inode (opened c' ! k)) \<and> \<not> of_closed (opened c' ! k)"
    "r = Inl err \<Longrightarrow> disk_Open d p = Inl err \<or> (\<exists>i. dk_fstat_fault d i)" by blast+
qed

section \<open>A cache that cannot be observed\<close>

text \<open>What a client needs of a cached read: the states it goes through stay good, and in a good state the answer is that of the
uncached read, whatever happened to the environment since the last call.\<close>

locale transparent_cache =
  fixes read :: "'env \<Rightarrow> 'req \<Rightarrow> 'c \<Rightarrow> 'c \<times> 'r"
    and plain :: "'env \<Rightarrow> 'req \<Rightarrow> 'r"
    and good :: "'c \<Rightarrow> bool"
    and quiet :: "'env \<Rightarrow> bool"
  assumes read_good: "good c \<Longrightarrow> good (fst (read e q c))"
    and read_plain: "good c \<Longrightarrow> quiet e \<Longrightarrow> snd (read e q c) = plain e q"
begin

fun read_all :: "('env \<times> 'req) list \<Rightarrow> 'c \<Rightarrow> 'r list" where
  "read_all [] c = []"
| "read_all ((e, q) # qs) c = (case read e q c of (c', r) \<Rightarrow> r # read_all qs c')"

lemma read_all_plain: "good c \<Longrightarrow> \<forall>(e, q) \<in> set qs. quiet e \<Longrightarrow> read_all qs c = map (\<lambda>(e, q). plain e q) qs"
proof (induction qs arbitrary: c)
  case (Cons x qs)
  obtain e q where x: "x = (e, q)" by (cases x)
  obtain c' r where r: "read e q c = (c', r)" by (cases "read e q c")
  have "good c'" "r = plain e q" using read_good [OF Cons.prems(1), of e q] read_plain [OF Cons.prems(1), of e q] Cons.prems(2) r x by auto
  then show ?case using Cons.IH [of c'] Cons.prems(2) r x by simp
qed simp

end

text \<open>No path that exists fails to open.\<close>

definition calm :: "Disk \<Rightarrow> bool" where
  "calm d \<longleftrightarrow> (\<forall>p. \<not> dk_open_fault d p) \<and> (\<forall>i. \<not> dk_fstat_fault d i)"

definition calm_disk :: "Disk \<times> int \<times> nat \<Rightarrow> bool" where
  "calm_disk e = calm (fst e)"

definition cached :: "Disk \<times> int \<times> nat \<Rightarrow> string \<times> nat \<times> nat \<Rightarrow> serveHandleCache \<Rightarrow> serveHandleCache \<times> read_result" where
  "cached e q = (case (e, q) of ((d, now, pick), p, off, len) \<Rightarrow> readBlock True d now pick p off len)"

definition uncached :: "Disk \<times> int \<times> nat \<Rightarrow> string \<times> nat \<times> nat \<Rightarrow> read_result" where
  "uncached e q = (case (e, q) of ((d, now, pick), p, off, len) \<Rightarrow> snd (readBlock False d now pick p off len newServeHandleCache))"

interpretation hc: transparent_cache cached uncached room calm_disk
proof
  fix e :: "Disk \<times> int \<times> nat" and q :: "string \<times> nat \<times> nat" and c
  obtain d now pick where e: "e = (d, now, pick)" by (cases e)
  obtain p off len where q: "q = (p, off, len)" by (cases q)
  obtain c' r where r: "cache_open d now pick p c = (c', r)" by (cases "cache_open d now pick p c")
  assume "room c"
  note ok = cache_open_ok [OF this r]
  show "room (fst (cached e q c))" using ok(1) r by (cases r) (simp_all add: cached_def e q readBlock_def)
  assume "calm_disk e"
  then have "\<not> dk_open_fault d p" "\<nexists>i. dk_fstat_fault d i" by (simp_all add: calm_disk_def calm_def e)
  then show "snd (cached e q c) = uncached e q"
    using ok(2,3) r by (cases r) (auto simp: cached_def uncached_def e q readBlock_def read_handle_def disk_Open_def split: option.splits)
qed

section \<open>The open files, every state\<close>

inductive cache_reach :: "serveHandleCache \<Rightarrow> bool" where
  cache_new: "cache_reach newServeHandleCache"
| cache_opened: "cache_reach c \<Longrightarrow> cache_open d now pick p c = (c', r) \<Longrightarrow> cache_reach c'"
| cache_forgot: "cache_reach c \<Longrightarrow> cache_reach (forget_handles d all c)"

lemma cache_reach_room: "cache_reach c \<Longrightarrow> room c"
proof (induction rule: cache_reach.induct)
  case cache_new
  show ?case using handles_ok_new by (simp add: room_def newServeHandleCache_def)
next
  case (cache_opened c d now pick p c' r)
  then show ?case using cache_open_ok(1) by blast
next
  case (cache_forgot c d all)
  then show ?case using forget_ok [of c d all] by (simp add: room_def)
qed

text \<open>The serving side holds at most 32 files open, and exactly those in its map: no file it has opened stays open outside
of it, whatever is opened, renamed, rewritten or deleted in between.\<close>

theorem open_files_bounded:
  assumes "cache_reach c"
  shows "card (open_files c) = length (byPath c) \<and> length (byPath c) \<le> 32 \<and> open_files c = (\<lambda>x. sh_f (snd x)) ` set (byPath c)"
proof -
  have r: "handles_ok c" "length (byPath c) \<le> 32" using cache_reach_room [OF assms] by (simp_all add: room_def maxServeHandles_def)
  then have "open_files c = set (map (\<lambda>x. sh_f (snd x)) (byPath c))" "distinct (map (\<lambda>x. sh_f (snd x)) (byPath c))"
    by (simp_all add: handles_ok_def)
  then have "card (open_files c) = length (map (\<lambda>x. sh_f (snd x)) (byPath c))" by (metis distinct_card)
  then show ?thesis using r by (simp add: handles_ok_def)
qed

definition demo_disk :: Disk where
  "demo_disk = \<lparr>dk_names = [(''/r/f'', 0)], dk_inode = (\<lambda>_. \<lparr>in_data = [7], in_mtime = 5, in_dir = False\<rparr>),
     dk_stat_fault = (\<lambda>_. False), dk_open_fault = (\<lambda>_. False), dk_fstat_fault = (\<lambda>_. False), dk_read_fault = (\<lambda>_. False)\<rparr>"

theorem open_files_bounded_witness:
  "\<exists>c. cache_reach c \<and> byPath c = [(''/r/f'', \<lparr>sh_f = 0, sh_size = 1, sh_mtime = 5, sh_lastUsed = 9\<rparr>)] \<and> card (open_files c) = 1"
proof -
  let ?c = "fst (cache_open demo_disk 9 0 ''/r/f'' newServeHandleCache)"
  have "cache_reach ?c" by (rule cache_opened [OF cache_new]) (rule prod.collapse [symmetric])
  moreover have "byPath ?c = [(''/r/f'', \<lparr>sh_f = 0, sh_size = 1, sh_mtime = 5, sh_lastUsed = 9\<rparr>)]"
    by (simp add: cache_open_def open_new_def newServeHandleCache_def closeIdleLocked_def disk_Open_def demo_disk_def maxServeHandles_def Let_def)
  ultimately show ?thesis using open_files_bounded [of ?c] by (intro exI [of _ ?c]) simp
qed

fun reads :: "bool \<Rightarrow> ((Disk \<times> int \<times> nat) \<times> string \<times> nat \<times> nat) list \<Rightarrow> serveHandleCache \<Rightarrow> read_result list" where
  "reads enabled [] c = []"
| "reads enabled (((d, now, pick), p, off, len) # qs) c = (case readBlock enabled d now pick p off len c of (c', r) \<Rightarrow> r # reads enabled qs c')"

lemma reads_cached: "reads True qs c = hc.read_all qs c"
  by (induction "True" qs c rule: reads.induct) (auto simp: cached_def split: prod.split)

lemma reads_plain: "reads False qs c = map (\<lambda>(e, q). uncached e q) qs"
  by (induction "False" qs c rule: reads.induct) (simp_all add: uncached_def readBlock_def)



section \<open>Every request is answered once\<close>

definition request_ids :: "Message list \<Rightarrow> uint64 list" where
  "request_ids ms = map rq_ID (List.map_filter m_Request (filter (\<lambda>m. m_Type m = MsgRequest) ms))"

definition response_ids :: "Message list \<Rightarrow> uint64 list" where
  "response_ids ms = map rs_ID (List.map_filter m_Response (filter (\<lambda>m. m_Type m = MsgResponse) ms))"

lemma request_ids_Cons [simp]:
  "request_ids (m # ms) = (if m_Type m = MsgRequest then (case m_Request m of None \<Rightarrow> [] | Some req \<Rightarrow> [rq_ID req]) else []) @ request_ids ms"
  by (simp add: request_ids_def map_filter_def split: option.split)

lemma serve_open_id: "serve_open d now pick req n c = (c', Inl resp) \<Longrightarrow> rs_ID resp = rq_ID req"
  by (auto simp: serve_open_def resp_code_def split: option.splits if_splits prod.splits sum.splits go_error.splits)

lemma serve_read_id: "serve_read d req k n c = (n', resp) \<Longrightarrow> rs_ID resp = rq_ID req"
  by (auto simp: serve_read_def resp_code_def Let_def split: option.splits read_result.splits go_error.splits)

text \<open>What was asked and what is still in a worker or has been sent.\<close>

definition owed :: "serveState \<Rightarrow> uint64 multiset" where
  "owed s = mset (request_ids (cn_in (ss_conn s))) + mset (map worker_id (ss_workers s)) + mset (response_ids (cn_out (ss_conn s)))"

lemma mset_worker_same: "i < length ws \<Longrightarrow> worker_id w = worker_id (ws ! i) \<Longrightarrow> mset (map worker_id (ws[i := w])) = mset (map worker_id ws)"
  by (metis list_update_id map_update)

lemma mset_drop_worker:
  assumes "i < length ws"
  shows "mset (map worker_id ws) = add_mset (worker_id (ws ! i)) (mset (map worker_id (take i ws @ drop (Suc i) ws)))"
proof -
  have "map worker_id ws = map worker_id (take i ws @ ws ! i # drop (Suc i) ws)" using id_take_nth_drop [OF assms] by simp
  then show ?thesis by (simp only: map_append list.map mset_append mset.simps) simp
qed

lemma serve_step_owed:
  assumes "serve_step terminal s s'" and "\<not> ss_sendErr s'"
  shows "owed s' = owed s \<and> \<not> ss_sendErr s"
  using assms
proof (induction rule: serve_step.induct)
  case (worker_open i s req d now pick c r)
  then show ?case using mset_worker_same [of i "ss_workers s" "case r of Inl resp \<Rightarrow> Answering resp | Inr k \<Rightarrow> Opened req k"]
    by (auto simp: owed_def serve_open_id split: sum.split)
next
  case (worker_read i s req k d n resp)
  then show ?case using mset_worker_same [of i "ss_workers s" "Answering resp"] by (auto simp: owed_def serve_read_id)
next
  case (worker_send i s resp c err)
  then have "err = None" by simp
  then have c: "c = (ss_conn s)\<lparr>cn_out := cn_out (ss_conn s) @ [(bare MsgResponse)\<lparr>m_Response := Some resp\<rparr>], cn_left := cn_left (ss_conn s) - 1\<rparr>"
    using worker_send by (auto simp: Send_def split: if_splits)
  have "response_ids (cn_out c) = response_ids (cn_out (ss_conn s)) @ [rs_ID resp]"
    by (simp add: c response_ids_def bare_def map_filter_def)
  then show ?case using mset_drop_worker [OF worker_send(1)] worker_send c by (simp add: owed_def)
qed (auto simp: owed_def)

lemma serve_step_slots:
  assumes "serve_step terminal s s'" and "length (ss_workers s) \<le> serveWorkers"
  shows "length (ss_workers s') \<le> serveWorkers"
  using assms by (induction rule: serve_step.induct) auto

text \<open>C12. Every request is answered exactly once: when a serving phase that sent no response in vain has received everything and
its workers are done, the identifiers of the responses are those of the requests with their multiplicity, in whatever order the
workers ran; at no moment are more than four requests being answered.\<close>

theorem every_request_answered_once:
  assumes "(serve_step terminal)\<^sup>*\<^sup>* s s'" and "ss_workers s = []" and "cn_out (ss_conn s) = []" and "\<not> ss_sendErr s'"
  shows "length (ss_workers s') \<le> serveWorkers \<and> (cn_in (ss_conn s') = [] \<and> ss_workers s' = [] \<longrightarrow>
    mset (response_ids (cn_out (ss_conn s'))) = mset (request_ids (cn_in (ss_conn s))))"
proof -
  have "owed s' = owed s \<and> length (ss_workers s') \<le> serveWorkers" using assms(1,4)
  proof (induction rule: rtranclp_induct)
    case base
    then show ?case using assms(2) by simp
  next
    case (step y z)
    then show ?case using serve_step_owed [OF step(2)] serve_step_slots [OF step(2)] by auto
  qed
  then show ?thesis using assms(2,3) by (auto simp: owed_def request_ids_def response_ids_def map_filter_def)
qed

theorem every_request_answered_once_witness:
  "\<exists>s'. (serve_step MsgClose)\<^sup>*\<^sup>* \<lparr>ss_node = pb_node demo_batch, ss_cache = newServeHandleCache,
       ss_conn = \<lparr>cn_PeerID = 7, cn_PeerName = ''p'', cn_PeerSession = ''s'', cn_PeerProtocol = 2, cn_in = [request_of demo_batch 4 ''f'' demo_run], cn_out = [], cn_left = 9\<rparr>,
       ss_workers = [], ss_sendErr = False, ss_over = False\<rparr> s'
     \<and> mset (response_ids (cn_out (ss_conn s'))) = {#4#}"
proof -
  let ?m = "request_of demo_batch 4 ''f'' demo_run" and ?req = "\<lparr>rq_ID = 4, rq_Folder = ''d'', rq_Name = ''f'', rq_Offset = 0, rq_Size = 1\<rparr>"
  let ?c0 = "\<lparr>cn_PeerID = 7, cn_PeerName = ''p'', cn_PeerSession = ''s'', cn_PeerProtocol = 2, cn_in = [?m], cn_out = [], cn_left = 9\<rparr>"
  let ?s0 = "\<lparr>ss_node = pb_node demo_batch, ss_cache = newServeHandleCache, ss_conn = ?c0, ss_workers = [], ss_sendErr = False, ss_over = False\<rparr>"
  have m: "m_Type ?m = MsgRequest" "m_Request ?m = Some ?req"
    by (simp_all add: request_of_def bare_def demo_batch_def new_batch_def demo_run_def run_of_def)
  define s1 where "s1 = ?s0\<lparr>ss_conn := ?c0\<lparr>cn_in := []\<rparr>, ss_workers := [Started ?req]\<rparr>"
  have step1: "serve_step MsgClose ?s0 s1" using recv_request [of ?s0 ?m "[]" ?req MsgClose] m by (simp add: s1_def serveWorkers_def)
  obtain c1 r where o: "serve_open demo_disk 1 0 ?req (ss_node s1) (ss_cache s1) = (c1, r)" by (cases "serve_open demo_disk 1 0 ?req (ss_node s1) (ss_cache s1)")
  define s2 where "s2 = s1\<lparr>ss_cache := c1, ss_workers := [case r of Inl resp \<Rightarrow> Answering resp | Inr k \<Rightarrow> Opened ?req k]\<rparr>"
  have step2: "serve_step MsgClose s1 s2" using worker_open [of 0 s1 ?req, OF _ _ o] by (simp add: s1_def s2_def)
  have "\<exists>s3 resp. (serve_step MsgClose)\<^sup>*\<^sup>* s2 s3 \<and> s3 = s2\<lparr>ss_node := ss_node s3, ss_workers := [Answering resp]\<rparr>"
  proof (cases r)
    case (Inl resp)
    then show ?thesis by (intro exI [of _ s2] exI [of _ resp]) (simp add: s2_def)
  next
    case (Inr k)
    obtain n resp where "serve_read demo_disk ?req k (ss_node s2) (ss_cache s2) = (n, resp)" by (cases "serve_read demo_disk ?req k (ss_node s2) (ss_cache s2)")
    from worker_read [of 0 s2 ?req k, OF _ _ this, of MsgClose] Inr show ?thesis
      by (intro exI [of _ "s2\<lparr>ss_node := n, ss_workers := [Answering resp]\<rparr>"] exI [of _ resp]) (simp add: s2_def)
  qed
  then obtain s3 resp where s3: "(serve_step MsgClose)\<^sup>*\<^sup>* s2 s3" "s3 = s2\<lparr>ss_node := ss_node s3, ss_workers := [Answering resp]\<rparr>" by blast
  have w: "ss_workers s3 = [Answering resp]" "ss_conn s3 = ?c0\<lparr>cn_in := []\<rparr>" "ss_sendErr s3 = False"
    by (subst s3(2), simp add: s2_def s1_def)+
  obtain c4 err where c4: "Send ((bare MsgResponse)\<lparr>m_Response := Some resp\<rparr>) (ss_conn s3) = (c4, err)" by (cases "Send ((bare MsgResponse)\<lparr>m_Response := Some resp\<rparr>) (ss_conn s3)")
  then have err: "err = None" "cn_in c4 = []" by (auto simp: w(2) Send_def)
  let ?s4 = "s3\<lparr>ss_conn := c4, ss_sendErr := ss_sendErr s3 \<or> err \<noteq> None, ss_workers := take 0 (ss_workers s3) @ drop (Suc 0) (ss_workers s3)\<rparr>"
  have "serve_step MsgClose s3 ?s4" using worker_send [of 0 s3 resp, OF _ _ c4] w(1) by simp
  then have run: "(serve_step MsgClose)\<^sup>*\<^sup>* ?s0 ?s4" using step1 step2 s3(1) by (meson converse_rtranclp_into_rtranclp rtranclp.rtrancl_into_rtrancl)
  have fin: "mset (response_ids (cn_out (ss_conn ?s4))) = mset (request_ids (cn_in (ss_conn ?s0)))"
    using every_request_answered_once [OF run] w err by simp
  have ids: "request_ids (cn_in (ss_conn ?s0)) = [4]" using m by (simp add: request_ids_def [of "[]"] map_filter_def)
  have "mset (response_ids (cn_out (ss_conn ?s4))) = {#4#}" unfolding fin ids by simp
  then show ?thesis using run by (intro exI [of _ ?s4] conjI)
qed

section \<open>What is served\<close>

text \<open>The block a request is about, as the folder stands.\<close>

definition requested_block :: "Disk \<Rightarrow> Node \<Rightarrow> Request \<Rightarrow> byte list option" where
  "requested_block d n req =
     (case mget (nd_Folders n) (rq_Folder req) of
        None \<Rightarrow> None
      | Some f \<Rightarrow>
          if TransfersPaused f \<or> InFlight (fo_Engine f) (rq_Name req) \<or> rq_Size req \<le> 0 \<or> rq_Size req > MaxBlockSize \<or> rq_Offset req < 0 then None
          else (case mget (dk_names d) (filepath_Join (fo_Root f) (rq_Name req)) of
              None \<Rightarrow> None
            | Some i \<Rightarrow>
                if in_dir (dk_inode d i) \<or> dk_read_fault d i \<or> rq_Offset req + rq_Size req > int (length (in_data (dk_inode d i))) then None
                else Some (take (nat (rq_Size req)) (drop (nat (rq_Offset req)) (in_data (dk_inode d i))))))"

lemma readBlock_plain:
  assumes "cache_reach c" and "calm d" and "readBlock True d now pick p off len c = (c', r)"
  shows "r = (case mget (dk_names d) p of None \<Rightarrow> ReadFailed NotExist | Some i \<Rightarrow> ReadAt d i off len)"
proof -
  obtain c1 k where k: "cache_open d now pick p c = (c1, k)" by (cases "cache_open d now pick p c")
  note ok = cache_open_ok [OF cache_reach_room [OF assms(1)] k]
  show ?thesis using ok(2,3) k assms(2,3) by (cases k) (auto simp: readBlock_def read_handle_def disk_Open_def calm_def split: option.splits)
qed

lemma ReadAt_slice:
  assumes "0 < sz" and "0 \<le> off"
  shows "ReadAt d i (nat off) (nat sz) =
    (if dk_read_fault d i \<or> in_dir (dk_inode d i) then ReadFailed IOError
     else if off + sz > int (length (in_data (dk_inode d i))) then ReadEOF (take (nat sz) (drop (nat off) (in_data (dk_inode d i))))
     else Read (take (nat sz) (drop (nat off) (in_data (dk_inode d i)))))"
  using assms by (auto simp: ReadAt_def Let_def)

text \<open>A request is answered with exactly the bytes it asks for, as they are on disk at the moment of the read, when the folder is shared
and not paused, the file is not still being written and all the bytes are there; in every other case the answer carries an error code
and no data. No answer is longer than the largest block.\<close>

lemma served_block:
  assumes "cache_reach c" and "calm d" and "serveBlock True d now pick (Some req) n c = (n', c', r)"
  shows "\<exists>resp. r = Inr resp \<and> rs_ID resp = rq_ID req \<and>
    (case requested_block d n req of
       None \<Rightarrow> rs_Code resp \<noteq> RespNoError \<and> rs_Data resp = []
     | Some buf \<Rightarrow> rs_Code resp = RespNoError \<and> rs_Data resp = buf \<and> int (length buf) = rq_Size req \<and> rq_Size req \<le> MaxBlockSize)"
proof (cases "mget (nd_Folders n) (rq_Folder req)")
  case None
  then show ?thesis using assms(3) by (auto simp: serveBlock_def requested_block_def resp_code_def)
next
  case (Some f)
  let ?p = "filepath_Join (fo_Root f) (rq_Name req)"
  obtain c1 rr where rb: "readBlock True d now pick ?p (nat (rq_Offset req)) (nat (rq_Size req)) c = (c1, rr)"
    by (cases "readBlock True d now pick ?p (nat (rq_Offset req)) (nat (rq_Size req)) c")
  note rr = readBlock_plain [OF assms(1,2) rb]
  show ?thesis
  proof (cases "TransfersPaused f \<or> InFlight (fo_Engine f) (rq_Name req) \<or> rq_Size req \<le> 0 \<or> rq_Size req > MaxBlockSize \<or> rq_Offset req < 0")
    case True
    then show ?thesis using assms(3) Some by (auto simp: serveBlock_def requested_block_def resp_code_def split: if_splits)
  next
    case ok: False
    then have pos: "0 < rq_Size req" "0 \<le> rq_Offset req" by simp_all
    have sb: "serveBlock True d now pick (Some req) n c =
       (case rr of ReadFailed NotExist \<Rightarrow> (n, c1, Inr (resp_code req RespNoSuchFile)) | ReadFailed _ \<Rightarrow> (n, c1, Inr (resp_code req RespGeneric))
         | ReadEOF _ \<Rightarrow> (n, c1, Inr (resp_code req RespNoSuchFile))
         | Read buf \<Rightarrow> (let e = fo_Engine f; e1 = e\<lparr>Stats := (Stats e)\<lparr>BytesUp := int64 (BytesUp (Stats e) + int (length buf))\<rparr>\<rparr> in
                         (set_engine (rq_Folder req) e1 n, c1, Inr \<lparr>rs_ID = rq_ID req, rs_Data = buf, rs_Code = RespNoError\<rparr>)))"
      using ok Some rb by (simp add: serveBlock_def Let_def split: read_result.split go_error.split)
    show ?thesis
    proof (cases "mget (dk_names d) ?p")
      case None
      then show ?thesis using sb rr assms(3) Some by (simp add: requested_block_def resp_code_def)
    next
      case names: (Some i)
      then have rr': "rr = ReadAt d i (nat (rq_Offset req)) (nat (rq_Size req))" using rr by simp
      show ?thesis using sb assms(3) Some names ok
        unfolding rr' ReadAt_slice [OF pos] by (auto simp: requested_block_def resp_code_def Let_def split: if_splits)
    qed
  qed
qed

text \<open>The name of a request is joined to the folder's root as it comes, so a request may name any file of the machine.\<close>

theorem request_leaves_folder:
  "requested_block (demo_disk\<lparr>dk_names := [(''/etc/shadow'', 0)]\<rparr>) (pb_node demo_batch)
     \<lparr>rq_ID = 4, rq_Folder = ''d'', rq_Name = ''../etc/shadow'', rq_Offset = 0, rq_Size = 1\<rparr> = Some [7]"
proof -
  have j: "filepath_Join ''/r'' ''../etc/shadow'' = ''/etc/shadow''" by code_simp
  have fl: "\<not> InFlight pull_engine ''../etc/shadow''" by (simp add: InFlight_def pull_engine_def fresh_engine_def New_Engine_def)
  show ?thesis by (simp add: requested_block_def demo_batch_def new_batch_def TransfersPaused_def fl j MaxBlockSize_def demo_disk_def)
qed

text \<open>A read happens after the lock is released. When the map is full, a request of another session for a new file may close the
file this read is about to use, and a block that is on disk is refused.\<close>

theorem eviction_closes_file_in_use:
  assumes "cache_reach c" and "(p, h) \<in> set (byPath c)" and "length (byPath c) = 32" and "\<forall>(_, g) \<in> set (byPath c). now - serveHandleIdleTTL \<le> sh_lastUsed g"
    and "q \<notin> set (mkeys (byPath c))" and "disk_Open d q = Inr i" and "\<not> dk_fstat_fault d i"
  shows "\<exists>pick. read_handle d (fst (cache_open d now pick q c)) (sh_f h) off len = ReadFailed (Err ''file already closed'')"
proof -
  have ok: "handles_ok c" using cache_reach_room [OF assms(1)] by (simp add: room_def)
  obtain pick where pick: "pick < length (byPath c)" "byPath c ! pick = (p, h)" using assms(2) by (meson in_set_conv_nth)
  have lt: "sh_f h < length (opened c)" using handles_ok_handle [OF ok assms(2)] by simp
  have idle: "closeIdleLocked now c = c"
  proof -
    have "foldl (\<lambda>c (path, h). if sh_lastUsed h < now - serveHandleIdleTTL then drop_handle path h c else c) c xs = c" if "set xs \<subseteq> set (byPath c)" for xs
      using that assms(4) by (induction xs) (auto split: prod.split)
    then show ?thesis by (simp add: closeIdleLocked_def)
  qed
  let ?c1 = "c\<lparr>opened := opened c @ [\<lparr>of_inode = i, of_closed = False\<rparr>]\<rparr>"
  have ev: "evictOneLocked pick ?c1 = drop_handle p h ?c1" using pick by (auto simp: evictOneLocked_def)
  have "of_closed (opened (drop_handle p h ?c1) ! sh_f h)" using lt by (simp add: drop_handle_def close_file_def)
  then have "of_closed (opened (fst (cache_open d now pick q c)) ! sh_f h)"
    using assms(3,5-7) ev by (simp add: cache_open_def mget_None_iff [symmetric] open_new_def idle maxServeHandles_def Let_def)
  then show ?thesis by (auto simp: read_handle_def)
qed

section \<open>What is served is accepted\<close>

text \<open>The content an entry describes.\<close>

definition describes :: "FileInfo \<Rightarrow> byte list \<Rightarrow> bool" where
  "describes info data \<longleftrightarrow> geometry info \<and> int (length data) = Size info \<and> (\<forall>k < length (Blocks info). HashBytes (blk info k data) = Blocks info ! k)"

definition span :: "FileInfo \<Rightarrow> nat \<Rightarrow> nat \<Rightarrow> nat" where
  "span info i n = sum_list (map (\<lambda>k. nat (blockSizeAt info k)) [i..<i + n])"

lemma span_Suc: "span info i (Suc n) = nat (blockSizeAt info i) + span info (Suc i) n"
  unfolding span_def by (subst upt_conv_Cons) simp_all

lemma check_run_slice:
  assumes "describes info data"
  shows "i + n \<le> length (Blocks info) \<Longrightarrow> 0 < n \<Longrightarrow> i * nat (BlockSize info) + span info i n \<le> length data
    \<and> check_run info (take (span info i n) (drop (i * nat (BlockSize info)) data)) i = Inr (i + n)"
proof (induction n arbitrary: i)
  case (Suc n)
  have g: "geometry info" and len: "length data = nat (Size info)" using assms by (auto simp: describes_def)
  have i: "i < length (Blocks info)" using Suc.prems by simp
  let ?bs = "nat (BlockSize info)" and ?a = "nat (blockSizeAt info i)" and ?rest = "drop (i * nat (BlockSize info)) data"
  note go = geometry_offset [OF g i]
  have hash: "HashBytes (take ?a ?rest) = Blocks info ! i" using assms i by (simp add: describes_def blk_def)
  have fit: "?a \<le> length ?rest" "0 < ?a" using go(4,5) len by simp_all
  have next_block: "i * ?bs + ?a = Suc i * ?bs" if "0 < n"
  proof -
    have "int (Suc i) * BlockSize info < Size info" using geometry_block [OF g, of "Suc i"] Suc.prems that by simp
    then have "blockSizeAt info i = BlockSize info" unfolding go(3) by (simp add: algebra_simps)
    then show ?thesis by (simp add: algebra_simps)
  qed
  have tl: "i * ?bs + span info i (Suc n) \<le> length data \<and> check_run info (take (span info (Suc i) n) (drop ?a ?rest)) (Suc i) = Inr (Suc i + n)"
  proof (cases "n = 0")
    case True
    then show ?thesis using fit by (simp add: span_Suc span_def [of _ _ 0] check_run.simps [of _ "[]"])
  next
    case False
    then have "drop ?a ?rest = drop (Suc i * ?bs) data" using next_block by (simp add: add.commute)
    then show ?thesis using Suc.IH [of "Suc i"] Suc.prems False next_block by (simp add: span_Suc)
  qed
  have "take (span info i (Suc n)) ?rest = take ?a ?rest @ take (span info (Suc i) n) (drop ?a ?rest)" by (simp add: span_Suc take_add)
  moreover have "check_run info (take ?a ?rest @ xs) i = check_run info xs (Suc i)" for xs
    using fit hash i by (subst check_run.simps) (auto simp: Let_def)
  ultimately show ?case using tl by simp
qed simp

lemma plan_run_ok:
  assumes "run \<in> set (planPulls needs maxRun)"
  shows "run_ok (if maxRun \<le> 0 then MaxBlockSize else maxRun) run" and "set (pr_needs run) \<subseteq> set needs"
proof -
  obtain need rest where n: "needs = need # rest" using assms by (cases needs) (simp_all add: planPulls_def)
  note c = coalesce_exact [OF run_ok_single, of "if maxRun \<le> 0 then MaxBlockSize else maxRun" need rest]
  show "run_ok (if maxRun \<le> 0 then MaxBlockSize else maxRun) run" using c assms by (simp add: n planPulls_def)
  have "set (concat (map pr_needs (planPulls needs maxRun))) = set needs" using c by (simp add: n planPulls_def) (simp add: run_of_def)
  then show "set (pr_needs run) \<subseteq> set needs" using assms by auto
qed

lemma int_sum_map: "int (sum_list (map f xs)) = sum_list (map (\<lambda>j. int (f j)) xs)"
  by (induction xs) simp_all

lemma planned_run:
  assumes "geometry (pl_info p)" and "run \<in> set (planPulls (NeedBlocks p) maxRun)" and "BlockSize (pl_info p) \<le> MaxBlockSize"
  defines "i \<equiv> bn_Index (hd (pr_needs run))" and "k \<equiv> length (pr_needs run)"
  shows "0 < k" and "i + k \<le> length (Blocks (pl_info p))" and "pr_offset run = int (i * nat (BlockSize (pl_info p)))"
    and "pr_size run = int (span (pl_info p) i k)" and "0 < pr_size run" and "pr_size run \<le> MaxBlockSize"
proof -
  let ?info = "pl_info p"
  note r = plan_run_ok [OF assms(2)]
  have ne: "pr_needs run \<noteq> []" and idx: "map bn_Index (pr_needs run) = [i..<i + k]" using r(1) by (simp_all add: run_ok_def i_def k_def)
  show "0 < k" using ne by (simp add: k_def)
  have need: "bn_Index x < length (Blocks ?info) \<and> bn_Offset x = int64 (int (bn_Index x) * BlockSize ?info) \<and> bn_Size x = blockSizeAt ?info (bn_Index x)"
    if "x \<in> set (pr_needs run)" for x using r(2) that by (auto simp: NeedBlocks_def)
  have "i + k - 1 \<in> set (map bn_Index (pr_needs run))" using \<open>0 < k\<close> unfolding idx by simp
  then have "i + k - 1 < length (Blocks ?info)" using need by auto
  then show ik: "i + k \<le> length (Blocks ?info)" using \<open>0 < k\<close> by simp
  have i: "i < length (Blocks ?info)" using ik \<open>0 < k\<close> by simp
  have "pr_offset run = bn_Offset (hd (pr_needs run))" using r(1) by (simp add: run_ok_def)
  also have "\<dots> = int64 (int i * BlockSize ?info)" using need [of "hd (pr_needs run)"] ne by (simp add: i_def)
  also have "\<dots> = int (i * nat (BlockSize ?info))" using geometry_offset(1) [OF assms(1) i] assms(1) by (simp add: geometry_def)
  finally show "pr_offset run = int (i * nat (BlockSize ?info))" .
  have pos: "0 < blockSizeAt ?info j" if "j \<in> set [i..<i + k]" for j using geometry_offset(4) [OF assms(1)] that ik by simp
  have "map bn_Size (pr_needs run) = map (\<lambda>x. blockSizeAt ?info (bn_Index x)) (pr_needs run)" using need by simp
  also have "\<dots> = map (blockSizeAt ?info) [i..<i + k]" unfolding idx [symmetric] by simp
  also have "\<dots> = map (\<lambda>j. int (nat (blockSizeAt ?info j))) [i..<i + k]" using pos by (intro map_cong refl) fastforce
  finally have "sum_list (map bn_Size (pr_needs run)) = int (span ?info i k)" unfolding span_def int_sum_map by (simp only:)
  then show sz: "pr_size run = int (span ?info i k)" using r(1) by (simp add: run_ok_def)
  have sp: "nat (blockSizeAt ?info i) \<le> span ?info i k" using \<open>0 < k\<close> span_Suc [of ?info i "k - 1"] by simp
  then show "0 < pr_size run" using sz geometry_offset(4) [OF assms(1) i] by simp
  show "pr_size run \<le> MaxBlockSize"
  proof (cases "k = 1")
    case True
    then have "pr_size run = blockSizeAt ?info i" using sz geometry_offset(4) [OF assms(1) i] by (simp add: span_def)
    then show ?thesis using geometry_offset(3) [OF assms(1) i] assms(3) by simp
  next
    case False
    then show ?thesis using r(1) by (simp add: run_ok_def k_def)
  qed
qed

text \<open>C10. The two sides of a transfer fit together: whatever run the puller plans for the blocks it misses, a server that holds the content the
entry describes, and is neither paused nor still settling the file, answers the request with data that the puller accepts: the answer
has the expected length and every block passes the hash check, so that receiving it can fail only in writing the temporary file.\<close>

theorem served_run_accepted:
  assumes "cache_reach c" and "calm d"
    and "run \<in> set (planPulls (NeedBlocks p) maxRun)" and "BlockSize (pl_info p) \<le> MaxBlockSize"
    and "mget (nd_Folders n) (pb_folder b) = Some f" and "\<not> TransfersPaused f" and "\<not> InFlight (fo_Engine f) name"
    and "mget (dk_names d) (filepath_Join (fo_Root f) name) = Some i" and "\<not> in_dir (dk_inode d i)" and "\<not> dk_read_fault d i"
    and "describes (pl_info p) (in_data (dk_inode d i))"
    and "serveBlock True d now pick (m_Request (request_of b rid name run)) n c = (n', c', r)"
  shows "\<exists>resp. r = Inr resp \<and> rs_Code resp = RespNoError \<and> rs_ID resp = rid \<and> int (length (rs_Data resp)) = pr_size run
    \<and> (\<forall>e. snd (snd (ReceiveBlocks e p (int (bn_Index (hd (pr_needs run)))) (rs_Data resp))) = snd (write_temp e (pl_tmp p) (rs_Data resp) (pr_offset run)))"
proof -
  let ?info = "pl_info p" and ?data = "in_data (dk_inode d i)" and ?i = "bn_Index (hd (pr_needs run))" and ?k = "length (pr_needs run)"
  let ?req = "\<lparr>rq_ID = rid, rq_Folder = pb_folder b, rq_Name = name, rq_Offset = pr_offset run, rq_Size = pr_size run\<rparr>"
  have g: "geometry ?info" using assms(11) by (simp add: describes_def)
  note pr = planned_run [OF g assms(3,4)]
  note sl = check_run_slice [OF assms(11) pr(2,1)]
  have i: "?i < length (Blocks ?info)" using pr(1,2) by linarith
  have fit: "pr_offset run + pr_size run \<le> int (length ?data)" "0 \<le> pr_offset run" unfolding pr(3,4) using sl by linarith+
  let ?buf = "take (span ?info ?i ?k) (drop (?i * nat (BlockSize ?info)) ?data)"
  have as_nat: "nat (pr_offset run) = ?i * nat (BlockSize ?info)" "nat (pr_size run) = span ?info ?i ?k" unfolding pr(3,4) by (simp_all only: nat_int)
  have "requested_block d n ?req = Some ?buf"
    using assms(5-10) pr(5,6) fit by (simp add: requested_block_def as_nat)
  moreover have "m_Request (request_of b rid name run) = Some ?req" by (simp add: request_of_def)
  ultimately obtain resp where r: "r = Inr resp" "rs_ID resp = rid" "rs_Code resp = RespNoError" "rs_Data resp = ?buf" "int (length ?buf) = pr_size run"
    using served_block [OF assms(1,2), of now pick ?req n n' c' r] assms(12) by auto
  have "snd (snd (ReceiveBlocks e p (int ?i) (rs_Data resp))) = snd (write_temp e (pl_tmp p) (rs_Data resp) (pr_offset run))" for e
    using sl i geometry_offset(1,2) [OF g i] pr(3) g unfolding r(4)
    by (auto simp: ReceiveBlocks_def geometry_def split: prod.split option.split)
  then show ?thesis using r by auto
qed

theorem served_run_accepted_witness:
  "\<exists>n' c' resp. serveBlock True demo_disk 1 0 (m_Request (request_of demo_batch 4 ''f'' demo_run)) (pb_node demo_batch) newServeHandleCache = (n', c', Inr resp)
     \<and> rs_Code resp = RespNoError \<and> length (rs_Data resp) = 1
     \<and> snd (snd (ReceiveBlocks started (new_pull ''f'' one_block part_path [False] 7) 0 (rs_Data resp))) = snd (write_temp started part_path (rs_Data resp) 0)"
proof -
  let ?p = "new_pull ''f'' one_block part_path [False] 7"
  obtain n' c' r where s: "serveBlock True demo_disk 1 0 (m_Request (request_of demo_batch 4 ''f'' demo_run)) (pb_node demo_batch) newServeHandleCache = (n', c', r)"
    by (cases "serveBlock True demo_disk 1 0 (m_Request (request_of demo_batch 4 ''f'' demo_run)) (pb_node demo_batch) newServeHandleCache")
  let ?f = "\<lparr>fo_Cfg = \<lparr>fc_Peers = [], fc_MaxDeletePct = 0, fc_MaxDeleteFiles = 0\<rparr>, fo_Root = ''/r'', fo_Paused = False, fo_TransfersPaused = False, fo_Engine = pull_engine\<rparr>"
  have no_fault: "calm demo_disk" by (simp add: demo_disk_def calm_def)
  have run: "demo_run \<in> set (planPulls (NeedBlocks ?p) 0)"
    by (simp add: NeedBlocks_def one_block_geometry int64_id planPulls_def demo_run_def)
  have small: "BlockSize (pl_info ?p) \<le> MaxBlockSize" by (simp add: MaxBlockSize_def)
  have f: "mget (nd_Folders (pb_node demo_batch)) (pb_folder demo_batch) = Some ?f" by (simp add: demo_batch_def new_batch_def)
  have on: "\<not> TransfersPaused ?f" "\<not> InFlight (fo_Engine ?f) ''f''" by (simp_all add: TransfersPaused_def InFlight_def pull_engine_def fresh_engine_def New_Engine_def)
  have "filepath_Join ''/r'' ''f'' = ''/r/f''" by code_simp
  then have disk: "mget (dk_names demo_disk) (filepath_Join (fo_Root ?f) ''f'') = Some 0" "\<not> in_dir (dk_inode demo_disk 0)" "\<not> dk_read_fault demo_disk 0"
    by (simp_all add: demo_disk_def)
  have desc: "describes (pl_info ?p) (in_data (dk_inode demo_disk 0))" by (simp add: describes_def one_block_geometry demo_disk_def blk_def)
  from served_run_accepted [OF cache_new no_fault run small f on disk desc s]
  obtain resp where "r = Inr resp" "rs_Code resp = RespNoError" "int (length (rs_Data resp)) = pr_size demo_run"
    "snd (snd (ReceiveBlocks started ?p (int (bn_Index (hd (pr_needs demo_run)))) (rs_Data resp))) = snd (write_temp started (pl_tmp ?p) (rs_Data resp) (pr_offset demo_run))" by blast
  then show ?thesis using s by (intro exI [of _ n'] exI [of _ c'] exI [of _ resp]) (simp add: demo_run_def run_of_def new_pull_def)
qed

end
