(* ===== verification/Rescan.thy ===== *)
theory Rescan
  imports Go_Prelude
begin

text \<open>
  Rescan requests and pausing: \<^verbatim>\<open>pendingScan\<close>, \<^verbatim>\<open>RequestRescan\<close>, \<^verbatim>\<open>runPendingScan\<close>, \<^verbatim>\<open>runRebuild\<close> and \<^verbatim>\<open>SetFolderPaused\<close> of
  \<^verbatim>\<open>internal/node/node.go\<close> for one folder. Each call is a thread with a program counter, and every access to the shared
  pause flag, to the queue under its mutex and to the folder lock is one step, so calls interleave as goroutines do. How a pass ends
  is chosen by the environment. Each request carries a ticket, a history variable that no step reads: it tells which
  call owes the request an answer.
\<close>

section \<open>The queue\<close>

record pendingScan =
  ps_full :: bool
  ps_verify :: bool
  ps_rebuild :: bool

definition no_scan :: pendingScan where
  "no_scan = \<lparr>ps_full = False, ps_verify = False, ps_rebuild = False\<rparr>"

definition empty_scan :: "pendingScan \<Rightarrow> bool" where
  "empty_scan p \<longleftrightarrow> \<not> ps_full p \<and> \<not> ps_verify p \<and> \<not> ps_rebuild p"

definition merge_scan :: "bool \<Rightarrow> bool \<Rightarrow> pendingScan \<Rightarrow> pendingScan" where
  "merge_scan verify rebuild p =
     (if rebuild then p\<lparr>ps_rebuild := True\<rparr> else if verify then p\<lparr>ps_verify := True\<rparr> else p\<lparr>ps_full := True\<rparr>)"

section \<open>Threads\<close>

text \<open>A ticket is the number of the request and whether it asked for a verified pass.\<close>

type_synonym ticket = "nat \<times> bool"

datatype pass_end = Finished | Failed | Interrupted

text \<open>\<open>Busy\<close> and \<open>Failure\<close> are errors returned to the caller or logged; \<open>Answered strong\<close> is a pass that finished, verified or from
scratch when \<open>strong\<close>; \<open>Dropped\<close> is a request that no call remembers any more.\<close>

datatype answer = Busy | Failure | Answered bool | Dropped

datatype thread =
    ReqStart ticket
  | ReqQueue ticket
  | ReqBusy ticket
  | ReqTake ticket
  | ReqRun bool bool "ticket list"
  | ReqPass bool bool "ticket list"
  | ReqRequeue bool bool "ticket list"
  | ResTake
  | PenRun pendingScan "ticket list"
  | PenPass pendingScan "ticket list"
  | PenRequeue bool "ticket list"
  | Gone

record RescanState =
  rs_paused :: bool
  rs_pend :: pendingScan
  rs_owed :: "ticket list"
  rs_threads :: "thread list"
  rs_answers :: "(ticket \<times> answer) list"
  rs_issued :: "ticket list"
  rs_rebuilds :: bool

definition new_rescan :: "bool \<Rightarrow> RescanState" where
  "new_rescan paused = \<lparr>rs_paused = paused, rs_pend = no_scan, rs_owed = [], rs_threads = [], rs_answers = [], rs_issued = [], rs_rebuilds = False\<rparr>"

definition addPending :: "bool \<Rightarrow> bool \<Rightarrow> ticket list \<Rightarrow> RescanState \<Rightarrow> RescanState" where
  "addPending verify rebuild ts s = s\<lparr>rs_pend := merge_scan verify rebuild (rs_pend s), rs_owed := rs_owed s @ ts\<rparr>"

definition takePending :: "RescanState \<Rightarrow> RescanState \<times> pendingScan \<times> ticket list \<times> bool" where
  "takePending s =
     (if empty_scan (rs_pend s) then (s, no_scan, [], False)
      else (s\<lparr>rs_pend := no_scan, rs_owed := []\<rparr>, rs_pend s, rs_owed s, True))"

text \<open>Threads that carry a rebuild, and threads in a pass: a rebuild holds the folder lock like every pass but is not published as a running scan.\<close>

fun rebuilding :: "thread \<Rightarrow> bool" where
  "rebuilding (ReqRun v rb ts) = rb"
| "rebuilding (ReqPass v rb ts) = rb"
| "rebuilding (ReqRequeue v rb ts) = rb"
| "rebuilding (PenRun p ts) = ps_rebuild p"
| "rebuilding (PenPass p ts) = ps_rebuild p"
| "rebuilding _ = False"

fun in_pass :: "thread \<Rightarrow> bool" where
  "in_pass (ReqPass _ _ _) = True"
| "in_pass (PenPass _ _) = True"
| "in_pass _ = False"

definition locked :: "RescanState \<Rightarrow> bool" where
  "locked s = list_ex in_pass (rs_threads s)"

definition ScanRunning :: "RescanState \<Rightarrow> bool" where
  "ScanRunning s = list_ex (\<lambda>t. in_pass t \<and> \<not> rebuilding t) (rs_threads s)"

definition goto :: "nat \<Rightarrow> thread \<Rightarrow> RescanState \<Rightarrow> RescanState" where
  "goto i t s = s\<lparr>rs_threads := (rs_threads s)[i := t]\<rparr>"

definition spawn :: "thread \<Rightarrow> RescanState \<Rightarrow> RescanState" where
  "spawn t s = s\<lparr>rs_threads := rs_threads s @ [t]\<rparr>"

definition tell :: "answer \<Rightarrow> ticket list \<Rightarrow> RescanState \<Rightarrow> RescanState" where
  "tell a ts s = s\<lparr>rs_answers := rs_answers s @ map (\<lambda>t. (t, a)) ts\<rparr>"

text \<open>One step of the thread at position \<open>i\<close>; \<open>None\<close> when it waits for the folder lock or has ended. A pass begins with the folder lock
and the look at the pause flag, and \<open>e\<close> says how it ends.\<close>

definition run_step :: "nat \<Rightarrow> pass_end \<Rightarrow> RescanState \<Rightarrow> RescanState option" where
  "run_step i e s =
     (case rs_threads s ! i of
        ReqStart t \<Rightarrow> Some (goto i (if rs_paused s then ReqQueue t else ReqBusy t) s)
      | ReqQueue t \<Rightarrow> Some (goto i Gone (addPending (snd t) False [t] s))
      | ReqBusy t \<Rightarrow> Some (if ScanRunning s then goto i Gone (tell Busy [t] s) else goto i (ReqTake t) s)
      | ReqTake t \<Rightarrow>
          (case takePending s of (s1, p, ts, had) \<Rightarrow>
             Some (goto i (if had then ReqRun (snd t \<or> ps_verify p) (ps_rebuild p) (t # ts) else ReqRun (snd t) False [t]) s1))
      | ReqRun verify rebuild ts \<Rightarrow>
          if locked s then None
          else if rs_paused s
            then Some (goto i (ReqRequeue verify rebuild ts) (if rebuild then addPending False True [] s else s))
          else Some (goto i (ReqPass verify rebuild ts) s)
      | ReqPass verify rebuild ts \<Rightarrow>
          (case e of
             Finished \<Rightarrow> Some (goto i Gone (tell (Answered (verify \<or> rebuild)) ts s))
           | Failed \<Rightarrow> Some (goto i Gone (tell Failure ts s))
           | Interrupted \<Rightarrow> Some (goto i (ReqRequeue verify rebuild ts) s))
      | ReqRequeue verify rebuild ts \<Rightarrow> Some (goto i Gone (addPending verify rebuild ts s))
      | ResTake \<Rightarrow>
          (case takePending s of (s1, p, ts, queued) \<Rightarrow> Some (if queued then goto i (PenRun p ts) s1 else goto i Gone s1))
      | PenRun p ts \<Rightarrow>
          if locked s then None
          else if rs_paused s
            then Some (if ps_rebuild p then goto i Gone (addPending False True ts s) else goto i (PenRequeue (ps_verify p) ts) s)
          else Some (goto i (PenPass p ts) s)
      | PenPass p ts \<Rightarrow>
          (case e of
             Finished \<Rightarrow> Some (goto i Gone (tell (Answered (ps_verify p \<or> ps_rebuild p)) ts s))
           | Failed \<Rightarrow> Some (goto i Gone (tell Failure ts s))
           | Interrupted \<Rightarrow>
               Some (if ps_rebuild p then goto i Gone (tell Dropped ts s) else goto i (PenRequeue (ps_verify p) ts) s))
      | PenRequeue verify ts \<Rightarrow> Some (goto i Gone (addPending verify False ts s))
      | Gone \<Rightarrow> None)"

text \<open>The calls from outside: a request, pausing, resuming, and a rebuild that is put off because the folder is paused.\<close>

definition RequestRescan :: "bool \<Rightarrow> RescanState \<Rightarrow> RescanState" where
  "RequestRescan verify s =
     (let t = (length (rs_issued s), verify) in spawn (ReqStart t) (s\<lparr>rs_issued := rs_issued s @ [t]\<rparr>))"

definition SetFolderPaused :: "bool \<Rightarrow> RescanState \<Rightarrow> RescanState" where
  "SetFolderPaused paused s = (if paused then s\<lparr>rs_paused := True\<rparr> else spawn ResTake (s\<lparr>rs_paused := False\<rparr>))"

definition defer_rebuild :: "RescanState \<Rightarrow> RescanState" where
  "defer_rebuild s = (addPending False True [] s)\<lparr>rs_rebuilds := True\<rparr>"

inductive rescan_reach :: "RescanState \<Rightarrow> bool" where
  rescan_new: "rescan_reach (new_rescan paused)"
| rescan_request: "rescan_reach s \<Longrightarrow> rescan_reach (RequestRescan verify s)"
| rescan_pause: "rescan_reach s \<Longrightarrow> rescan_reach (SetFolderPaused paused s)"
| rescan_rebuild: "rescan_reach s \<Longrightarrow> rs_paused s \<Longrightarrow> rescan_reach (defer_rebuild s)"
| rescan_thread: "rescan_reach s \<Longrightarrow> i < length (rs_threads s) \<Longrightarrow> run_step i e s = Some s' \<Longrightarrow> rescan_reach s'"

section \<open>Where a request is\<close>

fun held_by :: "thread \<Rightarrow> ticket list" where
  "held_by (ReqStart t) = [t]"
| "held_by (ReqQueue t) = [t]"
| "held_by (ReqBusy t) = [t]"
| "held_by (ReqTake t) = [t]"
| "held_by (ReqRun _ _ ts) = ts"
| "held_by (ReqPass _ _ ts) = ts"
| "held_by (ReqRequeue _ _ ts) = ts"
| "held_by ResTake = []"
| "held_by (PenRun _ ts) = ts"
| "held_by (PenPass _ ts) = ts"
| "held_by (PenRequeue _ ts) = ts"
| "held_by Gone = []"

text \<open>The strength with which a thread will serve its tickets.\<close>

fun strong_enough :: "thread \<Rightarrow> bool" where
  "strong_enough (ReqRun v rb ts) = ((\<exists>t \<in> set ts. snd t) \<longrightarrow> v \<or> rb)"
| "strong_enough (ReqPass v rb ts) = ((\<exists>t \<in> set ts. snd t) \<longrightarrow> v \<or> rb)"
| "strong_enough (ReqRequeue v rb ts) = ((\<exists>t \<in> set ts. snd t) \<longrightarrow> v \<or> rb)"
| "strong_enough (PenRun p ts) = ((\<exists>t \<in> set ts. snd t) \<longrightarrow> ps_verify p \<or> ps_rebuild p)"
| "strong_enough (PenPass p ts) = ((\<exists>t \<in> set ts. snd t) \<longrightarrow> ps_verify p \<or> ps_rebuild p)"
| "strong_enough (PenRequeue v ts) = ((\<exists>t \<in> set ts. snd t) \<longrightarrow> v)"
| "strong_enough _ = True"

definition all_tickets :: "RescanState \<Rightarrow> ticket multiset" where
  "all_tickets s = mset (rs_owed s) + mset (concat (map held_by (rs_threads s))) + mset (map fst (rs_answers s))"

definition queue_ok :: "RescanState \<Rightarrow> bool" where
  "queue_ok s \<longleftrightarrow> (rs_owed s \<noteq> [] \<longrightarrow> \<not> empty_scan (rs_pend s)) \<and> ((\<exists>t \<in> set (rs_owed s). snd t) \<longrightarrow> ps_verify (rs_pend s) \<or> ps_rebuild (rs_pend s))"

definition answered_ok :: "(ticket \<times> answer) list \<Rightarrow> bool" where
  "answered_ok as \<longleftrightarrow> (\<forall>x \<in> set as. \<forall>strong. snd x = Answered strong \<longrightarrow> snd (fst x) \<longrightarrow> strong)"

definition no_rebuild :: "RescanState \<Rightarrow> bool" where
  "no_rebuild s \<longleftrightarrow> \<not> ps_rebuild (rs_pend s) \<and> (\<forall>t \<in> set (rs_threads s). \<not> rebuilding t) \<and> (\<forall>x \<in> set (rs_answers s). snd x \<noteq> Dropped)"

definition rescan_ok :: "RescanState \<Rightarrow> bool" where
  "rescan_ok s \<longleftrightarrow> all_tickets s = mset (rs_issued s) \<and> queue_ok s \<and> (\<forall>t \<in> set (rs_threads s). strong_enough t)
     \<and> answered_ok (rs_answers s) \<and> (rs_rebuilds s \<or> no_rebuild s)"

lemma rescan_okD:
  assumes "rescan_ok s"
  shows "all_tickets s = mset (rs_issued s)" and "queue_ok s" and "\<And>t. t \<in> set (rs_threads s) \<Longrightarrow> strong_enough t"
    and "answered_ok (rs_answers s)" and "rs_rebuilds s \<or> no_rebuild s"
  using assms by (simp_all add: rescan_ok_def)

lemma rescan_okI:
  "all_tickets s = mset (rs_issued s) \<Longrightarrow> queue_ok s \<Longrightarrow> (\<And>t. t \<in> set (rs_threads s) \<Longrightarrow> strong_enough t) \<Longrightarrow> answered_ok (rs_answers s) \<Longrightarrow>
   rs_rebuilds s \<or> no_rebuild s \<Longrightarrow> rescan_ok s"
  by (simp add: rescan_ok_def)

lemma goto_simps [simp]:
  "rs_pend (goto i t s) = rs_pend s" "rs_owed (goto i t s) = rs_owed s" "rs_answers (goto i t s) = rs_answers s" "rs_issued (goto i t s) = rs_issued s"
  "rs_rebuilds (goto i t s) = rs_rebuilds s" "rs_threads (goto i t s) = (rs_threads s)[i := t]" "queue_ok (goto i t s) = queue_ok s"
  by (simp_all add: goto_def queue_ok_def)

lemma addPending_simps [simp]:
  "rs_threads (addPending v rb ts s) = rs_threads s" "rs_answers (addPending v rb ts s) = rs_answers s" "rs_issued (addPending v rb ts s) = rs_issued s"
  "rs_rebuilds (addPending v rb ts s) = rs_rebuilds s" "rs_owed (addPending v rb ts s) = rs_owed s @ ts"
  "ps_rebuild (rs_pend (addPending v rb ts s)) = (rb \<or> ps_rebuild (rs_pend s))" "rs_paused (addPending v rb ts s) = rs_paused s"
  by (simp_all add: addPending_def merge_scan_def)

lemma tell_simps [simp]:
  "rs_threads (tell a ts s) = rs_threads s" "rs_pend (tell a ts s) = rs_pend s" "rs_issued (tell a ts s) = rs_issued s" "rs_owed (tell a ts s) = rs_owed s"
  "rs_rebuilds (tell a ts s) = rs_rebuilds s" "rs_answers (tell a ts s) = rs_answers s @ map (\<lambda>t. (t, a)) ts" "queue_ok (tell a ts s) = queue_ok s"
  by (simp_all add: tell_def queue_ok_def)

lemma queue_ok_addPending: "queue_ok s \<Longrightarrow> ((\<exists>t \<in> set ts. snd t) \<Longrightarrow> v \<or> rb) \<Longrightarrow> queue_ok (addPending v rb ts s)"
  by (auto simp: queue_ok_def addPending_def merge_scan_def empty_scan_def)

text \<open>A thread moves on: \<open>d\<close> is what it gave away, \<open>g\<close> what it got.\<close>

lemma mset_move:
  assumes "i < length xs" and "mset (f y) + d = mset (f (xs ! i)) + g"
  shows "mset (concat (map f (xs[i := y]))) + d = mset (concat (map f xs)) + g"
proof -
  have l: "mset (concat (map f xs)) = mset (concat (map f (take i xs @ xs ! i # drop (Suc i) xs)))" using id_take_nth_drop [OF assms(1)] by simp
  have u: "xs[i := y] = take i xs @ y # drop (Suc i) xs" using assms(1) by (rule upd_conv_take_nth_drop)
  show ?thesis unfolding u l using assms(2) by (simp add: ac_simps)
qed

lemma goto_tickets:
  assumes "i < length (rs_threads s)" and "mset (held_by t) + d = mset (held_by (rs_threads s ! i)) + g"
  shows "all_tickets (goto i t s) + d = all_tickets s + g"
  using mset_move [of i "rs_threads s" held_by t d g] assms by (simp add: all_tickets_def ac_simps)

lemma threads_update: "(\<And>x. x \<in> set xs \<Longrightarrow> P x) \<Longrightarrow> P y \<Longrightarrow> x \<in> set (xs[i := y]) \<Longrightarrow> P x"
  using set_update_subset_insert [of xs i y] by blast

lemma no_rebuild_goto: "no_rebuild s \<Longrightarrow> \<not> rebuilding t \<Longrightarrow> no_rebuild (goto i t s)"
  unfolding no_rebuild_def using threads_update [of "rs_threads s" "\<lambda>t. \<not> rebuilding t" t _ i] by auto

text \<open>What a step does with the tickets of its thread: keep them, queue them, answer them, or take the queued ones along.\<close>

lemma move_ok:
  assumes "rescan_ok s" and "i < length (rs_threads s)" and "held_by t = held_by (rs_threads s ! i)" and "strong_enough t"
    and "rebuilding t \<Longrightarrow> rs_rebuilds s"
  shows "rescan_ok (goto i t s)"
proof (rule rescan_okI)
  note ok = rescan_okD [OF assms(1)]
  show "all_tickets (goto i t s) = mset (rs_issued (goto i t s))" using goto_tickets [OF assms(2), of t "{#}" "{#}"] assms(3) ok(1) by simp
  show "rs_rebuilds (goto i t s) \<or> no_rebuild (goto i t s)" using no_rebuild_goto [of s t i] ok(5) assms(5) by auto
  show "strong_enough x" if "x \<in> set (rs_threads (goto i t s))" for x using threads_update [of "rs_threads s" strong_enough t x i] ok(3) assms(4) that by simp
qed (use rescan_okD [OF assms(1)] in simp_all)

lemma drop_thread:
  assumes "rescan_ok s" and "i < length (rs_threads s)"
  shows "all_tickets (goto i Gone s) + mset (held_by (rs_threads s ! i)) = mset (rs_issued s)"
    and "\<And>x. x \<in> set ((rs_threads s)[i := Gone]) \<Longrightarrow> strong_enough x" and "rs_rebuilds s \<or> no_rebuild (goto i Gone s)"
proof -
  note ok = rescan_okD [OF assms(1)]
  show "all_tickets (goto i Gone s) + mset (held_by (rs_threads s ! i)) = mset (rs_issued s)"
    using goto_tickets [OF assms(2), of Gone "mset (held_by (rs_threads s ! i))" "{#}"] ok(1) by simp
  show "strong_enough x" if "x \<in> set ((rs_threads s)[i := Gone])" for x using threads_update [of "rs_threads s" strong_enough Gone x i] ok(3) that by simp
  show "rs_rebuilds s \<or> no_rebuild (goto i Gone s)" using no_rebuild_goto [of s Gone i] ok(5) by auto
qed

lemma add_ok:
  assumes "rescan_ok s" and "i < length (rs_threads s)" and "ts = held_by (rs_threads s ! i)"
    and "(\<exists>t \<in> set ts. snd t) \<Longrightarrow> v \<or> rb" and "rb \<Longrightarrow> rs_rebuilds s"
  shows "rescan_ok (goto i Gone (addPending v rb ts s))"
proof (rule rescan_okI)
  note d = drop_thread [OF assms(1,2), folded assms(3)] and ok = rescan_okD [OF assms(1)]
  have "all_tickets (goto i Gone (addPending v rb ts s)) = all_tickets (goto i Gone s) + mset ts" by (simp add: all_tickets_def)
  then show "all_tickets (goto i Gone (addPending v rb ts s)) = mset (rs_issued (goto i Gone (addPending v rb ts s)))" using d(1) by simp
  show "queue_ok (goto i Gone (addPending v rb ts s))" using queue_ok_addPending [OF ok(2) assms(4)] by simp
  show "rs_rebuilds (goto i Gone (addPending v rb ts s)) \<or> no_rebuild (goto i Gone (addPending v rb ts s))"
    using d(3) assms(5) by (auto simp: no_rebuild_def)
qed (use drop_thread [OF assms(1,2)] rescan_okD [OF assms(1)] in simp_all)

lemma tell_ok:
  assumes "rescan_ok s" and "i < length (rs_threads s)" and "ts = held_by (rs_threads s ! i)"
    and "\<And>strong. a = Answered strong \<Longrightarrow> (\<exists>t \<in> set ts. snd t) \<Longrightarrow> strong" and "a = Dropped \<Longrightarrow> rs_rebuilds s"
  shows "rescan_ok (goto i Gone (tell a ts s))"
proof (rule rescan_okI)
  note d = drop_thread [OF assms(1,2), folded assms(3)] and ok = rescan_okD [OF assms(1)]
  have "all_tickets (goto i Gone (tell a ts s)) = all_tickets (goto i Gone s) + mset ts" by (simp add: all_tickets_def comp_def)
  then show "all_tickets (goto i Gone (tell a ts s)) = mset (rs_issued (goto i Gone (tell a ts s)))" using d(1) by simp
  show "answered_ok (rs_answers (goto i Gone (tell a ts s)))" using ok(4) assms(4) by (force simp: answered_ok_def)
  show "rs_rebuilds (goto i Gone (tell a ts s)) \<or> no_rebuild (goto i Gone (tell a ts s))"
    using d(3) assms(5) by (auto simp: no_rebuild_def)
qed (use drop_thread [OF assms(1,2)] rescan_okD [OF assms(1)] in simp_all)

lemma take_ok:
  assumes "rescan_ok s" and "i < length (rs_threads s)" and "takePending s = (s1, p, ts, True)"
    and "held_by t = held_by (rs_threads s ! i) @ ts" and "strong_enough t" and "rebuilding t \<Longrightarrow> ps_rebuild p"
  shows "rescan_ok (goto i t s1)"
proof (rule rescan_okI)
  note ok = rescan_okD [OF assms(1)]
  have s1: "s1 = s\<lparr>rs_pend := no_scan, rs_owed := []\<rparr>" "p = rs_pend s" "ts = rs_owed s" using assms(3) by (auto simp: takePending_def split: if_splits)
  have "all_tickets (goto i t s) = all_tickets s + mset ts" using goto_tickets [OF assms(2), of t "{#}" "mset ts"] assms(4) by simp
  then show "all_tickets (goto i t s1) = mset (rs_issued (goto i t s1))" using ok(1) s1(3) by (simp add: all_tickets_def s1(1) ac_simps)
  show "queue_ok (goto i t s1)" by (simp add: queue_ok_def s1(1))
  show "strong_enough x" if "x \<in> set (rs_threads (goto i t s1))" for x
    using threads_update [of "rs_threads s" strong_enough t x i] ok(3) assms(5) that by (simp add: s1(1))
  show "answered_ok (rs_answers (goto i t s1))" using ok(4) by (simp add: s1(1))
  have "no_rebuild (goto i t s1)" if "no_rebuild s"
    using no_rebuild_goto [OF that, of t i] assms(6) that s1(2) by (auto simp: no_rebuild_def s1(1) no_scan_def)
  then show "rs_rebuilds (goto i t s1) \<or> no_rebuild (goto i t s1)" using ok(5) by (auto simp: s1(1))
qed

lemma takePending_cases:
  assumes "takePending s = (s1, p, ts, had)"
  shows "\<not> had \<Longrightarrow> s1 = s" and "had \<Longrightarrow> takePending s = (s1, p, ts, True)"
    and "rescan_ok s \<Longrightarrow> had \<Longrightarrow> (\<exists>t \<in> set ts. snd t) \<Longrightarrow> ps_verify p \<or> ps_rebuild p" and "rescan_ok s \<Longrightarrow> ps_rebuild p \<Longrightarrow> rs_rebuilds s"
  using assms by (auto simp: takePending_def rescan_ok_def queue_ok_def no_rebuild_def no_scan_def split: if_splits)

lemma run_step_ok:
  assumes ok: "rescan_ok s" and i: "i < length (rs_threads s)" and st: "run_step i e s = Some s'"
  shows "rescan_ok s'"
proof -
  have strong: "strong_enough (rs_threads s ! i)" using rescan_okD(3) [OF ok] i by simp
  have rb: "rebuilding (rs_threads s ! i) \<Longrightarrow> rs_rebuilds s" using rescan_okD(5) [OF ok] i by (auto simp: no_rebuild_def)
  have addr: "rescan_ok (addPending False True [] s)" if "rs_rebuilds s"
    using rescan_okD [OF ok] queue_ok_addPending [of s "[]" False True] that by (intro rescan_okI) (simp_all add: all_tickets_def)
  show ?thesis
  proof (cases "rs_threads s ! i")
    case (ReqStart t)
    then show ?thesis using st move_ok [OF ok i, of "ReqQueue t"] move_ok [OF ok i, of "ReqBusy t"] by (auto simp: run_step_def)
  next
    case (ReqQueue t)
    then show ?thesis using st add_ok [OF ok i, of "[t]" "snd t" False] by (simp add: run_step_def)
  next
    case (ReqBusy t)
    then show ?thesis using st tell_ok [OF ok i, of "[t]" Busy] move_ok [OF ok i, of "ReqTake t"] by (auto simp: run_step_def split: if_splits)
  next
    case (ReqTake t)
    obtain s1 p ts had where tk: "takePending s = (s1, p, ts, had)" by (cases "takePending s") auto
    note c = takePending_cases [OF tk]
    show ?thesis
    proof (cases had)
      case True
      then show ?thesis using st ReqTake tk take_ok [OF ok i c(2), of "ReqRun (snd t \<or> ps_verify p) (ps_rebuild p) (t # ts)"] c(3) [OF ok]
        by (auto simp: run_step_def)
    next
      case False
      then show ?thesis using st ReqTake tk c(1) move_ok [OF ok i, of "ReqRun (snd t) False [t]"] by (auto simp: run_step_def)
    qed
  next
    case (ReqRun v r ts)
    have a: "rescan_ok (goto i (ReqRequeue v r ts) (addPending False True [] s))" if r
      using move_ok [OF addr, of i "ReqRequeue v r ts"] that rb strong i ReqRun by simp
    show ?thesis using st ReqRun strong rb a move_ok [OF ok i, of "ReqRequeue v r ts"] move_ok [OF ok i, of "ReqPass v r ts"]
      by (auto simp: run_step_def split: if_splits)
  next
    case (ReqPass v r ts)
    then show ?thesis using st strong rb tell_ok [OF ok i, of ts "Answered (v \<or> r)"] tell_ok [OF ok i, of ts Failure] move_ok [OF ok i, of "ReqRequeue v r ts"]
      by (cases e) (auto simp: run_step_def)
  next
    case (ReqRequeue v r ts)
    then show ?thesis using st strong rb add_ok [OF ok i, of ts v r] by (auto simp: run_step_def)
  next
    case ResTake
    obtain s1 p ts had where tk: "takePending s = (s1, p, ts, had)" by (cases "takePending s") auto
    note c = takePending_cases [OF tk]
    show ?thesis
    proof (cases had)
      case True
      then show ?thesis using st ResTake tk take_ok [OF ok i c(2), of "PenRun p ts"] c(3) [OF ok] by (auto simp: run_step_def)
    next
      case False
      then show ?thesis using st ResTake tk c(1) move_ok [OF ok i, of Gone] by (auto simp: run_step_def)
    qed
  next
    case (PenRun p ts)
    then show ?thesis using st strong rb add_ok [OF ok i, of ts False True] move_ok [OF ok i, of "PenRequeue (ps_verify p) ts"] move_ok [OF ok i, of "PenPass p ts"]
      by (auto simp: run_step_def split: if_splits)
  next
    case (PenPass p ts)
    then show ?thesis
      using st strong rb tell_ok [OF ok i, of ts "Answered (ps_verify p \<or> ps_rebuild p)"] tell_ok [OF ok i, of ts Failure] tell_ok [OF ok i, of ts Dropped]
        move_ok [OF ok i, of "PenRequeue (ps_verify p) ts"]
      by (cases e) (auto simp: run_step_def split: if_splits)
  next
    case (PenRequeue v ts)
    then show ?thesis using st strong add_ok [OF ok i, of ts v False] by (auto simp: run_step_def)
  next
    case Gone
    then show ?thesis using st by (simp add: run_step_def)
  qed
qed

lemma spawn_ok:
  assumes "rescan_ok s" and "strong_enough t" and "\<not> rebuilding t"
  shows "rescan_ok (spawn t (s\<lparr>rs_issued := rs_issued s @ held_by t, rs_paused := p\<rparr>))"
  using rescan_okD [OF assms(1)] assms(2,3)
  by (intro rescan_okI) (auto simp: spawn_def all_tickets_def queue_ok_def no_rebuild_def ac_simps)

lemma rescan_reach_ok: "rescan_reach s \<Longrightarrow> rescan_ok s"
proof (induction rule: rescan_reach.induct)
  case (rescan_new paused)
  show ?case by (simp add: rescan_ok_def new_rescan_def all_tickets_def queue_ok_def answered_ok_def no_rebuild_def no_scan_def)
next
  case (rescan_request s verify)
  then show ?case using spawn_ok [of s "ReqStart (length (rs_issued s), verify)" "rs_paused s"] by (simp add: RequestRescan_def Let_def)
next
  case (rescan_pause s paused)
  have "rescan_ok (s\<lparr>rs_paused := True\<rparr>)" using rescan_pause.IH by (simp add: rescan_ok_def all_tickets_def queue_ok_def no_rebuild_def)
  then show ?case using spawn_ok [OF rescan_pause.IH, of ResTake False] by (simp add: SetFolderPaused_def)
next
  case (rescan_rebuild s)
  then show ?case using rescan_okD [OF rescan_rebuild.IH] queue_ok_addPending [of s "[]" False True]
    by (intro rescan_okI) (simp_all add: defer_rebuild_def all_tickets_def queue_ok_def)
next
  case (rescan_thread s i e s')
  then show ?case using run_step_ok by blast
qed

lemma takePending_issued: "takePending s = (s1, p, ts, had) \<Longrightarrow> rs_issued s1 = rs_issued s"
  by (auto simp: takePending_def split: if_splits)

lemma run_step_issued: "run_step i e s = Some s' \<Longrightarrow> rs_issued s' = rs_issued s"
  by (cases "rs_threads s ! i"; cases "takePending s"; cases e) (auto simp: run_step_def takePending_issued split: if_splits)

lemma issued_numbered: "rescan_reach s \<Longrightarrow> map fst (rs_issued s) = [0..<length (rs_issued s)]"
proof (induction rule: rescan_reach.induct)
  case (rescan_thread s i e s')
  then show ?case using run_step_issued by simp
qed (simp_all add: new_rescan_def RequestRescan_def spawn_def SetFolderPaused_def defer_rebuild_def addPending_def Let_def)


section \<open>Runs\<close>

fun run_steps :: "(nat \<times> pass_end) list \<Rightarrow> RescanState \<Rightarrow> RescanState option" where
  "run_steps [] s = Some s"
| "run_steps ((i, e) # xs) s = (if i < length (rs_threads s) then (case run_step i e s of None \<Rightarrow> None | Some s' \<Rightarrow> run_steps xs s') else None)"

lemma run_steps_reach: "rescan_reach s \<Longrightarrow> run_steps xs s = Some s' \<Longrightarrow> rescan_reach s'"
proof (induction xs arbitrary: s)
  case (Cons x xs)
  obtain i e where x: "x = (i, e)" by (cases x)
  then show ?case using Cons.prems Cons.IH rescan_thread [OF Cons.prems(1), of i e] by (auto split: if_splits option.splits)
qed simp

text \<open>A verified rescan asked for during a pause, served after the resume.\<close>

definition queued_verify :: RescanState where
  "queued_verify = the (run_steps [(0, Finished), (0, Finished)] (RequestRescan True (new_rescan True)))"

lemma queued_verify_reach: "rescan_reach queued_verify"
proof -
  have "run_steps [(0, Finished), (0, Finished)] (RequestRescan True (new_rescan True)) = Some queued_verify" by code_simp
  then show ?thesis by (rule run_steps_reach [OF rescan_request [OF rescan_new]])
qed


text \<open>A rebuild that was put off is given up when the folder is paused again while it runs, and the verified rescan it absorbed with it.\<close>

theorem interrupted_rebuild_is_dropped:
  "\<exists>s. rescan_reach s \<and> rs_answers s = [((0, True), Dropped)] \<and> rs_pend s = no_scan \<and> rs_threads s = [Gone, Gone]"
proof -
  let ?s1 = "SetFolderPaused False (defer_rebuild queued_verify)"
  let ?s2 = "SetFolderPaused True (the (run_steps [(1, Finished), (1, Finished)] ?s1))"
  let ?s3 = "the (run_steps [(1, Interrupted)] ?s2)"
  have p: "rs_paused queued_verify" by code_simp
  have run: "run_steps [(1, Finished), (1, Finished)] ?s1 = Some (the (run_steps [(1, Finished), (1, Finished)] ?s1))" "run_steps [(1, Interrupted)] ?s2 = Some ?s3"
    by code_simp+
  have "rescan_reach ?s3"
    by (rule run_steps_reach [OF rescan_pause [OF run_steps_reach [OF rescan_pause [OF rescan_rebuild [OF queued_verify_reach p]] run(1)]] run(2)])
  moreover have "rs_answers ?s3 = [((0, True), Dropped)]" "rs_pend ?s3 = no_scan" "rs_threads ?s3 = [Gone, Gone]" by code_simp+
  ultimately show ?thesis by blast
qed

text \<open>A request that sees the pause and queues after the resume has looked at the queue stays there, although the folder runs.\<close>

theorem request_stranded_after_resume:
  "\<exists>s. rescan_reach s \<and> \<not> rs_paused s \<and> rs_threads s = [Gone, Gone] \<and> rs_owed s = [(0, True)]"
proof -
  let ?s1 = "SetFolderPaused False (the (run_steps [(0, Finished)] (RequestRescan True (new_rescan True))))"
  let ?s2 = "the (run_steps [(1, Finished), (0, Finished)] ?s1)"
  have run: "run_steps [(0, Finished)] (RequestRescan True (new_rescan True)) = Some (the (run_steps [(0, Finished)] (RequestRescan True (new_rescan True))))"
    "run_steps [(1, Finished), (0, Finished)] ?s1 = Some ?s2" by code_simp+
  have "rescan_reach ?s2" by (rule run_steps_reach [OF rescan_pause [OF run_steps_reach [OF rescan_request [OF rescan_new] run(1)]] run(2)])
  moreover have "rs_paused ?s2 = False" "rs_threads ?s2 = [Gone, Gone]" "rs_owed ?s2 = [(0, True)]" by code_simp+
  ultimately show ?thesis by blast
qed

end
