(* ===== verification/Watch_Queue.thy ===== *)
theory Watch_Queue
  imports Go_Prelude
begin

text \<open>
  The two coalescers of the daemon: \<^verbatim>\<open>cmd/crosssync/pathqueue.go\<close> turns batches of changed paths into scoped
  scans, \<^verbatim>\<open>cmd/crosssync/synckick.go\<close> turns requests into sync rounds, each with at most one worker. A
  worker is a program counter; every critical section under the mutex is one step, the scan and the
  round run between two steps, and calls from other goroutines may come between any two steps.
\<close>

section \<open>Collapsing a batch\<close>

fun collapse_loop :: "string \<Rightarrow> string list \<Rightarrow> string list" where
  "collapse_loop lastKept [] = []"
| "collapse_loop lastKept (p # ps) =
     (if lastKept \<noteq> [] \<and> (p = lastKept \<or> HasPrefix p (lastKept @ ''/'')) then collapse_loop lastKept ps
      else p # collapse_loop p ps)"

definition collapsePaths :: "string list \<Rightarrow> string list" where
  "collapsePaths paths = collapse_loop [] (sort paths)"

definition covers :: "string list \<Rightarrow> string \<Rightarrow> bool" where
  "covers roots p \<longleftrightarrow> list_ex (\<lambda>r. p = r \<or> HasPrefix p (r @ ''/'')) roots"

lemma collapse_loop_covers: "p \<in> set ps \<Longrightarrow> covers (collapse_loop k ps) p \<or> k \<noteq> [] \<and> (p = k \<or> HasPrefix p (k @ ''/''))"
  by (induction k ps rule: collapse_loop.induct) (auto simp: covers_def)

lemma collapse_loop_subset: "set (collapse_loop k ps) \<subseteq> set ps"
  by (induction k ps rule: collapse_loop.induct) auto

lemma collapsePaths_covers: "p \<in> set ps \<Longrightarrow> covers (collapsePaths ps) p"
  using collapse_loop_covers [of p "sort ps" "[]"] by (simp add: collapsePaths_def)

lemma collapsePaths_subset: "set (collapsePaths ps) \<subseteq> set ps"
  using collapse_loop_subset [of "[]" "sort ps"] by (simp add: collapsePaths_def)

section \<open>The path queue\<close>

datatype worker = Off | Ready | Scanning "string list"

record pathQueue =
  q_pending :: "string list"
  q_running :: bool
  q_worker :: worker

definition newPathQueue :: pathQueue where
  "newPathQueue = \<lparr>q_pending = [], q_running = False, q_worker = Off\<rparr>"

definition Add :: "string list \<Rightarrow> pathQueue \<Rightarrow> pathQueue" where
  "Add rels q =
     (if rels = [] then q
      else let pend = foldl (\<lambda>p r. if r = [] \<or> r = ''.'' then p else List.insert r p) (q_pending q) rels; q1 = q\<lparr>q_pending := pend\<rparr> in
        if q_running q \<or> pend = [] then q1 else q1\<lparr>q_running := True, q_worker := Ready\<rparr>)"

text \<open>One step of the worker: look at the queue, or come back from the scan.\<close>

definition worker_step :: "pathQueue \<Rightarrow> pathQueue" where
  "worker_step q =
     (case q_worker q of
        Off \<Rightarrow> q
      | Ready \<Rightarrow>
          if q_pending q = [] then q\<lparr>q_running := False, q_worker := Off\<rparr>
          else q\<lparr>q_pending := [], q_worker := Scanning (collapsePaths (q_pending q))\<rparr>
      | Scanning batch \<Rightarrow> q\<lparr>q_worker := Ready\<rparr>)"

text \<open>What the environment sees of a run: batches that arrive, scans that begin and scans that end, in order.\<close>

datatype queue_event = Arrived "string list" | ScanBegins "string list" | ScanEnds

definition worker_event :: "pathQueue \<Rightarrow> queue_event list" where
  "worker_event q = (case (q_worker q, q_worker (worker_step q)) of
     (Ready, Scanning b) \<Rightarrow> [ScanBegins b] | (Scanning _, _) \<Rightarrow> [ScanEnds] | _ \<Rightarrow> [])"

inductive queue_run :: "pathQueue \<Rightarrow> queue_event list \<Rightarrow> bool" where
  start: "queue_run newPathQueue []"
| add: "queue_run q T \<Longrightarrow> queue_run (Add rels q) (T @ [Arrived rels])"
| work: "queue_run q T \<Longrightarrow> queue_run (worker_step q) (T @ worker_event q)"

text \<open>The paths a batch brings, the folder root aside; the paths that arrived; the paths that arrived and that no later scan has covered.\<close>

definition real_paths :: "string list \<Rightarrow> string set" where
  "real_paths rels = set rels - {[], ''.''}"

fun arrived_paths :: "queue_event list \<Rightarrow> string set" where
  "arrived_paths [] = {}"
| "arrived_paths (Arrived rels # T) = real_paths rels \<union> arrived_paths T"
| "arrived_paths (_ # T) = arrived_paths T"

definition scanned_after :: "queue_event list \<Rightarrow> string \<Rightarrow> bool" where
  "scanned_after T p \<longleftrightarrow> (\<exists>b. ScanBegins b \<in> set T \<and> covers b p)"

definition scans_alternate :: "queue_event list \<Rightarrow> bool" where
  "scans_alternate T \<longleftrightarrow> (\<forall>A b B b' C. T = A @ ScanBegins b # B @ ScanBegins b' # C \<longrightarrow> ScanEnds \<in> set B)"

definition queue_inv :: "pathQueue \<Rightarrow> queue_event list \<Rightarrow> bool" where
  "queue_inv q T \<longleftrightarrow> (q_running q \<longleftrightarrow> q_worker q \<noteq> Off) \<and> (q_pending q \<noteq> [] \<longrightarrow> q_running q)
     \<and> (\<forall>A rels B p. T = A @ Arrived rels # B \<longrightarrow> p \<in> real_paths rels \<longrightarrow> p \<in> set (q_pending q) \<or> scanned_after B p)
     \<and> (\<forall>A b B. T = A @ ScanBegins b # B \<longrightarrow> set b \<subseteq> arrived_paths A) \<and> set (q_pending q) \<subseteq> arrived_paths T
     \<and> scans_alternate T \<and> (\<forall>A b B. T = A @ ScanBegins b # B \<longrightarrow> ScanEnds \<notin> set B \<longrightarrow> (\<exists>b'. q_worker q = Scanning b'))"

lemma queue_inv_basics:
  assumes "queue_inv q T"
  shows "q_running q \<longleftrightarrow> q_worker q \<noteq> Off" "q_pending q \<noteq> [] \<longrightarrow> q_running q" "set (q_pending q) \<subseteq> arrived_paths T"
    "scans_alternate T"
  using assms unfolding queue_inv_def by blast+

lemma foldl_insert_set:
  "set (foldl (\<lambda>p r. if r = [] \<or> r = ''.'' then p else List.insert r p) p rels) = set p \<union> real_paths rels"
  by (induction rels arbitrary: p) (auto simp: real_paths_def)

lemma arrived_paths_append [simp]: "arrived_paths (A @ B) = arrived_paths A \<union> arrived_paths B"
  by (induction A rule: arrived_paths.induct) auto

lemma scanned_after_append [simp]: "scanned_after (A @ B) p \<longleftrightarrow> scanned_after A p \<or> scanned_after B p"
  by (auto simp: scanned_after_def)

lemma snoc_split:
  "T @ [e] = A @ x # B \<longleftrightarrow> (A = T \<and> e = x \<and> B = []) \<or> (\<exists>B'. B = B' @ [e] \<and> T = A @ x # B')"
  by (cases B rule: rev_cases) auto

lemma alternate_snoc:
  assumes "scans_alternate T" and "\<And>b A c B. e = ScanBegins b \<Longrightarrow> T = A @ ScanBegins c # B \<Longrightarrow> ScanEnds \<in> set B"
  shows "scans_alternate (T @ [e])"
  unfolding scans_alternate_def
proof (intro allI impI)
  fix A b B b' C assume eq: "T @ [e] = A @ ScanBegins b # B @ ScanBegins b' # C"
  show "ScanEnds \<in> set B"
  proof (cases C rule: rev_cases)
    case Nil
    then have "T = A @ ScanBegins b # B" "e = ScanBegins b'" using eq by (simp_all add: append_eq_append_conv2 [of T] flip: append_Cons append_assoc)
    then show ?thesis using assms(2) by blast
  next
    case (snoc C' x)
    then have "T = A @ ScanBegins b # B @ ScanBegins b' # C'" using eq by (simp flip: append_Cons append_assoc)
    then show ?thesis using assms(1) unfolding scans_alternate_def by blast
  qed
qed

text \<open>What one more event keeps.\<close>

lemma queue_inv_snoc:
  assumes inv: "queue_inv q T"
    and st: "q_running q' \<longleftrightarrow> q_worker q' \<noteq> Off" "q_pending q' \<noteq> [] \<longrightarrow> q_running q'"
    and kept: "\<And>p. p \<in> set (q_pending q) \<Longrightarrow> p \<in> set (q_pending q') \<or> scanned_after [e] p"
    and new: "\<And>rels p. e = Arrived rels \<Longrightarrow> p \<in> real_paths rels \<Longrightarrow> p \<in> set (q_pending q')"
    and sub: "\<And>b. e = ScanBegins b \<Longrightarrow> set b \<subseteq> arrived_paths T" "set (q_pending q') \<subseteq> arrived_paths T \<union> arrived_paths [e]"
    and busy: "\<And>b. e = ScanBegins b \<Longrightarrow> (\<forall>b'. q_worker q \<noteq> Scanning b') \<and> (\<exists>b'. q_worker q' = Scanning b')"
      "e \<noteq> ScanEnds \<Longrightarrow> (\<exists>b. q_worker q = Scanning b) \<Longrightarrow> (\<exists>b. q_worker q' = Scanning b)"
  shows "queue_inv q' (T @ [e])"
  unfolding queue_inv_def
proof (intro conjI allI impI)
  note i = inv [unfolded queue_inv_def]
  have open_scan: "\<exists>b'. q_worker q = Scanning b'" if "T = A @ ScanBegins b # B" "ScanEnds \<notin> set B" for A b B using i that by blast
  show "p \<in> set (q_pending q') \<or> scanned_after B p" if t: "T @ [e] = A @ Arrived rels # B" "p \<in> real_paths rels" for A rels B p
  proof (cases "A = T \<and> e = Arrived rels \<and> B = []")
    case True
    then show ?thesis using new t(2) by blast
  next
    case False
    then obtain B' where B': "B = B' @ [e]" "T = A @ Arrived rels # B'" using t(1) unfolding snoc_split by blast
    then have "p \<in> set (q_pending q) \<or> scanned_after B' p" using i t(2) by blast
    then show ?thesis using kept B'(1) by auto
  qed
  show "set b \<subseteq> arrived_paths A" if t: "T @ [e] = A @ ScanBegins b # B" for A b B
    using t i sub(1) unfolding snoc_split by blast
  show "set (q_pending q') \<subseteq> arrived_paths (T @ [e])" using sub(2) by simp
  show "scans_alternate (T @ [e])"
  proof (rule alternate_snoc)
    show "scans_alternate T" using queue_inv_basics(4) [OF inv] .
    show "ScanEnds \<in> set B" if "e = ScanBegins b" "T = A @ ScanBegins c # B" for b A c B
      using open_scan [OF that(2)] busy(1) [OF that(1)] by blast
  qed
  show "\<exists>b'. q_worker q' = Scanning b'" if t: "T @ [e] = A @ ScanBegins b # B" "ScanEnds \<notin> set B" for A b B
  proof (cases "A = T \<and> e = ScanBegins b \<and> B = []")
    case True
    then show ?thesis using busy(1) by blast
  next
    case False
    then obtain B' where B': "B = B' @ [e]" "T = A @ ScanBegins b # B'" using t(1) unfolding snoc_split by blast
    then show ?thesis using open_scan [of A b B'] busy(2) t(2) by auto
  qed
qed (use st in simp_all)

lemma Add_inv:
  assumes "queue_inv q T"
  shows "queue_inv (Add rels q) (T @ [Arrived rels])"
proof -
  let ?p = "foldl (\<lambda>p r. if r = [] \<or> r = ''.'' then p else List.insert r p) (q_pending q) rels"
  have p: "set ?p = set (q_pending q) \<union> real_paths rels" by (rule foldl_insert_set)
  have i: "q_running q \<longleftrightarrow> q_worker q \<noteq> Off" "q_pending q \<noteq> [] \<longrightarrow> q_running q" "set (q_pending q) \<subseteq> arrived_paths T"
    using queue_inv_basics(1,2,3) [OF assms] .
  have a: "q_pending (Add rels q) = ?p" "q_running (Add rels q) \<longleftrightarrow> q_running q \<or> ?p \<noteq> []"
    "q_worker (Add rels q) = (if q_running q \<or> ?p = [] then q_worker q else Ready)"
    using i(2) by (auto simp: Add_def Let_def)
  show ?thesis
  proof (rule queue_inv_snoc [OF assms])
    show "q_running (Add rels q) = (q_worker (Add rels q) \<noteq> Off)" "q_pending (Add rels q) \<noteq> [] \<longrightarrow> q_running (Add rels q)"
      using a i by auto
    show "\<exists>b. q_worker (Add rels q) = Scanning b" if "\<exists>b. q_worker q = Scanning b" using that a(3) i(1) by auto
  qed (use a(1) p i(3) in auto)
qed

lemma worker_inv:
  assumes "queue_inv q T"
  shows "queue_inv (worker_step q) (T @ worker_event q)"
proof -
  have i: "q_running q \<longleftrightarrow> q_worker q \<noteq> Off" "q_pending q \<noteq> [] \<longrightarrow> q_running q" "set (q_pending q) \<subseteq> arrived_paths T"
    using queue_inv_basics(1,2,3) [OF assms] .
  show ?thesis
  proof (cases "q_worker q")
    case Off
    then show ?thesis using assms by (simp add: worker_step_def worker_event_def)
  next
    case Ready
    show ?thesis
    proof (cases "q_pending q = []")
      case True
      have "queue_inv (q\<lparr>q_running := False, q_worker := Off\<rparr>) T"
        using assms True Ready unfolding queue_inv_def by simp
      then show ?thesis using Ready True by (simp add: worker_step_def worker_event_def)
    next
      case False
      let ?b = "collapsePaths (q_pending q)"
      have s: "worker_step q = q\<lparr>q_pending := [], q_worker := Scanning ?b\<rparr>" "worker_event q = [ScanBegins ?b]"
        using Ready False by (simp_all add: worker_step_def worker_event_def)
      show ?thesis unfolding s
      proof (rule queue_inv_snoc [OF assms])
        show "p \<in> set (q_pending (q\<lparr>q_pending := [], q_worker := Scanning ?b\<rparr>)) \<or> scanned_after [ScanBegins ?b] p"
          if "p \<in> set (q_pending q)" for p using collapsePaths_covers [OF that] by (auto simp: scanned_after_def)
      qed (use Ready i collapsePaths_subset [of "q_pending q"] in auto)
    qed
  next
    case (Scanning b)
    then have s: "worker_step q = q\<lparr>q_worker := Ready\<rparr>" "worker_event q = [ScanEnds]" by (simp_all add: worker_step_def worker_event_def)
    show ?thesis unfolding s by (rule queue_inv_snoc [OF assms]) (use Scanning i in auto)
  qed
qed

lemma queue_run_inv: "queue_run q T \<Longrightarrow> queue_inv q T"
proof (induction rule: queue_run.induct)
  case start
  then show ?case by (simp add: queue_inv_def newPathQueue_def scans_alternate_def)
next
  case (add q T rels)
  then show ?case by (rule_tac Add_inv)
next
  case (work q T)
  then show ?case by (rule_tac worker_inv)
qed

lemma worker_run: "queue_run q T \<Longrightarrow> \<exists>U. queue_run ((worker_step ^^ n) q) (T @ U)"
proof (induction n)
  case (Suc n)
  then obtain U where "queue_run ((worker_step ^^ n) q) (T @ U)" by blast
  from work [OF this] show ?case by auto
next
  case 0
  then show ?case by (intro exI [of _ "[]"]) simp
qed

lemma worker_drains: "(q_running q \<longleftrightarrow> q_worker q \<noteq> Off) \<Longrightarrow> (q_pending q \<noteq> [] \<longrightarrow> q_running q) \<Longrightarrow>
  q_worker ((worker_step ^^ 4) q) = Off \<and> q_pending ((worker_step ^^ 4) q) = []"
  by (cases "q_worker q"; cases "q_pending q") (simp_all add: eval_nat_numeral worker_step_def)

text \<open>C24. No change is lost: whatever batches arrived while the worker slept, scanned or was about to look, once no more batches arrive the
worker is done after at most four of its steps, and then for every batch that ever arrived each of its paths (other than the folder root) was
handed to a scan that began after the batch arrived, itself or through an ancestor of the same scan. A path that changes again during its own scan is therefore
scanned again. A scan is given only paths that had arrived before it began, and a scan begins only after the one before it has ended.\<close>

theorem every_added_path_scanned:
  assumes "queue_run q T"
  shows "\<exists>U. queue_run ((worker_step ^^ 4) q) (T @ U) \<and> q_worker ((worker_step ^^ 4) q) = Off
    \<and> (\<forall>A rels B. T @ U = A @ Arrived rels # B \<longrightarrow>
         (\<forall>p \<in> set rels - {[], ''.''}. \<exists>b. ScanBegins b \<in> set B \<and> (\<exists>r \<in> set b. p = r \<or> HasPrefix p (r @ ''/''))))
    \<and> (\<forall>A b B. T @ U = A @ ScanBegins b # B \<longrightarrow> set b \<subseteq> arrived_paths A)
    \<and> (\<forall>A b B b' C. T @ U = A @ ScanBegins b # B @ ScanBegins b' # C \<longrightarrow> ScanEnds \<in> set B)"
proof -
  obtain U where run: "queue_run ((worker_step ^^ 4) q) (T @ U)" using worker_run [OF assms] by blast
  have "q_worker ((worker_step ^^ 4) q) = Off" "q_pending ((worker_step ^^ 4) q) = []"
    using queue_run_inv [OF assms] worker_drains [of q] by (auto simp: queue_inv_def)
  note fin = this
  have inv: "queue_inv ((worker_step ^^ 4) q) (T @ U)" by (rule queue_run_inv [OF run])
  have "\<exists>b. ScanBegins b \<in> set B \<and> (\<exists>r \<in> set b. p = r \<or> HasPrefix p (r @ ''/''))"
    if "T @ U = A @ Arrived rels # B" "p \<in> set rels - {[], ''.''}" for A rels B p
  proof -
    have "scanned_after B p" using inv that fin(2) unfolding queue_inv_def real_paths_def by (metis empty_iff empty_set)
    then show ?thesis by (auto simp: scanned_after_def covers_def list_ex_iff)
  qed
  moreover have "set b \<subseteq> arrived_paths A" if "T @ U = A @ ScanBegins b # B" for A b B using inv that unfolding queue_inv_def by blast
  moreover have "ScanEnds \<in> set B" if "T @ U = A @ ScanBegins b # B @ ScanBegins b' # C" for A b B b' C
    using inv that unfolding queue_inv_def scans_alternate_def by blast
  ultimately show ?thesis using run fin(1) by blast
qed

text \<open>A path that changes again while it is being scanned.\<close>

definition rescanned :: pathQueue where
  "rescanned = Add [''a''] (worker_step (Add [''a/x'', ''a''] newPathQueue))"

theorem every_added_path_scanned_witness:
  "\<exists>U. queue_run ((worker_step ^^ 4) rescanned) ([Arrived [''a/x'', ''a''], ScanBegins [''a''], Arrived [''a'']] @ U) \<and> (\<exists>b. ScanBegins b \<in> set U)"
proof -
  have "worker_event (Add [''a/x'', ''a''] newPathQueue) = [ScanBegins [''a'']]" by code_simp
  then have run: "queue_run rescanned [Arrived [''a/x'', ''a''], ScanBegins [''a''], Arrived [''a'']]"
    using add [OF work [OF add [OF start, of "[''a/x'', ''a'']"]], of "[''a'']"] by (simp add: rescanned_def)
  obtain U where U: "queue_run ((worker_step ^^ 4) rescanned) ([Arrived [''a/x'', ''a''], ScanBegins [''a''], Arrived [''a'']] @ U)"
    "\<forall>A rels B. [Arrived [''a/x'', ''a''], ScanBegins [''a''], Arrived [''a'']] @ U = A @ Arrived rels # B \<longrightarrow>
         (\<forall>p \<in> set rels - {[], ''.''}. \<exists>b. ScanBegins b \<in> set B \<and> (\<exists>r \<in> set b. p = r \<or> HasPrefix p (r @ ''/'')))"
    using every_added_path_scanned [OF run] by blast
  have "[Arrived [''a/x'', ''a''], ScanBegins [''a''], Arrived [''a'']] @ U = [Arrived [''a/x'', ''a''], ScanBegins [''a'']] @ Arrived [''a''] # U" by simp
  from U(2) [rule_format, OF this, of "''a''"] have "\<exists>b. ScanBegins b \<in> set U" by auto
  then show ?thesis using U(1) by blast
qed

text \<open>The comment on \<^verbatim>\<open>collapsePaths\<close> says that entries below a kept ancestor are dropped, but only the entry kept last
is compared, and a sibling whose name continues with a character below the slash sorts in between.\<close>

theorem collapse_keeps_covered_path: "collapsePaths [''a'', ''a-b'', ''a/x''] = [''a'', ''a-b'', ''a/x'']"
  by code_simp

section \<open>The sync kicker\<close>

datatype kicker_pc = NoRound | BeforeRound | InRound | AfterRound

record syncKicker =
  k_running :: bool
  k_again :: bool
  k_pc :: kicker_pc

definition newSyncKicker :: syncKicker where
  "newSyncKicker = \<lparr>k_running = False, k_again = False, k_pc = NoRound\<rparr>"

definition Kick :: "syncKicker \<Rightarrow> syncKicker" where
  "Kick k = (if k_running k then k\<lparr>k_again := True\<rparr> else k\<lparr>k_running := True, k_pc := BeforeRound\<rparr>)"

definition round_step :: "syncKicker \<Rightarrow> syncKicker" where
  "round_step k =
     (case k_pc k of
        NoRound \<Rightarrow> k
      | BeforeRound \<Rightarrow> k\<lparr>k_pc := InRound\<rparr>
      | InRound \<Rightarrow> k\<lparr>k_pc := AfterRound\<rparr>
      | AfterRound \<Rightarrow> if \<not> k_again k then k\<lparr>k_running := False, k_pc := NoRound\<rparr> else k\<lparr>k_again := False, k_pc := BeforeRound\<rparr>)"

text \<open>What the kicker promises: a request is remembered until a round begins after it, a round begins only
on a request and rounds do not overlap. A request that comes just before a round begins may cause one more round.\<close>

record requests =
  waiting :: bool
  active :: bool

inductive spec_step :: "requests \<Rightarrow> requests \<Rightarrow> bool" where
  request: "spec_step r (r\<lparr>waiting := True\<rparr>)"
| begin_round: "waiting r \<Longrightarrow> \<not> active r \<Longrightarrow> spec_step r \<lparr>waiting = again, active = True\<rparr>"
| end_round: "active r \<Longrightarrow> spec_step r (r\<lparr>active := False\<rparr>)"

inductive kicker_reach :: "syncKicker \<Rightarrow> bool" where
  init: "kicker_reach newSyncKicker"
| kick: "kicker_reach k \<Longrightarrow> kicker_reach (Kick k)"
| round: "kicker_reach k \<Longrightarrow> kicker_reach (round_step k)"

definition kicker_abs :: "syncKicker \<Rightarrow> requests" where
  "kicker_abs k = \<lparr>waiting = (k_again k \<or> k_pc k = BeforeRound), active = (k_pc k = InRound)\<rparr>"

definition kicker_inv :: "syncKicker \<Rightarrow> bool" where
  "kicker_inv k \<longleftrightarrow> (k_running k \<longleftrightarrow> k_pc k \<noteq> NoRound) \<and> (k_again k \<longrightarrow> k_running k)"

lemma kicker_reach_inv: "kicker_reach k \<Longrightarrow> kicker_inv k"
  by (induction rule: kicker_reach.induct)
    (auto simp: kicker_inv_def newSyncKicker_def Kick_def round_step_def split: kicker_pc.split)

lemma Kick_refines: "kicker_inv k \<Longrightarrow> spec_step (kicker_abs k) (kicker_abs (Kick k))"
proof -
  assume "kicker_inv k"
  then have "kicker_abs (Kick k) = (kicker_abs k)\<lparr>waiting := True\<rparr>" by (auto simp: kicker_abs_def Kick_def kicker_inv_def)
  then show ?thesis using request [of "kicker_abs k"] by simp
qed

lemma round_refines: "kicker_inv k \<Longrightarrow> spec_step\<^sup>=\<^sup>= (kicker_abs k) (kicker_abs (round_step k))"
proof (cases "k_pc k")
  case BeforeRound
  then have "waiting (kicker_abs k)" "\<not> active (kicker_abs k)" "kicker_abs (round_step k) = \<lparr>waiting = k_again k, active = True\<rparr>"
    by (simp_all add: kicker_abs_def round_step_def)
  then show ?thesis using begin_round [of "kicker_abs k" "k_again k"] by simp
next
  case InRound
  then have "active (kicker_abs k)" "kicker_abs (round_step k) = (kicker_abs k)\<lparr>active := False\<rparr>" by (simp_all add: kicker_abs_def round_step_def)
  then show ?thesis using end_round [of "kicker_abs k"] by simp
qed (simp_all add: kicker_abs_def round_step_def)

text \<open>C25. The kicker implements the request specification: every reachable state of the running program is a state the
specification reaches from no request and no round, a kick is a request, and a worker step begins a requested round,
ends the round or changes nothing the specification sees.\<close>

theorem kicker_refines_requests:
  assumes "kicker_reach k"
  shows "spec_step\<^sup>*\<^sup>* \<lparr>waiting = False, active = False\<rparr> (kicker_abs k) \<and> spec_step (kicker_abs k) (kicker_abs (Kick k))
    \<and> (kicker_abs (round_step k) = kicker_abs k \<or> spec_step (kicker_abs k) (kicker_abs (round_step k)))"
proof -
  have "spec_step\<^sup>*\<^sup>* \<lparr>waiting = False, active = False\<rparr> (kicker_abs k)" using assms
  proof (induction rule: kicker_reach.induct)
    case init
    then show ?case by (simp add: kicker_abs_def newSyncKicker_def)
  next
    case (kick k)
    then show ?case using Kick_refines [OF kicker_reach_inv] by (meson rtranclp.rtrancl_into_rtrancl)
  next
    case (round k)
    then show ?case using round_refines [OF kicker_reach_inv [OF round(1)]] by auto
  qed
  then show ?thesis using Kick_refines round_refines [of k] kicker_reach_inv [OF assms] by auto
qed

theorem kicker_refines_requests_witness:
  "spec_step\<^sup>*\<^sup>* \<lparr>waiting = False, active = False\<rparr> (kicker_abs (Kick newSyncKicker)) \<and> waiting (kicker_abs (Kick newSyncKicker))"
  using kicker_refines_requests [OF kick [OF init]] by (simp add: kicker_abs_def Kick_def newSyncKicker_def)

text \<open>C26. No kick is lost: wherever the worker is when a kick arrives, a round begins within the worker's next three
steps even if no other kick comes, and the worker stops by itself after at most seven steps.\<close>

theorem kick_leads_to_round:
  assumes "kicker_reach k"
  shows "(\<exists>n \<le> 2. k_pc ((round_step ^^ n) (Kick k)) = BeforeRound \<and> k_pc ((round_step ^^ Suc n) (Kick k)) = InRound)
    \<and> k_running ((round_step ^^ 7) (Kick k)) = False"
proof -
  note inv = kicker_reach_inv [OF assms, unfolded kicker_inv_def]
  have stop: "\<not> k_running ((round_step ^^ 7) (Kick k))"
    using inv by (cases "k_pc k"; cases "k_again k") (auto simp: eval_nat_numeral Kick_def round_step_def)
  have "k_pc ((round_step ^^ (case k_pc k of NoRound \<Rightarrow> 0 | BeforeRound \<Rightarrow> 0 | InRound \<Rightarrow> 2 | AfterRound \<Rightarrow> 1)) (Kick k)) = BeforeRound"
    using inv by (cases "k_pc k") (auto simp: eval_nat_numeral Kick_def round_step_def)
  moreover have "k_pc (round_step k') = InRound" if "k_pc k' = BeforeRound" for k' using that by (simp add: round_step_def)
  moreover have "(case k_pc k of NoRound \<Rightarrow> 0 | BeforeRound \<Rightarrow> 0 | InRound \<Rightarrow> 2 | AfterRound \<Rightarrow> 1) \<le> (2 :: nat)" by (simp split: kicker_pc.split)
  ultimately show ?thesis using stop by (metis funpow.simps(2) comp_apply)
qed

theorem kick_leads_to_round_witness:
  "k_running ((round_step ^^ 7) (Kick (round_step (Kick newSyncKicker)))) = False"
  using kick_leads_to_round [OF round [OF kick [OF init]]] by blast

end
