(* ===== verification/Conn_Manager.thy ===== *)
theory Conn_Manager
  imports Go_Strconv
begin

text \<open>
  Scheduling of outbound sync attempts with exponential backoff, \<^verbatim>\<open>internal/node/connmgr.go\<close>. Times are
  nanoseconds; the zero \<^verbatim>\<open>time.Time\<close> is \<open>None\<close>. What the sync function returns and what the clock shows at
  the begin and the end of an attempt are arguments. Events and recovery callbacks are collected; log
  lines are not modelled and the retry delay in an event is a number instead of its text.
\<close>

section \<open>State\<close>

definition second :: int where "second = 1000000000"
definition backoffInitial :: int where "backoffInitial = 5 * second"
definition backoffMax :: int where "backoffMax = 5 * 60 * second"

record peerState =
  ps_nextAt :: "int option"
  ps_failures :: int
  ps_lastErr :: string
  ps_lastOK :: int
  ps_lastSync :: int
  ps_roundStart :: int

definition zero_peer :: peerState where
  "zero_peer = \<lparr>ps_nextAt = None, ps_failures = 0, ps_lastErr = [], ps_lastOK = 0, ps_lastSync = 0, ps_roundStart = 0\<rparr>"

datatype offlineReason = FingerprintMismatch | HandshakeFailed | OtherError string

datatype peerEvent = PeerOffline string offlineReason int | PeerBack string

record ConnManager =
  cm_peers :: "(uint64 \<times> string) list"
  cm_inFlight :: "uint64 list"
  cm_state :: "(uint64, peerState) gomap"
  cm_events :: "peerEvent list"
  cm_recovered :: "string list"

definition NewConnManager :: "(uint64 \<times> string) list \<Rightarrow> ConnManager" where
  "NewConnManager ps = \<lparr>cm_peers = ps, cm_inFlight = [], cm_state = [], cm_events = [], cm_recovered = []\<rparr>"

section \<open>Operations\<close>

definition SetPeers :: "(uint64 \<times> string) list \<Rightarrow> ConnManager \<Rightarrow> ConnManager" where
  "SetPeers ps m = m\<lparr>cm_peers := ps, cm_state := filter (\<lambda>(pid, _). list_ex (\<lambda>p. fst p = pid) ps) (cm_state m)\<rparr>"

definition peerName :: "ConnManager \<Rightarrow> uint64 \<Rightarrow> string" where
  "peerName m pid = (case find (\<lambda>p. fst p = pid) (cm_peers m) of Some p \<Rightarrow> snd p | None \<Rightarrow> FormatUint (unat pid) 10)"

fun backoff_loop :: "nat \<Rightarrow> int \<Rightarrow> int" where
  "backoff_loop 0 d = d"
| "backoff_loop (Suc k) d = (if d * 2 \<ge> backoffMax then backoffMax else backoff_loop k (d * 2))"

definition backoffDelay :: "int \<Rightarrow> int" where
  "backoffDelay n = backoff_loop (nat (n - 1)) backoffInitial"

definition peerOfflineReason :: "string \<Rightarrow> offlineReason" where
  "peerOfflineReason err =
     (let s = ToLower err in
        if Contains s ''fingerprint is not in the allowlist'' \<or> Contains s ''fingerprint mismatch''
           \<or> Contains s ''certificate'' \<and> (Contains s ''verify'' \<or> Contains s ''not in'') then FingerprintMismatch
        else if Contains s ''tls'' then HandshakeFailed
        else OtherError err)"

definition stateFor :: "uint64 \<Rightarrow> ConnManager \<Rightarrow> ConnManager \<times> peerState" where
  "stateFor pid m =
     (case mget (cm_state m) pid of
        Some st \<Rightarrow> (m, st)
      | None \<Rightarrow> (m\<lparr>cm_state := mset_at (cm_state m) pid zero_peer\<rparr>, zero_peer))"

definition inFlightMuOK :: "int \<Rightarrow> uint64 \<Rightarrow> ConnManager \<Rightarrow> ConnManager \<times> bool" where
  "inFlightMuOK now pid m =
     (if pid \<in> set (cm_inFlight m) then (m, False)
      else let st = (case mget (cm_state m) pid of Some st \<Rightarrow> st | None \<Rightarrow> zero_peer) in
        (m\<lparr>cm_inFlight := pid # cm_inFlight m, cm_state := mset_at (cm_state m) pid (st\<lparr>ps_roundStart := now\<rparr>)\<rparr>, True))"

definition clearInFlight :: "uint64 \<Rightarrow> ConnManager \<Rightarrow> ConnManager" where
  "clearInFlight pid m =
     m\<lparr>cm_inFlight := removeAll pid (cm_inFlight m),
       cm_state := (case mget (cm_state m) pid of None \<Rightarrow> cm_state m | Some st \<Rightarrow> mset_at (cm_state m) pid (st\<lparr>ps_roundStart := 0\<rparr>))\<rparr>"

definition succeeded :: "int \<Rightarrow> uint64 \<Rightarrow> int \<Rightarrow> ConnManager \<Rightarrow> ConnManager \<times> bool" where
  "succeeded now pid synced m =
     (case mget (cm_state m) pid of
        None \<Rightarrow> (m, False)
      | Some st \<Rightarrow>
          (m\<lparr>cm_state := mset_at (cm_state m) pid (st\<lparr>ps_failures := 0, ps_lastErr := [], ps_nextAt := None, ps_lastOK := now,
               ps_lastSync := (if synced > 0 then now else ps_lastSync st)\<rparr>)\<rparr>, ps_failures st > 0))"

definition failed :: "int \<Rightarrow> uint64 \<Rightarrow> string \<Rightarrow> ConnManager \<Rightarrow> ConnManager" where
  "failed now pid err m =
     (case mget (cm_state m) pid of
        None \<Rightarrow> m
      | Some st \<Rightarrow>
          (let n = ps_failures st + 1; delay = backoffDelay n;
               m1 = m\<lparr>cm_state := mset_at (cm_state m) pid (st\<lparr>ps_failures := n, ps_nextAt := Some (now + delay), ps_lastErr := err\<rparr>)\<rparr> in
             if ps_failures st = 0 \<or> err \<noteq> ps_lastErr st
             then m1\<lparr>cm_events := cm_events m @ [PeerOffline (peerName m pid) (peerOfflineReason err) delay]\<rparr> else m1))"

text \<open>One attempt: what the clock shows when it claims the slot, when it looks at the backoff and when it is over, and
what the sync function returns.\<close>

record Attempt =
  at_claim :: int
  at_check :: int
  at_end :: int
  at_result :: "string + int"

definition recovered :: "string \<Rightarrow> bool \<Rightarrow> ConnManager \<Rightarrow> ConnManager" where
  "recovered name transitioned m =
     (let m1 = m\<lparr>cm_recovered := cm_recovered m @ [name]\<rparr>
      in if transitioned then m1\<lparr>cm_events := cm_events m1 @ [PeerBack name]\<rparr> else m1)"

definition backed_off :: "int \<Rightarrow> peerState \<Rightarrow> bool" where
  "backed_off now st \<longleftrightarrow> (case ps_nextAt st of None \<Rightarrow> False | Some t \<Rightarrow> now < t)"

text \<open>\<^verbatim>\<open>Ping\<close>; the second component says whether the sync function was called.\<close>

definition Ping :: "Attempt \<Rightarrow> uint64 \<Rightarrow> ConnManager \<Rightarrow> ConnManager \<times> bool" where
  "Ping a pid m =
     (case inFlightMuOK (at_claim a) pid m of
        (m1, False) \<Rightarrow> (m1, False)
      | (m1, True) \<Rightarrow>
          (let (m2, st) = stateFor pid m1 in
             if backed_off (at_check a) st then (clearInFlight pid m2, False)
             else case at_result a of
                 Inl err \<Rightarrow> (clearInFlight pid (failed (at_end a) pid err m2), True)
               | Inr synced \<Rightarrow>
                   (let (m3, transitioned) = succeeded (at_end a) pid synced m2
                    in (clearInFlight pid (recovered (peerName m3 pid) transitioned m3), True))))"

definition sync_peer :: "(uint64 \<Rightarrow> Attempt) \<Rightarrow> int \<Rightarrow> uint64 \<times> string \<Rightarrow> ConnManager \<Rightarrow> ConnManager \<times> bool" where
  "sync_peer env now p m =
     (let (pid, name) = p; a = env pid; (m1, st) = stateFor pid m in
        if backed_off now st then (m1, False)
        else case inFlightMuOK (at_claim a) pid m1 of
            (m2, False) \<Rightarrow> (m2, False)
          | (m2, True) \<Rightarrow>
              (let m3 = clearInFlight pid m2 in
                 case at_result a of
                   Inl err \<Rightarrow> (failed (at_end a) pid err m3, True)
                 | Inr synced \<Rightarrow> (let (m4, transitioned) = succeeded (at_end a) pid synced m3 in (recovered name transitioned m4, True))))"

text \<open>\<^verbatim>\<open>SyncAll\<close> with the peers it called.\<close>

fun sync_loop :: "(uint64 \<Rightarrow> Attempt) \<Rightarrow> int \<Rightarrow> (uint64 \<times> string) list \<Rightarrow> ConnManager \<Rightarrow> ConnManager \<times> uint64 list" where
  "sync_loop env now [] m = (m, [])"
| "sync_loop env now (p # ps) m =
     (let (m1, called) = sync_peer env now p m; (m2, calls) = sync_loop env now ps m1
      in (m2, if called then fst p # calls else calls))"

definition SyncAll :: "(uint64 \<Rightarrow> Attempt) \<Rightarrow> int \<Rightarrow> ConnManager \<Rightarrow> ConnManager \<times> uint64 list" where
  "SyncAll env now m = sync_loop env now (cm_peers m) m"

definition LastOnline :: "ConnManager \<Rightarrow> uint64 \<Rightarrow> int option" where
  "LastOnline m pid =
     (case mget (cm_state m) pid of
        None \<Rightarrow> None
      | Some st \<Rightarrow> if ps_roundStart st > ps_lastOK st then Some (ps_roundStart st) else if ps_lastOK st > 0 then Some (ps_lastOK st) else None)"

definition LastSync :: "ConnManager \<Rightarrow> uint64 \<Rightarrow> int option" where
  "LastSync m pid = (case mget (cm_state m) pid of Some st \<Rightarrow> if ps_lastSync st > 0 then Some (ps_lastSync st) else None | None \<Rightarrow> None)"

definition LastOK :: "ConnManager \<Rightarrow> uint64 \<Rightarrow> int option" where
  "LastOK m pid = LastOnline m pid"

section \<open>The delay\<close>

lemma backoff_loop_power: "backoffInitial \<le> d \<Longrightarrow> d \<le> backoffMax \<Longrightarrow> backoff_loop k d = min backoffMax (d * 2 ^ k)"
proof (induction k arbitrary: d)
  case (Suc k)
  have d: "0 < d" using Suc.prems(1) by (simp add: backoffInitial_def second_def)
  show ?case
  proof (cases "d * 2 \<ge> backoffMax")
    case True
    have "d * 2 * 1 \<le> d * 2 * 2 ^ k" using d by (intro mult_left_mono) auto
    then show ?thesis using True by (simp add: min_def)
  next
    case False
    then show ?thesis using Suc.IH [of "d * 2"] Suc.prems d by (simp add: mult.assoc)
  qed
qed (simp add: min_def)

lemma backoffDelay_eq: "backoffDelay n = min backoffMax (backoffInitial * 2 ^ nat (n - 1))"
  unfolding backoffDelay_def by (rule backoff_loop_power) (simp_all add: backoffInitial_def backoffMax_def second_def)

section \<open>Scheduling\<close>

definition peer :: "ConnManager \<Rightarrow> uint64 \<Rightarrow> peerState" where
  "peer m i = (case mget (cm_state m) i of Some st \<Rightarrow> st | None \<Rightarrow> zero_peer)"

definition backoff :: "peerState \<Rightarrow> int \<times> int option" where
  "backoff st = (ps_failures st, ps_nextAt st)"

text \<open>What one attempt that ends with the given result leaves of a peer's backoff.\<close>

definition after_attempt :: "Attempt \<Rightarrow> peerState \<Rightarrow> int \<times> int option" where
  "after_attempt a st =
     (case at_result a of
        Inr _ \<Rightarrow> (0, None)
      | Inl _ \<Rightarrow> (ps_failures st + 1, Some (at_end a + min backoffMax (backoffInitial * 2 ^ nat (ps_failures st)))))"

lemma stateFor_peer:
  "stateFor i m = (m1, st) \<Longrightarrow> st = peer m i \<and> peer m1 = peer m \<and> cm_inFlight m1 = cm_inFlight m \<and> mget (cm_state m1) i = Some st"
  by (cases "mget (cm_state m) i") (auto simp: stateFor_def peer_def fun_eq_iff)

lemma failed_peer:
  "mget (cm_state m) i = Some st \<Longrightarrow> cm_inFlight (failed t i err m) = cm_inFlight m
     \<and> peer (failed t i err m) = (peer m)(i := st\<lparr>ps_failures := ps_failures st + 1, ps_nextAt := Some (t + backoffDelay (ps_failures st + 1)), ps_lastErr := err\<rparr>)"
  by (auto simp: failed_def peer_def Let_def fun_eq_iff)

lemma succeeded_peer:
  "mget (cm_state m) i = Some st \<Longrightarrow> succeeded t i n m = (m', b) \<Longrightarrow> cm_inFlight m' = cm_inFlight m
     \<and> (\<exists>st'. peer m' = (peer m)(i := st') \<and> backoff st' = (0, None) \<and> ps_lastOK st' = t)"
  by (auto simp: succeeded_def peer_def backoff_def fun_eq_iff intro!: exI)

lemma recovered_simps [simp]: "peer (recovered n b m) = peer m" "cm_inFlight (recovered n b m) = cm_inFlight m"
  by (auto simp: recovered_def peer_def Let_def fun_eq_iff)

lemma claim_release:
  assumes "i \<notin> set (cm_inFlight m)" and "mget (cm_state m) i = Some st" and "inFlightMuOK t i m = (m1, b)"
  shows "b \<and> cm_inFlight (clearInFlight i m1) = cm_inFlight m \<and> mget (cm_state (clearInFlight i m1)) i = Some (st\<lparr>ps_roundStart := 0\<rparr>)
    \<and> peer (clearInFlight i m1) = (peer m)(i := st\<lparr>ps_roundStart := 0\<rparr>)"
  using assms by (auto simp: inFlightMuOK_def clearInFlight_def peer_def fun_eq_iff removeAll_id)

lemma sync_peer_effect:
  assumes "sync_peer env now (i, n) m = (m', called)"
  shows "cm_inFlight m' = cm_inFlight m" and "called \<longleftrightarrow> \<not> backed_off now (peer m i) \<and> i \<notin> set (cm_inFlight m)"
    and "j \<noteq> i \<Longrightarrow> peer m' j = peer m j"
    and "backoff (peer m' i) = (if called then after_attempt (env i) (peer m i) else backoff (peer m i))"
    and "called \<Longrightarrow> at_result (env i) = Inr k \<Longrightarrow> ps_lastOK (peer m' i) = at_end (env i)"
proof -
  obtain m1 st where s: "stateFor i m = (m1, st)" by (cases "stateFor i m")
  note st = stateFor_peer [OF s]
  obtain m2 b where c: "inFlightMuOK (at_claim (env i)) i m1 = (m2, b)" by (cases "inFlightMuOK (at_claim (env i)) i m1")
  have all: "cm_inFlight m' = cm_inFlight m \<and> (called \<longleftrightarrow> \<not> backed_off now (peer m i) \<and> i \<notin> set (cm_inFlight m)) \<and> (j \<noteq> i \<longrightarrow> peer m' j = peer m j)
    \<and> backoff (peer m' i) = (if called then after_attempt (env i) (peer m i) else backoff (peer m i))
    \<and> (called \<longrightarrow> at_result (env i) = Inr k \<longrightarrow> ps_lastOK (peer m' i) = at_end (env i))" for j
  proof (cases "backed_off now st \<or> i \<in> set (cm_inFlight m)")
    case True
    then have "m' = m1 \<and> \<not> called" using assms s st by (auto simp: sync_peer_def inFlightMuOK_def Let_def split: if_splits)
    then show ?thesis using True st by auto
  next
    case False
    let ?m3 = "clearInFlight i m2"
    have m3: "b" "cm_inFlight ?m3 = cm_inFlight m" "mget (cm_state ?m3) i = Some (st\<lparr>ps_roundStart := 0\<rparr>)" "peer ?m3 = (peer m)(i := st\<lparr>ps_roundStart := 0\<rparr>)"
      using claim_release [OF _ _ c, of st] False st by auto
    show ?thesis
    proof (cases "at_result (env i)")
      case (Inl err)
      then have "m' = failed (at_end (env i)) i err ?m3 \<and> called" using assms s c m3(1) False by (auto simp: sync_peer_def)
      then show ?thesis using failed_peer [OF m3(3), of "at_end (env i)" err] m3 False st Inl
        by (auto simp: backoff_def after_attempt_def backoffDelay_eq)
    next
      case (Inr n')
      obtain m4 tr where su: "succeeded (at_end (env i)) i n' ?m3 = (m4, tr)" by (cases "succeeded (at_end (env i)) i n' ?m3")
      then have "m' = recovered n tr m4 \<and> called" using assms s c m3(1) False Inr by (auto simp: sync_peer_def)
      then show ?thesis using succeeded_peer [OF m3(3) su] m3 False st Inr by (auto simp: after_attempt_def)
    qed
  qed
  show "cm_inFlight m' = cm_inFlight m" "called \<longleftrightarrow> \<not> backed_off now (peer m i) \<and> i \<notin> set (cm_inFlight m)"
    "j \<noteq> i \<Longrightarrow> peer m' j = peer m j" "backoff (peer m' i) = (if called then after_attempt (env i) (peer m i) else backoff (peer m i))"
    "called \<Longrightarrow> at_result (env i) = Inr k \<Longrightarrow> ps_lastOK (peer m' i) = at_end (env i)"
    using all by blast+
qed

lemma sync_loop_other: "sync_loop env now ps m = (m', calls) \<Longrightarrow> i \<notin> fst ` set ps \<Longrightarrow> peer m' i = peer m i \<and> i \<notin> set calls \<and> cm_inFlight m' = cm_inFlight m"
proof (induction ps arbitrary: m m' calls)
  case (Cons p ps)
  obtain k n where p: "p = (k, n)" by (cases p)
  obtain m1 called where s: "sync_peer env now (k, n) m = (m1, called)" by (cases "sync_peer env now (k, n) m")
  obtain m2 calls2 where l: "sync_loop env now ps m1 = (m2, calls2)" by (cases "sync_loop env now ps m1")
  then show ?case using Cons.IH [OF l] Cons.prems s p sync_peer_effect(1,3) [OF s] by (auto split: if_splits)
qed simp

lemma sync_loop_peer:
  "sync_loop env now ps m = (m', calls) \<Longrightarrow> distinct (map fst ps) \<Longrightarrow> i \<in> fst ` set ps \<Longrightarrow>
     (i \<in> set calls \<longleftrightarrow> \<not> backed_off now (peer m i) \<and> i \<notin> set (cm_inFlight m))
     \<and> backoff (peer m' i) = (if i \<in> set calls then after_attempt (env i) (peer m i) else backoff (peer m i)) \<and> cm_inFlight m' = cm_inFlight m"
proof (induction ps arbitrary: m calls)
  case (Cons p ps)
  obtain k n where p: "p = (k, n)" by (cases p)
  obtain m1 called where s: "sync_peer env now (k, n) m = (m1, called)" by (cases "sync_peer env now (k, n) m")
  obtain m2 calls2 where l: "sync_loop env now ps m1 = (m2, calls2)" by (cases "sync_loop env now ps m1")
  have r: "m' = m2" "calls = (if called then k # calls2 else calls2)" using Cons.prems(1) s l p by auto
  show ?case
  proof (cases "i = k")
    case True
    then have "i \<notin> fst ` set ps" using Cons.prems(2) p by (auto simp: image_iff)
    from sync_loop_other [OF l this] have o2: "peer m2 i = peer m1 i" "i \<notin> set calls2" "cm_inFlight m2 = cm_inFlight m1" by auto
    have "i \<in> set calls \<longleftrightarrow> called" using r(2) o2(2) True by auto
    then show ?thesis using o2 sync_peer_effect(1,2,4) [OF s] r(1) True by simp
  next
    case False
    then have "i \<in> set calls \<longleftrightarrow> i \<in> set calls2" "peer m1 i = peer m i" using r(2) sync_peer_effect(3) [OF s, of i] by auto
    then show ?thesis using Cons.IH [OF l [folded r(1)]] Cons.prems(2,3) sync_peer_effect(1) [OF s] p False by simp
  qed
qed simp

text \<open>C27. One scheduler round: a configured peer is called exactly when it is not backed off and no session with it is
running; a failed call makes its next attempt wait the initial delay doubled once per earlier consecutive failure, at most
the maximal delay, from the end of the call; a successful call clears the backoff; a peer that was not called keeps its
backoff, and the round leaves no peer marked as busy.\<close>

theorem backoff_schedule:
  assumes "SyncAll env now m = (m', calls)" and "distinct (map fst (cm_peers m))" and "i \<in> fst ` set (cm_peers m)"
  shows "(i \<in> set calls \<longleftrightarrow> \<not> backed_off now (peer m i) \<and> i \<notin> set (cm_inFlight m))
    \<and> backoff (peer m' i) = (if i \<in> set calls then after_attempt (env i) (peer m i) else backoff (peer m i))
    \<and> cm_inFlight m' = cm_inFlight m"
  using sync_loop_peer [of env now "cm_peers m" m m' calls i] assms by (simp add: SyncAll_def)

definition failing_env :: "uint64 \<Rightarrow> Attempt" where
  "failing_env i = \<lparr>at_claim = 1, at_check = 1, at_end = 7, at_result = Inl ''connection refused''\<rparr>"

theorem backoff_schedule_witness:
  "\<exists>m' calls. SyncAll failing_env 1 (NewConnManager [(7, ''nas''), (9, ''pi'')]) = (m', calls) \<and> 9 \<in> set calls
     \<and> backoff (peer m' 9) = (1, Some (7 + backoffInitial))"
proof -
  let ?m = "NewConnManager [(7, ''nas''), (9, ''pi'')]"
  obtain m' calls where run: "SyncAll failing_env 1 ?m = (m', calls)" by (cases "SyncAll failing_env 1 ?m")
  have "peer ?m 9 = zero_peer" "cm_inFlight ?m = []" "distinct (map fst (cm_peers ?m))" "9 \<in> fst ` set (cm_peers ?m)"
    by (simp_all add: peer_def NewConnManager_def)
  then show ?thesis using backoff_schedule [OF run, of 9] run
    by (simp add: backed_off_def zero_peer_def after_attempt_def failing_env_def backoffInitial_def backoffMax_def second_def)
qed

end
