(* ===== verification/Exchange_Exact.thy ===== *)
theory Exchange_Exact
  imports Exchange
begin

text \<open>
  The index exchange keeps the peer's view exact. A run of a sender and a receiver is a sequence of index writes,
  completed exchanges, exchanges that break off anywhere, single updates, recorded markers and restarts; in every run a
  completed exchange, a delta or a full one and cut into frames of any number, leaves the receiver with exactly the
  entries of the sender's index.
\<close>

section \<open>What is sent\<close>

function frames :: "nat \<Rightarrow> (bool \<Rightarrow> FileMessage list \<Rightarrow> Message) \<Rightarrow> FileMessage list \<Rightarrow> Message list" where
  "frames chunk mk fms =
     (if length fms \<le> chunk \<or> chunk = 0 then [mk True fms] else mk False (take chunk fms) # frames chunk mk (drop chunk fms))"
  by pat_completeness auto
termination
  by (relation "measure (\<lambda>(chunk, mk, fms). length fms)") auto

declare frames.simps [simp del]

definition same_conn :: "Conn \<Rightarrow> Conn \<Rightarrow> bool" where
  "same_conn c c' \<longleftrightarrow> cn_PeerID c' = cn_PeerID c \<and> cn_PeerSession c' = cn_PeerSession c \<and> cn_PeerProtocol c' = cn_PeerProtocol c"

lemma Send_out: "Send m c = (c', r) \<Longrightarrow> same_conn c c' \<and> cn_out c' = cn_out c @ (if r = None then [m] else [])"
  by (auto simp: Send_def same_conn_def split: if_splits)

lemma send_chunks_out:
  "send_chunks chunk mk fms c = (c', r) \<Longrightarrow>
     same_conn c c' \<and> (\<exists>k. cn_out c' = cn_out c @ take k (frames chunk mk fms) \<and> (r = None \<longrightarrow> length (frames chunk mk fms) \<le> k))"
proof (induction chunk mk fms c rule: send_chunks.induct)
  case (1 chunk mk fms c)
  show ?case
  proof (cases "length fms \<le> chunk \<or> chunk = 0")
    case True
    then show ?thesis using "1.prems" Send_out [of "mk True fms" c c' r]
      by (cases r) (auto simp: send_chunks.simps [of chunk mk fms] frames.simps [of chunk mk fms] intro: exI [of _ 0] exI [of _ 1])
  next
    case False
    obtain c1 r1 where s: "Send (mk False (take chunk fms)) c = (c1, r1)" by (cases "Send (mk False (take chunk fms)) c")
    show ?thesis
    proof (cases r1)
      case (Some e)
      then show ?thesis using "1.prems" False s Send_out [OF s] by (auto simp: send_chunks.simps [of chunk mk fms] intro: exI [of _ 0])
    next
      case None
      have "send_chunks chunk mk (drop chunk fms) c1 = (c', r)"
        using "1.prems" False s None by (simp add: send_chunks.simps [of chunk mk fms])
      from "1.IH" [OF False _ None this] s obtain k where k: "same_conn c1 c'"
        "cn_out c' = cn_out c1 @ take k (frames chunk mk (drop chunk fms))" "r = None \<longrightarrow> length (frames chunk mk (drop chunk fms)) \<le> k"
        by auto
      have "same_conn c c'" using k(1) Send_out [OF s] by (simp add: same_conn_def)
      then show ?thesis using k False None Send_out [OF s]
        by (simp add: frames.simps [of chunk mk fms]) (intro exI [of _ "Suc k"], simp)
    qed
  qed
qed

lemma send_one_out: "Send m c = (c', r) \<Longrightarrow> same_conn c c' \<and> (\<exists>k. cn_out c' = cn_out c @ take k [m] \<and> (r = None \<longrightarrow> length [m] \<le> k))"
  using Send_out [of m c c' r] by (cases r) (auto intro: exI [of _ 0] exI [of _ 1])

section \<open>Generations and markers\<close>

definition gen :: "Index \<Rightarrow> string" where
  "gen ix = (case mget (meta ix) ''index_id'' of Some (MText i) \<Rightarrow> i | _ \<Rightarrow> [])"

definition gen_ok :: "uint64 \<Rightarrow> Index \<Rightarrow> bool" where
  "gen_ok p ix \<longleftrightarrow>
     (case mget (meta ix) ''index_id'' of
        None \<Rightarrow> indexID ix = [] \<and> mget (meta ix) (peerIndexKey p) = None
      | Some v \<Rightarrow> \<exists>i. v = MText i \<and> i \<noteq> [] \<and> indexID ix \<in> {[], i})
     \<and> (\<forall>v. mget (meta ix) (peerIndexKey p) = Some v \<longrightarrow> (\<exists>st. v = MPeer st))"

definition marker :: "uint64 \<Rightarrow> string \<Rightarrow> Index \<Rightarrow> int option" where
  "marker p session ix =
     (case mget (meta ix) (peerIndexKey p) of
        Some (MPeer st) \<Rightarrow> if pi_IndexID st = gen ix \<and> sessionValid (pi_SessionID st) session then Some (pi_MaxSeq st) else None
      | _ \<Rightarrow> None)"

definition good_ix :: "uint64 \<Rightarrow> Index \<Rightarrow> bool" where
  "good_ix p ix \<longleftrightarrow> ix_wf ix \<and> healthy ix \<and> gen_ok p ix"

text \<open>Two indexes with the same rows, counter and health.\<close>

definition same_rows :: "Index \<Rightarrow> Index \<Rightarrow> bool" where
  "same_rows ix ix' \<longleftrightarrow> files ix' = files ix \<and> nextSeq ix' = nextSeq ix \<and> healthy ix' = healthy ix"

lemma same_rows_simps:
  "same_rows ix ix' \<Longrightarrow> entry ix' = entry ix" "same_rows ix ix' \<Longrightarrow> entries ix' = entries ix"
  "same_rows ix ix' \<Longrightarrow> ix_wf ix' = ix_wf ix" "same_rows ix ix' \<Longrightarrow> MaxSeq ix' = MaxSeq ix"
  by (simp_all add: same_rows_def entry_def [abs_def] entries_def ix_wf_def MaxSeq_def)

lemma peerIndexKey_ne [simp]: "peerIndexKey p \<noteq> ''index_id''" "''index_id'' \<noteq> peerIndexKey p"
  by (simp_all add: peerIndexKey_def)

lemma IndexID_ok:
  assumes "good_ix p ix" and "fresh \<noteq> []"
  shows "\<exists>ix'. IndexID fresh ix = (ix', Inr (gen ix')) \<and> same_rows ix ix' \<and> good_ix p ix'
    \<and> mget (meta ix') (peerIndexKey p) = mget (meta ix) (peerIndexKey p) \<and> (\<forall>s. marker p s ix' = marker p s ix)
    \<and> (gen ix \<noteq> [] \<longrightarrow> gen ix' = gen ix) \<and> gen ix' \<noteq> []"
proof (cases "mget (meta ix) ''index_id''")
  case None
  have h: "\<not> fault_meta ix" "indexID ix = []" "mget (meta ix) (peerIndexKey p) = None"
    using assms None by (auto simp: good_ix_def gen_ok_def healthy_simps)
  let ?ix = "ix\<lparr>meta := mset_at (meta ix) ''index_id'' (MText fresh), indexID := fresh\<rparr>"
  have r: "same_rows ix ?ix" by (simp add: same_rows_def healthy_def)
  show ?thesis using assms None h r same_rows_simps(3) [OF r]
    by (intro exI [of _ ?ix]) (auto simp: IndexID_def gen_def gen_ok_def good_ix_def marker_def healthy_def)
next
  case (Some v)
  then obtain i where v: "v = MText i" "i \<noteq> []" "indexID ix = [] \<or> indexID ix = i"
    using assms(1) by (auto simp: good_ix_def gen_ok_def)
  let ?ix = "if indexID ix = [] then ix\<lparr>indexID := i\<rparr> else ix"
  have r: "same_rows ix ?ix" by (simp add: same_rows_def healthy_def)
  have h: "\<not> fault_meta ix" using assms by (simp add: good_ix_def healthy_simps)
  have m: "meta ?ix = meta ix" by simp
  then have g: "gen ?ix = i" "gen ix = i" using Some v(1) by (simp_all add: gen_def)
  have mk: "marker p s ?ix = marker p s ix" for s unfolding marker_def m g by (rule refl)
  have "gen_ok p ?ix" using assms(1) Some v m by (auto simp: good_ix_def gen_ok_def)
  then have "good_ix p ?ix" using assms(1) r same_rows_simps(3) [OF r] by (simp add: good_ix_def same_rows_def)
  moreover have "IndexID fresh ix = (?ix, Inr i)" using Some v h by (auto simp: IndexID_def)
  ultimately show ?thesis using r m g mk v(2) by (intro exI [of _ ?ix]) simp
qed

definition to_send :: "uint64 \<Rightarrow> string \<Rightarrow> Index \<Rightarrow> FileInfo list" where
  "to_send p session ix = (case marker p session ix of Some M \<Rightarrow> filter (\<lambda>fi. M < Sequence fi) (entries ix) | None \<Rightarrow> entries ix)"

lemma index_files_ok:
  assumes "good_ix p ix"
  shows "index_files ix (gen ix) p session = Inr (marker p session ix \<noteq> None, map toFileMessage (to_send p session ix))"
proof -
  have h: "\<not> fault_meta ix" "\<not> fault_scan ix" "ix_wf ix" using assms by (simp_all add: good_ix_def healthy_simps)
  show ?thesis
  proof (cases "mget (meta ix) (peerIndexKey p)")
    case None
    then show ?thesis using h
      by (simp add: index_files_def GetPeerIndex_def GetMeta_def to_send_def marker_def Ix_ListAll_entries)
  next
    case (Some v)
    then obtain st where "v = MPeer st" using assms by (auto simp: good_ix_def gen_ok_def)
    then show ?thesis using Some h
      by (simp add: index_files_def GetPeerIndex_def GetMeta_def to_send_def marker_def Ix_ListAll_entries Ix_ListAfter_entries)
  qed
qed

section \<open>Exactness up to a sequence\<close>

definition upto_seq :: "Index \<Rightarrow> int \<Rightarrow> (string \<Rightarrow> FileInfo option) \<Rightarrow> bool" where
  "upto_seq ix M g \<longleftrightarrow> M < nextSeq ix \<and> (\<forall>n fi. entry ix n = Some fi \<and> Sequence fi \<le> M \<longrightarrow> g n = Some (wire fi))
     \<and> (\<forall>n. g n \<noteq> None \<longrightarrow> entry ix n \<noteq> None)"

definition current :: "Index \<Rightarrow> FileInfo list \<Rightarrow> bool" where
  "current ix fis \<longleftrightarrow> (\<forall>f \<in> set fis. \<exists>fi. entry ix (Name f) = Some fi \<and> f = wire fi)"

lemma overlay_in: "n \<in> Name ` set fis \<Longrightarrow> \<exists>f \<in> set fis. Name f = n \<and> overlay fis g n = Some f"
proof (induction fis arbitrary: g)
  case (Cons x xs)
  show ?case
  proof (cases "n \<in> Name ` set xs")
    case True
    then show ?thesis using Cons.IH by (auto simp: overlay_Cons)
  next
    case False
    then show ?thesis using Cons.prems by (auto simp: overlay_Cons overlay_other)
  qed
qed simp

lemma upto_overlay:
  assumes "upto_seq ix M g" and "current ix fis"
  shows "upto_seq ix M (overlay fis g)"
proof -
  have "overlay fis g n = map_option wire (entry ix n)" if "n \<in> Name ` set fis" for n
    using overlay_in [OF that, of g] assms(2) by (auto simp: current_def)
  then have "overlay fis g n = (if n \<in> Name ` set fis then map_option wire (entry ix n) else g n)" for n by (simp add: overlay_other)
  moreover have "entry ix n \<noteq> None" if "n \<in> Name ` set fis" for n using that assms(2) by (auto simp: current_def)
  ultimately show ?thesis using assms(1) by (auto simp: upto_seq_def)
qed

lemma type_int_int_type: "type_int (int_type n) = n"
  by (simp add: int_type_def)

lemma wire_entry: "ix_wf ix \<Longrightarrow> entry ix n = Some fi \<Longrightarrow> wire fi = fi\<lparr>Sequence := 0\<rparr>"
proof -
  assume "ix_wf ix" "entry ix n = Some fi"
  then obtain r where r: "mget (files ix) n = Some r" "fi = dec r" "ix_wf ix" by (auto simp: entry_def)
  then have "scanRow r = Inr fi" using row_ok_dec(1) [OF ix_wf_row [OF r(3) mget_Some_in [OF r(1)]]] by simp
  then have "int_type (type_int (Type fi)) = Type fi" by (auto simp: scanRow_def type_int_int_type split: sum.splits)
  then show ?thesis by (simp add: wire_def fromFileMessage_def toFileMessage_def)
qed

lemma to_send_current: "ix_wf ix \<Longrightarrow> current ix (map wire (to_send p session ix))"
  using in_entries_iff [of ix] by (auto simp: current_def to_send_def split: option.splits)

lemma exchange_overlay:
  assumes wf: "ix_wf ix" and basis: "\<And>M. marker p session ix = Some M \<Longrightarrow> upto_seq ix M g"
  shows "overlay (map wire (to_send p session ix)) (if marker p session ix \<noteq> None then g else (\<lambda>_. None)) n = map_option wire (entry ix n)"
proof -
  let ?fis = "map wire (to_send p session ix)"
  let ?g = "if marker p session ix \<noteq> None then g else (\<lambda>_. None)"
  show ?thesis
  proof (cases "n \<in> Name ` set ?fis")
    case True
    obtain f where f: "f \<in> set ?fis" "Name f = n" "overlay ?fis ?g n = Some f" using overlay_in [OF True, of ?g] by blast
    then obtain fi where "entry ix n = Some fi" "f = wire fi"
      using to_send_current [OF wf, of p session] unfolding current_def by blast
    then show ?thesis using f(3) by simp
  next
    case False
    have sent: "Name fi \<noteq> n" if "fi \<in> set (to_send p session ix)" for fi
      using False that by (metis Name_wire image_eqI list.set_map)
    have e: "entry ix n = Some fi \<Longrightarrow> fi \<in> set (entries ix) \<and> Name fi = n" for fi
      using in_entries_iff [OF wf, of fi] entry_wf(1) [OF wf, of n fi] by auto
    have "?g n = map_option wire (entry ix n)"
    proof (cases "marker p session ix")
      case None
      then show ?thesis using sent e by (cases "entry ix n") (auto simp: to_send_def)
    next
      case (Some M)
      then show ?thesis using sent e basis [OF Some] by (cases "entry ix n") (force simp: to_send_def upto_seq_def)+
    qed
    then show ?thesis using overlay_other [OF False] by simp
  qed
qed

section \<open>Folders of a node\<close>

definition eng :: "Node \<Rightarrow> string \<Rightarrow> Engine option" where
  "eng n i = map_option fo_Engine (mget (nd_Folders n) i)"

lemma eng_set_engine [simp]: "eng (set_engine i e n) = (if eng n i = None then eng n else (eng n)(i \<mapsto> e))"
  by (rule ext) (auto simp: eng_def set_engine_def split: option.splits)

lemma session_set_engine [simp]: "nd_SessionID (set_engine i e n) = nd_SessionID n"
  by (simp add: set_engine_def split: option.splits)

lemma eng_SentEntries [simp]: "eng (n\<lparr>nd_SentEntries := k\<rparr>) = eng n"
  by (simp add: eng_def fun_eq_iff)

lemma mergeIndex_eng:
  "eng n (im_Folder msg) = Some e \<Longrightarrow>
     eng (mergeIndex now p msg st n) = (eng n)(im_Folder msg \<mapsto> merge_frame now p msg (map_option (\<lambda>ss. im_Folder msg \<in> set ss) st) e)"
  "eng n (im_Folder msg) = None \<Longrightarrow> mergeIndex now p msg st n = n"
  "nd_SessionID (mergeIndex now p msg st n) = nd_SessionID n"
proof -
  show "eng (mergeIndex now p msg st n) = (eng n)(im_Folder msg \<mapsto> merge_frame now p msg (map_option (\<lambda>ss. im_Folder msg \<in> set ss) st) e)"
    if e: "eng n (im_Folder msg) = Some e"
  proof -
    obtain f where "mget (nd_Folders n) (im_Folder msg) = Some f" "fo_Engine f = e" using e by (auto simp: eng_def)
    then show ?thesis using e by (simp add: mergeIndex_def)
  qed
qed (auto simp: mergeIndex_def eng_def split: option.splits)

section \<open>Receiving all frames of a folder\<close>

lemma recv_frames:
  assumes "\<And>b fs. mk b fs = index_frame i upd g mx b fs" and "i \<in> set rem" and "eng R i = Some e"
  shows "\<exists>R' e'. (\<forall>ms. recv_loop now p rem str (frames chunk mk fms @ ms) R = recv_loop now p (removeAll i rem) (removeAll i str) ms R')
    \<and> eng R' = (eng R)(i \<mapsto> e') \<and> nd_SessionID R' = nd_SessionID R \<and> view_change p e e' \<and> mget (viewPending e') p = None
    \<and> seen p e' = overlay (map fromFileMessage fms) (if i \<in> set str \<or> upd then seen p e else (\<lambda>_. None))"
  using assms
proof (induction chunk mk fms arbitrary: R e str rule: frames.induct)
  case (1 chunk mk fms)
  have rem: "rem \<noteq> []" using "1.prems"(2) by auto
  have f: "m_Type (mk b xs) = MsgIndex" "m_Index (mk b xs) = Some \<lparr>im_Folder = i, im_Files = xs, im_Update = upd, im_IndexID = g,
      im_MaxSeq = mx, im_Final = b\<rparr>" for b xs
    by (simp_all add: "1.prems"(1) index_frame_def bare_def)
  let ?msg = "\<lambda>b xs. \<lparr>im_Folder = i, im_Files = xs, im_Update = upd, im_IndexID = g, im_MaxSeq = mx, im_Final = b\<rparr>"
  have step: "eng (mergeIndex now p (?msg b xs) (Some str) R) = (eng R)(i \<mapsto> merge_frame now p (?msg b xs) (Some (i \<in> set str)) e)" for b xs
    using mergeIndex_eng(1) [of R "?msg b xs" e] "1.prems"(3) by simp
  note mf = merge_frame_seen [OF refl, where st = "Some (i \<in> set str)" and e = e and p = p and now = now]
  show ?case
  proof (cases "length fms \<le> chunk \<or> chunk = 0")
    case True
    let ?R = "mergeIndex now p (?msg True fms) (Some str) R"
    have "recv_loop now p rem str (frames chunk mk fms @ ms) R = recv_loop now p (removeAll i rem) (removeAll i str) ms ?R" for ms
      using True rem "1.prems"(2) f by (simp add: frames.simps [of chunk mk fms] Let_def)
    then show ?thesis using step [where b = True and xs = fms] mf [of "?msg True fms"] mergeIndex_eng(3)
      by (intro exI [of _ ?R] exI [of _ "merge_frame now p (?msg True fms) (Some (i \<in> set str)) e"]) auto
  next
    case False
    let ?R = "mergeIndex now p (?msg False (take chunk fms)) (Some str) R"
    let ?e = "merge_frame now p (?msg False (take chunk fms)) (Some (i \<in> set str)) e"
    have go: "recv_loop now p rem str (frames chunk mk fms @ ms) R
        = recv_loop now p rem (List.insert i str) (frames chunk mk (drop chunk fms) @ ms) ?R" for ms
      using False rem "1.prems"(2) f by (simp add: frames.simps [of chunk mk fms] Let_def)
    have "eng ?R i = Some ?e" using step [where b = False and xs = "take chunk fms"] by simp
    from "1.IH" [OF False "1.prems"(1,2) this, of "List.insert i str"] obtain R' e' where
      r: "\<forall>ms. recv_loop now p rem (List.insert i str) (frames chunk mk (drop chunk fms) @ ms) ?R
          = recv_loop now p (removeAll i rem) (removeAll i (List.insert i str)) ms R'"
        "eng R' = (eng ?R)(i \<mapsto> e')" "nd_SessionID R' = nd_SessionID ?R" "view_change p ?e e'" "mget (viewPending e') p = None"
        "seen p e' = overlay (map fromFileMessage (drop chunk fms)) (if i \<in> set (List.insert i str) \<or> upd then seen p ?e else (\<lambda>_. None))"
      by blast
    have "removeAll i (List.insert i str) = removeAll i str" by (simp add: List.insert_def)
    moreover have "seen p e' = overlay (map fromFileMessage (take chunk fms) @ map fromFileMessage (drop chunk fms))
        (if i \<in> set str \<or> upd then seen p e else (\<lambda>_. None))"
      using r(6) mf(1) [of "?msg False (take chunk fms)"] by (simp add: overlay_append)
    moreover have "map fromFileMessage (take chunk fms) @ map fromFileMessage (drop chunk fms) = map fromFileMessage fms"
      by (simp flip: map_append)
    ultimately show ?thesis using go r step [where b = False and xs = "take chunk fms"] mergeIndex_eng(3) view_change_trans [OF mf(2) r(4)]
      by (intro exI [of _ R'] exI [of _ e']) auto
  qed
qed

section \<open>One folder, sent\<close>

lemma send_folder_out:
  assumes "eng S i = Some e" and "good_ix pR (Ix e)" and "fresh \<noteq> []"
    and "send_folder fresh pR i S c = (S', c', res)"
  obtains ix k mk ch where "eng S' = (eng S)(i \<mapsto> e\<lparr>Ix := ix\<rparr>)" "same_rows (Ix e) ix" "good_ix pR ix"
    "\<And>s. marker pR s ix = marker pR s (Ix e)" "gen (Ix e) \<noteq> [] \<Longrightarrow> gen ix = gen (Ix e)" "gen ix \<noteq> []" "same_conn c c'"
    "\<And>b fs. mk b fs = index_frame i (marker pR (cn_PeerSession c) ix \<noteq> None) (gen ix) (MaxSeq ix) b fs"
    "cn_out c' = cn_out c @ take k (frames ch mk (map toFileMessage (to_send pR (cn_PeerSession c) ix)))"
    "\<And>s. res = Inr s \<Longrightarrow> s = \<lparr>sn_folder = i, sn_indexID = gen ix, sn_maxSeq = MaxSeq ix\<rparr>
        \<and> length (frames ch mk (map toFileMessage (to_send pR (cn_PeerSession c) ix))) \<le> k"
proof -
  obtain f where f: "mget (nd_Folders S) i = Some f" "fo_Engine f = e" using assms(1) by (auto simp: eng_def)
  obtain ix where ix: "IndexID fresh (Ix e) = (ix, Inr (gen ix))" "same_rows (Ix e) ix" "good_ix pR ix"
    "\<forall>s. marker pR s ix = marker pR s (Ix e)" "gen (Ix e) \<noteq> [] \<longrightarrow> gen ix = gen (Ix e)" "gen ix \<noteq> []"
    using IndexID_ok [OF assms(2,3)] by blast
  let ?s = "cn_PeerSession c"
  let ?fms = "map toFileMessage (to_send pR ?s ix)"
  let ?mk = "index_frame i (marker pR ?s ix \<noteq> None) (gen ix) (MaxSeq ix)"
  let ?ch = "if cn_PeerProtocol c \<ge> 1 then indexChunkSize else length ?fms"
  obtain c1 err where s: "(if cn_PeerProtocol c \<ge> 1 then send_chunks indexChunkSize ?mk ?fms c else Send (?mk True ?fms) c) = (c1, err)"
    by fastforce
  have out: "same_conn c c1 \<and> (\<exists>k. cn_out c1 = cn_out c @ take k (frames ?ch ?mk ?fms) \<and> (err = None \<longrightarrow> length (frames ?ch ?mk ?fms) \<le> k))"
  proof (cases "cn_PeerProtocol c \<ge> 1")
    case True
    then show ?thesis using s send_chunks_out [of indexChunkSize ?mk ?fms c c1 err] by simp
  next
    case False
    have "frames (length ?fms) ?mk ?fms = [?mk True ?fms]" by (subst frames.simps) simp
    then show ?thesis using False s send_one_out [of "?mk True ?fms" c c1 err] by simp
  qed
  then obtain k where k: "cn_out c1 = cn_out c @ take k (frames ?ch ?mk ?fms)" "err = None \<longrightarrow> length (frames ?ch ?mk ?fms) \<le> k" by blast
  have "(S', c', res) = ((set_engine i (e\<lparr>Ix := ix\<rparr>) S)\<lparr>nd_SentEntries := nd_SentEntries (set_engine i (e\<lparr>Ix := ix\<rparr>) S) + int (length ?fms)\<rparr>, c1,
      case err of Some e \<Rightarrow> Inl e | None \<Rightarrow> Inr \<lparr>sn_folder = i, sn_indexID = gen ix, sn_maxSeq = MaxSeq ix\<rparr>)"
    unfolding assms(4) [symmetric] by (simp only: send_folder_def f option.case ix(1) prod.case sum.case Let_def index_files_ok [OF ix(3)] s)
  then have r: "eng S' = (eng S)(i \<mapsto> e\<lparr>Ix := ix\<rparr>)" "c' = c1"
    "res = (case err of Some e \<Rightarrow> Inl e | None \<Rightarrow> Inr \<lparr>sn_folder = i, sn_indexID = gen ix, sn_maxSeq = MaxSeq ix\<rparr>)"
    using assms(1) by simp_all
  show ?thesis
    by (rule that [of ix ?mk k ?ch]) (use ix r k out in \<open>auto split: option.splits\<close>)
qed

section \<open>The whole exchange\<close>

text \<open>The sender's folders are sound, and each view of the receiver is a sound basis for what the marker allows.\<close>

definition sound :: "uint64 \<Rightarrow> Node \<Rightarrow> bool" where
  "sound pR S \<longleftrightarrow> (\<forall>i e. eng S i = Some e \<longrightarrow> good_ix pR (Ix e))"

definition basis :: "uint64 \<Rightarrow> uint64 \<Rightarrow> string \<Rightarrow> Node \<Rightarrow> Node \<Rightarrow> bool" where
  "basis pS pR session S R \<longleftrightarrow> (\<forall>i eS eR M. eng S i = Some eS \<and> eng R i = Some eR \<and> marker pR session (Ix eS) = Some M
     \<longrightarrow> upto_seq (Ix eS) M (seen pS eR))"

text \<open>What sending keeps of the sender: rows, counters and markers.\<close>

definition same_sender :: "uint64 \<Rightarrow> Node \<Rightarrow> Node \<Rightarrow> bool" where
  "same_sender pR S S' \<longleftrightarrow> (\<forall>i. case eng S i of None \<Rightarrow> eng S' i = None
     | Some e \<Rightarrow> \<exists>e'. eng S' i = Some e' \<and> same_rows (Ix e) (Ix e') \<and> good_ix pR (Ix e') \<and> (\<forall>s. marker pR s (Ix e') = marker pR s (Ix e)))"

lemma upto_same_rows: "same_rows ix ix' \<Longrightarrow> upto_seq ix' M g = upto_seq ix M g"
  by (simp add: upto_seq_def same_rows_simps) (simp add: same_rows_def)

lemma same_senderD:
  assumes "same_sender pR S S'" and "eng S' i = Some e'"
  obtains e where "eng S i = Some e" "same_rows (Ix e) (Ix e')" "good_ix pR (Ix e')" "\<And>s. marker pR s (Ix e') = marker pR s (Ix e)"
  using assms(1) [unfolded same_sender_def, THEN spec, of i] assms(2) that by (auto split: option.splits)

lemma same_sender_refl: "sound pR S \<Longrightarrow> same_sender pR S S"
  by (auto simp: same_sender_def sound_def same_rows_def split: option.splits)

lemma same_sender_trans:
  assumes "same_sender pR S S1" and "same_sender pR S1 S2"
  shows "same_sender pR S S2"
  unfolding same_sender_def
proof
  fix i
  show "case eng S i of None \<Rightarrow> eng S2 i = None
    | Some e \<Rightarrow> \<exists>e'. eng S2 i = Some e' \<and> same_rows (Ix e) (Ix e') \<and> good_ix pR (Ix e') \<and> (\<forall>s. marker pR s (Ix e') = marker pR s (Ix e))"
    using assms [unfolded same_sender_def, THEN spec, of i] by (auto simp: same_rows_def split: option.splits)
qed

lemma same_sender_sound: "same_sender pR S S' \<Longrightarrow> sound pR S'"
  unfolding sound_def by (blast elim: same_senderD)

lemma same_sender_basis:
  assumes "same_sender pR S S'" and "basis pS pR session S R"
  shows "basis pS pR session S' R"
  unfolding basis_def
proof (intro allI impI, elim conjE)
  fix i eS eR M
  assume a: "eng S' i = Some eS" "eng R i = Some eR" "marker pR session (Ix eS) = Some M"
  obtain e where e: "eng S i = Some e" "same_rows (Ix e) (Ix eS)" "\<And>s. marker pR s (Ix eS) = marker pR s (Ix e)"
    by (rule same_senderD [OF assms(1) a(1)]) blast
  then have "upto_seq (Ix e) M (seen pS eR)" using assms(2) a by (auto simp: basis_def)
  then show "upto_seq (Ix eS) M (seen pS eR)" using upto_same_rows [OF e(2)] by simp
qed

text \<open>The view of a folder shows exactly the sender's index, and counts as complete.\<close>

definition exact :: "uint64 \<Rightarrow> Engine \<Rightarrow> Engine \<Rightarrow> bool" where
  "exact pS eS eR \<longleftrightarrow> (\<forall>n. seen pS eR n = map_option (\<lambda>fi. fi\<lparr>Sequence := 0\<rparr>) (entry (Ix eS) n)) \<and> mget (viewPending eR) pS = None"

lemma send_folder_recv:
  assumes "eng S i = Some e" and "good_ix pR (Ix e)" and "fresh \<noteq> []" and "send_folder fresh pR i S c = (S', c', Inr s)"
    and "\<And>eR M. eng R i = Some eR \<Longrightarrow> marker pR (cn_PeerSession c) (Ix e) = Some M \<Longrightarrow> upto_seq (Ix e) M (seen pS eR)"
    and "eng R i = Some eR" and "i \<in> set rem" and "i \<notin> set str"
  obtains ms ix where "cn_out c' = cn_out c @ ms" "eng S' = (eng S)(i \<mapsto> e\<lparr>Ix := ix\<rparr>)" "same_conn c c'"
    "\<exists>R' eR'. (\<forall>rest. recv_loop now pS rem str (ms @ rest) R = recv_loop now pS (removeAll i rem) str rest R')
       \<and> eng R' = (eng R)(i \<mapsto> eR') \<and> nd_SessionID R' = nd_SessionID R \<and> exact pS (e\<lparr>Ix := ix\<rparr>) eR' \<and> view_change pS eR eR'"
proof -
  obtain ix k mk ch where f: "eng S' = (eng S)(i \<mapsto> e\<lparr>Ix := ix\<rparr>)" "same_rows (Ix e) ix" "good_ix pR ix"
    "\<And>s. marker pR s ix = marker pR s (Ix e)" "same_conn c c'"
    "\<And>b fs. mk b fs = index_frame i (marker pR (cn_PeerSession c) ix \<noteq> None) (gen ix) (MaxSeq ix) b fs"
    "cn_out c' = cn_out c @ take k (frames ch mk (map toFileMessage (to_send pR (cn_PeerSession c) ix)))"
    "length (frames ch mk (map toFileMessage (to_send pR (cn_PeerSession c) ix))) \<le> k"
    by (rule send_folder_out [OF assms(1-4)]) blast
  let ?s = "cn_PeerSession c"
  let ?fms = "map toFileMessage (to_send pR ?s ix)"
  have w: "map fromFileMessage ?fms = map wire (to_send pR ?s ix)" by (simp add: wire_def)
  have wf: "ix_wf ix" using f(3) by (simp add: good_ix_def)
  have up: "upto_seq ix M (seen pS eR)" if "marker pR ?s ix = Some M" for M
    using assms(5) [OF assms(6)] that f(4) upto_same_rows [OF f(2)] by simp
  have "\<exists>R' eR'. (\<forall>rest. recv_loop now pS rem str (frames ch mk ?fms @ rest) R = recv_loop now pS (removeAll i rem) str rest R')
       \<and> eng R' = (eng R)(i \<mapsto> eR') \<and> nd_SessionID R' = nd_SessionID R \<and> exact pS (e\<lparr>Ix := ix\<rparr>) eR' \<and> view_change pS eR eR'"
  proof -
    obtain R' e' where r: "\<forall>rest. recv_loop now pS rem str (frames ch mk ?fms @ rest) R = recv_loop now pS (removeAll i rem) (removeAll i str) rest R'"
      "eng R' = (eng R)(i \<mapsto> e')" "nd_SessionID R' = nd_SessionID R" "view_change pS eR e'" "mget (viewPending e') pS = None"
      "seen pS e' = overlay (map fromFileMessage ?fms) (if i \<in> set str \<or> marker pR ?s ix \<noteq> None then seen pS eR else (\<lambda>_. None))"
      using recv_frames [OF f(6) assms(7,6)] by blast
    have "seen pS e' n = map_option (\<lambda>fi. fi\<lparr>Sequence := 0\<rparr>) (entry ix n)" for n
      using exchange_overlay [OF wf, of pR ?s "seen pS eR" n] up r(6) assms(8) wire_entry [OF wf, of n] unfolding w by (cases "entry ix n") auto
    then show ?thesis using r assms(8) by (intro exI [of _ R'] exI [of _ e']) (simp add: exact_def)
  qed
  then show ?thesis using that [of "frames ch mk ?fms" ix] f by simp
qed

lemma sender_step:
  assumes "sound pR S" and "eng S i = Some e" and "eng S1 = (eng S)(i \<mapsto> e1)" and "same_rows (Ix e) (Ix e1)"
    and "good_ix pR (Ix e1)" and "\<And>s. marker pR s (Ix e1) = marker pR s (Ix e)"
  shows "same_sender pR S S1"
  using assms by (auto simp: same_sender_def sound_def same_rows_def split: option.splits)

lemma send_folder_sender:
  assumes "sound pR S" and "eng S i = Some e" and "fresh \<noteq> []" and "send_folder fresh pR i S c = (S', c', res)"
  shows "same_sender pR S S'" and "same_conn c c'"
proof -
  have g: "good_ix pR (Ix e)" using assms(1,2) by (simp add: sound_def)
  obtain ix where "eng S' = (eng S)(i \<mapsto> e\<lparr>Ix := ix\<rparr>)" "same_rows (Ix e) ix" "good_ix pR ix"
    "\<And>s. marker pR s ix = marker pR s (Ix e)" "same_conn c c'"
    by (rule send_folder_out [OF assms(2) g assms(3,4)]) blast
  then show "same_sender pR S S'" "same_conn c c'" using sender_step [OF assms(1,2)] by simp_all
qed

text \<open>All folders: every view becomes exact, other folders keep theirs.\<close>

lemma exchange_all:
  assumes "sendIndexes fresh pR is S c = (S', c', Inr ss)" and "sound pR S" and "\<forall>i \<in> set is. eng S i \<noteq> None \<and> fresh i \<noteq> []"
    and "distinct is" and "basis pS pR (cn_PeerSession c) S R" and "\<forall>i \<in> set is. eng R i \<noteq> None"
    and "set is \<subseteq> set rem" and "set is \<inter> set str = {}"
  shows "\<exists>ms R'. cn_out c' = cn_out c @ ms \<and> same_sender pR S S'
      \<and> (\<forall>rest. recv_loop now pS rem str (ms @ rest) R = recv_loop now pS (filter (\<lambda>i. i \<notin> set is) rem) str rest R')
      \<and> nd_SessionID R' = nd_SessionID R \<and> (\<forall>i. i \<notin> set is \<longrightarrow> eng R' i = eng R i)
      \<and> (\<forall>i. i \<notin> set is \<longrightarrow> eng S' i = eng S i)
      \<and> (\<forall>i \<in> set is. \<exists>eS eR. eng S' i = Some eS \<and> eng R' i = Some eR \<and> exact pS eS eR)"
  using assms
proof (induction "is" arbitrary: S c ss R rem)
  case Nil
  then show ?case using same_sender_refl by auto
next
  case (Cons i "is")
  obtain S1 c1 s ss1 where s: "send_folder (fresh i) pR i S c = (S1, c1, Inr s)" "sendIndexes fresh pR is S1 c1 = (S', c', Inr ss1)"
    using Cons.prems(1) by (auto split: prod.splits sum.splits)
  obtain e eR where e: "eng S i = Some e" "eng R i = Some eR" "fresh i \<noteq> []" using Cons.prems(3,6) by auto
  have g: "good_ix pR (Ix e)" using Cons.prems(2) e(1) by (simp add: sound_def)
  have up: "upto_seq (Ix e) M (seen pS eR)" if "eng R i = Some eR" "marker pR (cn_PeerSession c) (Ix e) = Some M" for eR M
    using Cons.prems(5) that e(1) by (auto simp: basis_def)
  note sf = send_folder_sender [OF Cons.prems(2) e(1,3) s(1)]
  have rem: "i \<in> set rem" "i \<notin> set str" "i \<notin> set is" using Cons.prems(4,7,8) by auto
  obtain ms1 ix R1 eR1 where m: "cn_out c1 = cn_out c @ ms1" "eng S1 = (eng S)(i \<mapsto> e\<lparr>Ix := ix\<rparr>)"
    and r1: "\<forall>rest. recv_loop now pS rem str (ms1 @ rest) R = recv_loop now pS (removeAll i rem) str rest R1"
       "eng R1 = (eng R)(i \<mapsto> eR1)" "nd_SessionID R1 = nd_SessionID R" "exact pS (e\<lparr>Ix := ix\<rparr>) eR1"
    by (rule send_folder_recv [OF e(1) g e(3) s(1) up e(2) rem(1,2), of now]) blast+
  have ses: "cn_PeerSession c1 = cn_PeerSession c" using sf(2) by (simp add: same_conn_def)
  have b: "basis pS pR (cn_PeerSession c1) S1 R1"
    unfolding basis_def ses
  proof (intro allI impI, elim conjE)
    fix j eS eRj M
    assume a: "eng S1 j = Some eS" "eng R1 j = Some eRj" "marker pR (cn_PeerSession c) (Ix eS) = Some M"
    show "upto_seq (Ix eS) M (seen pS eRj)"
    proof (cases "j = i")
      case True
      have wf: "ix_wf ix" using same_sender_sound [OF sf(1), unfolded sound_def, rule_format, of i "e\<lparr>Ix := ix\<rparr>"] m(2) by (simp add: good_ix_def)
      have "eng S1 i = Some (e\<lparr>Ix := ix\<rparr>)" using m(2) by simp
      then obtain e0 where "eng S i = Some e0" "same_rows (Ix e0) ix" "marker pR (cn_PeerSession c) ix = marker pR (cn_PeerSession c) (Ix e0)"
        by (rule same_senderD [OF sf(1)]) simp
      then have "M < nextSeq ix" using up [OF e(2), of M] a(1,3) m(2) True e(1) by (auto simp: upto_seq_def same_rows_def)
      then show ?thesis using a(1,2) m(2) True r1(2,4) wire_entry [OF wf] by (auto simp: exact_def upto_seq_def)
    next
      case False
      then show ?thesis using a m(2) r1(2) Cons.prems(5) by (auto simp: basis_def)
    qed
  qed
  have "\<forall>j \<in> set is. eng S1 j \<noteq> None \<and> fresh j \<noteq> []" "distinct is" "\<forall>j \<in> set is. eng R1 j \<noteq> None"
    "set is \<subseteq> set (removeAll i rem)" "set is \<inter> set str = {}"
    using Cons.prems m(2) r1(2) by auto
  from Cons.IH [OF s(2) same_sender_sound [OF sf(1)] this(1,2) b this(3-5)] obtain ms2 R' where
    r2: "cn_out c' = cn_out c1 @ ms2" "same_sender pR S1 S'"
      "\<forall>rest. recv_loop now pS (removeAll i rem) str (ms2 @ rest) R1 = recv_loop now pS (filter (\<lambda>i. i \<notin> set is) (removeAll i rem)) str rest R'"
      "nd_SessionID R' = nd_SessionID R1" "\<forall>j. j \<notin> set is \<longrightarrow> eng R' j = eng R1 j" "\<forall>j. j \<notin> set is \<longrightarrow> eng S' j = eng S1 j"
      "\<forall>j \<in> set is. \<exists>eS eR. eng S' j = Some eS \<and> eng R' j = Some eR \<and> exact pS eS eR" by blast
  have fl: "filter (\<lambda>j. j \<notin> set is) (removeAll i rem) = filter (\<lambda>j. j \<notin> set (i # is)) rem"
    by (induction rem) auto
  have "eng S' i = Some (e\<lparr>Ix := ix\<rparr>)" "eng R' i = Some eR1" using r2(5,6) rem(3) m(2) r1(2) by auto
  then have "\<forall>j \<in> set (i # is). \<exists>eS eR. eng S' j = Some eS \<and> eng R' j = Some eR \<and> exact pS eS eR" using r2(7) r1(4) by auto
  then show ?case using r2 r1 m same_sender_trans [OF sf(1) r2(2)] fl
    by (intro exI [of _ "ms1 @ ms2"] exI [of _ R']) auto
qed

section \<open>Frames that break off\<close>

definition frame_from :: "uint64 \<Rightarrow> string \<Rightarrow> Node \<Rightarrow> string \<Rightarrow> Message \<Rightarrow> bool" where
  "frame_from pR session S i m \<longleftrightarrow> (\<exists>e upd g mx fin fms. m = index_frame i upd g mx fin fms \<and> eng S i = Some e
     \<and> (marker pR session (Ix e) \<noteq> None \<longrightarrow> upd) \<and> current (Ix e) (map fromFileMessage fms))"

lemma frame_fromI:
  "m = index_frame i upd g mx fin fms \<Longrightarrow> eng S i = Some e \<Longrightarrow> (marker pR session (Ix e) \<noteq> None \<Longrightarrow> upd) \<Longrightarrow>
     current (Ix e) (map fromFileMessage fms) \<Longrightarrow> frame_from pR session S i m"
  unfolding frame_from_def by blast

lemma frame_from_cong: "eng S' i = eng S i \<Longrightarrow> frame_from pR session S' i m = frame_from pR session S i m"
  by (simp add: frame_from_def)

lemma frames_parts: "m \<in> set (frames ch mk fms) \<Longrightarrow> \<exists>b xs. m = mk b xs \<and> set xs \<subseteq> set fms"
proof (induction ch mk fms rule: frames.induct)
  case (1 ch mk fms)
  show ?case
  proof (cases "length fms \<le> ch \<or> ch = 0")
    case True
    then show ?thesis using "1.prems" by (auto simp: frames.simps [of ch mk fms])
  next
    case False
    then have "m = mk False (take ch fms) \<or> m \<in> set (frames ch mk (drop ch fms))" using "1.prems" by (simp add: frames.simps [of ch mk fms])
    then show ?thesis using "1.IH" [OF False] set_take_subset [of ch fms] set_drop_subset [of ch fms] by blast
  qed
qed

definition snap_of :: "Node \<Rightarrow> indexSnapshot \<Rightarrow> bool" where
  "snap_of S s \<longleftrightarrow> (\<exists>e. eng S (sn_folder s) = Some e \<and> sn_indexID s = gen (Ix e) \<and> gen (Ix e) \<noteq> [] \<and> sn_maxSeq s = MaxSeq (Ix e))"

lemma send_folder_good:
  assumes "sound pR S" and "eng S i = Some e" and "fresh \<noteq> []" and "send_folder fresh pR i S c = (S', c', res)"
  shows "\<exists>ms. cn_out c' = cn_out c @ ms \<and> (\<forall>m \<in> set ms. frame_from pR (cn_PeerSession c) S' i m)
    \<and> (\<forall>j. j \<noteq> i \<longrightarrow> eng S' j = eng S j) \<and> (\<forall>s. res = Inr s \<longrightarrow> snap_of S' s \<and> sn_folder s = i)"
proof -
  have g: "good_ix pR (Ix e)" using assms(1,2) by (simp add: sound_def)
  obtain ix k mk ch where f: "eng S' = (eng S)(i \<mapsto> e\<lparr>Ix := ix\<rparr>)" "good_ix pR ix"
    "\<And>b fs. mk b fs = index_frame i (marker pR (cn_PeerSession c) ix \<noteq> None) (gen ix) (MaxSeq ix) b fs"
    "cn_out c' = cn_out c @ take k (frames ch mk (map toFileMessage (to_send pR (cn_PeerSession c) ix)))"
    "\<And>s. res = Inr s \<Longrightarrow> s = \<lparr>sn_folder = i, sn_indexID = gen ix, sn_maxSeq = MaxSeq ix\<rparr>" "gen ix \<noteq> []"
    by (rule send_folder_out [OF assms(2) g assms(3,4)]) blast
  let ?fms = "map toFileMessage (to_send pR (cn_PeerSession c) ix)"
  have cur: "current ix (map fromFileMessage xs)" if "set xs \<subseteq> set ?fms" for xs
    using to_send_current [of ix pR "cn_PeerSession c"] f(2) that unfolding good_ix_def current_def
    by (fastforce simp: wire_def)
  have "frame_from pR (cn_PeerSession c) S' i m" if m: "m \<in> set (take k (frames ch mk ?fms))" for m
  proof -
    obtain b xs where x: "m = mk b xs" "set xs \<subseteq> set ?fms" using frames_parts [OF in_set_takeD [OF m]] by blast
    show ?thesis by (rule frame_fromI [OF x(1) [unfolded f(3)], of _ "e\<lparr>Ix := ix\<rparr>"]) (use cur [OF x(2)] f(1) in simp_all)
  qed
  moreover have "snap_of S' s \<and> sn_folder s = i" if "res = Inr s" for s using f(5) [OF that] f(1,6) by (simp add: snap_of_def)
  ultimately show ?thesis using f(1,4) by auto
qed

lemma sendIndexes_good:
  assumes "sendIndexes fresh pR is S c = (S', c', res)" and "sound pR S" and "\<forall>i \<in> set is. eng S i \<noteq> None \<and> fresh i \<noteq> []" and "distinct is"
  shows "same_sender pR S S' \<and> (\<forall>j. j \<notin> set is \<longrightarrow> eng S' j = eng S j)
    \<and> (\<exists>ms. cn_out c' = cn_out c @ ms \<and> (\<forall>m \<in> set ms. \<exists>i. frame_from pR (cn_PeerSession c) S' i m))
    \<and> (\<forall>ss. res = Inr ss \<longrightarrow> (\<forall>s \<in> set ss. snap_of S' s \<and> sn_folder s \<in> set is))"
  using assms
proof (induction "is" arbitrary: S c res)
  case Nil
  then show ?case using same_sender_refl by auto
next
  case (Cons i "is")
  obtain S1 c1 r1 where s: "send_folder (fresh i) pR i S c = (S1, c1, r1)" by (cases "send_folder (fresh i) pR i S c") auto
  obtain e where e: "eng S i = Some e" "fresh i \<noteq> []" using Cons.prems(3) by auto
  note sf = send_folder_sender [OF Cons.prems(2) e s]
  obtain ms1 where g: "cn_out c1 = cn_out c @ ms1" "\<forall>m \<in> set ms1. frame_from pR (cn_PeerSession c) S1 i m"
    "\<forall>j. j \<noteq> i \<longrightarrow> eng S1 j = eng S j" "\<forall>s. r1 = Inr s \<longrightarrow> snap_of S1 s \<and> sn_folder s = i"
    using send_folder_good [OF Cons.prems(2) e s] by blast
  show ?case
  proof (cases r1)
    case (Inl er)
    then show ?thesis using Cons.prems(1) s sf g by (auto simp: exI [of _ i])
  next
    case (Inr sn)
    obtain r2 where r: "sendIndexes fresh pR is S1 c1 = (S', c', r2)" "res = (case r2 of Inl e \<Rightarrow> Inl e | Inr ss \<Rightarrow> Inr (sn # ss))"
      using Cons.prems(1) s Inr by (auto split: prod.splits sum.splits)
    have pre: "\<forall>j \<in> set is. eng S1 j \<noteq> None \<and> fresh j \<noteq> []" "distinct is" using Cons.prems(3,4) g(3) by auto
    have ses: "cn_PeerSession c1 = cn_PeerSession c" using sf(2) by (simp add: same_conn_def)
    obtain ms2 where h: "same_sender pR S1 S'" "\<forall>j. j \<notin> set is \<longrightarrow> eng S' j = eng S1 j" "cn_out c' = cn_out c1 @ ms2"
      "\<forall>m \<in> set ms2. \<exists>i. frame_from pR (cn_PeerSession c) S' i m"
      "\<forall>ss. r2 = Inr ss \<longrightarrow> (\<forall>s \<in> set ss. snap_of S' s \<and> sn_folder s \<in> set is)"
      using Cons.IH [OF r(1) same_sender_sound [OF sf(1)] pre] ses by auto
    have i: "eng S' i = eng S1 i" using h(2) Cons.prems(4) by simp
    have "\<forall>m \<in> set ms1. frame_from pR (cn_PeerSession c) S' i m" using g(2) frame_from_cong [OF i] by simp
    moreover have "snap_of S' sn" "sn_folder sn = i" using g(4) Inr i by (auto simp: snap_of_def)
    ultimately show ?thesis using same_sender_trans [OF sf(1) h(1)] h g(1,3) r(2)
      by (auto simp: Ball_def split: sum.splits)
  qed
qed

lemma merge_basis:
  assumes "frame_from pR session S i m" and "m_Index m = Some msg" and "basis pS pR session S R"
  shows "basis pS pR session S (mergeIndex now pS msg st R)"
proof -
  obtain e upd g mx fin fms where f: "m = index_frame i upd g mx fin fms" "eng S i = Some e" "marker pR session (Ix e) \<noteq> None \<longrightarrow> upd"
    "current (Ix e) (map fromFileMessage fms)" using assms(1) unfolding frame_from_def by blast
  then have msg: "im_Folder msg = i" "im_Files msg = fms" "im_Update msg = upd" using assms(2) by (auto simp: index_frame_def)
  show ?thesis
  proof (cases "eng R i")
    case None
    then show ?thesis using mergeIndex_eng(2) [of R msg] msg(1) assms(3) by simp
  next
    case (Some eR)
    let ?e = "merge_frame now pS msg (map_option (\<lambda>ss. im_Folder msg \<in> set ss) st) eR"
    have R: "eng (mergeIndex now pS msg st R) = (eng R)(i \<mapsto> ?e)" using mergeIndex_eng(1) [of R msg eR now pS st] Some msg(1) by simp
    have "upto_seq (Ix e) M (seen pS ?e)" if M: "marker pR session (Ix e) = Some M" for M
    proof -
      have "upto_seq (Ix e) M (seen pS eR)" using assms(3) f(2) Some M by (auto simp: basis_def)
      then show ?thesis using merge_frame_seen(1) [OF refl, of pS now msg _ eR] f(3,4) M msg upto_overlay by simp
    qed
    then show ?thesis using assms(3) f(2) R by (auto simp: basis_def)
  qed
qed

lemma recv_good:
  assumes "\<forall>m \<in> set ms. \<exists>i. frame_from pR session S i m" and "basis pS pR session S R" and "recv_loop now pS rem str ms R = (R', rest, err)"
  shows "basis pS pR session S R' \<and> nd_SessionID R' = nd_SessionID R"
  using assms
proof (induction ms arbitrary: rem str R)
  case (Cons m ms)
  obtain i where i: "frame_from pR session S i m" using Cons.prems(1) by auto
  then obtain msg where m: "m_Type m = MsgIndex" "m_Index m = Some msg" by (auto simp: frame_from_def index_frame_def bare_def)
  have ms: "\<forall>m \<in> set ms. \<exists>i. frame_from pR session S i m" using Cons.prems(1) by simp
  have b: "basis pS pR session S (mergeIndex now pS msg (Some str) R)" by (rule merge_basis [OF i m(2) Cons.prems(2)])
  show ?case
  proof (cases "rem = [] \<or> im_Folder msg \<notin> set rem")
    case True
    then show ?thesis using Cons.IH [OF ms Cons.prems(2)] Cons.prems(2,3) m by (auto split: if_splits)
  next
    case False
    obtain rem' str' where "recv_loop now pS rem' str' ms (mergeIndex now pS msg (Some str) R) = (R', rest, err)"
      using Cons.prems(3) m False by (auto simp: Let_def split: if_splits)
    from Cons.IH [OF ms b this] show ?thesis using mergeIndex_eng(3) by simp
  qed
qed (auto split: if_splits)

section \<open>Runs of a sender and a receiver\<close>

text \<open>
  \<open>pS\<close> is the sender as the receiver knows it, \<open>pR\<close> the receiver as the sender knows it; the last argument are the
  snapshots of a session that has not been recorded yet. A restarted receiver has new engines and a session identifier that
  no marker names; a restarted sender opens its index again, whose highest sequence must still be in the table.
\<close>

inductive pair_run :: "uint64 \<Rightarrow> uint64 \<Rightarrow> Node \<Rightarrow> Node \<Rightarrow> indexSnapshot list \<Rightarrow> bool" for pS pR where
  start: "sound pR S \<Longrightarrow> \<forall>i e. eng S i = Some e \<longrightarrow> mget (meta (Ix e)) (peerIndexKey pR) = None \<Longrightarrow> pair_run pS pR S R []"
| local_write: "pair_run pS pR S R ss \<Longrightarrow> eng S i = Some e \<Longrightarrow> \<forall>fi \<in> set fis. vwf (Version fi) \<and> Sequence fi = 0 \<Longrightarrow>
    IxPutBatch e fis = (e', fis', None) \<Longrightarrow> pair_run pS pR (set_engine i e' S) R ss"
| sender_work: "pair_run pS pR S R ss \<Longrightarrow> eng S i = Some e \<Longrightarrow> Ix e' = Ix e \<Longrightarrow> pair_run pS pR (set_engine i e' S) R ss"
| receiver_work: "pair_run pS pR S R ss \<Longrightarrow> eng R i = Some e \<Longrightarrow> seen pS e' = seen pS e \<Longrightarrow> pair_run pS pR S (set_engine i e' R) ss"
| exchange: "pair_run pS pR S R [] \<Longrightarrow> sendIndexes fresh pR is S c = (S', c', Inr ss) \<Longrightarrow> cn_out c = [] \<Longrightarrow>
    cn_PeerSession c = nd_SessionID R \<Longrightarrow> distinct is \<Longrightarrow> \<forall>i \<in> set is. eng S i \<noteq> None \<and> eng R i \<noteq> None \<and> fresh i \<noteq> [] \<Longrightarrow>
    cn_PeerID d = pS \<Longrightarrow> cn_in d = cn_out c' \<Longrightarrow> recvFullIndexes now is R d = (R', d', None) \<Longrightarrow> pair_run pS pR S' R' ss"
| broken: "pair_run pS pR S R [] \<Longrightarrow> sendIndexes fresh pR is S c = (S', c', res) \<Longrightarrow> cn_out c = [] \<Longrightarrow>
    cn_PeerSession c = nd_SessionID R \<Longrightarrow> distinct is \<Longrightarrow> \<forall>i \<in> set is. eng S i \<noteq> None \<and> fresh i \<noteq> [] \<Longrightarrow>
    cn_PeerID d = pS \<Longrightarrow> cn_in d = take k (cn_out c') \<Longrightarrow> recvFullIndexes now is' R d = (R', d', err) \<Longrightarrow> pair_run pS pR S' R' []"
| update: "pair_run pS pR S R ss \<Longrightarrow> sendIndexUpdate S i name c = (c', None) \<Longrightarrow> cn_out c' = cn_out c @ [m] \<Longrightarrow> m_Index m = Some msg \<Longrightarrow>
    pair_run pS pR S (mergeIndex now pS msg None R) ss"
| recorded: "pair_run pS pR S R ss \<Longrightarrow> recordPeerIndex pR (nd_SessionID R) ss S = (S', None) \<Longrightarrow> pair_run pS pR S' R []"
| receiver_restart: "pair_run pS pR S R ss \<Longrightarrow> \<forall>i e. eng S i = Some e \<longrightarrow> marker pR (nd_SessionID R') (Ix e) = None \<Longrightarrow> pair_run pS pR S R' []"
| sender_restart: "pair_run pS pR S R ss \<Longrightarrow> eng S i = Some e \<Longrightarrow> Ix_init ((Ix e)\<lparr>indexID := []\<rparr>) = (ix, None) \<Longrightarrow>
    MaxSeq ix = MaxSeq (Ix e) \<Longrightarrow> pair_run pS pR (set_engine i (e\<lparr>Ix := ix\<rparr>) S) R []"

text \<open>Snapshots not yet recorded describe what the receiver already shows.\<close>

definition snaps_ok :: "uint64 \<Rightarrow> Node \<Rightarrow> Node \<Rightarrow> indexSnapshot list \<Rightarrow> bool" where
  "snaps_ok pS S R ss \<longleftrightarrow> (\<forall>s \<in> set ss. \<exists>eS. eng S (sn_folder s) = Some eS \<and> gen (Ix eS) = sn_indexID s \<and> gen (Ix eS) \<noteq> []
     \<and> (\<forall>eR. eng R (sn_folder s) = Some eR \<longrightarrow> upto_seq (Ix eS) (sn_maxSeq s) (seen pS eR)))"

definition pair_inv :: "uint64 \<Rightarrow> uint64 \<Rightarrow> Node \<Rightarrow> Node \<Rightarrow> indexSnapshot list \<Rightarrow> bool" where
  "pair_inv pS pR S R ss \<longleftrightarrow> sound pR S \<and> basis pS pR (nd_SessionID R) S R \<and> snaps_ok pS S R ss"

lemma inv_sender_index:
  assumes "pair_inv pS pR S R ss" and "eng S i = Some e" and "good_ix pR (Ix e')" and "meta (Ix e') = meta (Ix e)"
    and "\<And>M g. upto_seq (Ix e) M g \<Longrightarrow> upto_seq (Ix e') M g"
  shows "pair_inv pS pR (set_engine i e' S) R ss"
proof -
  have g: "gen (Ix e') = gen (Ix e)" by (simp add: gen_def assms(4))
  have m: "marker pR s (Ix e') = marker pR s (Ix e)" for s unfolding marker_def gen_def assms(4) by (rule refl)
  have "sound pR (set_engine i e' S)" using assms(1-3) by (auto simp: pair_inv_def sound_def)
  moreover have "basis pS pR (nd_SessionID R) (set_engine i e' S) R"
    using assms(1,2,5) m by (auto simp: pair_inv_def basis_def)
  moreover have "snaps_ok pS (set_engine i e' S) R ss"
    using assms(1,2,5) g by (auto simp: pair_inv_def snaps_ok_def)
  ultimately show ?thesis by (simp add: pair_inv_def)
qed

lemma gen_ok_cong: "meta ix' = meta ix \<Longrightarrow> indexID ix' = indexID ix \<Longrightarrow> gen_ok p ix' = gen_ok p ix"
  by (simp only: gen_ok_def)

lemma foldl_put_meta: "meta (foldl put_ok ix fis) = meta ix \<and> indexID (foldl put_ok ix fis) = indexID ix \<and> healthy (foldl put_ok ix fis) = healthy ix"
  by (induction fis arbitrary: ix) (simp_all add: put_ok_def healthy_def)

lemma inv_write:
  assumes "pair_inv pS pR S R ss" and "eng S i = Some e" and "\<forall>fi \<in> set fis. vwf (Version fi) \<and> Sequence fi = 0"
    and "IxPutBatch e fis = (e', fis', None)"
  shows "pair_inv pS pR (set_engine i e' S) R ss"
proof -
  have g: "good_ix pR (Ix e)" using assms(1,2) by (simp add: pair_inv_def sound_def)
  then have wf: "ix_wf (Ix e)" and h: "healthy (Ix e)" by (simp_all add: good_ix_def)
  let ?ix = "foldl put_ok (Ix e) fis"
  obtain f where "PutBatch (Ix e) fis = (bump_writes ?ix, f, None)"
    using PutBatch_ok [of fis "Ix e"] healthy_simps(2) [OF h] by auto
  then have ix: "Ix e' = bump_writes ?ix" using assms(4) by (auto simp: IxPutBatch_def)
  note puts = entry_puts_fresh [OF wf assms(3)] and same = foldl_put_meta [of "Ix e" fis]
  have idx: "indexID (bump_writes ?ix) = indexID (Ix e)" using same by (simp add: bump_writes_def)
  have "upto_seq (Ix e') M gg" if up: "upto_seq (Ix e) M gg" for M gg
    unfolding upto_seq_def ix
  proof (intro conjI allI impI)
    show "M < nextSeq (bump_writes ?ix)" using up puts by (simp add: upto_seq_def)
    fix n
    note n = conjunct2 [OF conjunct2 [OF puts], rule_format, of n]
    show "gg n = Some (wire fi)" if "entry (bump_writes ?ix) n = Some fi \<and> Sequence fi \<le> M" for fi
      using that up n by (auto simp: upto_seq_def split: if_splits)
    show "entry (bump_writes ?ix) n \<noteq> None" if "gg n \<noteq> None" using that up n by (auto simp: upto_seq_def split: if_splits)
  qed
  moreover have "good_ix pR (Ix e')" using g puts same idx gen_ok_cong [of "bump_writes ?ix" "Ix e"] by (simp add: good_ix_def ix)
  ultimately show ?thesis using inv_sender_index [OF assms(1,2)] same ix by simp
qed

lemma inv_restart:
  assumes "pair_inv pS pR S R ss" and "eng S i = Some e" and "Ix_init ((Ix e)\<lparr>indexID := []\<rparr>) = (ix, None)" and "MaxSeq ix = MaxSeq (Ix e)"
  shows "pair_inv pS pR (set_engine i (e\<lparr>Ix := ix\<rparr>) S) R []"
proof -
  have g: "good_ix pR (Ix e)" using assms(1,2) by (simp add: pair_inv_def sound_def)
  have ix: "files ix = files (Ix e)" "meta ix = meta (Ix e)" "healthy ix = healthy (Ix e)" "indexID ix = []"
    using assms(3) by (auto simp: Ix_init_def migrate_def healthy_def split: if_splits)
  moreover have "nextSeq ix = nextSeq (Ix e)" using assms(4) by (simp add: MaxSeq_def)
  ultimately have r: "same_rows (Ix e) ix" by (simp add: same_rows_def)
  have "good_ix pR ix" using g ix same_rows_simps(3) [OF r] by (auto simp: good_ix_def gen_ok_def split: option.splits)
  then have "pair_inv pS pR (set_engine i (e\<lparr>Ix := ix\<rparr>) S) R ss"
    using inv_sender_index [OF assms(1,2), of "e\<lparr>Ix := ix\<rparr>"] ix(2) upto_same_rows [OF r] by simp
  then show ?thesis by (simp add: pair_inv_def snaps_ok_def)
qed

lemma inv_receiver:
  assumes "pair_inv pS pR S R ss" and "nd_SessionID R' = nd_SessionID R"
    and "\<And>i e'. eng R' i = Some e' \<Longrightarrow> \<exists>e. eng R i = Some e \<and> (\<forall>eS M. eng S i = Some eS \<and> upto_seq (Ix eS) M (seen pS e) \<longrightarrow> upto_seq (Ix eS) M (seen pS e'))"
  shows "pair_inv pS pR S R' ss"
  unfolding pair_inv_def
proof (intro conjI)
  show "sound pR S" using assms(1) by (simp add: pair_inv_def)
  show "basis pS pR (nd_SessionID R') S R'"
    unfolding basis_def
  proof (intro allI impI, elim conjE)
    fix i eS e' M
    assume a: "eng S i = Some eS" "eng R' i = Some e'" "marker pR (nd_SessionID R') (Ix eS) = Some M"
    obtain e where e: "eng R i = Some e" "upto_seq (Ix eS) M (seen pS e) \<longrightarrow> upto_seq (Ix eS) M (seen pS e')"
      using assms(3) [OF a(2)] a(1) by blast
    then show "upto_seq (Ix eS) M (seen pS e')" using assms(1,2) a by (auto simp: pair_inv_def basis_def)
  qed
  show "snaps_ok pS S R' ss"
    unfolding snaps_ok_def
  proof
    fix s assume "s \<in> set ss"
    then obtain eS where eS: "eng S (sn_folder s) = Some eS" "gen (Ix eS) = sn_indexID s" "gen (Ix eS) \<noteq> []"
      "\<forall>eR. eng R (sn_folder s) = Some eR \<longrightarrow> upto_seq (Ix eS) (sn_maxSeq s) (seen pS eR)" using assms(1) by (auto simp: pair_inv_def snaps_ok_def)
    then show "\<exists>eS. eng S (sn_folder s) = Some eS \<and> gen (Ix eS) = sn_indexID s \<and> gen (Ix eS) \<noteq> []
        \<and> (\<forall>eR. eng R' (sn_folder s) = Some eR \<longrightarrow> upto_seq (Ix eS) (sn_maxSeq s) (seen pS eR))"
      using assms(3) by blast
  qed
qed

lemma inv_record_one:
  assumes "pair_inv pS pR S R (s # ss)" and "eng S (sn_folder s) = Some e"
    and "Ix_SetPeerIndex (Ix e) pR (sn_indexID s) (sn_maxSeq s) (nd_SessionID R) = (ix, None)"
  shows "pair_inv pS pR (set_engine (sn_folder s) (e\<lparr>Ix := ix\<rparr>) S) R ss"
proof -
  have g: "good_ix pR (Ix e)" using assms(1,2) by (simp add: pair_inv_def sound_def)
  have s: "gen (Ix e) = sn_indexID s" "gen (Ix e) \<noteq> []"
    "eng R (sn_folder s) = Some eR \<Longrightarrow> upto_seq (Ix e) (sn_maxSeq s) (seen pS eR)" for eR
    using assms(1,2) by (auto simp: pair_inv_def snaps_ok_def)
  let ?st = "\<lparr>pi_IndexID = sn_indexID s, pi_MaxSeq = sn_maxSeq s, pi_SessionID = nd_SessionID R\<rparr>"
  have ix: "ix = (Ix e)\<lparr>meta := mset_at (meta (Ix e)) (peerIndexKey pR) (MPeer ?st)\<rparr>"
    using assms(3) by (auto simp: Ix_SetPeerIndex_def SetMeta_def split: if_splits)
  have r: "same_rows (Ix e) ix" by (simp add: ix same_rows_def healthy_def)
  have gen: "gen ix = gen (Ix e)" by (simp add: ix gen_def)
  have "mget (meta (Ix e)) ''index_id'' \<noteq> None" using s(2) by (cases "mget (meta (Ix e)) ''index_id''") (auto simp: gen_def)
  then have "good_ix pR ix" using g same_rows_simps(3) [OF r] r by (auto simp: good_ix_def gen_ok_def same_rows_def ix)
  then have so: "sound pR (set_engine (sn_folder s) (e\<lparr>Ix := ix\<rparr>) S)" using assms(1,2) by (auto simp: pair_inv_def sound_def)
  have mk: "M = sn_maxSeq s" if "marker pR (nd_SessionID R) ix = Some M" for M
    using that by (auto simp: marker_def ix split: if_splits)
  have "basis pS pR (nd_SessionID R) (set_engine (sn_folder s) (e\<lparr>Ix := ix\<rparr>) S) R"
    using assms(1,2) s(3) mk upto_same_rows [OF r] by (auto simp: pair_inv_def basis_def)
  moreover have "snaps_ok pS (set_engine (sn_folder s) (e\<lparr>Ix := ix\<rparr>) S) R ss"
    using assms(1,2) gen upto_same_rows [OF r] by (auto simp: pair_inv_def snaps_ok_def)
  ultimately show ?thesis using so by (simp add: pair_inv_def)
qed

lemma inv_record:
  "pair_inv pS pR S R ss \<Longrightarrow> recordPeerIndex pR (nd_SessionID R) ss S = (S', None) \<Longrightarrow> pair_inv pS pR S' R []"
proof (induction ss arbitrary: S)
  case (Cons s ss)
  obtain e where e: "eng S (sn_folder s) = Some e" using Cons.prems(1) by (auto simp: pair_inv_def snaps_ok_def)
  then obtain f where f: "mget (nd_Folders S) (sn_folder s) = Some f" "fo_Engine f = e" by (auto simp: eng_def)
  obtain ix where ix: "Ix_SetPeerIndex (Ix e) pR (sn_indexID s) (sn_maxSeq s) (nd_SessionID R) = (ix, None)"
    "recordPeerIndex pR (nd_SessionID R) ss (set_engine (sn_folder s) (e\<lparr>Ix := ix\<rparr>) S) = (S', None)"
    using Cons.prems(2) f by (auto split: prod.splits option.splits)
  show ?case using Cons.IH [OF inv_record_one [OF Cons.prems(1) e ix(1)] ix(2)] .
qed simp

lemma inv_update:
  assumes "pair_inv pS pR S R ss" and "sendIndexUpdate S i name c = (c', None)" and "cn_out c' = cn_out c @ [m]" and "m_Index m = Some msg"
  shows "pair_inv pS pR S (mergeIndex now pS msg None R) ss"
proof -
  obtain f fi where f: "mget (nd_Folders S) i = Some f" "Ix_Get (Ix (fo_Engine f)) name = Inr (Some fi)"
    using assms(2,3) by (auto simp: sendIndexUpdate_def split: option.splits sum.splits)
  then have "msg = \<lparr>im_Folder = i, im_Files = [toFileMessage fi], im_Update = True, im_IndexID = [], im_MaxSeq = 0, im_Final = False\<rparr>"
    using assms(2-4) by (auto simp: sendIndexUpdate_def Send_def split: if_splits)
  then have msg: "im_Folder msg = i" "im_Files msg = [toFileMessage fi]" "im_Update msg" by simp_all
  have e: "eng S i = Some (fo_Engine f)" using f(1) by (simp add: eng_def)
  then have "ix_wf (Ix (fo_Engine f))" using assms(1) by (simp add: pair_inv_def sound_def good_ix_def)
  moreover from this have "entry (Ix (fo_Engine f)) name = Some fi"
    using f(2) Ix_Get_entry [of "Ix (fo_Engine f)" name] by (cases "fault_read (Ix (fo_Engine f)) name") (auto simp: Ix_Get_def)
  ultimately have cur: "current (Ix (fo_Engine f)) (map fromFileMessage (im_Files msg))"
    using entry_wf(1) [of "Ix (fo_Engine f)" name fi] msg(2) by (simp add: current_def toFileMessage_def wire_def)
  show ?thesis
  proof (rule inv_receiver [OF assms(1) mergeIndex_eng(3)])
    fix j e' assume j: "eng (mergeIndex now pS msg None R) j = Some e'"
    show "\<exists>e. eng R j = Some e \<and> (\<forall>eS M. eng S j = Some eS \<and> upto_seq (Ix eS) M (seen pS e) \<longrightarrow> upto_seq (Ix eS) M (seen pS e'))"
    proof (cases "eng R i")
      case None
      then show ?thesis using j mergeIndex_eng(2) [of R msg] msg(1) by auto
    next
      case (Some eR)
      show ?thesis
      proof (cases "j = i")
        case True
        have "e' = merge_frame now pS msg None eR" using j mergeIndex_eng(1) [of R msg eR now pS None] Some msg(1) True by simp
        then have "seen pS e' = overlay (map fromFileMessage (im_Files msg)) (seen pS eR)"
          using merge_frame_seen(1) [of e' now pS msg None eR] msg(3) by simp
        then show ?thesis using Some True e upto_overlay [OF _ cur] by auto
      next
        case False
        then show ?thesis using j mergeIndex_eng(1) [of R msg eR now pS None] Some msg(1) by auto
      qed
    qed
  qed
qed

lemma inv_broken:
  assumes "pair_inv pS pR S R []" and "sendIndexes fresh pR is S c = (S', c', res)" and "cn_out c = []" and "cn_PeerSession c = nd_SessionID R"
    and "distinct is" and "\<forall>i \<in> set is. eng S i \<noteq> None \<and> fresh i \<noteq> []" and "cn_PeerID d = pS" and "cn_in d = take k (cn_out c')"
    and "recvFullIndexes now is' R d = (R', d', err)"
  shows "pair_inv pS pR S' R' []"
proof -
  have so: "sound pR S" and ba: "basis pS pR (nd_SessionID R) S R" using assms(1) by (simp_all add: pair_inv_def)
  note g = sendIndexes_good [OF assms(2) so assms(6,5)]
  then have ms: "\<forall>m \<in> set (take k (cn_out c')). \<exists>i. frame_from pR (nd_SessionID R) S' i m" using assms(3,4) by (auto dest: in_set_takeD)
  have "basis pS pR (nd_SessionID R) S' R" using same_sender_basis [OF _ ba] g by blast
  moreover obtain rest where "recv_loop now pS (remdups is') [] (take k (cn_out c')) R = (R', rest, err)"
    using assms(7-9) by (auto simp: recvFullIndexes_def Let_def split: prod.splits)
  ultimately have "basis pS pR (nd_SessionID R) S' R' \<and> nd_SessionID R' = nd_SessionID R" using recv_good [OF ms] by blast
  then show ?thesis using same_sender_sound g by (auto simp: pair_inv_def snaps_ok_def)
qed

lemma exchange_exact:
  assumes "pair_inv pS pR S R []" and "sendIndexes fresh pR is S c = (S', c', Inr ss)" and "cn_out c = []" and "cn_PeerSession c = nd_SessionID R"
    and "distinct is" and "\<forall>i \<in> set is. eng S i \<noteq> None \<and> eng R i \<noteq> None \<and> fresh i \<noteq> []" and "cn_PeerID d = pS" and "cn_in d = cn_out c'"
    and "recvFullIndexes now is R d = (R', d', err)"
  shows "err = None" and "same_sender pR S S'" and "i \<in> set is \<Longrightarrow> \<exists>eS eR. eng S' i = Some eS \<and> eng R' i = Some eR \<and> exact pS eS eR"
proof -
  have so: "sound pR S" and ba: "basis pS pR (cn_PeerSession c) S R" using assms(1,4) by (simp_all add: pair_inv_def)
  have a: "\<forall>i \<in> set is. eng S i \<noteq> None \<and> fresh i \<noteq> []" "\<forall>i \<in> set is. eng R i \<noteq> None" using assms(6) by auto
  obtain ms R1 where m: "cn_out c' = ms" "same_sender pR S S'"
    "\<forall>rest. recv_loop now pS is [] (ms @ rest) R = recv_loop now pS (filter (\<lambda>i. i \<notin> set is) is) [] rest R1"
    "\<forall>i \<in> set is. \<exists>eS eR. eng S' i = Some eS \<and> eng R1 i = Some eR \<and> exact pS eS eR"
    using exchange_all [OF assms(2) so a(1) assms(5) ba a(2), of "is" "[]" now] assms(3) by auto
  have "recv_loop now pS is [] ms R = (R1, [], None)" using m(3) [rule_format, of "[]"] by (simp add: filter_False)
  then have "R' = R1" "err = None" using assms(5,7-9) m(1) by (auto simp: recvFullIndexes_def distinct_remdups_id)
  then show "err = None" "same_sender pR S S'" "i \<in> set is \<Longrightarrow> \<exists>eS eR. eng S' i = Some eS \<and> eng R' i = Some eR \<and> exact pS eS eR"
    using m by simp_all
qed

lemma exact_upto:
  assumes "exact pS eS eR" and "ix_wf (Ix eS)" and "M < nextSeq (Ix eS)"
  shows "upto_seq (Ix eS) M (seen pS eR)"
  using assms wire_entry [OF assms(2)] by (auto simp: exact_def upto_seq_def)

lemma inv_exchange:
  assumes "pair_inv pS pR S R []" and "sendIndexes fresh pR is S c = (S', c', Inr ss)" and "cn_out c = []" and "cn_PeerSession c = nd_SessionID R"
    and "distinct is" and "\<forall>i \<in> set is. eng S i \<noteq> None \<and> eng R i \<noteq> None \<and> fresh i \<noteq> []" and "cn_PeerID d = pS" and "cn_in d = cn_out c'"
    and "recvFullIndexes now is R d = (R', d', None)"
  shows "pair_inv pS pR S' R' ss"
proof -
  have b: "pair_inv pS pR S' R' []"
    using inv_broken [OF assms(1-5) _ assms(7) _ assms(9), of "length (cn_out c')"] assms(6,8) by simp
  have so: "sound pR S" using assms(1) by (simp add: pair_inv_def)
  have "snaps_ok pS S' R' ss"
    unfolding snaps_ok_def
  proof
    fix s assume s: "s \<in> set ss"
    have "\<forall>i \<in> set is. eng S i \<noteq> None \<and> fresh i \<noteq> []" using assms(6) by auto
    from sendIndexes_good [OF assms(2) so this assms(5)] s have sn: "snap_of S' s" "sn_folder s \<in> set is" by auto
    obtain eS eR where e: "eng S' (sn_folder s) = Some eS" "eng R' (sn_folder s) = Some eR" "exact pS eS eR"
      using exchange_exact(3) [OF assms sn(2)] by blast
    have "ix_wf (Ix eS)" using b e(1) by (simp add: pair_inv_def sound_def good_ix_def)
    then show "\<exists>eS. eng S' (sn_folder s) = Some eS \<and> gen (Ix eS) = sn_indexID s \<and> gen (Ix eS) \<noteq> []
        \<and> (\<forall>eR. eng R' (sn_folder s) = Some eR \<longrightarrow> upto_seq (Ix eS) (sn_maxSeq s) (seen pS eR))"
      using sn(1) e exact_upto [OF e(3)] by (auto simp: snap_of_def MaxSeq_def)
  qed
  then show ?thesis using b by (simp add: pair_inv_def)
qed

lemma pair_run_inv: "pair_run pS pR S R ss \<Longrightarrow> pair_inv pS pR S R ss"
proof (induction rule: pair_run.induct)
  case (start S R)
  then have "basis pS pR (nd_SessionID R) S R" by (auto simp: basis_def marker_def)
  then show ?case using start(1) by (simp add: pair_inv_def snaps_ok_def)
next
  case (local_write S R ss i e fis e' fis')
  show ?case by (rule inv_write [OF local_write(5,2-4)])
next
  case (sender_work S R ss i e e')
  then show ?case using inv_sender_index [OF sender_work(4,2), of e'] by (auto simp: pair_inv_def sound_def)
next
  case (receiver_work S R ss i e e')
  then show ?case by (intro inv_receiver [OF receiver_work(4)]) (auto split: if_splits)
next
  case (exchange S R fresh "is" c S' c' ss d now R' d')
  show ?case by (rule inv_exchange [OF exchange.IH exchange.hyps(2-9)])
next
  case (broken S R fresh "is" c S' c' res d k now is' R' d' err)
  show ?case by (rule inv_broken [OF broken.IH broken.hyps(2-9)])
next
  case (update S R ss i name c c' m msg now)
  show ?case by (rule inv_update [OF update.IH update.hyps(2-4)])
next
  case (recorded S R ss S')
  show ?case by (rule inv_record [OF recorded.IH recorded.hyps(2)])
next
  case (receiver_restart S R ss R')
  then show ?case by (auto simp: pair_inv_def basis_def snaps_ok_def)
next
  case (sender_restart S R ss i e ix)
  show ?case by (rule inv_restart [OF sender_restart.IH sender_restart.hyps(2-4)])
qed


text \<open>A sender with one file and a receiver that has the folder.\<close>

definition docs_node :: "uint64 \<Rightarrow> string \<Rightarrow> Index \<Rightarrow> Node" where
  "docs_node i session ix = \<lparr>nd_ID = i, nd_Name = ''node'', nd_SessionID = session,
     nd_Folders = [(''docs'', \<lparr>fo_Cfg = \<lparr>fc_Peers = [], fc_MaxDeletePct = 0, fc_MaxDeleteFiles = 0\<rparr>, fo_Root = ''/r'', fo_Paused = False,
        fo_TransfersPaused = False, fo_Engine = fresh_engine\<lparr>Ix := ix\<rparr>\<rparr>)], nd_SentEntries = 0\<rparr>"

definition open_conn :: "uint64 \<Rightarrow> string \<Rightarrow> Message list \<Rightarrow> Conn" where
  "open_conn p session ms = \<lparr>cn_PeerID = p, cn_PeerName = ''peer'', cn_PeerSession = session, cn_PeerProtocol = 2, cn_in = ms,
     cn_out = [], cn_left = 10\<rparr>"

lemma eng_docs [simp]: "eng (docs_node i session ix) = [''docs'' \<mapsto> fresh_engine\<lparr>Ix := ix\<rparr>]" "nd_SessionID (docs_node i session ix) = session"
  by (simp_all add: docs_node_def eng_def fun_eq_iff)

lemma open_conn_simps [simp]: "cn_PeerID (open_conn p session ms) = p" "cn_PeerSession (open_conn p session ms) = session"
  "cn_out (open_conn p session ms) = []" "cn_in (open_conn p session ms) = ms" "cn_PeerProtocol (open_conn p session ms) = 2"
  by (simp_all add: open_conn_def)

definition one_file :: Index where
  "one_file = put_ok empty_index (sample ''a'')"

lemma one_file_simps: "ix_wf one_file" "healthy one_file" "meta one_file = []" "indexID one_file = []" "length (entries one_file) = 1"
  "entry one_file ''a'' = Some ((sample ''a'')\<lparr>Sequence := 1\<rparr>)"
proof -
  show "ix_wf one_file" "healthy one_file" "entry one_file ''a'' = Some ((sample ''a'')\<lparr>Sequence := 1\<rparr>)" by (simp_all add: one_file_def)
  show "meta one_file = []" "indexID one_file = []" "length (entries one_file) = 1"
    by (simp_all add: one_file_def put_ok_def empty_index_def entries_def)
qed

lemma one_file_good: "good_ix p one_file"
  by (simp add: good_ix_def gen_ok_def one_file_simps)

lemma send_chunks_small: "length fms \<le> indexChunkSize \<Longrightarrow> send_chunks indexChunkSize mk fms c = Send (mk True fms) c"
  by (simp add: send_chunks.simps)


section \<open>Where the delta goes wrong\<close>

text \<open>Opening the index computes the next sequence from the rows that are left. When the newest row was a tombstone that has
been pruned, sequences are handed out again: the next local change is at or below the marker, and the delta leaves it out
although the peer was never sent it.\<close>

definition pruned_index :: Index where
  "pruned_index = empty_index\<lparr>files := [(''a'', row_of ((sample ''a'')\<lparr>Sequence := 1\<rparr>)), (''b'', row_of ((sample ''b'')\<lparr>Sequence := 2, Deleted := True\<rparr>))],
     nextSeq := 3, indexID := ''g'', meta := [(''index_id'', MText ''g''),
       (peerIndexKey 2, MPeer \<lparr>pi_IndexID = ''g'', pi_MaxSeq = 2, pi_SessionID = ''r1''\<rparr>)]\<rparr>"

theorem delta_misses_change_after_restart:
  "\<exists>ix1 ix2 ix3 fi. PruneTombstones pruned_index 2 = (ix1, Inr 1) \<and> Ix_init (ix1\<lparr>indexID := []\<rparr>) = (ix2, None)
     \<and> Put ix2 (sample ''c'') = (ix3, fi, None) \<and> entry ix3 ''c'' \<noteq> None \<and> index_files ix3 ''g'' 2 ''r1'' = Inr (True, [])"
  by (simp add: PruneTombstones_def pruned_index_def empty_index_def row_of_def boolInt_def sample_def zero_info_def Ix_init_def
    migrate_def schemaVersion_def max_sequence_def Put_def with_sequence_def allocSequence_def bump_writes_def entry_def
    index_files_def GetPeerIndex_def GetMeta_def sessionValid_def Ix_ListAfter_def select_rows_def)

text \<open>A folder that is removed and added again within one process has a new engine but the old session identifier, so the
marker still holds and the sender sends a delta: the new view stays empty and yet counts as complete.\<close>

theorem readded_folder_view_stays_empty:
  "\<exists>S' c' ss R' d' eR. sendIndexes (\<lambda>_. ''g'') 2 [''docs''] (docs_node 1 ''s1'' pruned_index) (open_conn 2 ''r1'' []) = (S', c', Inr ss)
     \<and> recvFullIndexes 5 [''docs''] (docs_node 2 ''r1'' empty_index) (open_conn 1 ''s1'' (cn_out c')) = (R', d', None)
     \<and> eng R' ''docs'' = Some eR \<and> \<not> view_is_pending eR 1 \<and> (\<forall>n. seen 1 eR n = None) \<and> entry pruned_index ''a'' \<noteq> None"
proof -
  let ?S = "docs_node 1 ''s1'' pruned_index" and ?R = "docs_node 2 ''r1'' empty_index" and ?c = "open_conn 2 ''r1'' []"
  let ?m = "index_frame ''docs'' True ''g'' 2 True []"
  have "index_files pruned_index ''g'' 2 ''r1'' = Inr (True, [])" "IndexID ''g'' pruned_index = (pruned_index, Inr ''g'')" "MaxSeq pruned_index = 2"
    by (simp_all add: pruned_index_def empty_index_def row_of_def sample_def zero_info_def index_files_def GetPeerIndex_def GetMeta_def
      sessionValid_def Ix_ListAfter_def select_rows_def IndexID_def MaxSeq_def)
  then have "\<exists>S' c' s. send_folder ''g'' 2 ''docs'' ?S ?c = (S', c', Inr s) \<and> cn_out c' = [?m]"
    by (simp add: send_folder_def docs_node_def send_chunks_small Let_def) (simp add: Send_def open_conn_def)
  then obtain S' c' ss where send: "sendIndexes (\<lambda>_. ''g'') 2 [''docs''] ?S ?c = (S', c', Inr ss)" "cn_out c' = [?m]" by auto
  have fr: "[?m] = frames 5 (index_frame ''docs'' True ''g'' 2) []" by (subst frames.simps) simp
  obtain R' e' where r: "recv_loop 5 1 [''docs''] [] [?m] ?R = recv_loop 5 1 [] [] [] R'" "eng R' = (eng ?R)(''docs'' \<mapsto> e')"
    "mget (viewPending e') 1 = None" "seen 1 e' = seen 1 (fresh_engine\<lparr>Ix := empty_index\<rparr>)"
    using recv_frames [of "index_frame ''docs'' True ''g'' 2" "''docs''" True "''g''" 2 "[''docs'']" ?R "fresh_engine\<lparr>Ix := empty_index\<rparr>" 5 1 "[]" 5 "[]"]
    by (auto simp del: recv_loop.simps simp flip: fr dest!: spec [of _ "[]"])
  have "seen 1 (fresh_engine\<lparr>Ix := empty_index\<rparr>) n = None" for n by (simp add: seen_def fresh_engine_def New_Engine_def)
  moreover have "recvFullIndexes 5 [''docs''] ?R (open_conn 1 ''s1'' (cn_out c')) = (R', (open_conn 1 ''s1'' (cn_out c'))\<lparr>cn_in := []\<rparr>, None)"
    using r(1) send(2) by (simp add: recvFullIndexes_def)
  moreover have "entry pruned_index ''a'' \<noteq> None" by (simp add: entry_def pruned_index_def)
  ultimately show ?thesis using send(1) r by (fastforce simp: view_is_pending_def)
qed

end
