(* ===== verification/Spec2Isabelle.thy ===== *)
theory Spec2Isabelle
  imports Node_Scan Node_Events Serve Rescan Scan_Cases Watch_Queue Conn_Manager Exchange_Exact
begin

text \<open>
  CrossSync keeps folders of files in step between devices. Every device runs one daemon; a folder has an index of its files
  with version vectors, a scanner that finds local changes, and an engine that decides from the own index and from the
  peers' indexes which files to fetch, delete, rename or keep as a conflict copy. A session between two devices exchanges the
  indexes, then each side in turn asks the other for blocks of files. This development models that core as functions and step
  relations on explicit states and proves what makes it correct.

  \<^bold>\<open>Data and rules.\<close>
  \<^item> \<open>Go_Prelude\<close>, \<open>Go_Strconv\<close>, \<open>Go_FS\<close>: the machine types, maps, strings and number texts of Go, and the folder's tree as the
    \<^verbatim>\<open>os\<close> package shows it, with the calls that can fail. Integers that can leave their range go through \<open>int64\<close>; device ids and
    counters are 64-bit words.
  \<^item> \<open>Version\<close> (\<^verbatim>\<open>internal/version\<close>): version vectors. The locale \<open>causal_order\<close> states what a comparison of counters must satisfy and
    is interpreted on the code's vectors; merging and bumping follow from it, and the JSON form can be read back.
  \<^item> \<open>Ignore_Rules\<close> (\<^verbatim>\<open>internal/ignore\<close>), \<open>Sha256\<close> and \<open>Block_Hash\<close> (\<^verbatim>\<open>internal/hash\<close>): rules and block hashes; the streaming hasher
    is equal to hashing the blocks of the whole content.
  \<^item> \<open>Index_Store\<close> (\<^verbatim>\<open>internal/index\<close>): the SQLite tables as maps, every statement can fail. The locale \<open>file_table\<close> gives the laws of
    writing and reading rows; batches, deltas and pruning rest on its interpretation.

  \<^bold>\<open>The engine\<close> (\<^verbatim>\<open>internal/sync\<close>).
  \<^item> \<open>Engine_Content\<close>, \<open>Engine_State\<close>: when two entries have the same content, which of two concurrent versions wins, conflict names,
    and the state with the peers' views.
  \<^item> \<open>Pending\<close>: the global winner of a name and the lists of pulls and uploads. They are kept incrementally; the locale
    \<open>incremental_list\<close>, interpreted for pulls and for uploads, shows that a list with a set of dirty names equals the full walk.
  \<^item> \<open>Local_Changes\<close>, \<open>Join_Identical\<close>: what a scan found goes into the index, alone or in a batch; out-of-gate renames; merging
    the vectors of equal copies.
  \<^item> \<open>Versions_Area\<close>, \<open>Staging\<close>, \<open>Hold_Area\<close>, \<open>FS_Frames\<close>: archived versions, temporary files, held deletions (\<^verbatim>\<open>versioning.go\<close>,
    \<^verbatim>\<open>internal/staging\<close>, \<^verbatim>\<open>internal/hold\<close>), and what they leave alone on disk.
  \<^item> \<open>Remote_Apply\<close>: conflict copies, deletions with their recursion through directories, planned moves. The recursion runs on fuel
    \<open>del_fuel\<close>, larger than the longest name any index knows; \<open>deletion_terminates\<close> shows that it never runs out.
  \<^item> \<open>Pull\<close>, \<open>Pull_Integrity\<close>: one download, from \<^verbatim>\<open>StartPull\<close> to \<^verbatim>\<open>Finish\<close>, and the invariant that a block marked as
    written has the recorded hash.

  \<^bold>\<open>The scanner\<close> (\<^verbatim>\<open>internal/scanner\<close>): \<open>Scan\<close> holds the walk, the stability gate, renames, hashing and the deletion gate;
  \<open>Scan_Safety\<close> its invariants over runs of passes; \<open>Scan_Cases\<close> passes over small trees and the passes that go wrong.
  \<open>Node_Scan\<close> (\<^verbatim>\<open>node.go\<close>) is the pass as the node runs it: the scanner, then the engine, the events and the releases. It shows that a
  file on disk keeps its row through a whole pass and that an abandoned pass applies nothing.

  \<^bold>\<open>Sessions\<close> (\<^verbatim>\<open>internal/protocol\<close>, \<^verbatim>\<open>internal/node\<close>).
  \<^item> \<open>Protocol\<close>: messages and frames. The JSON text of a message is made and read by two parameters, a left inverse of each other.
  \<^item> \<open>Exchange\<close>, \<open>Exchange_Exact\<close>: handshake, cluster configuration, full and delta indexes in chunks; in every run of writes, broken
    and completed exchanges and restarts the receiver's view is the sender's index.
  \<^item> \<open>Pull_Batch\<close> (\<^verbatim>\<open>pull_batch.go\<close>): concurrent pulls over one connection, with the attribution of answers and the byte budget.
  \<^item> \<open>Serve\<close> (\<^verbatim>\<open>serve_cache.go\<close>, \<^verbatim>\<open>serveBlock\<close>, \<^verbatim>\<open>serveUntil\<close>): the other side. The locale \<open>transparent_cache\<close> states when a cached read
    cannot be told from a plain one. \<open>served_run_accepted\<close> joins both sides: a planned run is answered with data the puller accepts.

  \<^bold>\<open>Events\<close>: \<open>Event_Store\<close> (\<^verbatim>\<open>internal/events\<close>) is the table of events and every statement on it, each of which can fail;
  \<open>Node_Events\<close> (\<^verbatim>\<open>node.go\<close>, \<^verbatim>\<open>events_bus.go\<close>, the end of \<^verbatim>\<open>session.go\<close>) is what a node reports there, with its throttles and alerts,
  and the list of unsynced files two peers show each other. What the badge shows is proved to be what is wrong.

  \<^bold>\<open>The daemon\<close>: \<open>Rescan\<close> (rescan requests and pauses of \<^verbatim>\<open>node.go\<close>), \<open>Watch_Queue\<close> (\<^verbatim>\<open>pathqueue.go\<close>, \<^verbatim>\<open>synckick.go\<close>) and
  \<open>Conn_Manager\<close> (\<^verbatim>\<open>connmgr.go\<close>): goroutines are program counters, every critical section is a step, and the theorems speak of
  all interleavings. Four worker steps empty the path queue and seven complete a kicked round; these bounds are part of the statements.

  \<^bold>\<open>Not modelled.\<close> The round over all folders of a session (\<^verbatim>\<open>pullAll\<close>) with its held deletions, and adding, updating and
  removing folders; their parts are the operations above. The control plane (\<^verbatim>\<open>internal/control\<close>, \<^verbatim>\<open>internal/ui\<close>, \<^verbatim>\<open>internal/mcp\<close>), command line, certificates, alert mail, the
  TLS transport and the file system watcher are input and output around this core. Log lines, deadlines and keepalives are left out;
  where a deadline decides the fate of a run, the text at the theorem says so. Symbolic links inside the folder's tree and file
  ownership are not part of the tree model.
\<close>

end
